(* ===== verification/Prelude.thy ===== *)
theory Prelude
  imports Main "HOL-Library.Word" "HOL-Library.Monad_Syntax" "HOL-Library.AList" "HOL-Library.Code_Target_Nat"
begin

text \<open>
  What every component shares: machine integer widths, the result type of fallible
  operations, checked array access, \<open>usize\<close> arithmetic as the release profile compiles it,
  and the generic list lemmas the component proofs use.

  Conventions:
  \<^item> A Rust \<open>Result\<close>-returning operation on \<open>&mut\<close> state is a function into
  \<open>('e, 's, 'a) res\<close>: \<open>Ok\<close> and \<open>Err\<close> both carry the state the code leaves behind, since a
  mutation made before an early return persists; \<open>Panic\<close> is a panic (an index out of range, a
  division by zero, a failed \<open>expect\<close>), after which nothing is claimed about the state.
  \<^item> An operation that cannot fail but may panic returns an \<open>option\<close>, \<open>None\<close> being the panic.
  \<^item> \<open>usize\<close> quantities bounded by the pool are \<open>nat\<close>; where a caller's value can overflow,
  the wrap-around is written out by \<open>usize_add\<close>, \<open>usize_sub\<close> and \<open>usize_mul\<close>.
\<close>

type_synonym u16 = "16 word"
type_synonym u32 = "32 word"
type_synonym u64 = "64 word"

named_theorems res_simps \<open>how results flow through the question-mark operator\<close>
named_theorems inv_intros \<open>invariant preservation of the operations\<close>

section \<open>Results\<close>

datatype ('e, 's, 'a) res = Ok 'a 's | Err 'e 's | Panic

text \<open>The \<open>?\<close> operator: an error returns early with the state reached so far.\<close>

fun bind_res :: "('e, 's, 'a) res \<Rightarrow> ('a \<Rightarrow> 's \<Rightarrow> ('e, 's, 'b) res) \<Rightarrow> ('e, 's, 'b) res" where
  "bind_res (Ok x s) f = f x s"
| "bind_res (Err e s) f = Err e s"
| "bind_res Panic f = Panic"

text \<open>An operation on a part of the state, seen as one on the whole.\<close>

fun map_state :: "('s \<Rightarrow> 't) \<Rightarrow> ('e, 's, 'a) res \<Rightarrow> ('e, 't, 'a) res" where
  "map_state g (Ok x s) = Ok x (g s)"
| "map_state g (Err e s) = Err e (g s)"
| "map_state g Panic = Panic"

text \<open>A call that also updates a local variable of the caller: its new value joins the result.\<close>

fun pull_local :: "('e, 'l \<times> 's, 'a) res \<Rightarrow> ('e, 's, 'a \<times> 'l) res" where
  "pull_local (Ok x (l, s)) = Ok (x, l) s"
| "pull_local (Err e (l, s)) = Err e s"
| "pull_local Panic = Panic"

text \<open>A read-only fallible call in the middle of an operation on state \<open>s\<close>.\<close>

fun read_res :: "('e, unit, 'a) res \<Rightarrow> 's \<Rightarrow> ('a \<Rightarrow> ('e, 's, 'b) res) \<Rightarrow> ('e, 's, 'b) res" where
  "read_res (Ok x u) s f = f x"
| "read_res (Err e u) s f = Err e s"
| "read_res Panic s f = Panic"

text \<open>A call that may only panic, in the middle of a fallible operation.\<close>

fun unwrap_res :: "'a option \<Rightarrow> ('a \<Rightarrow> ('e, 's, 'b) res) \<Rightarrow> ('e, 's, 'b) res" where
  "unwrap_res None f = Panic"
| "unwrap_res (Some x) f = f x"

text \<open>\<open>for x in xs { f(x)?; }\<close>\<close>

fun for_each :: "('b \<Rightarrow> 's \<Rightarrow> ('e, 's, 'a) res) \<Rightarrow> 'b list \<Rightarrow> 's \<Rightarrow> ('e, 's, unit) res" where
  "for_each f [] s = Ok () s"
| "for_each f (x # xs) s = bind_res (f x s) (\<lambda>_ s'. for_each f xs s')"

fun is_ok :: "('e, 's, 'a) res \<Rightarrow> bool" where
  "is_ok (Ok x s) = True"
| "is_ok _ = False"

fun res_state :: "('e, 's, 'a) res \<Rightarrow> 's option" where
  "res_state (Ok x s) = Some s"
| "res_state (Err e s) = Some s"
| "res_state Panic = None"

lemma bind_res_Ok_iff [res_simps]:
  "bind_res m f = Ok y t \<longleftrightarrow> (\<exists>x s. m = Ok x s \<and> f x s = Ok y t)"
  by (cases m) auto

lemma map_state_Ok_iff [res_simps]:
  "map_state g m = Ok y t \<longleftrightarrow> (\<exists>s. m = Ok y s \<and> t = g s)"
  by (cases m) auto

lemma map_state_Err_iff [res_simps]:
  "map_state g m = Err e t \<longleftrightarrow> (\<exists>s. m = Err e s \<and> t = g s)"
  by (cases m) auto

lemma read_res_Ok_iff [res_simps]:
  "read_res m s f = Ok y t \<longleftrightarrow> (\<exists>x. m = Ok x () \<and> f x = Ok y t)"
  by (cases m) auto

lemma read_res_Err_iff [res_simps]:
  "read_res m s f = Err e t \<longleftrightarrow> (\<exists>x. m = Ok x () \<and> f x = Err e t) \<or> (m = Err e () \<and> t = s)"
  by (cases m) auto

lemma unwrap_res_Ok_iff [res_simps]:
  "unwrap_res m f = Ok y t \<longleftrightarrow> (\<exists>x. m = Some x \<and> f x = Ok y t)"
  by (cases m) auto

lemma for_each_append:
  "for_each f (xs @ ys) s = bind_res (for_each f xs s) (\<lambda>_ s'. for_each f ys s')"
proof (induction xs arbitrary: s)
  case Nil
  then show ?case by simp
next
  case (Cons x xs)
  then show ?case by (cases "f x s") simp_all
qed

section \<open>Lists\<close>

text \<open>\<open>Iterator::position\<close> and \<open>Vec::remove\<close>.\<close>

fun position_of :: "('a \<Rightarrow> bool) \<Rightarrow> 'a list \<Rightarrow> nat option" where
  "position_of P [] = None"
| "position_of P (x # xs) = (if P x then Some 0 else map_option Suc (position_of P xs))"

definition remove_at :: "nat \<Rightarrow> 'a list \<Rightarrow> 'a list" where
  "remove_at i xs = take i xs @ drop (Suc i) xs"

lemma position_of_None_iff: "position_of P xs = None \<longleftrightarrow> (\<forall>x \<in> set xs. \<not> P x)"
  by (induction xs) auto

lemma position_of_append:
  "(\<forall>x \<in> set xs. \<not> P x) \<Longrightarrow> P y \<Longrightarrow> position_of P (xs @ y # ys) = Some (length xs)"
  by (induction xs) auto

lemma position_of_Some:
  "position_of P xs = Some i \<Longrightarrow> i < length xs \<and> P (xs ! i) \<and> (\<forall>j < i. \<not> P (xs ! j))"
proof (induction xs arbitrary: i)
  case (Cons x xs)
  then show ?case by (auto split: if_splits simp: nth_Cons split: nat.splits)
qed simp

lemma distinct_map_before:
  "distinct (map f (xs @ y # ys)) \<Longrightarrow> x \<in> set xs \<Longrightarrow> f x \<noteq> f y"
  by (metis (no_types) disjoint_iff distinct_append image_eqI list.set_intros(1) list.set_map map_append)

lemma remove_at_append [simp]: "remove_at (length xs) (xs @ y # ys) = xs @ ys"
  by (simp add: remove_at_def)

section \<open>Checked array access\<close>

text \<open>Rust's \<open>v[i]\<close> and \<open>v[i] = x\<close>: out of range they panic.\<close>

definition nth_at :: "'a list \<Rightarrow> nat \<Rightarrow> 'a option" where
  "nth_at xs i = (if i < length xs then Some (xs ! i) else None)"

definition set_at :: "'a list \<Rightarrow> nat \<Rightarrow> 'a \<Rightarrow> 'a list option" where
  "set_at xs i x = (if i < length xs then Some (xs[i := x]) else None)"

lemma nth_at_simp [simp]: "i < length xs \<Longrightarrow> nth_at xs i = Some (xs ! i)"
  by (simp add: nth_at_def)

lemma set_at_simp [simp]: "i < length xs \<Longrightarrow> set_at xs i x = Some (xs[i := x])"
  by (simp add: set_at_def)

lemma nth_at_Some_iff: "nth_at xs i = Some x \<longleftrightarrow> i < length xs \<and> xs ! i = x"
  by (auto simp: nth_at_def)

lemma set_at_Some_iff: "set_at xs i x = Some ys \<longleftrightarrow> i < length xs \<and> ys = xs[i := x]"
  by (auto simp: set_at_def)

lemma nth_snoc [simp]: "length xs = n \<Longrightarrow> (xs @ [x]) ! n = x"
  by (simp add: nth_append)

section \<open>Arithmetic on usize\<close>

text \<open>
  \<open>usize\<close> has 64 bits on the platforms the repository builds for. The release profile does
  not check for overflow, so \<open>+\<close>, \<open>-\<close> and \<open>*\<close> wrap around.
\<close>

definition usize_max :: nat where
  "usize_max = 2 ^ 64 - 1"

definition usize_add :: "nat \<Rightarrow> nat \<Rightarrow> nat" where
  "usize_add a b = (a + b) mod 2 ^ 64"

definition usize_mul :: "nat \<Rightarrow> nat \<Rightarrow> nat" where
  "usize_mul a b = (a * b) mod 2 ^ 64"

definition usize_sub :: "nat \<Rightarrow> nat \<Rightarrow> nat" where
  "usize_sub a b = (if b \<le> a then a - b else 2 ^ 64 + a - b)"

lemma usize_add_simp [simp]: "a + b < 2 ^ 64 \<Longrightarrow> usize_add a b = a + b"
  by (simp add: usize_add_def)

lemma usize_mul_simp [simp]: "a * b < 2 ^ 64 \<Longrightarrow> usize_mul a b = a * b"
  by (simp add: usize_mul_def)

lemma usize_sub_simp [simp]: "b \<le> a \<Longrightarrow> usize_sub a b = a - b"
  by (simp add: usize_sub_def)

text \<open>\<open>usize::div_ceil\<close>, which panics on a zero divisor.\<close>

definition div_ceil :: "nat \<Rightarrow> nat \<Rightarrow> nat option" where
  "div_ceil n d = (if d = 0 then None else Some ((n + d - 1) div d))"

text \<open>The value it returns, for use in statements about a positive divisor.\<close>

definition ceil_div :: "nat \<Rightarrow> nat \<Rightarrow> nat" where
  "ceil_div n d = (n + d - 1) div d"

lemma div_ceil_simp [simp]: "0 < d \<Longrightarrow> div_ceil n d = Some (ceil_div n d)"
  by (simp add: div_ceil_def ceil_div_def)

lemma ceil_div_0 [simp]: "ceil_div 0 d = 0"
  by (cases d) (simp_all add: ceil_div_def)

lemma ceil_div_le_iff:
  assumes "0 < d"
  shows "ceil_div n d \<le> k \<longleftrightarrow> n \<le> k * d"
proof -
  have "(n + d - 1) div d \<le> k \<longleftrightarrow> (n + d - 1) div d < Suc k"
    by (simp add: less_Suc_eq_le)
  also have "\<dots> \<longleftrightarrow> n + d - 1 < Suc k * d"
    by (rule div_less_iff_less_mult [OF assms])
  also have "\<dots> \<longleftrightarrow> n \<le> k * d"
    using assms by auto
  finally show ?thesis by (simp add: ceil_div_def)
qed

lemma less_ceil_div_iff: "0 < d \<Longrightarrow> k < ceil_div n d \<longleftrightarrow> k * d < n"
  using ceil_div_le_iff [of d n k] by auto

lemma ceil_div_mono: "0 < d \<Longrightarrow> m \<le> n \<Longrightarrow> ceil_div m d \<le> ceil_div n d"
  using ceil_div_le_iff [of d m "ceil_div n d"] ceil_div_le_iff [of d n "ceil_div n d"] by simp

lemma ceil_div_mult_add:
  assumes "0 < d"
  shows "ceil_div (k * d + n) d = k + ceil_div n d"
proof -
  have "k * d + n + d - 1 = (n + d - 1) + k * d" using assms by simp
  then have "ceil_div (k * d + n) d = ((n + d - 1) + k * d) div d"
    by (simp only: ceil_div_def)
  also have "\<dots> = k + ceil_div n d"
    using assms by (simp only: ceil_div_def div_mult_self1 [OF less_imp_neq [THEN not_sym]])
  finally show ?thesis .
qed

lemma ceil_div_mult [simp]: "0 < d \<Longrightarrow> ceil_div (k * d) d = k"
  using ceil_div_mult_add [of d k 0] by simp

lemma ceil_div_Suc:
  assumes "0 < d"
  shows "ceil_div (Suc n) d = ceil_div n d + (if n mod d = 0 then 1 else 0)"
proof -
  have n: "n = (n div d) * d + n mod d" by simp
  have r: "n mod d < d" using assms by simp
  have 1: "ceil_div n d = n div d + ceil_div (n mod d) d"
    using ceil_div_mult_add [OF assms, of "n div d" "n mod d"] n by simp
  have 2: "ceil_div (Suc n) d = n div d + ceil_div (Suc (n mod d)) d"
    using ceil_div_mult_add [OF assms, of "n div d" "Suc (n mod d)"] n by simp
  have 3: "ceil_div (Suc (n mod d)) d = 1"
    using r assms by (simp add: ceil_div_def div_add_self2)
  have 4: "ceil_div (n mod d) d = (if n mod d = 0 then 0 else 1)"
  proof (cases "n mod d = 0")
    case False
    then have "d \<le> n mod d + d - 1" "n mod d + d - 1 < 2 * d" using r by linarith+
    then have "(n mod d + d - 1) div d = 1" by (intro div_nat_eqI) simp_all
    with False show ?thesis by (simp add: ceil_div_def)
  qed simp
  show ?thesis using 1 2 3 4 by simp
qed

end
