(* ===== verification/Types.thy ===== *)
theory Types
  imports Prelude
begin

text \<open>
  The id and address newtypes of \<open>types.rs\<close> and the error type of \<open>error.rs\<close>, with the
  text its \<open>Display\<close> writes. A block id is a 32-bit index; \<open>block_of i\<close> is the cast
  \<open>BlockId(i as u32)\<close>, which is exact below \<open>2 ^ 32\<close>.
\<close>

section \<open>Ids and addresses\<close>

datatype BlockId = BlockId u32

primrec index :: "BlockId \<Rightarrow> nat" where
  "index (BlockId w) = unat w"

datatype SeqId = SeqId u64

primrec seq_num :: "SeqId \<Rightarrow> nat" where
  "seq_num (SeqId w) = unat w"

record PhysicalSlot =
  ps_block :: BlockId
  ps_slot :: nat

definition new_slot :: "BlockId \<Rightarrow> nat \<Rightarrow> PhysicalSlot" where
  "new_slot block slot = \<lparr>ps_block = block, ps_slot = slot\<rparr>"

definition block_of :: "nat \<Rightarrow> BlockId" where
  "block_of i = BlockId (word_of_nat i)"

lemma index_inject [simp]: "index a = index b \<longleftrightarrow> a = b"
  by (cases a; cases b) (simp add: word_unat_eq_iff)

lemma index_less [simp]: "index b < 2 ^ 32"
proof (cases b)
  case (BlockId w)
  have "unat w < 2 ^ LENGTH(32)" by (rule unsigned_less)
  with BlockId show ?thesis by simp
qed

lemma block_of_index [simp]: "block_of (index b) = b"
  by (cases b) (simp add: block_of_def)

lemma index_block_of [simp]: "i < 2 ^ 32 \<Longrightarrow> index (block_of i) = i"
  by (simp add: block_of_def unsigned_of_nat take_bit_nat_eq_self)

lemma inj_on_block_of: "inj_on block_of {..<2 ^ 32}"
  by (rule inj_on_inverseI [where g = index]) simp

lemma block_of_eq_iff [simp]:
  "i < 2 ^ 32 \<Longrightarrow> j < 2 ^ 32 \<Longrightarrow> block_of i = block_of j \<longleftrightarrow> i = j"
  by (metis index_block_of)

lemma new_slot_simps [simp]:
  "ps_block (new_slot b i) = b" "ps_slot (new_slot b i) = i"
  by (simp_all add: new_slot_def)

lemma new_slot_self [simp]: "new_slot (ps_block s) (ps_slot s) = (s :: PhysicalSlot)"
  by (cases s) (simp add: new_slot_def)

text \<open>Rust derives \<open>Ord\<close> for the ids: the order of their numbers.\<close>

instantiation BlockId :: linorder
begin

definition less_eq_BlockId :: "BlockId \<Rightarrow> BlockId \<Rightarrow> bool" where
  "a \<le> b \<longleftrightarrow> index a \<le> index b"

definition less_BlockId :: "BlockId \<Rightarrow> BlockId \<Rightarrow> bool" where
  "a < b \<longleftrightarrow> index a < index b"

instance
proof (standard, goal_cases)
  case (4 x y)
  then show ?case by (simp add: less_eq_BlockId_def flip: index_inject)
qed (auto simp: less_eq_BlockId_def less_BlockId_def)

end

section \<open>Copies between blocks\<close>

text \<open>
  Where the content of a block comes from after a sequence of copies: the pairs take effect
  in order, so the last copy to a block decides.
\<close>

fun copy_origin :: "(BlockId \<times> BlockId) list \<Rightarrow> BlockId \<Rightarrow> BlockId" where
  "copy_origin [] x = x"
| "copy_origin ((src, dst) # pairs) x =
     (let y = copy_origin pairs x in if y = dst then src else y)"

lemma copy_origin_fresh: "x \<notin> snd ` set pairs \<Longrightarrow> copy_origin pairs x = x"
  by (induction pairs) (auto simp: Let_def)

lemma copy_origin_range:
  "\<forall>(s, d) \<in> set pairs. P s \<Longrightarrow> P x \<Longrightarrow> P (copy_origin pairs x)"
  by (induction pairs) (auto simp: Let_def)

lemma copy_origin_append:
  "copy_origin (xs @ ys) x = copy_origin xs (copy_origin ys x)"
  by (induction xs) (auto simp: Let_def)

section \<open>Decimal display\<close>

fun show_nat :: "nat \<Rightarrow> string" where
  "show_nat n =
     (if n < 10 then [char_of (48 + n)] else show_nat (n div 10) @ [char_of (48 + n mod 10)])"

declare show_nat.simps [simp del]

definition show_block :: "BlockId \<Rightarrow> string" where
  "show_block b = ''#'' @ show_nat (index b)"

definition show_seq :: "SeqId \<Rightarrow> string" where
  "show_seq s = ''seq'' @ show_nat (seq_num s)"

definition show_slot :: "PhysicalSlot \<Rightarrow> string" where
  "show_slot p = show_block (ps_block p) @ ''['' @ show_nat (ps_slot p) @ '']''"

section \<open>Errors\<close>

datatype CacheError =
    OutOfBlocks (requested: nat) (available: nat)
  | InvalidBlock BlockId nat
  | BlockNotAllocated BlockId
  | RefCountOverflow BlockId nat
  | SlotOutOfRange nat nat
  | ShapeMismatch nat nat
  | InvalidLayer nat nat
  | UnknownSequence SeqId
  | BatchFull nat
  | Device string

fun show_error :: "CacheError \<Rightarrow> string" where
  "show_error (OutOfBlocks req av) =
     ''out of KV blocks: requested '' @ show_nat req @ '', only '' @ show_nat av @ '' free''"
| "show_error (InvalidBlock i n) =
     ''invalid block '' @ show_block i @ '': pool holds '' @ show_nat n @ '' blocks''"
| "show_error (BlockNotAllocated i) =
     ''block '' @ show_block i @ '' is not allocated (refcount 0)''"
| "show_error (RefCountOverflow i m) =
     ''refcount overflow on block '' @ show_block i @ '' (max '' @ show_nat m @ '')''"
| "show_error (SlotOutOfRange s n) =
     ''slot '' @ show_nat s @ '' out of range for block size '' @ show_nat n"
| "show_error (ShapeMismatch e n) =
     ''shape mismatch: expected '' @ show_nat e @ '' elements, got '' @ show_nat n"
| "show_error (InvalidLayer l n) =
     ''invalid layer '' @ show_nat l @ '': model has '' @ show_nat n @ '' layers''"
| "show_error (UnknownSequence i) =
     ''no sequence with id '' @ show_seq i @ '' is running or waiting''"
| "show_error (BatchFull m) =
     ''batch is full: '' @ show_nat m @ '' sequences already running''"
| "show_error (Device msg) = ''device error: '' @ msg"

type_synonym ('s, 'a) cache_res = "(CacheError, 's, 'a) res"

fun is_out_of_blocks :: "CacheError \<Rightarrow> bool" where
  "is_out_of_blocks (OutOfBlocks _ _) = True"
| "is_out_of_blocks _ = False"

end
