(* ===== verification/Config.thy ===== *)
theory Config
  imports Types
begin

text \<open>
  Pool geometry and memory accounting, \<open>config.rs\<close>: the strides from which both backends
  compute addresses, and how a token position splits into a logical block and a slot. The
  two functions that divide by the block size return \<open>None\<close> where the code panics.
\<close>

record CacheConfig =
  num_blocks :: nat
  block_size :: nat
  num_kv_heads :: nat
  head_dim :: nat
  num_layers :: nat
  dtype_bytes :: nat

definition llama_3_2_1b :: "nat \<Rightarrow> CacheConfig" where
  "llama_3_2_1b n = \<lparr>num_blocks = n, block_size = 16, num_kv_heads = 8, head_dim = 64,
     num_layers = 16, dtype_bytes = 2\<rparr>"

definition tiny :: "nat \<Rightarrow> CacheConfig" where
  "tiny n = \<lparr>num_blocks = n, block_size = 4, num_kv_heads = 2, head_dim = 4,
     num_layers = 2, dtype_bytes = 4\<rparr>"

definition entry_elems :: "CacheConfig \<Rightarrow> nat" where
  "entry_elems c = num_kv_heads c * head_dim c"

definition block_elems :: "CacheConfig \<Rightarrow> nat" where
  "block_elems c = block_size c * entry_elems c"

definition layer_elems :: "CacheConfig \<Rightarrow> nat" where
  "layer_elems c = num_blocks c * block_elems c"

definition total_elems :: "CacheConfig \<Rightarrow> nat" where
  "total_elems c = 2 * num_layers c * layer_elems c"

definition total_bytes :: "CacheConfig \<Rightarrow> nat" where
  "total_bytes c = total_elems c * dtype_bytes c"

definition bytes_per_token :: "CacheConfig \<Rightarrow> nat" where
  "bytes_per_token c = 2 * num_layers c * entry_elems c * dtype_bytes c"

definition blocks_for_tokens :: "CacheConfig \<Rightarrow> nat \<Rightarrow> nat option" where
  "blocks_for_tokens c num_tokens = div_ceil num_tokens (block_size c)"

definition split_position :: "CacheConfig \<Rightarrow> nat \<Rightarrow> (nat \<times> nat) option" where
  "split_position c position =
     (if block_size c = 0 then None else Some (position div block_size c, position mod block_size c))"

section \<open>Accounting\<close>

lemma total_bytes_tokens:
  "total_bytes c = num_blocks c * block_size c * bytes_per_token c"
  by (simp add: total_bytes_def total_elems_def layer_elems_def block_elems_def
      bytes_per_token_def)

lemma split_position_join:
  "split_position c p = Some (b, s) \<longleftrightarrow> 0 < block_size c \<and> s < block_size c \<and> p = b * block_size c + s"
  by (auto simp: split_position_def)

text \<open>
  The first so many blocks are exactly the ones that positions below \<open>n\<close> split into.
\<close>

lemma blocks_for_tokens_covers:
  assumes "blocks_for_tokens c n = Some k" "split_position c p = Some (b, s)"
  shows "p < n \<Longrightarrow> b < k" and "b < k \<Longrightarrow> b * block_size c < n"
proof -
  from assms have pos: "0 < block_size c" and k: "k = ceil_div n (block_size c)"
    and b: "b = p div block_size c"
    by (auto simp: blocks_for_tokens_def split_position_def split: if_splits)
  show "b < k" if "p < n"
  proof -
    have "b * block_size c \<le> p" by (simp add: b)
    with that show ?thesis using pos by (simp add: k less_ceil_div_iff)
  qed
  show "b * block_size c < n" if "b < k"
    using that pos by (simp add: k less_ceil_div_iff)
qed

end
