(* ===== verification/Lru_List.thy ===== *)
theory Lru_List
  imports Types
begin

text \<open>
  The least-recently-used order over block ids, \<open>lru.rs\<close>: a doubly linked list threaded
  through two arrays of 32-bit indices. The relation \<open>lru_rel\<close> says which list a state holds;
  the interface locale \<open>lru_queue\<close> states the operations' contract over that list, and the
  interpretation \<open>lru\<close> discharges it for the arrays.
\<close>

section \<open>The code\<close>

definition NIL :: u32 where
  "NIL = -1"

record Lru =
  lru_prev :: "u32 list"
  lru_next :: "u32 list"
  lru_linked :: "bool list"
  lru_head :: u32
  lru_tail :: u32
  lru_size :: nat

definition lru_new :: "nat \<Rightarrow> Lru" where
  "lru_new capacity = \<lparr>lru_prev = replicate capacity NIL, lru_next = replicate capacity NIL,
     lru_linked = replicate capacity False, lru_head = NIL, lru_tail = NIL, lru_size = 0\<rparr>"

definition lru_len :: "Lru \<Rightarrow> nat" where
  "lru_len l = lru_size l"

definition lru_contains :: "Lru \<Rightarrow> nat \<Rightarrow> bool option" where
  "lru_contains l i = nth_at (lru_linked l) i"

definition lru_push_back :: "nat \<Rightarrow> Lru \<Rightarrow> Lru option" where
  "lru_push_back i l = do {
     let i32 = word_of_nat i;
     pv \<leftarrow> set_at (lru_prev l) i (lru_tail l);
     nx \<leftarrow> set_at (lru_next l) i NIL;
     (hd', nx') \<leftarrow> (if lru_tail l = NIL then Some (i32, nx)
       else do { nx' \<leftarrow> set_at nx (unat (lru_tail l)) i32; Some (lru_head l, nx') });
     lk \<leftarrow> set_at (lru_linked l) i True;
     Some (l\<lparr>lru_prev := pv, lru_next := nx', lru_head := hd', lru_tail := i32,
       lru_linked := lk, lru_size := lru_size l + 1\<rparr>) }"

definition lru_remove :: "nat \<Rightarrow> Lru \<Rightarrow> Lru option" where
  "lru_remove i l = do {
     p \<leftarrow> nth_at (lru_prev l) i;
     n \<leftarrow> nth_at (lru_next l) i;
     (hd', nx) \<leftarrow> (if p = NIL then Some (n, lru_next l)
       else do { nx \<leftarrow> set_at (lru_next l) (unat p) n; Some (lru_head l, nx) });
     (tl', pv) \<leftarrow> (if n = NIL then Some (p, lru_prev l)
       else do { pv \<leftarrow> set_at (lru_prev l) (unat n) p; Some (lru_tail l, pv) });
     pv' \<leftarrow> set_at pv i NIL;
     nx' \<leftarrow> set_at nx i NIL;
     lk \<leftarrow> set_at (lru_linked l) i False;
     Some (l\<lparr>lru_prev := pv', lru_next := nx', lru_head := hd', lru_tail := tl',
       lru_linked := lk, lru_size := usize_sub (lru_size l) 1\<rparr>) }"

definition lru_pop_front :: "Lru \<Rightarrow> (nat option \<times> Lru) option" where
  "lru_pop_front l =
     (if lru_head l = NIL then Some (None, l)
      else do { let i = unat (lru_head l); l' \<leftarrow> lru_remove i l; Some (Some i, l') })"

text \<open>
  The iterator follows the links from the head; \<open>None\<close> is a panic, or a walk that never ends
  because the links form a cycle.
\<close>

partial_function (option) lru_walk :: "u32 list \<Rightarrow> u32 \<Rightarrow> nat list option" where
  "lru_walk nx cursor =
     (if cursor = NIL then Some []
      else do { n \<leftarrow> nth_at nx (unat cursor); rest \<leftarrow> lru_walk nx n; Some (unat cursor # rest) })"

definition lru_iter :: "Lru \<Rightarrow> nat list option" where
  "lru_iter l = lru_walk (lru_next l) (lru_head l)"

section \<open>Segments of links\<close>

text \<open>
  \<open>seg pv nx p xs q\<close>: the nodes \<open>xs\<close> are linked in this order, the first one's predecessor
  link is \<open>p\<close> and the last one's successor link is \<open>q\<close>.
\<close>

abbreviation lnk :: "nat \<Rightarrow> u32" where
  "lnk i \<equiv> word_of_nat i"

fun first_link :: "nat list \<Rightarrow> u32 \<Rightarrow> u32" where
  "first_link [] q = q"
| "first_link (x # xs) q = lnk x"

fun last_link :: "u32 \<Rightarrow> nat list \<Rightarrow> u32" where
  "last_link p [] = p"
| "last_link p (x # xs) = last_link (lnk x) xs"

fun seg :: "u32 list \<Rightarrow> u32 list \<Rightarrow> u32 \<Rightarrow> nat list \<Rightarrow> u32 \<Rightarrow> bool" where
  "seg pv nx p [] q \<longleftrightarrow> True"
| "seg pv nx p (x # xs) q \<longleftrightarrow> pv ! x = p \<and> nx ! x = first_link xs q \<and> seg pv nx (lnk x) xs q"

definition lru_rel :: "nat \<Rightarrow> Lru \<Rightarrow> nat list \<Rightarrow> bool" where
  "lru_rel cap l xs \<longleftrightarrow>
     cap < 2 ^ 32 \<and> length (lru_prev l) = cap \<and> length (lru_next l) = cap \<and>
     length (lru_linked l) = cap \<and> distinct xs \<and> set xs \<subseteq> {..<cap} \<and>
     (\<forall>i < cap. lru_linked l ! i \<longleftrightarrow> i \<in> set xs) \<and> lru_size l = length xs \<and>
     lru_head l = first_link xs NIL \<and> lru_tail l = last_link NIL xs \<and>
     seg (lru_prev l) (lru_next l) NIL xs NIL"

lemma last_link_snoc [simp]: "last_link p (xs @ [x]) = lnk x"
  by (induction xs arbitrary: p) simp_all

lemma last_link_append [simp]: "last_link p (xs @ ys) = last_link (last_link p xs) ys"
  by (induction xs arbitrary: p) simp_all

lemma first_link_append [simp]: "first_link (xs @ ys) q = first_link xs (first_link ys q)"
  by (cases xs) simp_all

lemma seg_append [simp]:
  "seg pv nx p (xs @ ys) q \<longleftrightarrow>
     seg pv nx p xs (first_link ys q) \<and> seg pv nx (last_link p xs) ys q"
  by (induction xs arbitrary: p) auto

lemma seg_upd_prev [simp]: "i \<notin> set xs \<Longrightarrow> seg (pv[i := v]) nx p xs q = seg pv nx p xs q"
  by (induction xs arbitrary: p) auto

lemma seg_upd_next [simp]: "i \<notin> set xs \<Longrightarrow> seg pv (nx[i := v]) p xs q = seg pv nx p xs q"
  by (induction xs arbitrary: p) auto

text \<open>Redirecting the last node's successor link, and the first node's predecessor link.\<close>

lemma seg_redirect_next:
  "seg pv nx p (xs @ [x]) q \<Longrightarrow> x \<notin> set xs \<Longrightarrow> x < length nx \<Longrightarrow>
     seg pv (nx[x := r]) p (xs @ [x]) r"
  by simp

lemma seg_redirect_prev:
  "seg pv nx p (x # xs) q \<Longrightarrow> x \<notin> set xs \<Longrightarrow> x < length pv \<Longrightarrow> seg (pv[x := r]) nx r (x # xs) q"
  by simp

lemma lnk_neq_NIL [simp]:
  assumes "i < cap" "cap < 2 ^ 32"
  shows "lnk i \<noteq> NIL"
proof
  assume "lnk i = NIL"
  then have "unat (lnk i) = unat (- 1 :: u32)" by (simp add: NIL_def)
  with assms show False by (simp add: unsigned_of_nat take_bit_nat_eq_self unsigned_minus_1_eq_mask
        mask_eq_exp_minus_1)
qed

lemma unat_lnk [simp]: "i < 2 ^ 32 \<Longrightarrow> unat (lnk i) = i"
  by (simp add: unsigned_of_nat take_bit_nat_eq_self)

lemma last_link_NIL:
  "set xs \<subseteq> {..<cap} \<Longrightarrow> cap < 2 ^ 32 \<Longrightarrow> last_link NIL xs = NIL \<longleftrightarrow> xs = []"
  by (cases xs rule: rev_cases) auto

lemma first_link_NIL:
  "set xs \<subseteq> {..<cap} \<Longrightarrow> cap < 2 ^ 32 \<Longrightarrow> first_link xs NIL = NIL \<longleftrightarrow> xs = []"
  by (cases xs) auto

section \<open>The operations on the list a state holds\<close>

lemma lru_rel_new: "cap < 2 ^ 32 \<Longrightarrow> lru_rel cap (lru_new cap) []"
  by (simp add: lru_rel_def lru_new_def)

lemma lru_rel_contains: "lru_rel cap l xs \<Longrightarrow> i < cap \<Longrightarrow> lru_contains l i = Some (i \<in> set xs)"
  by (simp add: lru_rel_def lru_contains_def)

lemma lru_rel_len: "lru_rel cap l xs \<Longrightarrow> lru_len l = length xs"
  by (simp add: lru_rel_def lru_len_def)

lemma lru_rel_push_back:
  assumes rel: "lru_rel cap l xs" and i: "i < cap" "i \<notin> set xs"
  shows "\<exists>l'. lru_push_back i l = Some l' \<and> lru_rel cap l' (xs @ [i])"
proof (cases xs rule: rev_cases)
  case Nil
  with rel i have "lru_tail l = NIL" by (simp add: lru_rel_def)
  with rel i Nil show ?thesis
    by (auto simp: lru_push_back_def lru_rel_def Let_def nth_list_update)
next
  case (snoc ys y)
  with rel have y: "y < cap" "cap < 2 ^ 32" "y \<notin> set ys" by (auto simp: lru_rel_def)
  with rel snoc have tl: "lru_tail l = lnk y" "lnk y \<noteq> NIL" by (simp_all add: lru_rel_def)
  from snoc i have "y \<noteq> i" by auto
  with rel i snoc y tl show ?thesis
    by (auto simp: lru_push_back_def lru_rel_def Let_def nth_list_update)
qed

text \<open>
  Removal splits the list around the node: its predecessor and successor are linked to each
  other, or the head or tail moves when it has none.
\<close>

lemma lru_rel_remove_split:
  assumes rel: "lru_rel cap l (ys @ i # zs)"
  shows "\<exists>l'. lru_remove i l = Some l' \<and> lru_rel cap l' (ys @ zs)"
proof -
  from rel have i: "i < cap" "cap < 2 ^ 32" "i \<notin> set ys" "i \<notin> set zs"
    and p: "lru_prev l ! i = last_link NIL ys" and n: "lru_next l ! i = first_link zs NIL"
    by (auto simp: lru_rel_def)
  consider (only) "ys = []" "zs = []" | (first) z zs' where "ys = []" "zs = z # zs'"
    | (last) ys' y where "ys = ys' @ [y]" "zs = []"
    | (mid) ys' y z zs' where "ys = ys' @ [y]" "zs = z # zs'"
    by (metis neq_Nil_conv rev_exhaust)
  then show ?thesis
  proof cases
    case only
    with rel i p n show ?thesis
      by (auto simp: lru_remove_def lru_rel_def nth_list_update)
  next
    case first
    with rel i have z: "z < cap" "z \<noteq> i" "lnk z \<noteq> NIL" by (auto simp: lru_rel_def)
    from first rel i p n z show ?thesis
      by (auto simp: lru_remove_def lru_rel_def nth_list_update)
  next
    case last
    with rel i have y: "y < cap" "y \<noteq> i" "lnk y \<noteq> NIL" by (auto simp: lru_rel_def)
    from last rel i p n y show ?thesis
      by (auto simp: lru_remove_def lru_rel_def nth_list_update)
  next
    case mid
    with rel i have yz: "y < cap" "y \<noteq> i" "lnk y \<noteq> NIL" "z < cap" "z \<noteq> i" "lnk z \<noteq> NIL"
      by (auto simp: lru_rel_def)
    from mid rel i p n yz show ?thesis
      by (auto simp: lru_remove_def lru_rel_def nth_list_update)
  qed
qed

lemma lru_rel_remove:
  assumes "lru_rel cap l xs" "i \<in> set xs"
  shows "\<exists>l'. lru_remove i l = Some l' \<and> lru_rel cap l' (remove1 i xs)"
proof -
  from assms(2) obtain ys zs where xs: "xs = ys @ i # zs" "i \<notin> set ys"
    by (meson split_list_first)
  with assms(1) lru_rel_remove_split [of cap l ys i zs] show ?thesis
    by (simp add: remove1_append)
qed

lemma lru_rel_pop_front_Nil: "lru_rel cap l [] \<Longrightarrow> lru_pop_front l = Some (None, l)"
  by (simp add: lru_rel_def lru_pop_front_def)

lemma lru_rel_pop_front_Cons:
  assumes rel: "lru_rel cap l (x # xs)"
  shows "\<exists>l'. lru_pop_front l = Some (Some x, l') \<and> lru_rel cap l' xs"
proof -
  from rel have x: "x < cap" "cap < 2 ^ 32" by (auto simp: lru_rel_def)
  with rel have hd: "lru_head l = lnk x" "lnk x \<noteq> NIL" "unat (lnk x) = x"
    by (simp_all add: lru_rel_def)
  from lru_rel_remove_split [of cap l "[]" x xs] rel
  obtain l' where "lru_remove x l = Some l'" "lru_rel cap l' xs" by auto
  with hd show ?thesis by (simp add: lru_pop_front_def Let_def)
qed

lemma lru_walk_seg:
  "seg pv nx p xs NIL \<Longrightarrow> set xs \<subseteq> {..<cap} \<Longrightarrow> cap < 2 ^ 32 \<Longrightarrow> length nx = cap \<Longrightarrow>
     lru_walk nx (first_link xs NIL) = Some xs"
proof (induction xs arbitrary: p)
  case Nil
  then show ?case by (simp add: lru_walk.simps)
next
  case (Cons x xs)
  then have "lru_walk nx (first_link xs NIL) = Some xs" by (auto intro: Cons.IH [of "lnk x"])
  moreover from Cons.prems have "lnk x \<noteq> NIL" "unat (lnk x) = x"
    using lnk_neq_NIL [of x cap] by auto
  ultimately show ?case using Cons.prems by (simp add: lru_walk.simps [of nx "lnk x"])
qed

lemma lru_rel_iter: "lru_rel cap l xs \<Longrightarrow> lru_iter l = Some xs"
  unfolding lru_rel_def lru_iter_def by (metis lru_walk_seg)

lemma lru_rel_unique: "lru_rel cap l xs \<Longrightarrow> lru_rel cap l ys \<Longrightarrow> xs = ys"
  by (auto dest!: lru_rel_iter)

section \<open>The contract\<close>

text \<open>
  What the allocator relies on: the state holds a list of distinct ids below the capacity,
  \<open>push\<close> appends, \<open>remove\<close> deletes, \<open>pop\<close> takes the head, and none of them panics when
  called on ids in range that are absent or present as the code's debug assertions ask.
\<close>

locale lru_queue =
  fixes rel :: "nat \<Rightarrow> 'q \<Rightarrow> nat list \<Rightarrow> bool"
    and new :: "nat \<Rightarrow> 'q"
    and push :: "nat \<Rightarrow> 'q \<Rightarrow> 'q option"
    and remove :: "nat \<Rightarrow> 'q \<Rightarrow> 'q option"
    and pop :: "'q \<Rightarrow> (nat option \<times> 'q) option"
    and contains :: "'q \<Rightarrow> nat \<Rightarrow> bool option"
    and len :: "'q \<Rightarrow> nat"
    and iter :: "'q \<Rightarrow> nat list option"
  assumes rel_range: "rel cap q xs \<Longrightarrow> distinct xs \<and> set xs \<subseteq> {..<cap} \<and> cap < 2 ^ 32"
    and rel_new: "cap < 2 ^ 32 \<Longrightarrow> rel cap (new cap) []"
    and rel_push: "rel cap q xs \<Longrightarrow> i < cap \<Longrightarrow> i \<notin> set xs \<Longrightarrow>
      \<exists>q'. push i q = Some q' \<and> rel cap q' (xs @ [i])"
    and rel_remove: "rel cap q xs \<Longrightarrow> i \<in> set xs \<Longrightarrow>
      \<exists>q'. remove i q = Some q' \<and> rel cap q' (remove1 i xs)"
    and rel_pop_Nil: "rel cap q [] \<Longrightarrow> pop q = Some (None, q)"
    and rel_pop_Cons: "rel cap q (x # xs) \<Longrightarrow> \<exists>q'. pop q = Some (Some x, q') \<and> rel cap q' xs"
    and rel_contains: "rel cap q xs \<Longrightarrow> i < cap \<Longrightarrow> contains q i = Some (i \<in> set xs)"
    and rel_len: "rel cap q xs \<Longrightarrow> len q = length xs"
    and rel_iter: "rel cap q xs \<Longrightarrow> iter q = Some xs"

text \<open>
  A driver over the operations, guarded by \<open>contains\<close> the way every caller guards them, and
  the same driver on a plain list. They return the popped ids and the final state.
\<close>

datatype lru_op = PushBack nat | Remove nat | PopFront

fun run_queue :: "(nat \<Rightarrow> 'q \<Rightarrow> 'q option) \<Rightarrow> (nat \<Rightarrow> 'q \<Rightarrow> 'q option) \<Rightarrow>
    ('q \<Rightarrow> (nat option \<times> 'q) option) \<Rightarrow> ('q \<Rightarrow> nat \<Rightarrow> bool option) \<Rightarrow>
    lru_op list \<Rightarrow> 'q \<Rightarrow> (nat option list \<times> 'q) option" where
  "run_queue push remove pop contains [] q = Some ([], q)"
| "run_queue push remove pop contains (PushBack i # ops) q = do {
     c \<leftarrow> contains q i;
     q' \<leftarrow> (if c then Some q else push i q);
     run_queue push remove pop contains ops q' }"
| "run_queue push remove pop contains (Remove i # ops) q = do {
     c \<leftarrow> contains q i;
     q' \<leftarrow> (if c then remove i q else Some q);
     run_queue push remove pop contains ops q' }"
| "run_queue push remove pop contains (PopFront # ops) q = do {
     (r, q') \<leftarrow> pop q;
     (rs, q'') \<leftarrow> run_queue push remove pop contains ops q';
     Some (r # rs, q'') }"

fun run_list :: "lru_op list \<Rightarrow> nat list \<Rightarrow> nat option list \<times> nat list" where
  "run_list [] xs = ([], xs)"
| "run_list (PushBack i # ops) xs = run_list ops (if i \<in> set xs then xs else xs @ [i])"
| "run_list (Remove i # ops) xs = run_list ops (filter (\<lambda>x. x \<noteq> i) xs)"
| "run_list (PopFront # ops) xs =
     (let (rs, ys) = run_list ops (tl xs)
      in ((case xs of [] \<Rightarrow> None | x # _ \<Rightarrow> Some x) # rs, ys))"

fun op_id :: "lru_op \<Rightarrow> nat" where
  "op_id (PushBack i) = i"
| "op_id (Remove i) = i"
| "op_id PopFront = 0"

context lru_queue
begin

lemma remove1_is_filter: "rel cap q xs \<Longrightarrow> remove1 i xs = filter (\<lambda>x. x \<noteq> i) xs"
  using rel_range [of cap q xs]
  by (simp add: distinct_remove1_removeAll removeAll_filter_not_eq eq_commute [of i])

lemma run_refines:
  assumes "rel cap q xs" "\<forall>op \<in> set ops. op \<noteq> PopFront \<longrightarrow> op_id op < cap"
  shows "\<exists>q'. run_queue push remove pop contains ops q = Some (fst (run_list ops xs), q')
    \<and> rel cap q' (snd (run_list ops xs))"
  using assms
proof (induction ops arbitrary: q xs)
  case Nil
  then show ?case by simp
next
  case (Cons op ops)
  from Cons.prems have rest: "\<forall>op \<in> set ops. op \<noteq> PopFront \<longrightarrow> op_id op < cap" by simp
  show ?case
  proof (cases op)
    case (PushBack i)
    with Cons.prems have i: "contains q i = Some (i \<in> set xs)" by (auto intro: rel_contains)
    show ?thesis
    proof (cases "i \<in> set xs")
      case True
      with PushBack i Cons.IH [OF Cons.prems(1) rest] show ?thesis by simp
    next
      case False
      with PushBack Cons.prems obtain q' where "push i q = Some q'" "rel cap q' (xs @ [i])"
        using rel_push [of cap q xs i] by auto
      with PushBack i False Cons.IH [OF _ rest] show ?thesis by simp
    qed
  next
    case (Remove i)
    with Cons.prems have i: "contains q i = Some (i \<in> set xs)" by (auto intro: rel_contains)
    show ?thesis
    proof (cases "i \<in> set xs")
      case True
      with Cons.prems(1) obtain q' where "remove i q = Some q'" "rel cap q' (remove1 i xs)"
        using rel_remove by blast
      with Remove i True Cons.IH [OF _ rest] show ?thesis
        by (simp add: remove1_is_filter [OF Cons.prems(1)])
    next
      case False
      then have "filter (\<lambda>x. x \<noteq> i) xs = xs" by (auto simp: filter_id_conv)
      with Remove i False Cons.IH [OF Cons.prems(1) rest] show ?thesis by simp
    qed
  next
    case PopFront
    show ?thesis
    proof (cases xs)
      case Nil
      with Cons.prems(1) have "pop q = Some (None, q)" by (simp add: rel_pop_Nil)
      with PopFront Nil Cons.IH [OF Cons.prems(1) rest] show ?thesis
        by (auto split: prod.splits)
    next
      case (Cons y ys)
      with \<open>rel cap q xs\<close> obtain q' where "pop q = Some (Some y, q')" "rel cap q' ys"
        using rel_pop_Cons by blast
      with PopFront Cons Cons.IH [OF _ rest] show ?thesis
        by (fastforce split: prod.splits)
    qed
  qed
qed

lemma mem_after_push:
  "rel cap q xs \<Longrightarrow> i < cap \<Longrightarrow> i \<notin> set xs \<Longrightarrow> push i q = Some q' \<Longrightarrow> contains q' i = Some True"
  using rel_push [of cap q xs i] rel_contains by fastforce

text \<open>A push does not change which id leaves first.\<close>

lemma pop_oldest:
  assumes "rel cap q (x # xs)" "i < cap" "i \<notin> set (x # xs)"
  shows "\<exists>q' q''. push i q = Some q' \<and> pop q' = Some (Some x, q'') \<and> rel cap q'' (xs @ [i])"
  using rel_push [OF assms] rel_pop_Cons [of cap _ x "xs @ [i]"] by auto

end

interpretation lru: lru_queue lru_rel lru_new lru_push_back lru_remove lru_pop_front
  lru_contains lru_len lru_iter
proof unfold_locales
  fix cap q xs
  show "lru_rel cap q xs \<Longrightarrow> distinct xs \<and> set xs \<subseteq> {..<cap} \<and> cap < 2 ^ 32"
    by (simp add: lru_rel_def)
qed (auto intro: lru_rel_new lru_rel_push_back lru_rel_remove lru_rel_pop_front_Nil
    lru_rel_pop_front_Cons lru_rel_contains lru_rel_len lru_rel_iter)

section \<open>Properties\<close>

text \<open>
  C24: from an empty list, any sequence of guarded operations on ids below the capacity runs
  without a panic, pops the same ids in the same order as a plain list used as a queue, and
  leaves arrays whose iterator yields exactly the list model's final order.
\<close>

theorem lru_matches_list_model:
  assumes "cap < 2 ^ 32" "\<forall>op \<in> set ops. op \<noteq> PopFront \<longrightarrow> op_id op < cap"
  shows "\<exists>l. run_queue lru_push_back lru_remove lru_pop_front lru_contains ops (lru_new cap)
      = Some (fst (run_list ops []), l)
    \<and> lru_iter l = Some (snd (run_list ops [])) \<and> lru_len l = length (snd (run_list ops []))"
  using lru.run_refines [OF lru.rel_new [OF assms(1)] assms(2)] lru.rel_iter lru.rel_len by blast

theorem lru_matches_list_model_witness:
  "\<exists>l. run_queue lru_push_back lru_remove lru_pop_front lru_contains
      [PushBack 3, PushBack 1, PushBack 4, Remove 1, PopFront, PopFront, PopFront] (lru_new 8)
      = Some ([Some 3, Some 4, None], l) \<and> lru_iter l = Some [] \<and> lru_len l = 0"
  using lru_matches_list_model [of 8 "[PushBack 3, PushBack 1, PushBack 4, Remove 1, PopFront,
    PopFront, PopFront]"] by simp

end
