(* ===== verification/Prefix_Index.thy ===== *)
theory Prefix_Index
  imports Types
begin

text \<open>
  The content index of the prefix cache, \<open>prefix_cache.rs\<close>: full blocks are registered under
  their tokens and the entry of the block before them, so a chain of lookups matches only a
  whole identical prefix. The hash map is an association list with distinct keys; entries
  are numbered by a counter that only grows (\<open>u64\<close> in the code, unbounded here: a pool would
  have to register \<open>2 ^ 64\<close> blocks to wrap it).
\<close>

section \<open>The code\<close>

datatype PrefixEntry = PrefixEntry (entry_num: nat)

definition ROOT :: PrefixEntry where
  "ROOT = PrefixEntry 0"

record Key =
  key_parent :: PrefixEntry
  key_tokens :: "u32 list"

record PrefixIndex =
  by_key :: "(Key \<times> (PrefixEntry \<times> BlockId)) list"
  by_block :: "(PrefixEntry \<times> Key) option list"
  next_entry :: nat

definition index_new :: "nat \<Rightarrow> PrefixIndex" where
  "index_new n = \<lparr>by_key = [], by_block = replicate n None, next_entry = 1\<rparr>"

definition index_len :: "PrefixIndex \<Rightarrow> nat" where
  "index_len ix = length (by_key ix)"

definition index_is_cached :: "PrefixIndex \<Rightarrow> BlockId \<Rightarrow> bool option" where
  "index_is_cached ix block = do {
     slot \<leftarrow> nth_at (by_block ix) (index block); Some (slot \<noteq> None) }"

definition index_lookup ::
  "PrefixIndex \<Rightarrow> PrefixEntry \<Rightarrow> u32 list \<Rightarrow> (PrefixEntry \<times> BlockId) option" where
  "index_lookup ix parent tokens = map_of (by_key ix) \<lparr>key_parent = parent, key_tokens = tokens\<rparr>"

definition index_insert ::
  "BlockId \<Rightarrow> PrefixEntry \<Rightarrow> u32 list \<Rightarrow> PrefixIndex \<Rightarrow> (PrefixEntry \<times> PrefixIndex) option" where
  "index_insert block parent tokens ix = do {
     slot \<leftarrow> nth_at (by_block ix) (index block);
     case slot of
       Some (entry, _) \<Rightarrow> Some (entry, ix)
     | None \<Rightarrow>
         (let key = \<lparr>key_parent = parent, key_tokens = tokens\<rparr> in
          case map_of (by_key ix) key of
            Some (entry, _) \<Rightarrow> Some (entry, ix)
          | None \<Rightarrow>
              (let entry = PrefixEntry (next_entry ix) in do {
                 bb \<leftarrow> set_at (by_block ix) (index block) (Some (entry, key));
                 Some (entry, ix\<lparr>next_entry := next_entry ix + 1,
                   by_key := AList.update key (entry, block) (by_key ix), by_block := bb\<rparr>) })) }"

definition index_remove :: "BlockId \<Rightarrow> PrefixIndex \<Rightarrow> PrefixIndex option" where
  "index_remove block ix = do {
     slot \<leftarrow> nth_at (by_block ix) (index block);
     bb \<leftarrow> set_at (by_block ix) (index block) None;
     case slot of
       None \<Rightarrow> Some (ix\<lparr>by_block := bb\<rparr>)
     | Some (_, key) \<Rightarrow> Some (ix\<lparr>by_block := bb, by_key := AList.delete key (by_key ix)\<rparr>) }"

text \<open>The consistency check the tests run, with its messages as constructors.\<close>

datatype CheckError =
    CachedCountMismatch nat nat
  | KeyMapsElsewhere nat
  | FreeOutOfRange BlockId
  | FreeTwice BlockId
  | FreeButOwned BlockId nat
  | FreeButCached BlockId
  | FreeAndEvictable nat
  | EvictableButOwned nat nat
  | EvictableNotCached nat
  | NeitherFreeNorEvictable nat
  | TableLength nat nat nat
  | TableOutOfRange nat BlockId
  | RefCountMismatch BlockId nat nat
  | RefCountError CacheError
  | TooManyRunning nat nat
  | CheckPanic

fun check_slots :: "PrefixIndex \<Rightarrow> (nat \<times> (PrefixEntry \<times> Key) option) list \<Rightarrow> CheckError + unit" where
  "check_slots ix [] = Inr ()"
| "check_slots ix ((i, None) # rest) = check_slots ix rest"
| "check_slots ix ((i, Some (entry, key)) # rest) =
     (case map_of (by_key ix) key of
        Some (e, b) \<Rightarrow>
          if e = entry \<and> index b = i then check_slots ix rest else Inl (KeyMapsElsewhere i)
      | None \<Rightarrow> Inl (KeyMapsElsewhere i))"

definition index_check :: "PrefixIndex \<Rightarrow> CheckError + unit" where
  "index_check ix =
     (let indexed = length (filter (\<lambda>e. e \<noteq> None) (by_block ix)) in
      if indexed \<noteq> length (by_key ix) then Inl (CachedCountMismatch indexed (length (by_key ix)))
      else check_slots ix (enumerate 0 (by_block ix)))"

section \<open>Invariant\<close>

definition pi_inv :: "nat \<Rightarrow> PrefixIndex \<Rightarrow> bool" where
  "pi_inv n ix \<longleftrightarrow>
     n < 2 ^ 32 \<and> length (by_block ix) = n \<and> distinct (map fst (by_key ix)) \<and> 0 < next_entry ix \<and>
     (\<forall>i < n. \<forall>e k. by_block ix ! i = Some (e, k) \<longrightarrow> map_of (by_key ix) k = Some (e, block_of i)) \<and>
     (\<forall>k e b. map_of (by_key ix) k = Some (e, b) \<longrightarrow>
        index b < n \<and> by_block ix ! index b = Some (e, k) \<and>
        entry_num (key_parent k) < entry_num e \<and> entry_num e < next_entry ix) \<and>
     (\<forall>k k' e b b'. map_of (by_key ix) k = Some (e, b) \<longrightarrow> map_of (by_key ix) k' = Some (e, b') \<longrightarrow>
        k = k')"

text \<open>Which entry and key a block is registered under.\<close>

definition cached_as :: "PrefixIndex \<Rightarrow> BlockId \<Rightarrow> (PrefixEntry \<times> Key) option" where
  "cached_as ix b = (if index b < length (by_block ix) then by_block ix ! index b else None)"

lemma pi_invD:
  assumes "pi_inv n ix"
  shows "n < 2 ^ 32" "length (by_block ix) = n" "distinct (map fst (by_key ix))" "0 < next_entry ix"
    "cached_as ix b = Some (e, k) \<Longrightarrow> map_of (by_key ix) k = Some (e, b)"
    "map_of (by_key ix) k = Some (e, b) \<Longrightarrow>
       index b < n \<and> cached_as ix b = Some (e, k) \<and>
       entry_num (key_parent k) < entry_num e \<and> entry_num e < next_entry ix"
    "map_of (by_key ix) k = Some (e, b) \<Longrightarrow> map_of (by_key ix) k' = Some (e, b') \<Longrightarrow> k = k'"
  using assms unfolding pi_inv_def cached_as_def
  by (auto split: if_splits)

lemma pi_invI:
  assumes "n < 2 ^ 32" "length (by_block ix) = n" "distinct (map fst (by_key ix))" "0 < next_entry ix"
    "\<And>b e k. cached_as ix b = Some (e, k) \<Longrightarrow> map_of (by_key ix) k = Some (e, b)"
    "\<And>k e b. map_of (by_key ix) k = Some (e, b) \<Longrightarrow>
       index b < n \<and> cached_as ix b = Some (e, k) \<and>
       entry_num (key_parent k) < entry_num e \<and> entry_num e < next_entry ix"
    "\<And>k k' e b b'. map_of (by_key ix) k = Some (e, b) \<Longrightarrow> map_of (by_key ix) k' = Some (e, b') \<Longrightarrow> k = k'"
  shows "pi_inv n ix"
  unfolding pi_inv_def
proof (intro conjI allI impI)
  fix i e k
  assume i: "i < n" "by_block ix ! i = Some (e, k)"
  with assms(1,2) have "cached_as ix (block_of i) = Some (e, k)" by (simp add: cached_as_def)
  then show "map_of (by_key ix) k = Some (e, block_of i)" by (rule assms(5))
next
  fix k e b
  assume "map_of (by_key ix) k = Some (e, b)"
  from assms(6) [OF this]
  show "index b < n" "by_block ix ! index b = Some (e, k)"
    "entry_num (key_parent k) < entry_num e" "entry_num e < next_entry ix"
    by (auto simp: cached_as_def split: if_splits)
qed (use assms(1-4,7) in auto)

lemma cached_as_less:
  assumes inv: "pi_inv n ix" and c: "cached_as ix b = Some (e, k)"
  shows "index b < n" "entry_num (key_parent k) < entry_num e" "entry_num e < next_entry ix"
  using pi_invD(6) [OF inv pi_invD(5) [OF inv c]] by auto

lemma cached_as_range: "cached_as ix b = Some x \<Longrightarrow> index b < length (by_block ix)"
  by (simp add: cached_as_def split: if_splits)

lemma index_is_cached_eq:
  "index b < length (by_block ix) \<Longrightarrow> index_is_cached ix b = Some (cached_as ix b \<noteq> None)"
  by (simp add: index_is_cached_def cached_as_def)

lemma pi_inv_new: "n < 2 ^ 32 \<Longrightarrow> pi_inv n (index_new n)"
  by (rule pi_invI) (auto simp: index_new_def cached_as_def split: if_splits)

lemma lookup_cached:
  "pi_inv n ix \<Longrightarrow> index_lookup ix p ts = Some (e, b) \<longleftrightarrow>
     cached_as ix b = Some (e, \<lparr>key_parent = p, key_tokens = ts\<rparr>)"
  unfolding index_lookup_def by (metis pi_invD(5,6))

section \<open>Insertion and removal\<close>

lemma index_insert_cases:
  assumes inv: "pi_inv n ix" and b: "index b < n"
  obtains (own) e k where "cached_as ix b = Some (e, k)" "index_insert b p ts ix = Some (e, ix)"
  | (other) e b' where "cached_as ix b = None" "index_lookup ix p ts = Some (e, b')"
      "index_insert b p ts ix = Some (e, ix)"
  | (fresh) ix' where "cached_as ix b = None" "index_lookup ix p ts = None"
      "index_insert b p ts ix = Some (PrefixEntry (next_entry ix), ix')"
      "ix' = ix\<lparr>next_entry := next_entry ix + 1,
         by_key := AList.update \<lparr>key_parent = p, key_tokens = ts\<rparr> (PrefixEntry (next_entry ix), b)
           (by_key ix),
         by_block := (by_block ix)[index b := Some (PrefixEntry (next_entry ix),
           \<lparr>key_parent = p, key_tokens = ts\<rparr>)]\<rparr>"
proof (cases "cached_as ix b")
  case (Some x)
  with b pi_invD(2) [OF inv] show ?thesis
    by (cases x) (auto intro!: own simp: index_insert_def cached_as_def)
next
  case None
  with b pi_invD(2) [OF inv] have slot: "nth_at (by_block ix) (index b) = Some None"
    by (simp add: cached_as_def)
  show ?thesis
  proof (cases "index_lookup ix p ts")
    case None': None
    show ?thesis
      by (rule fresh [OF None None' _ refl])
        (use slot b pi_invD(2) [OF inv] None' in \<open>simp add: index_insert_def index_lookup_def Let_def\<close>)
  next
    case (Some x)
    with None slot show ?thesis
      by (cases x) (auto intro!: other simp: index_insert_def index_lookup_def)
  qed
qed

lemma index_insert_fresh_inv:
  assumes inv: "pi_inv n ix" and b: "index b < n" and p: "entry_num p < next_entry ix"
    and none: "cached_as ix b = None" "index_lookup ix p ts = None"
    and ix': "ix' = ix\<lparr>next_entry := next_entry ix + 1,
         by_key := AList.update \<lparr>key_parent = p, key_tokens = ts\<rparr> (PrefixEntry (next_entry ix), b)
           (by_key ix),
         by_block := (by_block ix)[index b := Some (PrefixEntry (next_entry ix),
           \<lparr>key_parent = p, key_tokens = ts\<rparr>)]\<rparr>"
  shows "pi_inv n ix'"
    and "cached_as ix' = (cached_as ix)(b \<mapsto>
      (PrefixEntry (next_entry ix), \<lparr>key_parent = p, key_tokens = ts\<rparr>))"
proof -
  let ?k = "\<lparr>key_parent = p, key_tokens = ts\<rparr>" and ?e = "PrefixEntry (next_entry ix)"
  note D = pi_invD [OF inv]
  show ca: "cached_as ix' = (cached_as ix)(b \<mapsto> (?e, ?k))"
    using b D(2) by (auto simp: ix' cached_as_def fun_eq_iff nth_list_update)
  have mo: "map_of (by_key ix') = (map_of (by_key ix))(?k \<mapsto> (?e, b))"
    by (simp add: ix' update_conv')
  have nx: "next_entry ix' = Suc (next_entry ix)" by (simp add: ix')
  have nk: "map_of (by_key ix) ?k = None" using none(2) by (simp add: index_lookup_def)
  show "pi_inv n ix'"
  proof (rule pi_invI)
    show "n < 2 ^ 32" "length (by_block ix') = n" "0 < next_entry ix'" using D(1,2,4) by (simp_all add: ix')
    show "distinct (map fst (by_key ix'))" using D(3) by (simp add: ix' distinct_update)
  next
    fix c e k
    assume "cached_as ix' c = Some (e, k)"
    then show "map_of (by_key ix') k = Some (e, c)"
      using D(5) [of c e k] nk unfolding ca mo by (auto split: if_splits)
  next
    fix k e c
    assume "map_of (by_key ix') k = Some (e, c)"
    then have "k = ?k \<and> e = ?e \<and> c = b \<or> map_of (by_key ix) k = Some (e, c)"
      unfolding mo by (auto split: if_splits)
    then show "index c < n \<and> cached_as ix' c = Some (e, k) \<and>
       entry_num (key_parent k) < entry_num e \<and> entry_num e < next_entry ix'"
      using D(6) [of k e c] b p none(1) unfolding ca nx by auto
  next
    fix k k' e c c'
    assume "map_of (by_key ix') k = Some (e, c)" "map_of (by_key ix') k' = Some (e, c')"
    then have "k = ?k \<and> e = ?e \<or> map_of (by_key ix) k = Some (e, c)"
      "k' = ?k \<and> e = ?e \<or> map_of (by_key ix) k' = Some (e, c')"
      unfolding mo by (auto split: if_splits)
    moreover have "map_of (by_key ix) k'' \<noteq> Some (?e, c'')" for k'' c''
      using D(6) [of k'' ?e c''] by auto
    ultimately show "k = k'" using D(7) [of k e c k' c'] by blast
  qed
qed

lemma index_remove_inv:
  assumes inv: "pi_inv n ix" and b: "index b < n"
  shows "\<exists>ix'. index_remove b ix = Some ix' \<and> pi_inv n ix' \<and> cached_as ix' = (cached_as ix)(b := None)
    \<and> next_entry ix' = next_entry ix"
proof -
  note D = pi_invD [OF inv]
  show ?thesis
  proof (cases "cached_as ix b")
    case None
    with b D(2) have slot: "by_block ix ! index b = None" by (simp add: cached_as_def)
    then have "(by_block ix)[index b := None] = by_block ix" by (metis list_update_id)
    with b D(2) slot have "index_remove b ix = Some ix" by (simp add: index_remove_def)
    with inv None show ?thesis by auto
  next
    case (Some x)
    obtain e k where x: "x = (e, k)" by (cases x)
    let ?ix = "ix\<lparr>by_block := (by_block ix)[index b := None], by_key := AList.delete k (by_key ix)\<rparr>"
    from Some x b D(2) have rm: "index_remove b ix = Some ?ix"
      by (simp add: index_remove_def cached_as_def)
    from Some x b D(5) have mk: "map_of (by_key ix) k = Some (e, b)" by simp
    have ca: "cached_as ?ix = (cached_as ix)(b := None)"
      using b D(2) by (auto simp: cached_as_def fun_eq_iff nth_list_update)
    have mo: "map_of (by_key ?ix) = (map_of (by_key ix))(k := None)" by (simp add: delete_conv')
    have "pi_inv n ?ix"
    proof (rule pi_invI)
      show "n < 2 ^ 32" "length (by_block ?ix) = n" "0 < next_entry ?ix" using D(1,2,4) by simp_all
      show "distinct (map fst (by_key ?ix))" using D(3) by (simp add: distinct_delete)
    next
      fix c e' k'
      assume "cached_as ?ix c = Some (e', k')"
      then have c: "cached_as ix c = Some (e', k')" "c \<noteq> b" by (auto simp: ca split: if_splits)
      with D(5) mk have "k' \<noteq> k" by fastforce
      with c D(5) show "map_of (by_key ?ix) k' = Some (e', c)" by (simp add: mo del: select_convs)
    next
      fix k' e' c
      assume "map_of (by_key ?ix) k' = Some (e', c)"
      then have c: "map_of (by_key ix) k' = Some (e', c)" "k' \<noteq> k"
        unfolding mo by (auto split: if_splits)
      with D(6) [OF c(1)] Some x have "c \<noteq> b" by auto
      with D(6) [OF c(1)] show "index c < n \<and> cached_as ?ix c = Some (e', k') \<and>
         entry_num (key_parent k') < entry_num e' \<and> entry_num e' < next_entry ?ix"
        unfolding ca by simp
    next
      fix k1 k2 e' c c'
      assume "map_of (by_key ?ix) k1 = Some (e', c)" "map_of (by_key ?ix) k2 = Some (e', c')"
      then have "map_of (by_key ix) k1 = Some (e', c)" "map_of (by_key ix) k2 = Some (e', c')"
        unfolding mo by (auto split: if_splits)
      then show "k1 = k2" by (rule D(7))
    qed
    with rm ca show ?thesis by auto
  qed
qed

section \<open>What an entry stands for\<close>

text \<open>
  \<open>E e\<close> is the whole token prefix that entry \<open>e\<close> was issued for. It is a record of the past:
  the parent of a cached block may have been evicted since. Soundness says every cached
  block's entry stands for its parent's prefix followed by its own tokens; an insertion only
  extends \<open>E\<close> at an entry that was never issued before.
\<close>

definition index_sound :: "(PrefixEntry \<Rightarrow> u32 list) \<Rightarrow> PrefixIndex \<Rightarrow> bool" where
  "index_sound E ix \<longleftrightarrow> E ROOT = [] \<and>
     (\<forall>b e k. cached_as ix b = Some (e, k) \<longrightarrow> E e = E (key_parent k) @ key_tokens k)"

lemma index_sound_new: "index_sound (\<lambda>_. []) (index_new n)"
  by (simp add: index_sound_def index_new_def cached_as_def)

lemma index_insert_sound:
  assumes inv: "pi_inv n ix" and snd: "index_sound E ix" and b: "index b < n"
    and p: "entry_num p < next_entry ix"
  shows "\<exists>e ix' E'. index_insert b p ts ix = Some (e, ix') \<and> pi_inv n ix' \<and> index_sound E' ix' \<and>
    (\<forall>x. entry_num x < next_entry ix \<longrightarrow> E' x = E x) \<and> entry_num e < next_entry ix' \<and>
    next_entry ix \<le> next_entry ix' \<and> (cached_as ix b = None \<longrightarrow> E' e = E p @ ts) \<and>
    (\<forall>c. c \<noteq> b \<longrightarrow> cached_as ix' c = cached_as ix c) \<and>
    (\<forall>x. cached_as ix b = Some x \<longrightarrow> cached_as ix' b = Some x) \<and>
    (cached_as ix b = None \<longrightarrow>
      cached_as ix' b \<in> {None, Some (e, \<lparr>key_parent = p, key_tokens = ts\<rparr>)})"
  using inv b
proof (cases rule: index_insert_cases [where p = p and ts = ts])
  case (own e k)
  with inv snd cached_as_less(3) [OF inv own(1)] show ?thesis
    by (intro exI [of _ e] exI [of _ ix] exI [of _ E]) simp
next
  case (other e b')
  with inv have c: "cached_as ix b' = Some (e, \<lparr>key_parent = p, key_tokens = ts\<rparr>)"
    by (simp add: lookup_cached)
  with snd have "E e = E p @ ts" by (auto simp: index_sound_def)
  with other inv snd cached_as_less(3) [OF inv c] show ?thesis
    by (intro exI [of _ e] exI [of _ ix] exI [of _ E]) simp
next
  case (fresh ix')
  let ?e = "PrefixEntry (next_entry ix)"
  let ?E = "E(?e := E p @ ts)"
  from index_insert_fresh_inv [OF inv b p fresh(1,2,4)]
  have inv': "pi_inv n ix'" and ca: "cached_as ix' =
      (cached_as ix)(b \<mapsto> (?e, \<lparr>key_parent = p, key_tokens = ts\<rparr>))" by auto
  have nx: "next_entry ix' = Suc (next_entry ix)" by (simp add: fresh(4))
  have old: "x \<noteq> ?e" if "entry_num x < next_entry ix" for x using that by auto
  have "index_sound ?E ix'"
    unfolding index_sound_def
  proof (intro conjI allI impI)
    show "?E ROOT = []"
      using snd pi_invD(4) [OF inv] by (simp add: index_sound_def ROOT_def)
  next
    fix c e k
    assume c: "cached_as ix' c = Some (e, k)"
    show "?E e = ?E (key_parent k) @ key_tokens k"
    proof (cases "c = b")
      case True
      with c old [OF p] show ?thesis by (auto simp: ca)
    next
      case False
      with c have c': "cached_as ix c = Some (e, k)" by (simp add: ca)
      have "entry_num (key_parent k) < next_entry ix" "entry_num e < next_entry ix"
        using cached_as_less [OF inv c'] by auto
      with old [of e] old [of "key_parent k"] snd c' show ?thesis by (simp add: index_sound_def)
    qed
  qed
  with fresh(1,3) inv' ca nx old show ?thesis
    by (intro exI [of _ ?e] exI [of _ ix'] exI [of _ ?E]) auto
qed

lemma index_remove_sound:
  assumes "index_sound E ix" "cached_as ix' = (cached_as ix)(b := None)"
  shows "index_sound E ix'"
  using assms by (auto simp: index_sound_def)

section \<open>The consistency check\<close>

lemma indexed_count:
  assumes inv: "pi_inv n ix"
  shows "length (filter (\<lambda>e. e \<noteq> None) (by_block ix)) = length (by_key ix)"
proof -
  let ?A = "{i. i < length (by_block ix) \<and> by_block ix ! i \<noteq> None}"
  let ?f = "\<lambda>i. snd (the (by_block ix ! i))"
  note D = pi_invD [OF inv]
  have key: "map_of (by_key ix) (?f i) = Some (fst (the (by_block ix ! i)), block_of i)"
    if "i \<in> ?A" for i
    using that D(1,2) D(5) [of "block_of i" "fst (the (by_block ix ! i))" "?f i"]
    by (auto simp: cached_as_def)
  have "bij_betw ?f ?A (dom (map_of (by_key ix)))"
  proof (rule bij_betw_imageI)
    show "inj_on ?f ?A"
    proof (rule inj_onI)
      fix i j
      assume ij: "i \<in> ?A" "j \<in> ?A" "?f i = ?f j"
      with key [of i] key [of j] have "block_of i = block_of j" by simp
      with ij D(1,2) show "i = j" by simp
    qed
    show "?f ` ?A = dom (map_of (by_key ix))"
    proof (intro equalityI subsetI)
      fix k
      assume "k \<in> dom (map_of (by_key ix))"
      then obtain e b where m: "map_of (by_key ix) k = Some (e, b)" by auto
      from D(6) [OF m] D(2) have "index b \<in> ?A" "?f (index b) = k"
        by (auto simp: cached_as_def split: if_splits)
      then show "k \<in> ?f ` ?A" by force
    qed (use key in auto)
  qed
  then have "card ?A = card (dom (map_of (by_key ix)))" by (rule bij_betw_same_card)
  also have "\<dots> = length (by_key ix)"
    using D(3) distinct_card [of "map fst (by_key ix)"] by (simp add: dom_map_of_conv_image_fst)
  finally show ?thesis by (simp add: length_filter_conv_card)
qed

lemma check_slots_ok:
  assumes "\<forall>(i, slot) \<in> set xs. \<forall>e k. slot = Some (e, k) \<longrightarrow>
    (\<exists>b. map_of (by_key ix) k = Some (e, b) \<and> index b = i)"
  shows "check_slots ix xs = Inr ()"
  using assms
proof (induction xs)
  case Nil
  then show ?case by simp
next
  case (Cons x xs)
  obtain i slot where "x = (i, slot)" by (cases x)
  with Cons show ?case by (cases slot) force+
qed

lemma index_check_ok:
  assumes inv: "pi_inv n ix"
  shows "index_check ix = Inr ()"
proof -
  note D = pi_invD [OF inv]
  have "check_slots ix (enumerate 0 (by_block ix)) = Inr ()"
  proof (rule check_slots_ok, clarify)
    fix i slot e k
    assume "(i, Some (e, k)) \<in> set (enumerate 0 (by_block ix))"
    then have "i < n" "by_block ix ! i = Some (e, k)"
      using D(2) by (auto simp: in_set_enumerate_eq)
    with D(1,2) D(5) [of "block_of i" e k]
    have "map_of (by_key ix) k = Some (e, block_of i)" "index (block_of i) = i"
      by (auto simp: cached_as_def)
    then show "\<exists>b. map_of (by_key ix) k = Some (e, b) \<and> index b = i" by blast
  qed
  with indexed_count [OF inv] show ?thesis by (simp only: index_check_def Let_def if_False simp_thms)
qed

section \<open>The contract\<close>

text \<open>
  The allocator sees the index through this interface: which block a lookup can return,
  and what insertion and removal do to it.
\<close>

text \<open>Following a chain of lookups, as long as they succeed.\<close>

fun chain_walk :: "(PrefixEntry \<Rightarrow> u32 list \<Rightarrow> (PrefixEntry \<times> BlockId) option) \<Rightarrow>
    PrefixEntry \<Rightarrow> u32 list list \<Rightarrow> (PrefixEntry \<times> BlockId) list" where
  "chain_walk lk e [] = []"
| "chain_walk lk e (c # cs) =
     (case lk e c of None \<Rightarrow> [] | Some (e', b) \<Rightarrow> (e', b) # chain_walk lk e' cs)"

locale content_index =
  fixes inv :: "nat \<Rightarrow> 'x \<Rightarrow> bool"
    and cached :: "'x \<Rightarrow> BlockId \<Rightarrow> (PrefixEntry \<times> Key) option"
    and lookup :: "'x \<Rightarrow> PrefixEntry \<Rightarrow> u32 list \<Rightarrow> (PrefixEntry \<times> BlockId) option"
    and insert :: "BlockId \<Rightarrow> PrefixEntry \<Rightarrow> u32 list \<Rightarrow> 'x \<Rightarrow> (PrefixEntry \<times> 'x) option"
    and remove :: "BlockId \<Rightarrow> 'x \<Rightarrow> 'x option"
    and nxt :: "'x \<Rightarrow> nat"
  assumes lookup_iff: "inv n ix \<Longrightarrow> lookup ix p ts = Some (e, b) \<longleftrightarrow>
      cached ix b = Some (e, \<lparr>key_parent = p, key_tokens = ts\<rparr>)"
    and cached_less: "inv n ix \<Longrightarrow> cached ix b = Some (e, k) \<Longrightarrow>
      index b < n \<and> entry_num (key_parent k) < entry_num e \<and> entry_num e < nxt ix"
    and insert_fresh: "inv n ix \<Longrightarrow> index b < n \<Longrightarrow> entry_num p < nxt ix \<Longrightarrow>
      cached ix b = None \<Longrightarrow> lookup ix p ts = None \<Longrightarrow>
      \<exists>ix'. insert b p ts ix = Some (PrefixEntry (nxt ix), ix') \<and> inv n ix' \<and>
        cached ix' = (cached ix)(b \<mapsto> (PrefixEntry (nxt ix), \<lparr>key_parent = p, key_tokens = ts\<rparr>))"
    and insert_known: "inv n ix \<Longrightarrow> index b < n \<Longrightarrow> cached ix b = None \<Longrightarrow>
      lookup ix p ts = Some (e, c) \<Longrightarrow> insert b p ts ix = Some (e, ix)"
    and remove_block: "inv n ix \<Longrightarrow> index b < n \<Longrightarrow>
      \<exists>ix'. remove b ix = Some ix' \<and> inv n ix' \<and> cached ix' = (cached ix)(b := None)"
begin

text \<open>A lookup after an insertion of an uncached block finds what the insertion returned.\<close>

lemma lookup_insert:
  assumes "inv n ix" "index b < n" "entry_num p < nxt ix" "cached ix b = None"
  shows "\<exists>e ix' c. insert b p ts ix = Some (e, ix') \<and> inv n ix' \<and> lookup ix' p ts = Some (e, c)"
proof (cases "lookup ix p ts")
  case None
  from insert_fresh [OF assms None] obtain ix' where
    "insert b p ts ix = Some (PrefixEntry (nxt ix), ix')" "inv n ix'"
    "cached ix' b = Some (PrefixEntry (nxt ix), \<lparr>key_parent = p, key_tokens = ts\<rparr>)" by auto
  then show ?thesis using lookup_iff by blast
next
  case (Some x)
  then show ?thesis using insert_known [OF assms(1,2,4)] assms(1) by (cases x) auto
qed

text \<open>After a removal the block is never returned again.\<close>

lemma lookup_remove:
  assumes "inv n ix" "index b < n"
  shows "\<exists>ix'. remove b ix = Some ix' \<and> (\<forall>p ts e. lookup ix' p ts \<noteq> Some (e, b))"
  using remove_block [OF assms] lookup_iff by fastforce

lemma chain_walk_cached:
  assumes "inv n ix" "i < length (chain_walk (lookup ix) e cs)"
  shows "cached ix (snd (chain_walk (lookup ix) e cs ! i)) =
    Some (fst (chain_walk (lookup ix) e cs ! i),
      \<lparr>key_parent = (if i = 0 then e else fst (chain_walk (lookup ix) e cs ! (i - 1))),
       key_tokens = cs ! i\<rparr>)"
  using assms(2)
proof (induction cs arbitrary: e i)
  case Nil
  then show ?case by simp
next
  case (Cons c cs)
  then obtain e' b where l: "lookup ix e c = Some (e', b)"
    by (auto split: option.splits)
  with assms(1) have cb: "cached ix b = Some (e', \<lparr>key_parent = e, key_tokens = c\<rparr>)"
    by (simp add: lookup_iff)
  show ?case
  proof (cases i)
    case 0
    with l cb show ?thesis by simp
  next
    case (Suc j)
    with Cons l show ?thesis by (cases j) auto
  qed
qed

lemma chain_walk_length: "length (chain_walk (lookup ix) e cs) \<le> length cs"
  by (induction cs arbitrary: e) (auto split: option.splits)

text \<open>Entries grow along a chain, so it never visits a block twice.\<close>

lemma chain_walk_sorted:
  assumes "inv n ix"
  shows "sorted_wrt (<) (entry_num e # map (entry_num \<circ> fst) (chain_walk (lookup ix) e cs))"
proof (induction cs arbitrary: e)
  case Nil
  then show ?case by simp
next
  case (Cons c cs)
  show ?case
  proof (cases "lookup ix e c")
    case None
    then show ?thesis by simp
  next
    case (Some x)
    obtain e' b where x: "x = (e', b)" by (cases x)
    with Some assms cached_less [of n ix b e'] have "entry_num e < entry_num e'"
      by (auto simp: lookup_iff)
    with Cons.IH [of e'] Some x show ?thesis by force
  qed
qed

lemma chain_walk_distinct:
  assumes "inv n ix"
  shows "distinct (map snd (chain_walk (lookup ix) e cs))"
proof -
  let ?w = "chain_walk (lookup ix) e cs"
  have "i = j" if "i < length ?w" "j < length ?w" "snd (?w ! i) = snd (?w ! j)" for i j
  proof -
    from chain_walk_cached [OF assms that(1)] chain_walk_cached [OF assms that(2)] that(3)
    have "map (entry_num \<circ> fst) ?w ! i = map (entry_num \<circ> fst) ?w ! j" using that by simp
    moreover have "distinct (map (entry_num \<circ> fst) ?w)"
      using chain_walk_sorted [OF assms, of e cs] by (simp add: strict_sorted_iff)
    ultimately show ?thesis using that nth_eq_iff_index_eq [of "map (entry_num \<circ> fst) ?w"] by simp
  qed
  then show ?thesis by (auto simp: distinct_conv_nth)
qed

text \<open>
  Exact matching: if every cached entry stands for its parent's prefix and its own tokens,
  the \<open>i\<close>-th block of a chain from \<open>e\<close> stands for \<open>e\<close>'s prefix and all tokens up to there.
\<close>

lemma chain_walk_exact:
  assumes "inv n ix"
    and sound: "\<And>b e k. cached ix b = Some (e, k) \<Longrightarrow> E e = E (key_parent k) @ key_tokens k"
    and "i < length (chain_walk (lookup ix) e cs)"
  shows "E (fst (chain_walk (lookup ix) e cs ! i)) = E e @ concat (take (Suc i) cs)"
  using assms(3)
proof (induction i)
  case 0
  then have "cs \<noteq> []" by auto
  with sound [OF chain_walk_cached [OF assms(1) 0]] show ?case by (cases cs) simp_all
next
  case (Suc i)
  then have "Suc i < length cs" using chain_walk_length [of ix e cs] by simp
  with Suc sound [OF chain_walk_cached [OF assms(1) Suc.prems]] show ?case
    by (simp add: take_Suc_conv_app_nth)
qed

text \<open>The chain stops at the first chunk whose lookup fails, and nowhere earlier.\<close>

lemma chain_walk_maximal:
  assumes "length (chain_walk (lookup ix) e cs) = m" "m < length cs"
  shows "lookup ix (if m = 0 then e else fst (chain_walk (lookup ix) e cs ! (m - 1))) (cs ! m) = None"
  using assms
proof (induction cs arbitrary: e m)
  case Nil
  then show ?case by simp
next
  case (Cons c cs)
  show ?case
  proof (cases "lookup ix e c")
    case None
    with Cons.prems show ?thesis by simp
  next
    case (Some x)
    obtain e' b where x: "x = (e', b)" by (cases x)
    with Some Cons.prems obtain m' where m: "m = Suc m'" "m' = length (chain_walk (lookup ix) e' cs)"
      by auto
    with Some x Cons.prems have "m' < length cs" by simp
    from Cons.IH [OF m(2) [symmetric] this] Some x m(1) show ?thesis by (cases m') simp_all
  qed
qed

end

interpretation idx: content_index pi_inv cached_as index_lookup index_insert index_remove next_entry
proof (unfold_locales, goal_cases)
  case (1 n ix p ts e b)
  then show ?case by (rule lookup_cached)
next
  case (2 n ix b e k)
  then show ?case using cached_as_less by blast
next
  case (3 n ix b p ts)
  then show ?case
    by (cases rule: index_insert_cases [OF 3(1,2), of p ts])
      (simp_all add: index_insert_fresh_inv [OF 3] del: fun_upd_apply)
next
  case (4 n ix b p ts e c)
  then show ?case by (cases rule: index_insert_cases [OF 4(1,2), of p ts]) simp_all
next
  case (5 n ix b)
  then show ?case using index_remove_inv by blast
qed

end
