(* ===== verification/Allocator.thy ===== *)
theory Allocator
  imports Config Lru_List Prefix_Index
begin

text \<open>
  The refcounted block pool with the optional prefix cache, \<open>allocator.rs\<close>. A block is owned
  (refcount positive), free (on the free list) or evictable (cached content, no owner). The
  operations come first, then the view of a state that the proofs use (\<open>cnt\<close>, \<open>cached\<close>,
  \<open>evictables\<close>), the invariant and what each operation does to the view.
\<close>

section \<open>The code\<close>

definition MAX_REFCOUNT :: u16 where
  "MAX_REFCOUNT = -1"

record PrefixCache =
  pc_index :: PrefixIndex
  pc_evictable :: Lru
  pc_evictions :: nat

record BlockAllocator =
  al_num_blocks :: nat
  free_list :: "BlockId list"
  ref_counts :: "u16 list"
  total_allocated :: nat
  al_cache :: "PrefixCache option"

record PrefixMatch =
  pm_blocks :: "BlockId list"
  pm_last_entry :: PrefixEntry
  pm_evictable :: nat

record CacheStats =
  cached_blocks :: nat
  evictable_blocks :: nat
  evictions :: nat

definition alloc_new :: "nat \<Rightarrow> BlockAllocator" where
  "alloc_new n = \<lparr>al_num_blocks = n, free_list = map block_of (rev [0..<n]),
     ref_counts = replicate n 0, total_allocated = 0, al_cache = None\<rparr>"

definition alloc_with_prefix_caching :: "nat \<Rightarrow> BlockAllocator" where
  "alloc_with_prefix_caching n = (alloc_new n)\<lparr>al_cache :=
     Some \<lparr>pc_index = index_new n, pc_evictable = lru_new n, pc_evictions = 0\<rparr>\<rparr>"

definition prefix_caching :: "BlockAllocator \<Rightarrow> bool" where
  "prefix_caching a \<longleftrightarrow> al_cache a \<noteq> None"

definition num_free :: "BlockAllocator \<Rightarrow> nat" where
  "num_free a = length (free_list a) +
     (case al_cache a of None \<Rightarrow> 0 | Some c \<Rightarrow> lru_len (pc_evictable c))"

definition num_used :: "BlockAllocator \<Rightarrow> nat" where
  "num_used a = usize_sub (al_num_blocks a) (num_free a)"

text \<open>\<open>Vec::pop\<close> takes the last element.\<close>

definition pop_back :: "'a list \<Rightarrow> ('a \<times> 'a list) option" where
  "pop_back xs = (if xs = [] then None else Some (last xs, butlast xs))"

definition evict :: "BlockAllocator \<Rightarrow> (BlockAllocator, BlockId) cache_res" where
  "evict a =
     (case al_cache a of
        None \<Rightarrow> Err (OutOfBlocks 1 0) a
      | Some c \<Rightarrow>
          unwrap_res (lru_pop_front (pc_evictable c)) (\<lambda>(popped, ev).
            case popped of
              None \<Rightarrow> Err (OutOfBlocks 1 0) (a\<lparr>al_cache := Some (c\<lparr>pc_evictable := ev\<rparr>)\<rparr>)
            | Some i \<Rightarrow>
                (let b = block_of i in
                 unwrap_res (index_remove b (pc_index c)) (\<lambda>ix.
                   Ok b (a\<lparr>al_cache := Some (c\<lparr>pc_index := ix, pc_evictable := ev,
                     pc_evictions := pc_evictions c + 1\<rparr>)\<rparr>)))))"

definition allocate :: "BlockAllocator \<Rightarrow> (BlockAllocator, BlockId) cache_res" where
  "allocate a =
     bind_res
       (case pop_back (free_list a) of
          Some (b, rest) \<Rightarrow> Ok b (a\<lparr>free_list := rest\<rparr>)
        | None \<Rightarrow> evict a)
       (\<lambda>b a. unwrap_res (set_at (ref_counts a) (index b) 1) (\<lambda>rcs.
          Ok b (a\<lparr>ref_counts := rcs, total_allocated := total_allocated a + 1\<rparr>)))"

fun allocate_loop ::
  "nat \<Rightarrow> BlockId list \<Rightarrow> BlockAllocator \<Rightarrow> (BlockAllocator, BlockId list) cache_res" where
  "allocate_loop 0 out a = Ok out a"
| "allocate_loop (Suc n) out a =
     bind_res (allocate a) (\<lambda>b a. allocate_loop n (out @ [b]) a)"

definition allocate_many :: "nat \<Rightarrow> BlockAllocator \<Rightarrow> (BlockAllocator, BlockId list) cache_res" where
  "allocate_many n a =
     (if num_free a < n then Err (OutOfBlocks n (num_free a)) a else allocate_loop n [] a)"

definition validate :: "BlockAllocator \<Rightarrow> BlockId \<Rightarrow> (unit, unit) cache_res" where
  "validate a b =
     (if al_num_blocks a \<le> index b then Err (InvalidBlock b (al_num_blocks a)) () else Ok () ())"

definition incref :: "BlockId \<Rightarrow> BlockAllocator \<Rightarrow> (BlockAllocator, nat) cache_res" where
  "incref b a =
     read_res (validate a b) a (\<lambda>_. unwrap_res (nth_at (ref_counts a) (index b)) (\<lambda>rc.
       if rc = 0 then Err (BlockNotAllocated b) a
       else if rc = MAX_REFCOUNT then Err (RefCountOverflow b (unat MAX_REFCOUNT)) a
       else Ok (unat (rc + 1)) (a\<lparr>ref_counts := (ref_counts a)[index b := rc + 1]\<rparr>)))"

definition decref :: "BlockId \<Rightarrow> BlockAllocator \<Rightarrow> (BlockAllocator, nat) cache_res" where
  "decref b a =
     read_res (validate a b) a (\<lambda>_. unwrap_res (nth_at (ref_counts a) (index b)) (\<lambda>rc.
       if rc = 0 then Err (BlockNotAllocated b) a
       else
         (let new = rc - 1; a = a\<lparr>ref_counts := (ref_counts a)[index b := new]\<rparr> in
          if new = 0 then
            (case al_cache a of
               None \<Rightarrow> Ok (unat new) (a\<lparr>free_list := free_list a @ [b]\<rparr>)
             | Some c \<Rightarrow> unwrap_res (index_is_cached (pc_index c) b) (\<lambda>cached.
                 if cached then
                   unwrap_res (lru_push_back (index b) (pc_evictable c)) (\<lambda>ev.
                     Ok (unat new) (a\<lparr>al_cache := Some (c\<lparr>pc_evictable := ev\<rparr>)\<rparr>))
                 else Ok (unat new) (a\<lparr>free_list := free_list a @ [b]\<rparr>)))
          else Ok (unat new) a)))"

definition decref_many :: "BlockId list \<Rightarrow> BlockAllocator \<Rightarrow> (BlockAllocator, unit) cache_res" where
  "decref_many ids a = for_each decref ids a"

definition ref_count :: "BlockAllocator \<Rightarrow> BlockId \<Rightarrow> (unit, nat) cache_res" where
  "ref_count a b =
     read_res (validate a b) () (\<lambda>_. unwrap_res (nth_at (ref_counts a) (index b)) (\<lambda>rc.
       Ok (unat rc) ()))"

definition is_shared :: "BlockAllocator \<Rightarrow> BlockId \<Rightarrow> (unit, bool) cache_res" where
  "is_shared a b = read_res (ref_count a b) () (\<lambda>rc. Ok (rc > 1) ())"

definition is_allocated :: "BlockAllocator \<Rightarrow> BlockId \<Rightarrow> (unit, bool) cache_res" where
  "is_allocated a b = read_res (ref_count a b) () (\<lambda>rc. Ok (rc > 0) ())"

text \<open>\<open>slice::chunks_exact\<close>: the whole chunks, the remainder left out.\<close>

function chunks_exact :: "nat \<Rightarrow> 'a list \<Rightarrow> 'a list list" where
  "chunks_exact n xs =
     (if n = 0 \<or> length xs < n then [] else take n xs # chunks_exact n (drop n xs))"
  by pat_completeness auto
termination
  by (relation "measure (\<lambda>(n, xs). length xs)") auto

declare chunks_exact.simps [simp del]

fun match_chunks :: "PrefixCache \<Rightarrow> PrefixMatch \<Rightarrow> u32 list list \<Rightarrow> PrefixMatch option" where
  "match_chunks c found [] = Some found"
| "match_chunks c found (chunk # chunks) =
     (case index_lookup (pc_index c) (pm_last_entry found) chunk of
        None \<Rightarrow> Some found
      | Some (entry, block) \<Rightarrow> do {
          ev \<leftarrow> lru_contains (pc_evictable c) (index block);
          match_chunks c (found\<lparr>pm_evictable := pm_evictable found + (if ev then 1 else 0),
            pm_blocks := pm_blocks found @ [block], pm_last_entry := entry\<rparr>) chunks })"

definition no_match :: PrefixMatch where
  "no_match = \<lparr>pm_blocks = [], pm_last_entry = ROOT, pm_evictable = 0\<rparr>"

definition match_prefix :: "BlockAllocator \<Rightarrow> u32 list \<Rightarrow> nat \<Rightarrow> PrefixMatch option" where
  "match_prefix a tokens bs =
     (case al_cache a of
        None \<Rightarrow> Some no_match
      | Some c \<Rightarrow> if bs = 0 then None else match_chunks c no_match (chunks_exact bs tokens))"

definition acquire_cached :: "BlockId \<Rightarrow> BlockAllocator \<Rightarrow> (BlockAllocator, nat) cache_res" where
  "acquire_cached b a =
     read_res (validate a b) a (\<lambda>_. unwrap_res (nth_at (ref_counts a) (index b)) (\<lambda>rc.
       if rc > 0 then incref b a
       else
         (case al_cache a of
            None \<Rightarrow> Err (BlockNotAllocated b) a
          | Some c \<Rightarrow> unwrap_res (lru_contains (pc_evictable c) (index b)) (\<lambda>ev.
              if ev then
                unwrap_res (lru_remove (index b) (pc_evictable c)) (\<lambda>l.
                  unwrap_res (set_at (ref_counts a) (index b) 1) (\<lambda>rcs.
                    Ok 1 (a\<lparr>ref_counts := rcs, al_cache := Some (c\<lparr>pc_evictable := l\<rparr>)\<rparr>)))
              else Err (BlockNotAllocated b) a))))"

definition cache_block :: "BlockId \<Rightarrow> PrefixEntry \<Rightarrow> u32 list \<Rightarrow> BlockAllocator \<Rightarrow>
    (BlockAllocator, PrefixEntry) cache_res" where
  "cache_block b parent tokens a =
     read_res (validate a b) a (\<lambda>_. unwrap_res (nth_at (ref_counts a) (index b)) (\<lambda>rc.
       if rc = 0 then Err (BlockNotAllocated b) a
       else
         (case al_cache a of
            None \<Rightarrow> Ok ROOT a
          | Some c \<Rightarrow> unwrap_res (index_insert b parent tokens (pc_index c)) (\<lambda>(entry, ix).
              Ok entry (a\<lparr>al_cache := Some (c\<lparr>pc_index := ix\<rparr>)\<rparr>)))))"

definition is_cached :: "BlockAllocator \<Rightarrow> BlockId \<Rightarrow> bool option" where
  "is_cached a b =
     (case al_cache a of
        None \<Rightarrow> Some False
      | Some c \<Rightarrow> if index b < al_num_blocks a then index_is_cached (pc_index c) b else Some False)"

definition cache_stats :: "BlockAllocator \<Rightarrow> CacheStats" where
  "cache_stats a =
     (case al_cache a of
        None \<Rightarrow> \<lparr>cached_blocks = 0, evictable_blocks = 0, evictions = 0\<rparr>
      | Some c \<Rightarrow> \<lparr>cached_blocks = index_len (pc_index c),
          evictable_blocks = lru_len (pc_evictable c), evictions = pc_evictions c\<rparr>)"

text \<open>
  The consistency check the tests run after every operation. A message is a constructor of
  \<open>CheckError\<close>, and an index out of range inside the check is \<open>CheckPanic\<close>.
\<close>

fun check_free :: "BlockAllocator \<Rightarrow> BlockId list \<Rightarrow> bool list \<Rightarrow> CheckError + bool list" where
  "check_free a [] seen = Inr seen"
| "check_free a (b # bs) seen =
     (let i = index b in
      if al_num_blocks a \<le> i then Inl (FreeOutOfRange b)
      else if length seen \<le> i \<or> length (ref_counts a) \<le> i then Inl CheckPanic
      else if seen ! i then Inl (FreeTwice b)
      else if ref_counts a ! i \<noteq> 0 then Inl (FreeButOwned b (unat (ref_counts a ! i)))
      else
        (case is_cached a b of
           None \<Rightarrow> Inl CheckPanic
         | Some True \<Rightarrow> Inl (FreeButCached b)
         | Some False \<Rightarrow> check_free a bs (seen[i := True])))"

fun check_evictable ::
  "BlockAllocator \<Rightarrow> PrefixIndex \<Rightarrow> nat list \<Rightarrow> bool list \<Rightarrow> CheckError + bool list" where
  "check_evictable a ix [] seen = Inr seen"
| "check_evictable a ix (i # its) seen =
     (if length seen \<le> i \<or> length (ref_counts a) \<le> i then Inl CheckPanic
      else if seen ! i then Inl (FreeAndEvictable i)
      else if ref_counts a ! i \<noteq> 0 then Inl (EvictableButOwned i (unat (ref_counts a ! i)))
      else
        (case index_is_cached ix (block_of i) of
           None \<Rightarrow> Inl CheckPanic
         | Some False \<Rightarrow> Inl (EvictableNotCached i)
         | Some True \<Rightarrow> check_evictable a ix its (seen[i := True])))"

fun check_counts :: "(nat \<times> u16 \<times> bool) list \<Rightarrow> CheckError + unit" where
  "check_counts [] = Inr ()"
| "check_counts ((i, rc, free) # rest) =
     (if rc = 0 \<and> \<not> free then Inl (NeitherFreeNorEvictable i) else check_counts rest)"

definition alloc_check :: "BlockAllocator \<Rightarrow> CheckError + unit" where
  "alloc_check a =
     (case check_free a (free_list a) (replicate (al_num_blocks a) False) of
        Inl e \<Rightarrow> Inl e
      | Inr seen \<Rightarrow>
          (case (case al_cache a of
                   None \<Rightarrow> Inr seen
                 | Some c \<Rightarrow>
                     (case lru_iter (pc_evictable c) of
                        None \<Rightarrow> Inl CheckPanic
                      | Some its \<Rightarrow>
                          (case check_evictable a (pc_index c) its seen of
                             Inl e \<Rightarrow> Inl e
                           | Inr seen \<Rightarrow>
                               (case index_check (pc_index c) of
                                  Inl e \<Rightarrow> Inl e
                                | Inr _ \<Rightarrow> Inr seen)))) of
             Inl e \<Rightarrow> Inl e
           | Inr seen \<Rightarrow> check_counts (enumerate 0 (zip (ref_counts a) seen))))"

section \<open>The view of a state\<close>

definition cnt :: "BlockAllocator \<Rightarrow> BlockId \<Rightarrow> nat" where
  "cnt a b = (if index b < al_num_blocks a then unat (ref_counts a ! index b) else 0)"

definition evictables :: "BlockAllocator \<Rightarrow> nat list" where
  "evictables a =
     (case al_cache a of
        None \<Rightarrow> []
      | Some c \<Rightarrow> (case lru_iter (pc_evictable c) of None \<Rightarrow> [] | Some xs \<Rightarrow> xs))"

definition cached :: "BlockAllocator \<Rightarrow> BlockId \<Rightarrow> (PrefixEntry \<times> Key) option" where
  "cached a b = (case al_cache a of None \<Rightarrow> None | Some c \<Rightarrow> cached_as (pc_index c) b)"

definition next_of :: "BlockAllocator \<Rightarrow> nat" where
  "next_of a = (case al_cache a of None \<Rightarrow> 1 | Some c \<Rightarrow> next_entry (pc_index c))"

definition cache_inv :: "BlockAllocator \<Rightarrow> bool" where
  "cache_inv a \<longleftrightarrow>
     (case al_cache a of
        None \<Rightarrow> True
      | Some c \<Rightarrow> lru_rel (al_num_blocks a) (pc_evictable c) (evictables a) \<and>
          pi_inv (al_num_blocks a) (pc_index c))"

definition alloc_inv :: "BlockAllocator \<Rightarrow> bool" where
  "alloc_inv a \<longleftrightarrow>
     al_num_blocks a < 2 ^ 32 \<and> length (ref_counts a) = al_num_blocks a \<and>
     distinct (free_list a) \<and> cache_inv a \<and>
     (\<forall>b \<in> set (free_list a). index b < al_num_blocks a \<and> cnt a b = 0 \<and> cached a b = None) \<and>
     (\<forall>i \<in> set (evictables a). cnt a (block_of i) = 0 \<and> cached a (block_of i) \<noteq> None) \<and>
     (\<forall>b. index b < al_num_blocks a \<and> cnt a b = 0 \<longrightarrow>
        b \<in> set (free_list a) \<or> index b \<in> set (evictables a))"

text \<open>What no operation of the pool changes.\<close>

definition same_pool :: "BlockAllocator \<Rightarrow> BlockAllocator \<Rightarrow> bool" where
  "same_pool a a' \<longleftrightarrow> al_num_blocks a' = al_num_blocks a \<and> prefix_caching a' = prefix_caching a"

lemma same_pool_refl [simp]: "same_pool a a"
  by (simp add: same_pool_def)

lemma same_pool_trans: "same_pool a b \<Longrightarrow> same_pool b c \<Longrightarrow> same_pool a c"
  by (simp add: same_pool_def)

lemma alloc_invD:
  assumes "alloc_inv a"
  shows "al_num_blocks a < 2 ^ 32" "length (ref_counts a) = al_num_blocks a"
    "distinct (free_list a)" "cache_inv a"
    "b \<in> set (free_list a) \<Longrightarrow> index b < al_num_blocks a \<and> cnt a b = 0 \<and> cached a b = None"
    "i \<in> set (evictables a) \<Longrightarrow> cnt a (block_of i) = 0 \<and> cached a (block_of i) \<noteq> None"
    "index b < al_num_blocks a \<Longrightarrow> cnt a b = 0 \<Longrightarrow>
       b \<in> set (free_list a) \<or> index b \<in> set (evictables a)"
  using assms by (auto simp: alloc_inv_def)

lemma cache_invD:
  assumes "cache_inv a"
  shows "al_cache a = Some c \<Longrightarrow> lru_rel (al_num_blocks a) (pc_evictable c) (evictables a)"
    "al_cache a = Some c \<Longrightarrow> pi_inv (al_num_blocks a) (pc_index c)"
    "distinct (evictables a)" "set (evictables a) \<subseteq> {..<al_num_blocks a}"
  using assms lru.rel_range
  by (auto simp: cache_inv_def evictables_def split: option.splits)

lemma evictables_eq:
  "al_cache a = Some c \<Longrightarrow> lru_rel n (pc_evictable c) xs \<Longrightarrow> evictables a = xs"
  by (simp add: evictables_def lru_rel_iter)

lemma evictables_None [simp]: "al_cache a = None \<Longrightarrow> evictables a = []"
  by (simp add: evictables_def)

lemma cached_None [simp]: "al_cache a = None \<Longrightarrow> cached a b = None"
  by (simp add: cached_def)

lemma cached_Some: "al_cache a = Some c \<Longrightarrow> cached a = cached_as (pc_index c)"
  by (simp add: cached_def fun_eq_iff)

lemma num_free_eq:
  assumes "alloc_inv a"
  shows "num_free a = length (free_list a) + length (evictables a)"
proof (cases "al_cache a")
  case None
  then show ?thesis by (simp add: num_free_def)
next
  case (Some c)
  with assms have "lru_rel (al_num_blocks a) (pc_evictable c) (evictables a)"
    by (blast dest: alloc_invD(4) cache_invD(1))
  with Some show ?thesis by (simp add: num_free_def lru_rel_len)
qed

lemma cnt_range: "0 < cnt a b \<Longrightarrow> index b < al_num_blocks a"
  by (simp add: cnt_def split: if_splits)

lemma cnt_bound: "cnt a b \<le> 65535"
proof -
  have "unat w < 2 ^ LENGTH(16)" for w :: u16 by (rule unsigned_less)
  then have "unat w \<le> 65535" for w :: u16 by (simp add: less_Suc_eq_le [symmetric])
  then show ?thesis by (simp add: cnt_def)
qed

lemma cached_range:
  assumes "alloc_inv a" "cached a b = Some x"
  shows "index b < al_num_blocks a"
proof -
  from assms(2) obtain c where c: "al_cache a = Some c" "cached_as (pc_index c) b = Some x"
    by (auto simp: cached_def split: option.splits)
  with cache_invD(2) [OF alloc_invD(4) [OF assms(1)] c(1)] show ?thesis
    using cached_as_range pi_invD(2) by fastforce
qed

text \<open>The blocks \<open>num_free\<close> counts are exactly those without an owner.\<close>

definition idle :: "BlockAllocator \<Rightarrow> BlockId set" where
  "idle a = {b. index b < al_num_blocks a \<and> cnt a b = 0}"

lemma finite_index_less [simp]: "finite {b. index b < n}"
proof -
  have "{b. index b < n} \<subseteq> block_of ` {..<n}"
  proof
    fix b assume "b \<in> {b. index b < n}"
    then have "b = block_of (index b)" "index b \<in> {..<n}" by simp_all
    then show "b \<in> block_of ` {..<n}" by (rule image_eqI)
  qed
  then show ?thesis by (rule finite_subset) simp
qed

lemma card_index_less [simp]:
  assumes "n \<le> 2 ^ 32"
  shows "card {b. index b < n} = n"
proof -
  have "bij_betw index {b. index b < n} {..<n}"
  proof (rule bij_betw_imageI)
    show "index ` {b. index b < n} = {..<n}"
    proof (intro equalityI subsetI)
      fix i assume "i \<in> {..<n}"
      with assms have "i = index (block_of i)" "block_of i \<in> {b. index b < n}" by simp_all
      then show "i \<in> index ` {b. index b < n}" by (rule image_eqI)
    qed auto
  qed (simp add: inj_on_def)
  from bij_betw_same_card [OF this] show ?thesis by simp
qed

lemma finite_idle [simp]: "finite (idle a)"
  by (rule finite_subset [OF _ finite_index_less [of "al_num_blocks a"]]) (auto simp: idle_def)

lemma idle_eq:
  assumes inv: "alloc_inv a"
  shows "idle a = set (free_list a) \<union> block_of ` set (evictables a)"
    and "set (free_list a) \<inter> block_of ` set (evictables a) = {}"
proof -
  note D = alloc_invD [OF inv] and C = cache_invD [OF alloc_invD(4) [OF inv]]
  show "set (free_list a) \<inter> block_of ` set (evictables a) = {}"
  proof (rule equals0I)
    fix b assume "b \<in> set (free_list a) \<inter> block_of ` set (evictables a)"
    then obtain i where "b \<in> set (free_list a)" "b = block_of i" "i \<in> set (evictables a)" by blast
    with D(5) [of b] D(6) [of i] show False by simp
  qed
  have "index (block_of i) < al_num_blocks a" if "i \<in> set (evictables a)" for i
    using that C(4) D(1) by auto
  moreover have "b \<in> set (free_list a) \<union> block_of ` set (evictables a)" if "b \<in> idle a" for b
  proof -
    from that have "b \<in> set (free_list a) \<or> index b \<in> set (evictables a)"
      using D(7) by (simp add: idle_def)
    then show ?thesis by (metis UnI1 UnI2 block_of_index imageI)
  qed
  ultimately show "idle a = set (free_list a) \<union> block_of ` set (evictables a)"
    using D(5) D(6) by (intro equalityI subsetI) (auto simp: idle_def)
qed

lemma num_free_card:
  assumes inv: "alloc_inv a"
  shows "num_free a = card (idle a)"
proof -
  note D = alloc_invD [OF inv] and C = cache_invD [OF alloc_invD(4) [OF inv]]
  have "inj_on block_of (set (evictables a))"
    using C(4) D(1) by (intro inj_on_subset [OF inj_on_block_of]) auto
  then have "card (block_of ` set (evictables a)) = length (evictables a)"
    using C(3) by (simp add: card_image distinct_card)
  then show ?thesis
    using idle_eq [OF inv] D(3)
    by (simp add: num_free_eq [OF inv] card_Un_disjoint distinct_card)
qed

lemma alloc_inv_new: "n < 2 ^ 32 \<Longrightarrow> alloc_inv (alloc_new n)"
proof -
  assume n: "n < 2 ^ 32"
  have "inj_on block_of (set (rev [0..<n]))"
    using n by (intro inj_on_subset [OF inj_on_block_of]) auto
  moreover have "b \<in> block_of ` {0..<n}" if "index b < n" for b
    using that by (metis atLeastLessThan_iff block_of_index imageI zero_le)
  ultimately show ?thesis
    using n by (auto simp: alloc_inv_def alloc_new_def cache_inv_def evictables_def cached_def
        cnt_def distinct_map)
qed

lemma alloc_inv_with_prefix_caching:
  assumes n: "n < 2 ^ 32"
  shows "alloc_inv (alloc_with_prefix_caching n)"
proof -
  let ?a = "alloc_with_prefix_caching n"
  have e: "evictables ?a = []"
    by (rule evictables_eq [where n = n and c = "\<lparr>pc_index = index_new n,
        pc_evictable = lru_new n, pc_evictions = 0\<rparr>"])
      (simp_all add: alloc_with_prefix_caching_def lru_rel_new [OF n])
  have c: "cached ?a b = None" for b
    by (simp add: alloc_with_prefix_caching_def cached_def index_new_def cached_as_def)
  have f: "free_list ?a = free_list (alloc_new n)" "cnt ?a = cnt (alloc_new n)"
    "al_num_blocks ?a = al_num_blocks (alloc_new n)" "ref_counts ?a = ref_counts (alloc_new n)"
    by (simp_all add: alloc_with_prefix_caching_def cnt_def fun_eq_iff)
  have "cache_inv ?a"
    using n e lru_rel_new [OF n] pi_inv_new [OF n]
    by (simp add: cache_inv_def alloc_with_prefix_caching_def alloc_new_def)
  have e': "evictables (alloc_new n) = []" by (simp add: alloc_new_def)
  note D = alloc_invD [OF alloc_inv_new [OF n]]
  show ?thesis
    unfolding alloc_inv_def f e
  proof (intro conjI ballI allI impI)
    show "b \<in> set (free_list (alloc_new n)) \<or> index b \<in> set []"
      if "index b < al_num_blocks (alloc_new n) \<and> cnt (alloc_new n) b = 0" for b
      using D(7) [of b] that e' by simp
  qed (use D(1-3) D(5) c \<open>cache_inv ?a\<close> in auto)
qed

section \<open>What the operations do to the view\<close>

lemma cnt_same:
  "al_num_blocks a' = al_num_blocks a \<Longrightarrow> ref_counts a' = ref_counts a \<Longrightarrow> cnt a' = cnt a"
  by (simp add: cnt_def fun_eq_iff)

lemma cnt_upd:
  "al_num_blocks a' = al_num_blocks a \<Longrightarrow> ref_counts a' = (ref_counts a)[index b := w] \<Longrightarrow>
   length (ref_counts a) = al_num_blocks a \<Longrightarrow> index b < al_num_blocks a \<Longrightarrow>
   cnt a' = (cnt a)(b := unat w)"
  by (auto simp: cnt_def fun_eq_iff nth_list_update)

lemma cache_same:
  assumes "al_cache a' = al_cache a"
  shows "evictables a' = evictables a" "cached a' = cached a" "next_of a' = next_of a"
    "al_num_blocks a' = al_num_blocks a \<Longrightarrow> cache_inv a' = cache_inv a"
    "prefix_caching a' = prefix_caching a"
proof -
  show e: "evictables a' = evictables a" "cached a' = cached a" "next_of a' = next_of a"
    "prefix_caching a' = prefix_caching a"
    using assms by (simp_all add: evictables_def cached_def next_of_def fun_eq_iff prefix_caching_def)
  show "cache_inv a' = cache_inv a" if "al_num_blocks a' = al_num_blocks a"
    using assms that by (simp add: cache_inv_def e split: option.split)
qed

text \<open>
  The effect of taking an idle block: it is owned once, no longer cached, and one block
  fewer is free. Everything else is as before.
\<close>

definition takes :: "BlockAllocator \<Rightarrow> BlockId \<Rightarrow> BlockAllocator \<Rightarrow> bool" where
  "takes a b a' \<longleftrightarrow> alloc_inv a' \<and> same_pool a a' \<and> b \<in> idle a \<and> cnt a' = (cnt a)(b := 1) \<and>
     next_of a' = next_of a"

lemma allocate_from_free_list:
  assumes inv: "alloc_inv a" and fl: "free_list a = fs @ [b]"
  shows "\<exists>a'. allocate a = Ok b a' \<and> takes a b a' \<and> cached a' = cached a \<and>
    evictables a' = evictables a \<and> free_list a' = fs"
proof -
  note D = alloc_invD [OF inv]
  have b: "index b < al_num_blocks a" "cnt a b = 0" "cached a b = None" using D(5) fl by auto
  have nb: "b \<notin> set fs" "distinct fs" using D(3) fl by auto
  let ?a = "a\<lparr>free_list := fs, ref_counts := (ref_counts a)[index b := 1],
    total_allocated := total_allocated a + 1\<rparr>"
  have al: "allocate a = Ok b ?a"
    using b(1) D(2) fl by (simp add: allocate_def pop_back_def)
  have c: "cnt ?a = (cnt a)(b := 1)" using cnt_upd [of ?a a b 1] b(1) D(2) by simp
  have ca: "al_cache ?a = al_cache a" by simp
  note cs = cache_same [OF ca]
  have nev: "index b \<notin> set (evictables a)" using D(6) [of "index b"] b(3) by auto
  have ev: "block_of i \<noteq> b" if "i \<in> set (evictables a)" for i
    using that D(6) [of i] b(3) by auto
  have "alloc_inv ?a"
    unfolding alloc_inv_def
  proof (intro conjI ballI allI impI)
    show "cache_inv ?a" using D(4) cs(4) by simp
  next
    fix x assume "x \<in> set (free_list ?a)"
    then have "x \<in> set (free_list a)" "x \<noteq> b" using fl nb by auto
    then show "index x < al_num_blocks ?a" "cnt ?a x = 0" "cached ?a x = None"
      using D(5) unfolding c cs(2) by auto
  next
    fix i assume "i \<in> set (evictables ?a)"
    then have "i \<in> set (evictables a)" unfolding cs(1) .
    then show "cnt ?a (block_of i) = 0" "cached ?a (block_of i) \<noteq> None"
      using D(6) ev unfolding c cs(2) by auto
  next
    fix x assume "index x < al_num_blocks ?a \<and> cnt ?a x = 0"
    then have "index x < al_num_blocks a" "cnt a x = 0" "x \<noteq> b"
      unfolding c by (auto split: if_splits)
    with D(7) [of x] fl show "x \<in> set (free_list ?a) \<or> index x \<in> set (evictables ?a)"
      unfolding cs(1) by auto
  qed (use D(1-2) nb in auto)
  with al c cs b show ?thesis
    by (intro exI [of _ ?a]) (simp add: takes_def same_pool_def idle_def)
qed

lemma allocate_by_eviction:
  assumes inv: "alloc_inv a" and fl: "free_list a = []" and ev: "evictables a = i # es"
  shows "\<exists>a'. allocate a = Ok (block_of i) a' \<and> takes a (block_of i) a' \<and>
    cached a' = (cached a)(block_of i := None) \<and> evictables a' = es \<and> free_list a' = [] \<and>
    evictions (cache_stats a') = evictions (cache_stats a) + 1"
proof -
  note D = alloc_invD [OF inv] and C = cache_invD [OF alloc_invD(4) [OF inv]]
  let ?b = "block_of i"
  from ev obtain c where c: "al_cache a = Some c" by (cases "al_cache a") auto
  from C(4) D(1) ev have i: "i < al_num_blocks a" "index ?b = i" "i < 2 ^ 32" by auto
  have es: "i \<notin> set es" "distinct es" using C(3) ev by auto
  from C(1) [OF c] ev obtain l' where l': "lru_pop_front (pc_evictable c) = Some (Some i, l')"
    "lru_rel (al_num_blocks a) l' es" using lru.rel_pop_Cons by metis
  from index_remove_inv [OF C(2) [OF c], of ?b] i obtain ix' where
    ix': "index_remove ?b (pc_index c) = Some ix'" "pi_inv (al_num_blocks a) ix'"
    "cached_as ix' = (cached_as (pc_index c))(?b := None)" "next_entry ix' = next_entry (pc_index c)"
    by auto
  let ?c = "c\<lparr>pc_index := ix', pc_evictable := l', pc_evictions := pc_evictions c + 1\<rparr>"
  let ?a = "a\<lparr>al_cache := Some ?c, ref_counts := (ref_counts a)[index ?b := 1],
    total_allocated := total_allocated a + 1\<rparr>"
  have al: "allocate a = Ok ?b ?a"
    using i D(2) fl c l' ix' by (simp add: allocate_def pop_back_def evict_def Let_def)
  have ct: "cnt ?a = (cnt a)(?b := 1)" using cnt_upd [of ?a a ?b 1] i D(2) by simp
  have e: "evictables ?a = es" by (rule evictables_eq [of _ ?c "al_num_blocks a"]) (simp_all add: l')
  have ca: "cached ?a = (cached a)(?b := None)"
    using c ix'(3) by (simp add: cached_def fun_eq_iff)
  have "alloc_inv ?a"
    unfolding alloc_inv_def
  proof (intro conjI ballI allI impI)
    show "cache_inv ?a" using l' ix' e by (simp add: cache_inv_def)
  next
    fix j assume "j \<in> set (evictables ?a)"
    then have j: "j \<in> set (evictables a)" "j \<noteq> i" using e ev es by auto
    then have "?b \<noteq> block_of j" using C(4) D(1) i by auto
    with D(6) [OF j(1)] show "cnt ?a (block_of j) = 0" "cached ?a (block_of j) \<noteq> None"
      unfolding ct ca by auto
  next
    fix x assume "index x < al_num_blocks ?a \<and> cnt ?a x = 0"
    then have "index x < al_num_blocks a" "cnt a x = 0" "x \<noteq> ?b"
      unfolding ct by (auto split: if_splits)
    moreover from \<open>x \<noteq> ?b\<close> have "index x \<noteq> i" by (metis block_of_index)
    ultimately show "x \<in> set (free_list ?a) \<or> index x \<in> set (evictables ?a)"
      using D(7) [of x] fl ev unfolding e by auto
  qed (use D(1-2) fl in auto)
  with al ct ca e c fl ix'(4) D(6) [of i] ev i show ?thesis
    by (intro exI [of _ ?a])
      (simp add: takes_def same_pool_def idle_def prefix_caching_def next_of_def cache_stats_def)
qed

lemma allocate_exhausted:
  assumes inv: "alloc_inv a" and fl: "free_list a = []" and ev: "evictables a = []"
  shows "allocate a = Err (OutOfBlocks 1 0) a"
proof (cases "al_cache a")
  case None
  with fl show ?thesis by (simp add: allocate_def pop_back_def evict_def)
next
  case (Some c)
  with cache_invD(1) [OF alloc_invD(4) [OF inv]] ev
  have "lru_pop_front (pc_evictable c) = Some (None, pc_evictable c)"
    by (auto intro: lru.rel_pop_Nil)
  moreover have "a\<lparr>al_cache := Some c\<rparr> = a" using Some by (cases a) simp
  ultimately show ?thesis using Some fl by (simp add: allocate_def pop_back_def evict_def)
qed

text \<open>Both sources of blocks together.\<close>

lemma allocate_ok:
  assumes inv: "alloc_inv a" and "0 < num_free a"
  shows "\<exists>b a'. allocate a = Ok b a' \<and> takes a b a' \<and> cached a' = (cached a)(b := None)"
proof (cases "free_list a" rule: rev_cases)
  case (snoc fs b)
  with alloc_invD(5) [OF inv, of b] have "(cached a)(b := None) = cached a" by auto
  with allocate_from_free_list [OF inv snoc] show ?thesis by metis
next
  case Nil
  with assms num_free_eq [OF inv] obtain i es where "evictables a = i # es"
    by (cases "evictables a") auto
  from allocate_by_eviction [OF inv Nil this] show ?thesis by blast
qed

lemma allocate_fails:
  assumes "alloc_inv a" "num_free a = 0"
  shows "allocate a = Err (OutOfBlocks 1 0) a"
  using assms by (intro allocate_exhausted) (simp_all add: num_free_eq)

lemma takes_num_free:
  assumes inv: "alloc_inv a" and t: "takes a b a'"
  shows "num_free a = Suc (num_free a')" "idle a' = idle a - {b}"
proof -
  from t have inv': "alloc_inv a'" and b: "b \<in> idle a" by (simp_all add: takes_def)
  show i: "idle a' = idle a - {b}"
    using t by (auto simp: takes_def idle_def same_pool_def split: if_splits)
  with card.remove [OF finite_idle b] have "card (idle a) = Suc (card (idle a'))" by simp
  then show "num_free a = Suc (num_free a')" by (simp add: num_free_card inv inv')
qed

lemma allocate_loop_ok:
  assumes "alloc_inv a" "n \<le> num_free a"
  shows "\<exists>bs a'. allocate_loop n out a = Ok (out @ bs) a' \<and> length bs = n \<and> distinct bs \<and>
    set bs \<subseteq> idle a \<and> alloc_inv a' \<and> same_pool a a' \<and>
    cnt a' = (\<lambda>b. if b \<in> set bs then 1 else cnt a b) \<and>
    cached a' = (\<lambda>b. if b \<in> set bs then None else cached a b) \<and> next_of a' = next_of a \<and>
    num_free a = num_free a' + n"
  using assms
proof (induction n arbitrary: a out)
  case 0
  then show ?case by (intro exI [of _ "[]"]) auto
next
  case (Suc n)
  then have "0 < num_free a" by simp
  with allocate_ok Suc.prems(1) obtain b a1 where b: "allocate a = Ok b a1" "takes a b a1"
    "cached a1 = (cached a)(b := None)" by blast
  note t = takes_num_free [OF Suc.prems(1) b(2)]
  from b(2) have i1: "alloc_inv a1" by (simp add: takes_def)
  from Suc.IH [OF i1, of "out @ [b]"] t(1) Suc.prems(2) obtain bs a' where
    l: "allocate_loop n (out @ [b]) a1 = Ok ((out @ [b]) @ bs) a'" "length bs = n" "distinct bs"
      "set bs \<subseteq> idle a1" "alloc_inv a'" "same_pool a1 a'"
      "cnt a' = (\<lambda>b. if b \<in> set bs then 1 else cnt a1 b)"
      "cached a' = (\<lambda>b. if b \<in> set bs then None else cached a1 b)" "next_of a' = next_of a1"
      "num_free a1 = num_free a' + n" by auto
  have "same_pool a a'" using b(2) l(6) same_pool_trans by (auto simp: takes_def)
  with b l t show ?case
    by (intro exI [of _ "b # bs"] exI [of _ a']) (auto simp: takes_def fun_eq_iff)
qed

lemma unat_MAX_REFCOUNT: "unat MAX_REFCOUNT = 65535"
  by (simp add: MAX_REFCOUNT_def unsigned_minus_1_eq_mask mask_eq_exp_minus_1)

lemma unat_incr: "w \<noteq> MAX_REFCOUNT \<Longrightarrow> unat (w + 1) = unat w + 1"
  using unatSuc [of w] by (metis MAX_REFCOUNT_def Suc_eq_plus1 add.commute eq_neg_iff_add_eq_0)

text \<open>Operations that only move counts: the cached content stays as it is.\<close>

definition recounts :: "BlockAllocator \<Rightarrow> (BlockId \<Rightarrow> nat) \<Rightarrow> BlockAllocator \<Rightarrow> bool" where
  "recounts a f a' \<longleftrightarrow> alloc_inv a' \<and> same_pool a a' \<and> cnt a' = f \<and> cached a' = cached a \<and>
     next_of a' = next_of a"

lemma recounts_trans: "recounts a f b \<Longrightarrow> recounts b g c \<Longrightarrow> recounts a g c"
  unfolding recounts_def using same_pool_trans by metis

lemma recounts_refl [simp]: "alloc_inv a \<Longrightarrow> recounts a (cnt a) a"
  by (simp add: recounts_def)

lemma incref_ok:
  assumes inv: "alloc_inv a" and c: "0 < cnt a b" "cnt a b < 65535"
  shows "\<exists>a'. incref b a = Ok (cnt a b + 1) a' \<and> recounts a ((cnt a)(b := cnt a b + 1)) a' \<and>
    free_list a' = free_list a \<and> evictables a' = evictables a"
proof -
  note D = alloc_invD [OF inv]
  have b: "index b < al_num_blocks a" using c(1) by (rule cnt_range)
  let ?rc = "ref_counts a ! index b"
  let ?a = "a\<lparr>ref_counts := (ref_counts a)[index b := ?rc + 1]\<rparr>"
  have rc: "unat ?rc = cnt a b" using b by (simp add: cnt_def)
  with c have ne: "?rc \<noteq> 0" "?rc \<noteq> MAX_REFCOUNT" using unat_MAX_REFCOUNT by auto
  have op: "incref b a = Ok (cnt a b + 1) ?a"
    using b D(2) ne unat_incr [OF ne(2)] rc by (simp add: incref_def validate_def)
  have ct: "cnt ?a = (cnt a)(b := cnt a b + 1)"
    using cnt_upd [of ?a a b "?rc + 1"] b D(2) unat_incr [OF ne(2)] rc by simp
  have ca: "al_cache ?a = al_cache a" by simp
  note cs = cache_same [OF ca]
  have "alloc_inv ?a"
    unfolding alloc_inv_def cs(1,2) ct using D(1-3) D(4) D(5) D(6) D(7) cs(4) c(1) by auto
  with op ct cs show ?thesis
    by (intro exI [of _ ?a]) (simp add: recounts_def same_pool_def)
qed

lemma decref_ok:
  assumes inv: "alloc_inv a" and c: "0 < cnt a b"
  shows "\<exists>a'. decref b a = Ok (cnt a b - 1) a' \<and> recounts a ((cnt a)(b := cnt a b - 1)) a' \<and>
    free_list a' = (if cnt a b = 1 \<and> cached a b = None then free_list a @ [b] else free_list a) \<and>
    evictables a' =
      (if cnt a b = 1 \<and> cached a b \<noteq> None then evictables a @ [index b] else evictables a)"
proof -
  note D = alloc_invD [OF inv] and C = cache_invD [OF alloc_invD(4) [OF inv]]
  have b: "index b < al_num_blocks a" using c by (rule cnt_range)
  let ?rc = "ref_counts a ! index b"
  let ?rcs = "(ref_counts a)[index b := ?rc - 1]"
  have rc: "unat ?rc = cnt a b" using b by (simp add: cnt_def)
  with c have ne: "?rc \<noteq> 0" by auto
  have rc1: "unat (?rc - 1) = cnt a b - 1" using unat_minus_one [OF ne] rc by simp
  have ct: "cnt x = (cnt a)(b := cnt a b - 1)"
    if "ref_counts x = ?rcs" "al_num_blocks x = al_num_blocks a" for x
    using cnt_upd [of x a b "?rc - 1"] that b D(2) rc1 by simp
  have nf: "b \<notin> set (free_list a)" "index b \<notin> set (evictables a)"
    using D(5) [of b] D(6) [of "index b"] c by auto
  have ev_ne: "block_of i \<noteq> b" if "i \<in> set (evictables a)" for i
    using that D(6) [of i] c by auto
  consider (many) "1 < cnt a b" | (free) "cnt a b = 1" "cached a b = None"
    | (evictable) cc where "cnt a b = 1" "cached a b \<noteq> None" "al_cache a = Some cc"
  proof (cases "cnt a b = 1")
    case True
    with that(2,3) show ?thesis by (cases "al_cache a"; cases "cached a b") auto
  next
    case False
    with c that(1) show ?thesis by simp
  qed
  then show ?thesis
  proof cases
    case many
    let ?a = "a\<lparr>ref_counts := ?rcs\<rparr>"
    have "?rc - 1 \<noteq> 0" using rc1 many by auto
    then have op: "decref b a = Ok (cnt a b - 1) ?a"
      using b D(2) ne rc1 by (simp add: decref_def validate_def Let_def)
    have ca: "al_cache ?a = al_cache a" by simp
    note cs = cache_same [OF ca]
    have ct': "cnt ?a = (cnt a)(b := cnt a b - 1)" by (rule ct) simp_all
    have "alloc_inv ?a"
      unfolding alloc_inv_def cs(1,2) ct'
      using D(1-3) D(4) D(5) D(6) D(7) cs(4) many nf ev_ne by auto
    with op ct' cs many show ?thesis
      by (intro exI [of _ ?a]) (simp add: recounts_def same_pool_def)
  next
    case free
    let ?a = "a\<lparr>ref_counts := ?rcs, free_list := free_list a @ [b]\<rparr>"
    have z: "?rc - 1 = 0" using rc1 free by (simp flip: unat_0_iff)
    have "index_is_cached (pc_index cc) b = Some False" if "al_cache a = Some cc" for cc
      using that free(2) b pi_invD(2) [OF C(2) [OF that]] by (simp add: index_is_cached_eq cached_def)
    then have op: "decref b a = Ok (cnt a b - 1) ?a"
      using b D(2) ne z free by (auto simp: decref_def validate_def Let_def split: option.split)
    have ca: "al_cache ?a = al_cache a" by simp
    note cs = cache_same [OF ca]
    have ct': "cnt ?a = (cnt a)(b := cnt a b - 1)" by (rule ct) simp_all
    have "alloc_inv ?a"
      unfolding alloc_inv_def cs(1,2) ct'
      using D(1-3) D(4) D(5) D(6) D(7) cs(4) free nf ev_ne b by (auto split: if_splits)
    with op ct' cs free show ?thesis
      by (intro exI [of _ ?a]) (simp add: recounts_def same_pool_def)
  next
    case evictable
    have z: "?rc - 1 = 0" using rc1 evictable by (simp flip: unat_0_iff)
    from lru.rel_push [OF C(1) [OF evictable(3)] b nf(2)] obtain l' where
      l': "lru_push_back (index b) (pc_evictable cc) = Some l'"
        "lru_rel (al_num_blocks a) l' (evictables a @ [index b])" by blast
    let ?c = "cc\<lparr>pc_evictable := l'\<rparr>"
    let ?a = "a\<lparr>ref_counts := ?rcs, al_cache := Some ?c\<rparr>"
    have "index_is_cached (pc_index cc) b = Some True"
      using evictable b pi_invD(2) [OF C(2) [OF evictable(3)]]
      by (simp add: index_is_cached_eq cached_def)
    then have op: "decref b a = Ok (cnt a b - 1) ?a"
      using b D(2) ne z evictable l' by (simp add: decref_def validate_def Let_def)
    have ct': "cnt ?a = (cnt a)(b := cnt a b - 1)" by (rule ct) simp_all
    have e: "evictables ?a = evictables a @ [index b]"
      by (rule evictables_eq [of _ ?c "al_num_blocks a"]) (simp_all add: l')
    have ca: "cached ?a = cached a" using evictable(3) by (simp add: cached_def fun_eq_iff)
    have "cache_inv ?a" using l' e C(2) [OF evictable(3)] by (simp add: cache_inv_def)
    then have "alloc_inv ?a"
      unfolding alloc_inv_def e ca ct'
      using D(1-3) D(5) D(6) D(7) evictable nf ev_ne b by (auto split: if_splits)
    with op ct' e ca evictable show ?thesis
      by (intro exI [of _ ?a]) (simp add: recounts_def same_pool_def prefix_caching_def next_of_def)
  qed
qed

lemma acquire_owned:
  assumes inv: "alloc_inv a" and c: "0 < cnt a b" "cnt a b < 65535"
  shows "\<exists>a'. acquire_cached b a = Ok (cnt a b + 1) a' \<and> recounts a ((cnt a)(b := cnt a b + 1)) a' \<and>
    free_list a' = free_list a \<and> evictables a' = evictables a"
proof -
  have b: "index b < al_num_blocks a" using c(1) by (rule cnt_range)
  with c have "ref_counts a ! index b \<noteq> 0" by (auto simp: cnt_def)
  then have "acquire_cached b a = incref b a"
    using b alloc_invD(2) [OF inv]
    by (simp add: acquire_cached_def validate_def word_neq_0_conv)
  with incref_ok [OF assms] show ?thesis by simp
qed

text \<open>Reclaiming an evictable block takes it off the order, and keeps its content.\<close>

lemma acquire_evictable:
  assumes inv: "alloc_inv a" and c: "cnt a b = 0" "cached a b \<noteq> None"
  shows "\<exists>a'. acquire_cached b a = Ok 1 a' \<and> recounts a ((cnt a)(b := 1)) a' \<and>
    free_list a' = free_list a \<and> evictables a' = remove1 (index b) (evictables a)"
proof -
  note D = alloc_invD [OF inv] and C = cache_invD [OF alloc_invD(4) [OF inv]]
  from c(2) obtain cc where cc: "al_cache a = Some cc" by (cases "al_cache a") auto
  from c(2) cached_range [OF inv] have b: "index b < al_num_blocks a" by auto
  have rc: "ref_counts a ! index b = 0" using b c(1) by (simp add: cnt_def unat_0_iff)
  have mem: "index b \<in> set (evictables a)" using D(5) [of b] D(7) [OF b c(1)] c(2) by auto
  from lru.rel_remove [OF C(1) [OF cc] mem] obtain l' where
    l': "lru_remove (index b) (pc_evictable cc) = Some l'"
      "lru_rel (al_num_blocks a) l' (remove1 (index b) (evictables a))" by blast
  let ?c = "cc\<lparr>pc_evictable := l'\<rparr>"
  let ?a = "a\<lparr>ref_counts := (ref_counts a)[index b := 1], al_cache := Some ?c\<rparr>"
  have op: "acquire_cached b a = Ok 1 ?a"
    using b D(2) rc cc l' mem lru.rel_contains [OF C(1) [OF cc] b]
    by (simp add: acquire_cached_def validate_def)
  have ct: "cnt ?a = (cnt a)(b := 1)" using cnt_upd [of ?a a b 1] b D(2) by simp
  have e: "evictables ?a = remove1 (index b) (evictables a)"
    by (rule evictables_eq [of _ ?c "al_num_blocks a"]) (simp_all add: l')
  have ca: "cached ?a = cached a" using cc by (simp add: cached_def fun_eq_iff)
  have ne: "block_of i \<noteq> b" if "i \<in> set (remove1 (index b) (evictables a))" for i
    using that C(3,4) D(1) by (auto simp: subset_iff)
  have "cache_inv ?a" using l' e C(2) [OF cc] by (simp add: cache_inv_def)
  then have "alloc_inv ?a"
    unfolding alloc_inv_def e ca ct
    using D(1-3) D(5) D(6) D(7) b ne c(2) by (auto simp: set_remove1_eq [OF C(3)] split: if_splits)
  with op ct e ca cc show ?thesis
    by (intro exI [of _ ?a]) (simp add: recounts_def same_pool_def prefix_caching_def next_of_def)
qed

lemma acquire_ok:
  assumes "alloc_inv a" "cached a b \<noteq> None" "cnt a b < 65535"
  shows "\<exists>a'. acquire_cached b a = Ok (cnt a b + 1) a' \<and> recounts a ((cnt a)(b := cnt a b + 1)) a'"
  using acquire_owned [of a b] acquire_evictable [of a b] assms by (cases "cnt a b = 0") auto

text \<open>
  Registering an owned block. With caching on, the returned entry stands for the parent's
  prefix and the block's tokens, and the block is cached under it unless another one is.
\<close>

definition alloc_sound :: "(PrefixEntry \<Rightarrow> u32 list) \<Rightarrow> BlockAllocator \<Rightarrow> bool" where
  "alloc_sound E a \<longleftrightarrow> E ROOT = [] \<and>
     (\<forall>b e k. cached a b = Some (e, k) \<longrightarrow> E e = E (key_parent k) @ key_tokens k)"

lemma alloc_sound_mono:
  assumes "alloc_sound E a" "\<And>b x. cached a' b = Some x \<Longrightarrow> cached a b = Some x"
  shows "alloc_sound E a'"
  using assms unfolding alloc_sound_def by blast

lemma cached_entry_less:
  assumes inv: "alloc_inv a" and c: "cached a b = Some (e, k)"
  shows "entry_num (key_parent k) < entry_num e" "entry_num e < next_of a"
proof -
  from c obtain cc where cc: "al_cache a = Some cc" "cached_as (pc_index cc) b = Some (e, k)"
    by (auto simp: cached_def split: option.splits)
  from cached_as_less [OF cache_invD(2) [OF alloc_invD(4) [OF inv] cc(1)] cc(2)] cc(1)
  show "entry_num (key_parent k) < entry_num e" "entry_num e < next_of a"
    by (simp_all add: next_of_def)
qed

lemma cache_block_ok:
  assumes inv: "alloc_inv a" and snd: "alloc_sound E a" and c: "0 < cnt a b"
    and caching: "prefix_caching a" and p: "entry_num p < next_of a" and uncached: "cached a b = None"
  shows "\<exists>e a' E'. cache_block b p ts a = Ok e a' \<and> alloc_inv a' \<and> alloc_sound E' a' \<and>
    same_pool a a' \<and> cnt a' = cnt a \<and> free_list a' = free_list a \<and> evictables a' = evictables a \<and>
    (\<forall>x. entry_num x < next_of a \<longrightarrow> E' x = E x) \<and> entry_num e < next_of a' \<and>
    next_of a \<le> next_of a' \<and> E' e = E p @ ts \<and>
    (\<forall>x. x \<noteq> b \<longrightarrow> cached a' x = cached a x) \<and>
    cached a' b \<in> {None, Some (e, \<lparr>key_parent = p, key_tokens = ts\<rparr>)} \<and>
    (\<exists>x. cached a' x = Some (e, \<lparr>key_parent = p, key_tokens = ts\<rparr>))"
proof -
  note D = alloc_invD [OF inv] and C = cache_invD [OF alloc_invD(4) [OF inv]]
  have b: "index b < al_num_blocks a" using c by (rule cnt_range)
  then have rc: "ref_counts a ! index b \<noteq> 0" using c by (auto simp: cnt_def)
  from caching obtain cc where cc: "al_cache a = Some cc" by (auto simp: prefix_caching_def)
  have ixs: "index_sound E (pc_index cc)"
    using snd cc by (simp add: index_sound_def alloc_sound_def cached_Some)
  have p': "entry_num p < next_entry (pc_index cc)" using p cc by (simp add: next_of_def)
  have ca0: "cached a = cached_as (pc_index cc)" by (rule cached_Some [OF cc])
  from index_insert_sound [OF C(2) [OF cc] ixs b p', of ts] uncached
  obtain e ix' E' where
    ins: "index_insert b p ts (pc_index cc) = Some (e, ix')" and inv': "pi_inv (al_num_blocks a) ix'"
    and snd': "index_sound E' ix'"
    and r: "\<forall>x. entry_num x < next_entry (pc_index cc) \<longrightarrow> E' x = E x"
      "entry_num e < next_entry ix'" "next_entry (pc_index cc) \<le> next_entry ix'" "E' e = E p @ ts"
    and co: "\<forall>x. x \<noteq> b \<longrightarrow> cached_as ix' x = cached a x"
      "cached_as ix' b \<in> {None, Some (e, \<lparr>key_parent = p, key_tokens = ts\<rparr>)}"
    unfolding ca0 by auto
  have "cached_as (pc_index cc) b = None" using uncached ca0 by simp
  from idx.lookup_insert [OF C(2) [OF cc] b p' this, of ts] ins
  obtain x where "index_lookup ix' p ts = Some (e, x)" by auto
  then have known: "cached_as ix' x = Some (e, \<lparr>key_parent = p, key_tokens = ts\<rparr>)"
    by (simp add: lookup_cached [OF inv'])
  let ?c = "cc\<lparr>pc_index := ix'\<rparr>"
  let ?a = "a\<lparr>al_cache := Some ?c\<rparr>"
  have op: "cache_block b p ts a = Ok e ?a"
    using b D(2) rc cc ins by (simp add: cache_block_def validate_def)
  have ct: "cnt ?a = cnt a" by (rule cnt_same) simp_all
  have e: "evictables ?a = evictables a"
    by (rule evictables_eq [of _ ?c "al_num_blocks a"]) (use C(1) [OF cc] in simp_all)
  have ca: "cached ?a = cached_as ix'" by (simp add: cached_def fun_eq_iff)
  have nf: "b \<notin> set (free_list a)" using D(5) [of b] c by auto
  have ev: "block_of i \<noteq> b" if "i \<in> set (evictables a)" for i using that D(6) [of i] c by auto
  have "cache_inv ?a" using C(1) [OF cc] e inv' by (simp add: cache_inv_def)
  then have "alloc_inv ?a"
    unfolding alloc_inv_def e ca ct
  proof (intro conjI ballI allI impI)
    fix x assume x: "x \<in> set (free_list ?a)"
    with nf have "x \<noteq> b" by auto
    with x D(5) [of x] co show "index x < al_num_blocks ?a" "cnt a x = 0" "cached_as ix' x = None"
      by auto
  next
    fix i assume i: "i \<in> set (evictables a)"
    with D(6) [OF i] co ev [OF i] show "cnt a (block_of i) = 0" "cached_as ix' (block_of i) \<noteq> None"
      by auto
  qed (use D(1-3) D(7) in auto)
  moreover have "alloc_sound E' ?a" using snd' ca by (simp add: alloc_sound_def index_sound_def)
  moreover have "\<exists>x. cached ?a x = Some (e, \<lparr>key_parent = p, key_tokens = ts\<rparr>)"
    using known unfolding ca by blast
  ultimately show ?thesis
    using op ct e ca co r cc
    by (intro exI [of _ e] exI [of _ ?a] exI [of _ E'])
      (simp add: same_pool_def prefix_caching_def next_of_def)
qed

lemma cache_block_disabled:
  assumes "alloc_inv a" "0 < cnt a b" "\<not> prefix_caching a"
  shows "cache_block b p ts a = Ok ROOT a"
proof -
  have b: "index b < al_num_blocks a" using assms(2) by (rule cnt_range)
  then have "ref_counts a ! index b \<noteq> 0" using assms(2) by (auto simp: cnt_def)
  with b assms alloc_invD(2) [OF assms(1)] show ?thesis
    by (simp add: cache_block_def validate_def prefix_caching_def)
qed

section \<open>The consistency check\<close>

text \<open>Marking a list of positions, all distinct and unmarked, never trips the check.\<close>

definition marked :: "nat set \<Rightarrow> bool list \<Rightarrow> bool" where
  "marked S seen \<longleftrightarrow> (\<forall>i < length seen. seen ! i \<longleftrightarrow> i \<in> S)"

lemma marked_upd: "marked S seen \<Longrightarrow> marked (insert i S) (seen[i := True])"
  by (cases "i < length seen") (auto simp: marked_def nth_list_update)

lemma is_cached_eq: "alloc_inv a \<Longrightarrow> is_cached a b = Some (cached a b \<noteq> None)"
proof (cases "al_cache a")
  case (Some c)
  moreover assume inv: "alloc_inv a"
  ultimately have "pi_inv (al_num_blocks a) (pc_index c)"
    using cache_invD(2) [OF alloc_invD(4) [OF inv]] by simp
  from pi_invD(2) [OF this] Some show ?thesis
    by (simp add: is_cached_def cached_def index_is_cached_eq) (simp add: cached_as_def)
qed (simp add: is_cached_def)

lemma check_free_ok:
  assumes inv: "alloc_inv a"
  shows "set bs \<subseteq> set (free_list a) \<Longrightarrow> distinct bs \<Longrightarrow> marked S seen \<Longrightarrow>
    length seen = al_num_blocks a \<Longrightarrow> S \<inter> index ` set bs = {} \<Longrightarrow>
    \<exists>seen'. check_free a bs seen = Inr seen' \<and> marked (S \<union> index ` set bs) seen' \<and>
      length seen' = al_num_blocks a"
proof (induction bs arbitrary: S seen)
  case Nil
  then show ?case by simp
next
  case (Cons b bs)
  let ?i = "index b"
  have b: "?i < al_num_blocks a" "cnt a b = 0" "cached a b = None"
    using alloc_invD(5) [OF inv, of b] Cons.prems(1) by auto
  have "insert ?i S \<inter> index ` set bs = {}" using Cons.prems(2,5) by auto
  from Cons.IH [OF _ _ marked_upd [OF Cons.prems(3)] _ this] Cons.prems(1,2,4) obtain seen' where
    "check_free a bs (seen[?i := True]) = Inr seen'"
    "marked (insert ?i S \<union> index ` set bs) seen'" "length seen' = al_num_blocks a" by auto
  moreover have "\<not> seen ! ?i" using Cons.prems(3-5) b(1) by (simp add: marked_def)
  moreover have "ref_counts a ! ?i = 0" using b(1,2) by (simp add: cnt_def unat_0_iff)
  ultimately show ?case
    using b Cons.prems(4) is_cached_eq [OF inv, of b] alloc_invD(2) [OF inv] by (simp add: Let_def)
qed

lemma check_evictable_ok:
  assumes inv: "alloc_inv a" and c: "al_cache a = Some c"
  shows "set xs \<subseteq> set (evictables a) \<Longrightarrow> distinct xs \<Longrightarrow> marked S seen \<Longrightarrow>
    length seen = al_num_blocks a \<Longrightarrow> S \<inter> set xs = {} \<Longrightarrow>
    \<exists>seen'. check_evictable a (pc_index c) xs seen = Inr seen' \<and> marked (S \<union> set xs) seen' \<and>
      length seen' = al_num_blocks a"
proof (induction xs arbitrary: S seen)
  case Nil
  then show ?case by simp
next
  case (Cons i xs)
  note C = cache_invD [OF alloc_invD(4) [OF inv]]
  have i: "i < al_num_blocks a" "cnt a (block_of i) = 0" "cached a (block_of i) \<noteq> None"
    using C(4) alloc_invD(6) [OF inv, of i] Cons.prems(1) by auto
  then have ib: "index (block_of i) = i" using alloc_invD(1) [OF inv] by simp
  have "insert i S \<inter> set xs = {}" using Cons.prems(2,5) by auto
  from Cons.IH [OF _ _ marked_upd [OF Cons.prems(3)] _ this] Cons.prems(1,2,4) obtain seen' where
    "check_evictable a (pc_index c) xs (seen[i := True]) = Inr seen'"
    "marked (insert i S \<union> set xs) seen'" "length seen' = al_num_blocks a" by auto
  moreover have "\<not> seen ! i" using Cons.prems(3-5) i(1) by (simp add: marked_def)
  moreover have "ref_counts a ! i = 0" using i(1,2) ib by (simp add: cnt_def unat_0_iff)
  moreover have "index_is_cached (pc_index c) (block_of i) = Some True"
    using i(1,3) ib c pi_invD(2) [OF C(2) [OF c]] by (simp add: index_is_cached_eq cached_def)
  ultimately show ?case using i(1) Cons.prems(4) alloc_invD(2) [OF inv] by simp
qed

lemma check_counts_ok:
  "(\<forall>(i, rc, free) \<in> set xs. rc = 0 \<longrightarrow> free) \<Longrightarrow> check_counts xs = Inr ()"
  by (induction xs rule: check_counts.induct) auto

lemma alloc_check_ok:
  assumes inv: "alloc_inv a"
  shows "alloc_check a = Inr ()"
proof -
  note D = alloc_invD [OF inv] and C = cache_invD [OF alloc_invD(4) [OF inv]]
  let ?n = "al_num_blocks a"
  let ?F = "index ` set (free_list a)"
  have "marked {} (replicate ?n False)" by (simp add: marked_def)
  from check_free_ok [OF inv order_refl D(3) this] obtain seen where
    f: "check_free a (free_list a) (replicate ?n False) = Inr seen" "marked ?F seen"
    "length seen = ?n" by auto
  have disj: "?F \<inter> set (evictables a) = {}"
  proof (rule equals0I)
    fix i assume "i \<in> ?F \<inter> set (evictables a)"
    then obtain b where "b \<in> set (free_list a)" "index b \<in> set (evictables a)" by auto
    with D(5) [of b] D(6) [of "index b"] show False by simp
  qed
  have fin: "check_counts (enumerate 0 (zip (ref_counts a) seen')) = Inr ()"
    if "marked (?F \<union> set (evictables a)) seen'" "length seen' = ?n" for seen'
  proof (rule check_counts_ok, intro ballI, clarsimp)
    fix i free
    assume "(i, 0, free) \<in> set (enumerate 0 (zip (ref_counts a) seen'))"
    then have i: "i < ?n" "ref_counts a ! i = 0" "free = seen' ! i"
      using that(2) D(2) by (auto simp: in_set_enumerate_eq)
    with D(1) have "index (block_of i) < ?n" "cnt a (block_of i) = 0" by (simp_all add: cnt_def)
    from D(7) [OF this] i D(1) have "i \<in> ?F \<union> set (evictables a)" by (metis UnI1 UnI2 imageI index_block_of order_less_trans)
    with that i show free by (simp add: marked_def)
  qed
  show ?thesis
  proof (cases "al_cache a")
    case None
    with f fin [of seen] show ?thesis by (simp add: alloc_check_def)
  next
    case (Some c)
    from C(1) [OF Some] have it: "lru_iter (pc_evictable c) = Some (evictables a)"
      by (rule lru_rel_iter)
    from check_evictable_ok [OF inv Some order_refl C(3) f(2,3) disj] obtain seen' where
      "check_evictable a (pc_index c) (evictables a) seen = Inr seen'"
      "marked (?F \<union> set (evictables a)) seen'" "length seen' = ?n" by auto
    with f fin [of seen'] it Some index_check_ok [OF C(2) [OF Some]] show ?thesis
      by (simp add: alloc_check_def)
  qed
qed

end
