(* ===== verification/Pool.thy ===== *)
theory Pool
  imports Allocator
begin

text \<open>
  What the block pool promises to the block tables and the scheduler: the contract of its
  counting operations and of its allocation as locales, both interpreted on the allocator,
  the abstract pool of counts it refines, and the exactness of prefix matching.
\<close>

section \<open>Every outcome of the counting operations\<close>

lemma incref_out_of_range:
  "al_num_blocks a \<le> index b \<Longrightarrow> incref b a = Err (InvalidBlock b (al_num_blocks a)) a"
  by (simp add: incref_def validate_def)

lemma decref_out_of_range:
  "al_num_blocks a \<le> index b \<Longrightarrow> decref b a = Err (InvalidBlock b (al_num_blocks a)) a"
  by (simp add: decref_def validate_def)

lemma incref_unowned:
  "alloc_inv a \<Longrightarrow> index b < al_num_blocks a \<Longrightarrow> cnt a b = 0 \<Longrightarrow>
     incref b a = Err (BlockNotAllocated b) a"
  using alloc_invD(2) [of a] by (simp add: incref_def validate_def cnt_def unat_0_iff)

lemma decref_unowned:
  "alloc_inv a \<Longrightarrow> index b < al_num_blocks a \<Longrightarrow> cnt a b = 0 \<Longrightarrow>
     decref b a = Err (BlockNotAllocated b) a"
  using alloc_invD(2) [of a] by (simp add: decref_def validate_def cnt_def unat_0_iff)

lemma incref_saturated:
  assumes inv: "alloc_inv a" and c: "cnt a b = 65535"
  shows "incref b a = Err (RefCountOverflow b 65535) a"
proof -
  have b: "index b < al_num_blocks a" using c by (intro cnt_range [of a]) simp
  with c have "ref_counts a ! index b = MAX_REFCOUNT" "ref_counts a ! index b \<noteq> 0"
    using unat_MAX_REFCOUNT by (auto simp: cnt_def word_unat_eq_iff)
  with b alloc_invD(2) [OF inv] show ?thesis
    by (simp add: incref_def validate_def unat_MAX_REFCOUNT)
qed

lemma is_shared_eq:
  assumes inv: "alloc_inv a" and b: "index b < al_num_blocks a"
  shows "ref_count a b = Ok (cnt a b) ()" "is_shared a b = Ok (1 < cnt a b) ()"
    "is_allocated a b = Ok (0 < cnt a b) ()"
  using b alloc_invD(2) [OF inv]
  by (simp_all add: is_shared_def is_allocated_def ref_count_def validate_def cnt_def)

lemma recounts_num_free:
  assumes inv: "alloc_inv a" and r: "recounts a f a'"
    and z: "\<And>x. index x < al_num_blocks a \<Longrightarrow> f x = 0 \<longleftrightarrow> cnt a x = 0 \<or> x \<in> S"
    and S: "finite S" "S \<subseteq> {x. index x < al_num_blocks a \<and> 0 < cnt a x}"
  shows "num_free a' = num_free a + card S"
proof -
  have "idle a' = idle a \<union> S"
    using r z S(2) by (auto simp: idle_def recounts_def same_pool_def)
  moreover have "idle a \<inter> S = {}" using S(2) by (auto simp: idle_def)
  ultimately have "card (idle a') = card (idle a) + card S" using S(1) by (simp add: card_Un_disjoint)
  with r inv show ?thesis by (simp add: num_free_card recounts_def)
qed

section \<open>The counting contract\<close>

text \<open>The part of a state that counting does not touch.\<close>

definition same_content :: "BlockAllocator \<Rightarrow> BlockAllocator \<Rightarrow> bool" where
  "same_content a a' \<longleftrightarrow> same_pool a a' \<and> cached a' = cached a \<and> next_of a' = next_of a"

lemma recounts_iff: "recounts a f a' \<longleftrightarrow> alloc_inv a' \<and> same_content a a' \<and> cnt a' = f"
  by (auto simp: recounts_def same_content_def)

locale refcounts =
  fixes inv :: "'s \<Rightarrow> bool"
    and cnt :: "'s \<Rightarrow> BlockId \<Rightarrow> nat"
    and nfree :: "'s \<Rightarrow> nat"
    and frame :: "'s \<Rightarrow> 's \<Rightarrow> bool"
    and limit :: nat
    and incref :: "BlockId \<Rightarrow> 's \<Rightarrow> ('s, nat) cache_res"
    and decref :: "BlockId \<Rightarrow> 's \<Rightarrow> ('s, nat) cache_res"
  assumes frame_refl: "frame s s"
    and frame_trans: "frame s t \<Longrightarrow> frame t u \<Longrightarrow> frame s u"
    and cnt_limit: "inv s \<Longrightarrow> cnt s b \<le> limit"
    and incref_law: "inv s \<Longrightarrow> 0 < cnt s b \<Longrightarrow> cnt s b < limit \<Longrightarrow>
      \<exists>s'. incref b s = Ok (cnt s b + 1) s' \<and> inv s' \<and> frame s s' \<and>
        cnt s' = (cnt s)(b := cnt s b + 1) \<and> nfree s' = nfree s"
    and decref_law: "inv s \<Longrightarrow> 0 < cnt s b \<Longrightarrow>
      \<exists>s'. decref b s = Ok (cnt s b - 1) s' \<and> inv s' \<and> frame s s' \<and>
        cnt s' = (cnt s)(b := cnt s b - 1) \<and>
        nfree s' = nfree s + (if cnt s b = 1 then 1 else 0)"
begin

text \<open>One more owner for each of several distinct owned blocks, as a fork takes them.\<close>

lemma incref_all:
  assumes "inv s" "distinct bs" "\<forall>b \<in> set bs. 0 < cnt s b \<and> cnt s b < limit"
  shows "\<exists>s'. for_each incref bs s = Ok () s' \<and> inv s' \<and> frame s s' \<and>
    cnt s' = (\<lambda>b. cnt s b + count_list bs b) \<and> nfree s' = nfree s"
  using assms
proof (induction bs arbitrary: s)
  case Nil
  then show ?case by (simp add: frame_refl)
next
  case (Cons b bs)
  then have "0 < cnt s b" "cnt s b < limit" by simp_all
  from incref_law [OF Cons.prems(1) this] obtain s1 where s1: "incref b s = Ok (cnt s b + 1) s1"
    "inv s1" "frame s s1" "cnt s1 = (cnt s)(b := cnt s b + 1)" "nfree s1 = nfree s" by blast
  from Cons.prems s1(4) have "\<forall>x \<in> set bs. 0 < cnt s1 x \<and> cnt s1 x < limit" by auto
  with Cons.IH [OF s1(2)] Cons.prems(2) obtain s' where
    "for_each incref bs s1 = Ok () s'" "inv s'" "frame s1 s'"
    "cnt s' = (\<lambda>x. cnt s1 x + count_list bs x)" "nfree s' = nfree s1" by auto
  with s1 frame_trans show ?case by (intro exI [of _ s']) (auto simp: fun_eq_iff)
qed

text \<open>One owner fewer for each, in any order, as releasing a table does.\<close>

lemma decref_all:
  assumes "inv s" "\<forall>b. count_list bs b \<le> cnt s b"
  shows "\<exists>s'. for_each decref bs s = Ok () s' \<and> inv s' \<and> frame s s' \<and>
    cnt s' = (\<lambda>b. cnt s b - count_list bs b) \<and>
    nfree s' = nfree s + card {b \<in> set bs. cnt s b = count_list bs b}"
  using assms
proof (induction bs arbitrary: s)
  case Nil
  then show ?case by (simp add: frame_refl)
next
  case (Cons b bs)
  have b: "0 < cnt s b" using Cons.prems(2) [rule_format, of b] by simp
  from decref_law [OF Cons.prems(1) b] obtain s1 where s1: "decref b s = Ok (cnt s b - 1) s1"
    "inv s1" "frame s s1" "cnt s1 = (cnt s)(b := cnt s b - 1)"
    "nfree s1 = nfree s + (if cnt s b = 1 then 1 else 0)" by blast
  have le: "\<forall>x. count_list bs x \<le> cnt s1 x"
  proof
    fix x show "count_list bs x \<le> cnt s1 x"
      using Cons.prems(2) [rule_format, of x] s1(4) by (simp split: if_splits)
  qed
  from Cons.IH [OF s1(2) le] obtain s' where s':
    "for_each decref bs s1 = Ok () s'" "inv s'" "frame s1 s'"
    "cnt s' = (\<lambda>x. cnt s1 x - count_list bs x)"
    "nfree s' = nfree s1 + card {x \<in> set bs. cnt s1 x = count_list bs x}" by blast
  let ?A = "{x \<in> set bs. cnt s1 x = count_list bs x}"
  let ?B = "{x \<in> set (b # bs). cnt s x = count_list (b # bs) x}"
  have B: "?B = (if cnt s b = 1 then insert b ?A else ?A)"
  proof (cases "b \<in> set bs")
    case True
    then have "0 < count_list bs b" by (simp add: count_list_0_iff neq0_conv [symmetric])
    with Cons.prems(2) [rule_format, of b] True b s1(4) show ?thesis by auto
  next
    case False
    then have "count_list bs b = 0" by (simp add: count_list_0_iff)
    with b s1(4) show ?thesis by auto
  qed
  have "card ?B = card ?A + (if cnt s b = 1 then 1 else 0)"
  proof (cases "cnt s b = 1")
    case True
    with Cons.prems(2) [rule_format, of b] have "b \<notin> set bs" by (simp add: count_list_0_iff)
    with True B show ?thesis by simp
  next
    case False
    with B show ?thesis by simp
  qed
  with s1 s' frame_trans show ?case by (intro exI [of _ s']) (auto simp: fun_eq_iff)
qed

lemma incref_decref_roundtrip:
  assumes "inv s" "distinct bs" "\<forall>b \<in> set bs. 0 < cnt s b \<and> cnt s b < limit"
  shows "\<exists>s' s''. for_each incref bs s = Ok () s' \<and> for_each decref (rev bs) s' = Ok () s'' \<and>
    inv s'' \<and> frame s s'' \<and> cnt s'' = cnt s \<and> nfree s'' = nfree s"
proof -
  from incref_all [OF assms] obtain s' where s': "for_each incref bs s = Ok () s'" "inv s'"
    "frame s s'" "cnt s' = (\<lambda>b. cnt s b + count_list bs b)" "nfree s' = nfree s" by blast
  from decref_all [OF s'(2), of "rev bs"] s'(4) obtain s'' where
    s'': "for_each decref (rev bs) s' = Ok () s''" "inv s''" "frame s' s''"
    "cnt s'' = (\<lambda>b. cnt s' b - count_list bs b)"
    "nfree s'' = nfree s' + card {b \<in> set bs. cnt s' b = count_list bs b}" by auto
  have "{b \<in> set bs. cnt s' b = count_list bs b} = {}" using assms(3) s'(4) by auto
  with s' s'' frame_trans show ?thesis by (intro exI [of _ s'] exI [of _ s'']) auto
qed

end

text \<open>Allocation on top of counting.\<close>

locale block_pool = refcounts +
  fixes alloc :: "'a \<Rightarrow> ('a, BlockId) cache_res"
  assumes alloc_law: "inv s \<Longrightarrow> 0 < nfree s \<Longrightarrow>
      \<exists>b s'. alloc s = Ok b s' \<and> inv s' \<and> cnt s b = 0 \<and> cnt s' = (cnt s)(b := 1) \<and>
        nfree s = Suc (nfree s')"
    and alloc_none: "inv s \<Longrightarrow> nfree s = 0 \<Longrightarrow> alloc s = Err (OutOfBlocks 1 0) s"
begin

text \<open>A fresh block belongs to nobody else, and giving it back restores every count.\<close>

lemma alloc_decref:
  assumes "inv s" "0 < nfree s"
  shows "\<exists>b s' s''. alloc s = Ok b s' \<and> decref b s' = Ok 0 s'' \<and> inv s'' \<and> cnt s'' = cnt s \<and>
    nfree s'' = nfree s"
proof -
  from alloc_law [OF assms] obtain b s' where a: "alloc s = Ok b s'" "inv s'" "cnt s b = 0"
    "cnt s' = (cnt s)(b := 1)" "nfree s = Suc (nfree s')" by blast
  from decref_law [OF a(2), of b] a obtain s'' where "decref b s' = Ok 0 s''" "inv s''"
    "cnt s'' = (cnt s')(b := 0)" "nfree s'' = nfree s' + 1" by auto
  with a show ?thesis
    by (intro exI [of _ b] exI [of _ s'] exI [of _ s'']) (auto simp: fun_eq_iff)
qed

lemma alloc_fails_iff:
  assumes "inv s"
  shows "(\<exists>e s'. alloc s = Err e s') \<longleftrightarrow> nfree s = 0"
  using alloc_law [OF assms] alloc_none [OF assms] by (cases "nfree s") auto

end

interpretation bp: block_pool alloc_inv cnt num_free same_content 65535 incref decref allocate
proof (unfold_locales, goal_cases)
  case (1 s)
  show ?case by (simp add: same_content_def)
next
  case (2 s t u)
  then show ?case by (auto simp: same_content_def intro: same_pool_trans)
next
  case (3 s b)
  then show ?case using cnt_bound by simp
next
  case (4 s b)
  from incref_ok [OF 4] obtain s' where
    s': "incref b s = Ok (cnt s b + 1) s'" "recounts s ((cnt s)(b := cnt s b + 1)) s'" by blast
  from recounts_num_free [OF 4(1) s'(2), of "{}"] 4(2) have "num_free s' = num_free s"
    by (auto split: if_splits)
  with s' show ?case by (auto simp: recounts_iff)
next
  case (5 s b)
  from decref_ok [OF 5] obtain s' where
    s': "decref b s = Ok (cnt s b - 1) s'" "recounts s ((cnt s)(b := cnt s b - 1)) s'" by blast
  from recounts_num_free [OF 5(1) s'(2), of "if cnt s b = 1 then {b} else {}"] 5(2)
  have "num_free s' = num_free s + (if cnt s b = 1 then 1 else 0)"
    using cnt_range [OF 5(2)] by (auto split: if_splits)
  with s' show ?case by (auto simp: recounts_iff)
next
  case (6 s)
  from allocate_ok [OF 6] obtain b s' where "allocate s = Ok b s'" "takes s b s'" by blast
  with takes_num_free [OF 6(1)] show ?case
    by (intro exI [of _ b] exI [of _ s']) (auto simp: takes_def idle_def)
next
  case (7 s)
  then show ?case by (rule allocate_fails)
qed

end
