(* ===== verification/Prefix_Match.thy ===== *)
theory Prefix_Match
  imports Pool
begin

text \<open>
  Prefix matching on the allocator: \<open>match_prefix\<close> is the chain of lookups of the content
  index over the whole chunks of the prompt, so it returns distinct blocks that stand for
  exactly the prompt's first tokens, and it stops only where no cached block continues.
\<close>

section \<open>Chunks\<close>

lemma chunks_exact_less: "length xs < n \<Longrightarrow> chunks_exact n xs = []"
  by (subst chunks_exact.simps) simp

lemma chunks_exact_step:
  "0 < n \<Longrightarrow> n \<le> length xs \<Longrightarrow> chunks_exact n xs = take n xs # chunks_exact n (drop n xs)"
  by (subst chunks_exact.simps) simp

lemma length_chunks_exact:
  assumes "0 < n"
  shows "length (chunks_exact n xs) = length xs div n"
proof (induction n xs rule: chunks_exact.induct)
  case (1 n xs)
  show ?case
  proof (cases "n = 0 \<or> length xs < n")
    case True
    then show ?thesis by (subst chunks_exact.simps) auto
  next
    case False
    with 1 have "length (chunks_exact n (drop n xs)) = (length xs - n) div n" by simp
    with False show ?thesis by (simp add: chunks_exact_step le_div_geq)
  qed
qed

lemma nth_chunks_exact:
  "i < length (chunks_exact n xs) \<Longrightarrow> chunks_exact n xs ! i = take n (drop (i * n) xs)"
proof (induction n xs arbitrary: i rule: chunks_exact.induct)
  case (1 n xs)
  show ?case
  proof (cases "n = 0 \<or> length xs < n")
    case True
    with "1.prems" have False by (subst (asm) chunks_exact.simps) auto
    then show ?thesis ..
  next
    case False
    with 1 show ?thesis by (cases i) (simp_all add: chunks_exact_step add.commute)
  qed
qed

lemma concat_take_chunks:
  "i \<le> length (chunks_exact n xs) \<Longrightarrow> concat (take i (chunks_exact n xs)) = take (i * n) xs"
proof (induction i)
  case 0
  then show ?case by simp
next
  case (Suc i)
  then have "concat (take (Suc i) (chunks_exact n xs)) = take (i * n) xs @ chunks_exact n xs ! i"
    by (simp add: take_Suc_conv_app_nth)
  also have "\<dots> = take (i * n) xs @ take n (drop (i * n) xs)"
    using Suc.prems by (simp add: nth_chunks_exact)
  also have "\<dots> = take (Suc i * n) xs"
    using take_add [of "i * n" n xs] by (simp only: mult_Suc add.commute)
  finally show ?case .
qed

section \<open>Matching is the chain of lookups\<close>

definition match_of ::
  "BlockAllocator \<Rightarrow> PrefixMatch \<Rightarrow> (PrefixEntry \<times> BlockId) list \<Rightarrow> PrefixMatch" where
  "match_of a found w = \<lparr>pm_blocks = pm_blocks found @ map snd w,
     pm_last_entry = (if w = [] then pm_last_entry found else fst (last w)),
     pm_evictable = pm_evictable found + length (filter (\<lambda>b. cnt a b = 0) (map snd w))\<rparr>"

lemma match_chunks_eq:
  assumes inv: "alloc_inv a" and c: "al_cache a = Some c"
  shows "match_chunks c found cs =
    Some (match_of a found (chain_walk (index_lookup (pc_index c)) (pm_last_entry found) cs))"
proof (induction cs arbitrary: found)
  case Nil
  then show ?case by (simp add: match_of_def)
next
  case (Cons chunk cs)
  note D = alloc_invD [OF inv] and C = cache_invD [OF alloc_invD(4) [OF inv]]
  show ?case
  proof (cases "index_lookup (pc_index c) (pm_last_entry found) chunk")
    case None
    then show ?thesis by (simp add: match_of_def)
  next
    case (Some x)
    obtain e b where x: "x = (e, b)" by (cases x)
    with Some lookup_cached [OF C(2) [OF c]] have cb: "cached a b \<noteq> None"
      by (auto simp: cached_def c)
    with cached_range [OF inv] have b: "index b < al_num_blocks a" by auto
    have ev: "index b \<in> set (evictables a) \<longleftrightarrow> cnt a b = 0"
    proof
      show "cnt a b = 0" if "index b \<in> set (evictables a)" using D(6) [OF that] by simp
      show "index b \<in> set (evictables a)" if "cnt a b = 0" using D(5) [of b] D(7) [OF b that] cb by auto
    qed
    have "lru_contains (pc_evictable c) (index b) = Some (cnt a b = 0)"
      using lru.rel_contains [OF C(1) [OF c] b] ev by simp
    with Some x Cons.IH show ?thesis by (simp add: match_of_def)
  qed
qed

text \<open>
  \<open>stands_for a E ts i b\<close>: block \<open>b\<close> is cached under an entry issued for the first
  \<open>i\<close> tokens of \<open>ts\<close>.
\<close>

definition stands_for ::
  "BlockAllocator \<Rightarrow> (PrefixEntry \<Rightarrow> u32 list) \<Rightarrow> u32 list \<Rightarrow> nat \<Rightarrow> BlockId \<Rightarrow> bool" where
  "stands_for a E ts n b \<longleftrightarrow> (\<exists>e k. cached a b = Some (e, k) \<and> E e = take n ts)"

lemma match_prefix_disabled:
  "al_cache a = None \<Longrightarrow> match_prefix a ts bs = Some no_match"
  by (simp add: match_prefix_def)

lemma match_prefix_ok:
  assumes inv: "alloc_inv a" and bs: "0 < bs" and snd: "alloc_sound E a"
  shows "\<exists>m. match_prefix a ts bs = Some m \<and> distinct (pm_blocks m) \<and>
    length (pm_blocks m) * bs \<le> length ts \<and>
    (\<forall>b \<in> set (pm_blocks m). cached a b \<noteq> None) \<and>
    pm_evictable m = length (filter (\<lambda>b. cnt a b = 0) (pm_blocks m)) \<and>
    entry_num (pm_last_entry m) < next_of a \<and>
    E (pm_last_entry m) = take (length (pm_blocks m) * bs) ts \<and>
    (\<forall>i < length (pm_blocks m). stands_for a E ts (Suc i * bs) (pm_blocks m ! i))"
proof (cases "al_cache a")
  case None
  then show ?thesis
    using snd by (simp add: match_prefix_def no_match_def ROOT_def next_of_def alloc_sound_def)
next
  case (Some c)
  note C = cache_invD [OF alloc_invD(4) [OF inv]]
  have pi: "pi_inv (al_num_blocks a) (pc_index c)" by (rule C(2) [OF Some])
  let ?cs = "chunks_exact bs ts"
  let ?w = "chain_walk (index_lookup (pc_index c)) ROOT ?cs"
  let ?m = "match_of a no_match ?w"
  have m: "match_prefix a ts bs = Some ?m"
    using match_chunks_eq [OF inv Some, of no_match ?cs] Some bs
    by (simp add: match_prefix_def no_match_def)
  have ca: "cached a = cached_as (pc_index c)" by (rule cached_Some [OF Some])
  have root: "E ROOT = []" "0 < next_of a"
    using snd pi_invD(4) [OF pi] Some by (simp_all add: alloc_sound_def next_of_def)
  have sound: "E e = E (key_parent k) @ key_tokens k" if "cached_as (pc_index c) b = Some (e, k)"
    for b e k using snd that by (simp add: alloc_sound_def ca)
  have len: "length ?w \<le> length ?cs" by (rule idx.chain_walk_length)
  then have lw: "length ?w * bs \<le> length ts"
    using length_chunks_exact [OF bs, of ts] by (metis div_times_less_eq_dividend le_trans mult_le_mono1)
  have nth: "cached a (snd (?w ! i)) = Some (fst (?w ! i), \<lparr>key_parent =
      (if i = 0 then ROOT else fst (?w ! (i - 1))), key_tokens = ?cs ! i\<rparr>)"
      "E (fst (?w ! i)) = take (Suc i * bs) ts" if "i < length ?w" for i
  proof -
    show "cached a (snd (?w ! i)) = Some (fst (?w ! i), \<lparr>key_parent =
        (if i = 0 then ROOT else fst (?w ! (i - 1))), key_tokens = ?cs ! i\<rparr>)"
      unfolding ca by (rule idx.chain_walk_cached [OF pi that])
    have "E (fst (?w ! i)) = E ROOT @ concat (take (Suc i) ?cs)"
      by (rule idx.chain_walk_exact [OF pi sound that])
    with root concat_take_chunks [of "Suc i" bs ts] that len
    show "E (fst (?w ! i)) = take (Suc i * bs) ts" by simp
  qed
  have "entry_num (pm_last_entry ?m) < next_of a \<and>
    E (pm_last_entry ?m) = take (length ?w * bs) ts"
  proof (cases "?w = []")
    case True
    then show ?thesis using root by (simp add: match_of_def no_match_def ROOT_def)
  next
    case False
    then have l: "length ?w - 1 < length ?w" by simp
    have e: "pm_last_entry ?m = fst (?w ! (length ?w - 1))"
      using False by (simp add: match_of_def last_conv_nth)
    have "E (pm_last_entry ?m) = take (length ?w * bs) ts"
      unfolding e using nth(2) [OF l] False by simp
    with cached_entry_less(2) [OF inv nth(1) [OF l]] e show ?thesis by simp
  qed
  then have last: "entry_num (pm_last_entry ?m) < next_of a"
    "E (pm_last_entry ?m) = take (length ?w * bs) ts" by simp_all
  have b: "pm_blocks ?m = map snd ?w" by (simp add: match_of_def no_match_def)
  have cb: "cached a x \<noteq> None" if "x \<in> set (map snd ?w)" for x
  proof -
    from that obtain i where "i < length ?w" "x = snd (?w ! i)" by (auto simp: in_set_conv_nth)
    with nth(1) [of i] show ?thesis by simp
  qed
  have di: "distinct (map snd ?w)" by (rule idx.chain_walk_distinct [OF pi])
  have sf: "stands_for a E ts (Suc i * bs) (map snd ?w ! i)" if "i < length ?w" for i
    using nth [OF that] that by (simp add: stands_for_def)
  have ev: "pm_evictable ?m = length (filter (\<lambda>b. cnt a b = 0) (map snd ?w))"
    by (simp add: match_of_def no_match_def)
  have lb: "length (pm_blocks ?m) = length ?w" by (simp add: b)
  show ?thesis
  proof (intro exI [of _ ?m] conjI ballI allI impI)
    show "match_prefix a ts bs = Some ?m" by (rule m)
    show "E (pm_last_entry ?m) = take (length (pm_blocks ?m) * bs) ts" using last(2) lb by simp
    show "pm_evictable ?m = length (filter (\<lambda>b. cnt a b = 0) (pm_blocks ?m))" using ev b by simp
    show "cached a x \<noteq> None" if "x \<in> set (pm_blocks ?m)" for x using cb that b by simp
    show "stands_for a E ts (Suc i * bs) (pm_blocks ?m ! i)" if "i < length (pm_blocks ?m)" for i
      using sf [of i] that lb b by simp
    show "distinct (pm_blocks ?m)" using di b by simp
    show "length (pm_blocks ?m) * bs \<le> length ts" using lw lb by simp
  qed (rule last(1))
qed

text \<open>Where the match ends, no cached block continues it.\<close>

lemma match_prefix_maximal:
  assumes inv: "alloc_inv a" and bs: "0 < bs" and m: "match_prefix a ts bs = Some m"
    and rest: "(length (pm_blocks m) + 1) * bs \<le> length ts" and caching: "prefix_caching a"
  shows "cached a b \<noteq> Some (e, \<lparr>key_parent = pm_last_entry m,
    key_tokens = take bs (drop (length (pm_blocks m) * bs) ts)\<rparr>)"
proof -
  from caching obtain c where c: "al_cache a = Some c" by (auto simp: prefix_caching_def)
  have pi: "pi_inv (al_num_blocks a) (pc_index c)" by (rule cache_invD(2) [OF alloc_invD(4) [OF inv] c])
  let ?cs = "chunks_exact bs ts"
  let ?w = "chain_walk (index_lookup (pc_index c)) ROOT ?cs"
  have m': "m = match_of a no_match ?w"
    using match_chunks_eq [OF inv c, of no_match ?cs] c bs m by (simp add: match_prefix_def no_match_def)
  then have l: "length ?w = length (pm_blocks m)" by (simp add: match_of_def no_match_def)
  have less: "length ?w < length ?cs"
    using rest bs by (simp add: l length_chunks_exact less_eq_div_iff_mult_less_eq Suc_le_eq [symmetric])
  from idx.chain_walk_maximal [OF refl less]
  have "index_lookup (pc_index c) (if length ?w = 0 then ROOT else fst (?w ! (length ?w - 1)))
    (?cs ! length ?w) = None" .
  moreover have "(if length ?w = 0 then ROOT else fst (?w ! (length ?w - 1))) = pm_last_entry m"
    by (auto simp: m' match_of_def no_match_def last_conv_nth)
  moreover have "?cs ! length ?w = take bs (drop (length ?w * bs) ts)"
    by (rule nth_chunks_exact [OF less])
  ultimately have "index_lookup (pc_index c) (pm_last_entry m)
    (take bs (drop (length (pm_blocks m) * bs) ts)) = None" by (simp add: l)
  with lookup_cached [OF pi, of "pm_last_entry m"
      "take bs (drop (length (pm_blocks m) * bs) ts)" e b]
  show ?thesis by (simp add: cached_Some [OF c])
qed

section \<open>Taking a matched prefix\<close>

lemma recounts_takes_num_free:
  assumes inv: "alloc_inv a" and r: "recounts a f a'"
    and z: "\<And>x. f x = 0 \<longleftrightarrow> cnt a x = 0 \<and> x \<notin> S"
  shows "num_free a = num_free a' + card (S \<inter> idle a)"
proof -
  have "idle a' = idle a - S"
    using r z by (auto simp: idle_def recounts_def same_pool_def)
  then have "idle a = idle a' \<union> (S \<inter> idle a)" "idle a' \<inter> (S \<inter> idle a) = {}" by auto
  then have "card (idle a) = card (idle a') + card (S \<inter> idle a)"
    by (metis card_Un_disjoint finite_Int finite_idle)
  with inv r show ?thesis by (simp add: num_free_card recounts_def)
qed

lemma acquire_all_ok:
  assumes "alloc_inv a" "distinct bs" "\<forall>b \<in> set bs. cached a b \<noteq> None \<and> cnt a b < 65535"
  shows "\<exists>a'. for_each acquire_cached bs a = Ok () a' \<and>
    recounts a (\<lambda>b. cnt a b + count_list bs b) a' \<and>
    num_free a = num_free a' + length (filter (\<lambda>b. cnt a b = 0) bs)"
  using assms
proof (induction bs arbitrary: a)
  case Nil
  then show ?case by simp
next
  case (Cons b bs)
  then have b: "cached a b \<noteq> None" "cnt a b < 65535" by simp_all
  from acquire_ok [OF Cons.prems(1) b] obtain a1 where a1:
    "acquire_cached b a = Ok (cnt a b + 1) a1" "recounts a ((cnt a)(b := cnt a b + 1)) a1" by blast
  have nf1: "num_free a = num_free a1 + (if cnt a b = 0 then 1 else 0)"
  proof -
    from cached_range [OF Cons.prems(1)] b(1) have "index b < al_num_blocks a" by auto
    then have "{b} \<inter> idle a = (if cnt a b = 0 then {b} else {})" by (auto simp: idle_def)
    moreover have "num_free a = num_free a1 + card ({b} \<inter> idle a)"
      by (rule recounts_takes_num_free [OF Cons.prems(1) a1(2)]) auto
    ultimately show ?thesis by simp
  qed
  from a1(2) have R: "alloc_inv a1" "cached a1 = cached a" "cnt a1 = (cnt a)(b := cnt a b + 1)"
    by (simp_all add: recounts_def)
  have "\<forall>x \<in> set bs. cached a1 x \<noteq> None \<and> cnt a1 x < 65535"
    using Cons.prems(2,3) R(2,3) by auto
  with Cons.IH [OF R(1)] Cons.prems(2) obtain a' where a':
    "for_each acquire_cached bs a1 = Ok () a'"
    "recounts a1 (\<lambda>x. cnt a1 x + count_list bs x) a'"
    "num_free a1 = num_free a' + length (filter (\<lambda>x. cnt a1 x = 0) bs)" by auto
  have f: "filter (\<lambda>x. cnt a1 x = 0) bs = filter (\<lambda>x. cnt a x = 0) bs"
    using Cons.prems(2) R(3) by (intro filter_cong) auto
  have c: "(\<lambda>x. cnt a1 x + count_list bs x) = (\<lambda>x. cnt a x + count_list (b # bs) x)"
    by (simp add: R(3) fun_eq_iff)
  have "recounts a (\<lambda>x. cnt a x + count_list (b # bs) x) a'"
    using recounts_trans [OF a1(2) a'(2)] c by simp
  with a1(1) a'(1,3) nf1 f show ?case by (intro exI [of _ a']) simp
qed

end
