(* ===== verification/Pool_Props.thy ===== *)
theory Pool_Props
  imports Prefix_Match
begin

text \<open>
  What the pool promises: it refines an abstract pool of counts, allocation of several blocks
  is all or nothing, released cached blocks are reclaimed oldest first, and a prefix match is
  exact and as long as it can be.
\<close>

section \<open>The abstract pool\<close>

datatype pool_op = PAlloc | PIncref BlockId | PDecref BlockId

datatype pool_out = Got BlockId | Count nat | Failed CacheError

fun pool_result :: "('a \<Rightarrow> pool_out) \<Rightarrow> (BlockAllocator, 'a) cache_res \<Rightarrow> (pool_out \<times> BlockAllocator) option" where
  "pool_result f (Ok x a) = Some (f x, a)"
| "pool_result f (Err e a) = Some (Failed e, a)"
| "pool_result f Panic = None"

definition pool_step :: "pool_op \<Rightarrow> BlockAllocator \<Rightarrow> (pool_out \<times> BlockAllocator) option" where
  "pool_step op a =
     (case op of
        PAlloc \<Rightarrow> pool_result Got (allocate a)
      | PIncref b \<Rightarrow> pool_result Count (incref b a)
      | PDecref b \<Rightarrow> pool_result Count (decref b a))"

fun pool_run :: "pool_op list \<Rightarrow> BlockAllocator \<Rightarrow> (pool_out list \<times> BlockAllocator) option" where
  "pool_run [] a = Some ([], a)"
| "pool_run (op # ops) a = do {
     (out, a) \<leftarrow> pool_step op a; (outs, a) \<leftarrow> pool_run ops a; Some (out # outs, a) }"

text \<open>
  The specification: \<open>n\<close> blocks, each with a number of owners. Allocation picks any block
  without one, and says so if there is none; counting is refused outside the range, on a
  block without an owner, and above \<open>65535\<close> owners, and then nothing changes.
\<close>

inductive spec_step :: "nat \<Rightarrow> pool_op \<Rightarrow> (BlockId \<Rightarrow> nat) \<Rightarrow> pool_out \<Rightarrow> (BlockId \<Rightarrow> nat) \<Rightarrow> bool" for n where
  got: "index b < n \<Longrightarrow> f b = 0 \<Longrightarrow> spec_step n PAlloc f (Got b) (f(b := 1))"
| exhausted: "(\<And>b. index b < n \<Longrightarrow> 0 < f b) \<Longrightarrow> spec_step n PAlloc f (Failed (OutOfBlocks 1 0)) f"
| increfs: "index b < n \<Longrightarrow> 0 < f b \<Longrightarrow> f b < 65535 \<Longrightarrow>
    spec_step n (PIncref b) f (Count (f b + 1)) (f(b := f b + 1))"
| saturated: "index b < n \<Longrightarrow> f b = 65535 \<Longrightarrow>
    spec_step n (PIncref b) f (Failed (RefCountOverflow b 65535)) f"
| decrefs: "index b < n \<Longrightarrow> 0 < f b \<Longrightarrow>
    spec_step n (PDecref b) f (Count (f b - 1)) (f(b := f b - 1))"
| unowned: "index b < n \<Longrightarrow> f b = 0 \<Longrightarrow> op = PIncref b \<or> op = PDecref b \<Longrightarrow>
    spec_step n op f (Failed (BlockNotAllocated b)) f"
| outside: "n \<le> index b \<Longrightarrow> op = PIncref b \<or> op = PDecref b \<Longrightarrow>
    spec_step n op f (Failed (InvalidBlock b n)) f"

inductive spec_run :: "nat \<Rightarrow> pool_op list \<Rightarrow> (BlockId \<Rightarrow> nat) \<Rightarrow> pool_out list \<Rightarrow> (BlockId \<Rightarrow> nat) \<Rightarrow> bool" for n where
  finished_run: "spec_run n [] f [] f"
| next_op: "spec_step n op f out g \<Longrightarrow> spec_run n ops g outs h \<Longrightarrow>
    spec_run n (op # ops) f (out # outs) h"

lemma pool_step_refines:
  assumes inv: "alloc_inv a"
  shows "\<exists>out a'. pool_step op a = Some (out, a') \<and> alloc_inv a' \<and> same_pool a a' \<and>
    spec_step (al_num_blocks a) op (cnt a) out (cnt a')"
proof (cases op)
  case PAlloc
  show ?thesis
  proof (cases "num_free a = 0")
    case True
    then have "idle a = {}" using num_free_card [OF inv] by simp
    then have all: "\<And>b. index b < al_num_blocks a \<Longrightarrow> 0 < cnt a b" by (auto simp: idle_def)
    have "spec_step (al_num_blocks a) PAlloc (cnt a) (Failed (OutOfBlocks 1 0)) (cnt a)"
      by (rule spec_step.exhausted) (rule all)
    with PAlloc inv allocate_fails [OF inv True] show ?thesis by (simp add: pool_step_def)
  next
    case False
    with allocate_ok [OF inv] obtain b a' where "allocate a = Ok b a'" "takes a b a'" by blast
    with PAlloc spec_step.got [of b "al_num_blocks a" "cnt a"] show ?thesis
      by (auto simp: pool_step_def takes_def idle_def)
  qed
next
  case (PIncref b)
  consider (out) "al_num_blocks a \<le> index b" | (zero) "index b < al_num_blocks a" "cnt a b = 0"
    | (full) "index b < al_num_blocks a" "cnt a b = 65535"
    | (ok) "index b < al_num_blocks a" "0 < cnt a b" "cnt a b < 65535"
    using cnt_bound [of a b] by linarith
  then show ?thesis
  proof cases
    case ok
    from incref_ok [OF inv ok(2,3)] PIncref spec_step.increfs [where f = "cnt a", OF ok]
    show ?thesis by (auto simp: pool_step_def recounts_def)
  qed (use PIncref inv incref_out_of_range incref_unowned incref_saturated
      in \<open>auto simp: pool_step_def intro: spec_step.intros\<close>)
next
  case (PDecref b)
  consider (out) "al_num_blocks a \<le> index b" | (zero) "index b < al_num_blocks a" "cnt a b = 0"
    | (ok) "index b < al_num_blocks a" "0 < cnt a b" by linarith
  then show ?thesis
  proof cases
    case ok
    from decref_ok [OF inv ok(2)] PDecref spec_step.decrefs [where f = "cnt a", OF ok]
    show ?thesis by (auto simp: pool_step_def recounts_def)
  qed (use PDecref inv decref_out_of_range decref_unowned
      in \<open>auto simp: pool_step_def intro: spec_step.intros\<close>)
qed

lemma pool_run_refines_from:
  "alloc_inv a \<Longrightarrow> \<exists>outs a'. pool_run ops a = Some (outs, a') \<and> alloc_inv a' \<and>
    spec_run (al_num_blocks a) ops (cnt a) outs (cnt a')"
proof (induction ops arbitrary: a)
  case Nil
  then show ?case by (auto intro: spec_run.finished_run)
next
  case (Cons op ops)
  from pool_step_refines [OF Cons.prems] obtain out a1 where 1: "pool_step op a = Some (out, a1)"
    "alloc_inv a1" "same_pool a a1" "spec_step (al_num_blocks a) op (cnt a) out (cnt a1)" by blast
  from Cons.IH [OF 1(2)] obtain outs a' where 2: "pool_run ops a1 = Some (outs, a')" "alloc_inv a'"
    "spec_run (al_num_blocks a1) ops (cnt a1) outs (cnt a')" by blast
  from 1(3) have "al_num_blocks a1 = al_num_blocks a" by (simp add: same_pool_def)
  with 1 2 spec_run.next_op show ?case by auto
qed

text \<open>
  C8: Refinement: any sequence of allocations, increments and decrements on a fresh pool, with
  or without the prefix cache, never panics, answers exactly as the abstract pool of counts
  may, errors included, and ends in a state the code's own consistency check accepts.
\<close>

theorem pool_refines_counts:
  assumes "n < 2 ^ 32" "a = alloc_new n \<or> a = alloc_with_prefix_caching n"
  shows "\<exists>outs a'. pool_run ops a = Some (outs, a') \<and> spec_run n ops (\<lambda>_. 0) outs (cnt a') \<and>
    alloc_check a' = Inr ()"
proof -
  have inv: "alloc_inv a"
    using assms alloc_inv_new alloc_inv_with_prefix_caching by auto
  have "cnt a = (\<lambda>_. 0)" "al_num_blocks a = n"
    using assms(2) by (auto simp: alloc_new_def alloc_with_prefix_caching_def cnt_def fun_eq_iff)
  with pool_run_refines_from [OF inv, of ops] alloc_check_ok show ?thesis by metis
qed

theorem pool_refines_counts_witness:
  "\<exists>outs a'. pool_run [PAlloc, PDecref (BlockId 0), PDecref (BlockId 0)] (alloc_new 1) = Some (outs, a') \<and>
    spec_run 1 [PAlloc, PDecref (BlockId 0), PDecref (BlockId 0)] (\<lambda>_. 0) outs (cnt a')"
  using pool_refines_counts [of 1 "alloc_new 1" "[PAlloc, PDecref (BlockId 0), PDecref (BlockId 0)]"]
  by auto

section \<open>Several blocks\<close>

text \<open>
  C26: \<open>allocate_many\<close> is all or nothing: with enough free blocks it returns that many distinct
  blocks nobody owned, each now owned once, and otherwise it reports how many are free and
  changes nothing.
\<close>

theorem allocate_many_all_or_nothing:
  assumes "alloc_inv a"
  shows "if n \<le> num_free a
    then \<exists>bs a'. allocate_many n a = Ok bs a' \<and> length bs = n \<and> distinct bs \<and>
      (\<forall>b \<in> set bs. index b < al_num_blocks a \<and> cnt a b = 0) \<and> alloc_inv a' \<and>
      cnt a' = (\<lambda>b. if b \<in> set bs then 1 else cnt a b) \<and> num_free a = num_free a' + n
    else allocate_many n a = Err (OutOfBlocks n (num_free a)) a"
proof (cases "n \<le> num_free a")
  case True
  from allocate_loop_ok [OF assms True, of "[]"] True show ?thesis
    by (auto simp: allocate_many_def idle_def)
next
  case False
  then show ?thesis by (simp add: allocate_many_def)
qed

theorem allocate_many_all_or_nothing_witness:
  "allocate_many 3 (alloc_new 2) = Err (OutOfBlocks 3 2) (alloc_new 2)"
proof -
  have "alloc_inv (alloc_new 2)" by (rule alloc_inv_new) simp
  moreover have "num_free (alloc_new 2) = 2" by code_simp
  ultimately show ?thesis using allocate_many_all_or_nothing [of "alloc_new 2" 3] by simp
qed

section \<open>Reclaim order\<close>

lemma decref_cached_order:
  assumes "alloc_inv a" "distinct bs" "\<forall>b \<in> set bs. cnt a b = 1 \<and> cached a b \<noteq> None"
  shows "\<exists>a'. decref_many bs a = Ok () a' \<and> alloc_inv a' \<and> free_list a' = free_list a \<and>
    evictables a' = evictables a @ map index bs"
  using assms unfolding decref_many_def
proof (induction bs arbitrary: a)
  case Nil
  then show ?case by simp
next
  case (Cons b bs)
  then have b: "0 < cnt a b" "cnt a b = 1" "cached a b \<noteq> None" by simp_all
  from decref_ok [OF Cons.prems(1) b(1)] b obtain a1 where a1: "decref b a = Ok 0 a1"
    "recounts a ((cnt a)(b := 0)) a1" "free_list a1 = free_list a"
    "evictables a1 = evictables a @ [index b]" by auto
  then have "\<forall>x \<in> set bs. cnt a1 x = 1 \<and> cached a1 x \<noteq> None"
    using Cons.prems(2,3) by (auto simp: recounts_def)
  with Cons.IH [of a1] a1 Cons.prems(2) show ?case by (auto simp: recounts_def)
qed

lemma allocate_loop_reclaims:
  "alloc_inv a \<Longrightarrow> free_list a = [] \<Longrightarrow> evictables a = map index bs \<Longrightarrow>
   \<exists>a'. allocate_loop (length bs) out a = Ok (out @ bs) a' \<and> alloc_inv a' \<and>
     cached a' = (\<lambda>b. if b \<in> set bs then None else cached a b) \<and> evictables a' = []"
proof (induction bs arbitrary: a out)
  case Nil
  then show ?case by simp
next
  case (Cons b bs)
  then obtain a1 where a1: "allocate a = Ok b a1" "takes a b a1" "cached a1 = (cached a)(b := None)"
    "evictables a1 = map index bs" "free_list a1 = []"
    using allocate_by_eviction [OF Cons.prems(1,2), of "index b" "map index bs"] by auto
  with Cons.IH [of a1 "out @ [b]"] show ?case by (auto simp: takes_def fun_eq_iff)
qed

text \<open>
  C27: Released cached blocks are reclaimed least recently released first: in a pool with no
  free block left, giving up the last reference to some cached blocks and allocating as many
  returns those very blocks in the order of their release, and none of them is cached
  afterwards.
\<close>

theorem reclaim_in_release_order:
  assumes "alloc_inv a" "num_free a = 0" "distinct bs"
    and "\<forall>b \<in> set bs. cnt a b = 1 \<and> cached a b \<noteq> None"
  shows "\<exists>a' a''. decref_many bs a = Ok () a' \<and> num_free a' = length bs \<and>
    allocate_many (length bs) a' = Ok bs a'' \<and> (\<forall>b \<in> set bs. is_cached a'' b = Some False)"
proof -
  have e: "free_list a = []" "evictables a = []" using assms(2) num_free_eq [OF assms(1)] by simp_all
  from decref_cached_order [OF assms(1,3,4)] e obtain a' where a': "decref_many bs a = Ok () a'"
    "alloc_inv a'" "free_list a' = []" "evictables a' = map index bs" by auto
  from allocate_loop_reclaims [OF a'(2-4), of "[]"] obtain a'' where
    a'': "allocate_loop (length bs) [] a' = Ok bs a''" "alloc_inv a''"
      "cached a'' = (\<lambda>b. if b \<in> set bs then None else cached a' b)" by auto
  have "num_free a' = length bs" using num_free_eq [OF a'(2)] a'(3,4) by simp
  with a' a'' is_cached_eq [OF a''(2)] show ?thesis by (auto simp: allocate_many_def)
qed

definition demo_cached :: BlockAllocator where
  "demo_cached = the (res_state (bind_res (allocate (alloc_with_prefix_caching 1))
     (\<lambda>b. cache_block b ROOT [7])))"

lemma demo_cached_inv: "alloc_inv demo_cached"
proof -
  let ?a = "alloc_with_prefix_caching 1"
  have inv: "alloc_inv ?a" by (rule alloc_inv_with_prefix_caching) simp
  have "0 < num_free ?a" by code_simp
  from allocate_ok [OF inv this] obtain b a1 where a1: "allocate ?a = Ok b a1" "takes ?a b a1"
    "cached a1 = (cached ?a)(b := None)" by blast
  have c0: "cached ?a = (\<lambda>_. None)"
    by (simp add: alloc_with_prefix_caching_def cached_def index_new_def cached_as_def fun_eq_iff)
  have snd: "alloc_sound (\<lambda>_. []) a1" using a1(3) c0 by (simp add: alloc_sound_def)
  have pc: "prefix_caching a1" "cnt a1 b = 1" "alloc_inv a1"
    using a1(2) by (simp_all add: takes_def same_pool_def prefix_caching_def alloc_with_prefix_caching_def)
  have "next_of ?a = 1" by code_simp
  then have "entry_num ROOT < next_of a1" using a1(2) by (simp add: takes_def ROOT_def)
  from cache_block_ok [OF pc(3) snd _ pc(1) this, of b "[7]"] pc(2) a1(3) obtain e a2 where
    "cache_block b ROOT [7] a1 = Ok e a2" "alloc_inv a2" by auto
  with a1(1) show ?thesis by (simp add: demo_cached_def)
qed

theorem reclaim_in_release_order_witness:
  "\<exists>a' a''. decref_many [BlockId 0] demo_cached = Ok () a' \<and>
    allocate_many 1 a' = Ok [BlockId 0] a'' \<and> is_cached a'' (BlockId 0) = Some False"
proof -
  have "num_free demo_cached = 0" by code_simp
  moreover have "cnt demo_cached (BlockId 0) = 1 \<and> cached demo_cached (BlockId 0) \<noteq> None"
    by code_simp
  ultimately show ?thesis
    using reclaim_in_release_order [OF demo_cached_inv, of "[BlockId 0]"] by auto
qed

section \<open>Prefix matching\<close>

text \<open>
  C18: A prefix match is exact: the matched blocks are distinct and cached, the \<open>i\<close>-th of them
  under an entry that stands for exactly the first \<open>i + 1\<close> blocks of the prompt, they cover no
  more than the prompt, and \<open>evictable\<close> counts those without an owner. And it is as long as it can
  be: when it ends before the prompt's last whole block, no block is cached for the next one
  after the entry the match ended at.
\<close>

theorem match_prefix_exact:
  assumes "alloc_inv a" "0 < bs" "alloc_sound E a"
  shows "\<exists>m. match_prefix a ts bs = Some m \<and> distinct (pm_blocks m) \<and>
    length (pm_blocks m) * bs \<le> length ts \<and>
    E (pm_last_entry m) = take (length (pm_blocks m) * bs) ts \<and>
    (\<forall>i < length (pm_blocks m). stands_for a E ts (Suc i * bs) (pm_blocks m ! i)) \<and>
    pm_evictable m = length (filter (\<lambda>b. cnt a b = 0) (pm_blocks m)) \<and>
    (prefix_caching a \<longrightarrow> (length (pm_blocks m) + 1) * bs \<le> length ts \<longrightarrow>
      (\<forall>b e. cached a b \<noteq> Some (e, \<lparr>key_parent = pm_last_entry m,
         key_tokens = take bs (drop (length (pm_blocks m) * bs) ts)\<rparr>)))"
  using match_prefix_ok [OF assms, of ts] match_prefix_maximal [OF assms(1,2)] by blast

theorem match_prefix_exact_witness:
  "\<exists>m. match_prefix demo_cached [7, 8] 1 = Some m \<and> distinct (pm_blocks m)"
proof -
  define E where "E e = (if e = ROOT then [] else [7 :: u32])" for e
  have c: "cached demo_cached b = (if b = BlockId 0
      then Some (PrefixEntry 1, \<lparr>key_parent = ROOT, key_tokens = [7]\<rparr>) else None)" for b
  proof (cases "cached demo_cached b")
    case None
    have "cached demo_cached (BlockId 0) =
      Some (PrefixEntry 1, \<lparr>key_parent = ROOT, key_tokens = [7]\<rparr>)" by code_simp
    with None show ?thesis by auto
  next
    case (Some x)
    have n: "al_num_blocks demo_cached = 1" by code_simp
    have "b = BlockId 0"
    proof -
      have "index b < al_num_blocks demo_cached" by (rule cached_range [OF demo_cached_inv Some])
      with n have "index b = index (BlockId 0)" by simp
      then show ?thesis by (simp only: index_inject)
    qed
    moreover have "cached demo_cached (BlockId 0) =
      Some (PrefixEntry 1, \<lparr>key_parent = ROOT, key_tokens = [7]\<rparr>)" by code_simp
    ultimately show ?thesis by simp
  qed
  have "alloc_sound E demo_cached" by (auto simp: alloc_sound_def c E_def ROOT_def split: if_splits)
  from match_prefix_exact [OF demo_cached_inv _ this, of 1 "[7, 8]"] show ?thesis by auto
qed

end
