(* ===== verification/Block_Table.thy ===== *)
theory Block_Table
  imports Pool "HOL-Library.Sublist"
begin

text \<open>
  A sequence's block table, \<open>block_table.rs\<close>: logical blocks in order, the number of tokens
  written, and copy-on-write of a shared tail block. An operation on a table and the
  allocator is a function on the pair.
\<close>

section \<open>The code\<close>

record BlockTable =
  bt_blocks :: "BlockId list"
  bt_tokens :: nat
  bt_block_size :: nat

record CowCopy =
  cow_src :: BlockId
  cow_dst :: BlockId

definition table_new :: "nat \<Rightarrow> BlockTable" where
  "table_new bs = \<lparr>bt_blocks = [], bt_tokens = 0, bt_block_size = bs\<rparr>"

definition for_config :: "CacheConfig \<Rightarrow> BlockTable" where
  "for_config config = table_new (block_size config)"

definition from_blocks :: "BlockId list \<Rightarrow> nat \<Rightarrow> BlockTable" where
  "from_blocks blocks bs =
     \<lparr>bt_blocks = blocks, bt_tokens = length blocks * bs, bt_block_size = bs\<rparr>"

definition last_block_has_room :: "BlockTable \<Rightarrow> bool option" where
  "last_block_has_room t =
     (if bt_blocks t = [] then Some False
      else if bt_block_size t = 0 then None
      else Some (bt_tokens t mod bt_block_size t \<noteq> 0))"

definition slot_for_position :: "BlockTable \<Rightarrow> nat \<Rightarrow> PhysicalSlot option" where
  "slot_for_position t position =
     (if bt_block_size t = 0 then None
      else do {
        b \<leftarrow> nth_at (bt_blocks t) (position div bt_block_size t);
        Some (new_slot b (position mod bt_block_size t)) })"

definition resolve :: "BlockTable \<Rightarrow> nat \<Rightarrow> (unit, PhysicalSlot) cache_res" where
  "resolve t position =
     (if bt_tokens t \<le> position then Err (SlotOutOfRange position (bt_tokens t)) ()
      else unwrap_res (slot_for_position t position) (\<lambda>slot. Ok slot ()))"

text \<open>\<open>self.blocks.last().expect(\<dots>)\<close>.\<close>

definition tail_block :: "BlockTable \<Rightarrow> BlockId option" where
  "tail_block t = (if bt_blocks t = [] then None else Some (last (bt_blocks t)))"

definition append_token :: "BlockTable \<times> BlockAllocator \<Rightarrow>
    (BlockTable \<times> BlockAllocator, PhysicalSlot \<times> CowCopy option) cache_res" where
  "append_token ta =
     (case ta of (t, a) \<Rightarrow>
       unwrap_res (last_block_has_room t) (\<lambda>room.
         bind_res
           (if room then
              unwrap_res (tail_block t) (\<lambda>tail.
                read_res (is_shared a tail) (t, a) (\<lambda>shared.
                  if shared then
                    bind_res (map_state (Pair t) (allocate a)) (\<lambda>fresh (t, a).
                      bind_res (map_state (Pair t) (decref tail a)) (\<lambda>_ (t, a).
                        Ok (Some \<lparr>cow_src = tail, cow_dst = fresh\<rparr>)
                          (t\<lparr>bt_blocks := butlast (bt_blocks t) @ [fresh]\<rparr>, a)))
                  else Ok None (t, a)))
            else
              bind_res (map_state (Pair t) (allocate a)) (\<lambda>fresh (t, a).
                Ok None (t\<lparr>bt_blocks := bt_blocks t @ [fresh]\<rparr>, a)))
           (\<lambda>cow (t, a). unwrap_res (slot_for_position t (bt_tokens t)) (\<lambda>slot.
              Ok (slot, cow) (t\<lparr>bt_tokens := bt_tokens t + 1\<rparr>, a)))))"

definition blocks_needed :: "BlockTable \<Rightarrow> BlockAllocator \<Rightarrow> nat \<Rightarrow> (unit, nat) cache_res" where
  "blocks_needed t a n =
     (if n = 0 then Ok 0 ()
      else
        unwrap_res (last_block_has_room t) (\<lambda>room.
          bind_res
            (if room then
               unwrap_res (tail_block t) (\<lambda>tail.
                 read_res (is_shared a tail) () (\<lambda>shared.
                   Ok (bt_block_size t - bt_tokens t mod bt_block_size t, shared) ()))
             else Ok (0, False) ())
            (\<lambda>(room_in_tail, needs_cow) _.
              unwrap_res (div_ceil (n - room_in_tail) (bt_block_size t)) (\<lambda>new_blocks.
                Ok (new_blocks + (if needs_cow then 1 else 0)) ()))))"

fun append_loop :: "nat \<Rightarrow> PhysicalSlot list \<Rightarrow> CowCopy list \<Rightarrow> BlockTable \<times> BlockAllocator \<Rightarrow>
    (BlockTable \<times> BlockAllocator, PhysicalSlot list \<times> CowCopy list) cache_res" where
  "append_loop 0 slots copies ta = Ok (slots, copies) ta"
| "append_loop (Suc n) slots copies ta =
     bind_res (append_token ta) (\<lambda>(slot, cow) ta.
       append_loop n (slots @ [slot]) (copies @ (case cow of None \<Rightarrow> [] | Some c \<Rightarrow> [c])) ta)"

definition append_many :: "nat \<Rightarrow> BlockTable \<times> BlockAllocator \<Rightarrow>
    (BlockTable \<times> BlockAllocator, PhysicalSlot list \<times> CowCopy list) cache_res" where
  "append_many n ta =
     (case ta of (t, a) \<Rightarrow>
       read_res (blocks_needed t a n) (t, a) (\<lambda>needed.
         let available = num_free a in
         if available < needed then Err (OutOfBlocks needed available) (t, a)
         else append_loop n [] [] (t, a)))"

definition fork_table :: "BlockTable \<Rightarrow> BlockAllocator \<Rightarrow> (BlockAllocator, BlockTable) cache_res" where
  "fork_table t a =
     bind_res (for_each incref (bt_blocks t) a) (\<lambda>_ a.
       Ok \<lparr>bt_blocks = bt_blocks t, bt_tokens = bt_tokens t, bt_block_size = bt_block_size t\<rparr> a)"

definition free_table :: "BlockTable \<Rightarrow> BlockAllocator \<Rightarrow> (BlockAllocator, unit) cache_res" where
  "free_table t a = for_each decref (rev (bt_blocks t)) a"

text \<open>
  The ownership check the tests run over all live tables. The owner counters are 32-bit words.
\<close>

fun tally_blocks :: "nat \<Rightarrow> BlockId list \<Rightarrow> u32 list \<Rightarrow> CheckError + u32 list" where
  "tally_blocks ti [] owners = Inr owners"
| "tally_blocks ti (b # bs) owners =
     (if index b < length owners
      then tally_blocks ti bs (owners[index b := owners ! index b + 1])
      else Inl (TableOutOfRange ti b))"

fun tally_tables :: "nat \<Rightarrow> BlockTable list \<Rightarrow> u32 list \<Rightarrow> CheckError + u32 list" where
  "tally_tables ti [] owners = Inr owners"
| "tally_tables ti (t # ts) owners =
     (case div_ceil (bt_tokens t) (bt_block_size t) of
        None \<Rightarrow> Inl CheckPanic
      | Some expected \<Rightarrow>
          if length (bt_blocks t) \<noteq> expected
          then Inl (TableLength ti (length (bt_blocks t)) expected)
          else
            (case tally_blocks ti (bt_blocks t) owners of
               Inl e \<Rightarrow> Inl e
             | Inr owners \<Rightarrow> tally_tables (ti + 1) ts owners))"

fun check_owner_counts :: "BlockAllocator \<Rightarrow> (nat \<times> u32) list \<Rightarrow> CheckError + unit" where
  "check_owner_counts a [] = Inr ()"
| "check_owner_counts a ((i, count) # rest) =
     (case ref_count a (block_of i) of
        Ok rc _ \<Rightarrow>
          if rc \<noteq> unat count then Inl (RefCountMismatch (block_of i) rc (unat count))
          else check_owner_counts a rest
      | Err e _ \<Rightarrow> Inl (RefCountError e)
      | Panic \<Rightarrow> Inl CheckPanic)"

definition check_ownership :: "BlockAllocator \<Rightarrow> BlockTable list \<Rightarrow> CheckError + unit" where
  "check_ownership a tables =
     (case alloc_check a of
        Inl e \<Rightarrow> Inl e
      | Inr _ \<Rightarrow>
          (case tally_tables 0 tables (replicate (al_num_blocks a) 0) of
             Inl e \<Rightarrow> Inl e
           | Inr owners \<Rightarrow> check_owner_counts a (enumerate 0 owners)))"

section \<open>Tables and owners\<close>

definition table_ok :: "nat \<Rightarrow> BlockTable \<Rightarrow> bool" where
  "table_ok bs t \<longleftrightarrow> 0 < bs \<and> bt_block_size t = bs \<and> distinct (bt_blocks t) \<and>
     length (bt_blocks t) = ceil_div (bt_tokens t) bs"

definition holds :: "BlockAllocator \<Rightarrow> BlockTable \<Rightarrow> bool" where
  "holds a t \<longleftrightarrow> (\<forall>b \<in> set (bt_blocks t). 0 < cnt a b)"

lemma table_okD:
  assumes "table_ok bs t"
  shows "0 < bs" "bt_block_size t = bs" "distinct (bt_blocks t)"
    "length (bt_blocks t) = ceil_div (bt_tokens t) bs"
  using assms by (simp_all add: table_ok_def)

lemma table_ok_new: "0 < bs \<Longrightarrow> table_ok bs (table_new bs)"
  by (simp add: table_ok_def table_new_def)

lemma table_ok_from_blocks: "0 < bs \<Longrightarrow> distinct xs \<Longrightarrow> table_ok bs (from_blocks xs bs)"
  by (simp add: table_ok_def from_blocks_def)

lemma length_blocks:
  assumes "table_ok bs t"
  shows "length (bt_blocks t) =
    bt_tokens t div bs + (if bt_tokens t mod bs = 0 then 0 else 1)"
proof -
  note D = table_okD [OF assms]
  have 1: "ceil_div (bt_tokens t) bs = bt_tokens t div bs + ceil_div (bt_tokens t mod bs) bs"
    using ceil_div_mult_add [OF D(1), of "bt_tokens t div bs" "bt_tokens t mod bs"] by simp
  have "ceil_div r bs = (if r = 0 then 0 else 1)" if r: "r < bs" for r
  proof (cases "r = 0")
    case False
    have "ceil_div r bs \<le> 1" using r ceil_div_le_iff [OF D(1), of r 1] by simp
    moreover have "0 < ceil_div r bs" using less_ceil_div_iff [OF D(1), of 0 r] False by simp
    ultimately show ?thesis using False by simp
  qed simp
  with 1 D(1,4) show ?thesis by simp
qed

lemma room_eq:
  assumes "table_ok bs t"
  shows "last_block_has_room t = Some (bt_tokens t mod bs \<noteq> 0)"
  using table_okD [OF assms] length_blocks [OF assms]
  by (auto simp: last_block_has_room_def split: if_splits)

lemma room_tail:
  assumes "table_ok bs t" "bt_tokens t mod bs \<noteq> 0"
  shows "bt_blocks t \<noteq> []" "tail_block t = Some (last (bt_blocks t))"
    "length (bt_blocks t) = Suc (bt_tokens t div bs)"
    "last (bt_blocks t) = bt_blocks t ! (bt_tokens t div bs)"
proof -
  show len: "length (bt_blocks t) = Suc (bt_tokens t div bs)"
    using length_blocks [OF assms(1)] assms(2) by simp
  then show ne: "bt_blocks t \<noteq> []" by auto
  then show "tail_block t = Some (last (bt_blocks t))" by (simp add: tail_block_def)
  show "last (bt_blocks t) = bt_blocks t ! (bt_tokens t div bs)"
    using len last_conv_nth [OF ne] by simp
qed

lemma resolve_ok:
  assumes "table_ok bs t" "i < bt_tokens t"
  shows "resolve t i = Ok (new_slot (bt_blocks t ! (i div bs)) (i mod bs)) ()"
    "i div bs < length (bt_blocks t)"
proof -
  note D = table_okD [OF assms(1)]
  show "i div bs < length (bt_blocks t)"
  proof -
    have "(i div bs) * bs < bt_tokens t"
      using div_times_less_eq_dividend [of i bs] assms(2) by (rule le_less_trans)
    then show ?thesis by (simp add: D(4) less_ceil_div_iff [OF D(1)])
  qed
  with D(1,2) assms(2) show "resolve t i = Ok (new_slot (bt_blocks t ! (i div bs)) (i mod bs)) ()"
    by (simp add: resolve_def slot_for_position_def)
qed

lemma resolve_unwritten:
  "bt_tokens t \<le> i \<Longrightarrow> resolve t i = Err (SlotOutOfRange i (bt_tokens t)) ()"
  by (simp add: resolve_def)

text \<open>Distinct positions of a table never share a slot.\<close>

lemma resolve_inj:
  assumes ok: "table_ok bs t" and i: "i < bt_tokens t" and j: "j < bt_tokens t"
    and eq: "resolve t i = resolve t j"
  shows "i = j"
proof -
  from eq resolve_ok [OF ok i] resolve_ok [OF ok j]
  have "bt_blocks t ! (i div bs) = bt_blocks t ! (j div bs)" "i mod bs = j mod bs"
    by (simp_all add: new_slot_def)
  with resolve_ok(2) [OF ok i] resolve_ok(2) [OF ok j] table_okD(3) [OF ok]
  have "i div bs = j div bs" by (simp add: nth_eq_iff_index_eq)
  with \<open>i mod bs = j mod bs\<close> show ?thesis by (metis div_mult_mod_eq)
qed

section \<open>Appending a token\<close>

text \<open>Free blocks an append takes: one for a new block or for the copy of a shared tail.\<close>

definition takes_block :: "BlockTable \<Rightarrow> BlockAllocator \<Rightarrow> bool" where
  "takes_block t a \<longleftrightarrow> bt_tokens t mod bt_block_size t = 0 \<or> 1 < cnt a (last (bt_blocks t))"

text \<open>
  The effect of an append: the table grows by one token, all earlier full blocks stay, the
  slot is the next position of a block nobody else owns and nobody has cached, references
  move from the old table to the new one, and cached content is only ever lost for the
  blocks that were idle.
\<close>

definition appended :: "nat \<Rightarrow> BlockTable \<Rightarrow> BlockAllocator \<Rightarrow> PhysicalSlot \<Rightarrow> CowCopy option \<Rightarrow>
    BlockTable \<Rightarrow> BlockAllocator \<Rightarrow> bool" where
  "appended bs t a slot cow t' a' \<longleftrightarrow>
     alloc_inv a' \<and> same_pool a a' \<and> next_of a' = next_of a \<and> table_ok bs t' \<and>
     bt_tokens t' = Suc (bt_tokens t) \<and>
     take (bt_tokens t div bs) (bt_blocks t') = take (bt_tokens t div bs) (bt_blocks t) \<and>
     slot = new_slot (bt_blocks t' ! (bt_tokens t div bs)) (bt_tokens t mod bs) \<and>
     cow = (if bt_tokens t mod bs \<noteq> 0 \<and> 1 < cnt a (last (bt_blocks t))
            then Some \<lparr>cow_src = last (bt_blocks t), cow_dst = ps_block slot\<rparr> else None) \<and>
     cnt a' (ps_block slot) = 1 \<and>
     (if takes_block t a then ps_block slot \<in> idle a \<and> num_free a = Suc (num_free a') \<and>
        cached a' = (cached a)(ps_block slot := None)
      else t' = t\<lparr>bt_tokens := Suc (bt_tokens t)\<rparr> \<and> a' = a \<and> ps_block slot = last (bt_blocks t)) \<and>
     (\<forall>b. cnt a' b + count_list (bt_blocks t) b = cnt a b + count_list (bt_blocks t') b) \<and>
     (\<forall>b. 0 < cnt a b \<longrightarrow> 0 < cnt a' b)"

lemma count_list_distinct: "distinct xs \<Longrightarrow> count_list xs b = (if b \<in> set xs then 1 else 0)"
  by (induction xs) auto

lemma holds_idle: "holds a t \<Longrightarrow> b \<in> idle a \<Longrightarrow> b \<notin> set (bt_blocks t)"
  by (auto simp: holds_def idle_def)

lemma append_in_place:
  assumes inv: "alloc_inv a" and ok: "table_ok bs t" and h: "holds a t" and n: "\<not> takes_block t a"
  shows "\<exists>slot t'. append_token (t, a) = Ok (slot, None) (t', a) \<and> appended bs t a slot None t' a"
proof -
  note D = table_okD [OF ok]
  from n D(2) have r: "bt_tokens t mod bs \<noteq> 0" and c: "\<not> 1 < cnt a (last (bt_blocks t))"
    by (simp_all add: takes_block_def)
  note T = room_tail [OF ok r]
  have tail: "0 < cnt a (last (bt_blocks t))" using h T(1) by (simp add: holds_def)
  note b = cnt_range [OF tail]
  let ?slot = "new_slot (last (bt_blocks t)) (bt_tokens t mod bs)"
  let ?t = "t\<lparr>bt_tokens := Suc (bt_tokens t)\<rparr>"
  have "slot_for_position t (bt_tokens t) = Some ?slot"
    using D(1,2) T(3,4) by (simp add: slot_for_position_def)
  then have op: "append_token (t, a) = Ok (?slot, None) (?t, a)"
    using r c T(2) is_shared_eq(2) [OF inv b] by (simp add: append_token_def room_eq [OF ok])
  have "table_ok bs ?t" using ok r D(1) by (simp add: table_ok_def ceil_div_Suc)
  with inv c n tail T have "appended bs t a ?slot None ?t a"
    by (auto simp: appended_def)
  with op show ?thesis by blast
qed

lemma append_fresh:
  assumes inv: "alloc_inv a" and ok: "table_ok bs t" and h: "holds a t"
    and r: "bt_tokens t mod bs = 0" and f: "0 < num_free a"
  shows "\<exists>slot t' a'. append_token (t, a) = Ok (slot, None) (t', a') \<and>
    appended bs t a slot None t' a'"
proof -
  note D = table_okD [OF ok]
  from allocate_ok [OF inv f] obtain b a' where al: "allocate a = Ok b a'" "takes a b a'"
    "cached a' = (cached a)(b := None)" by blast
  note F = takes_num_free(1) [OF inv al(2)]
  have new: "b \<in> idle a" "b \<notin> set (bt_blocks t)"
    using al(2) holds_idle [OF h] by (simp_all add: takes_def)
  have len: "length (bt_blocks t) = bt_tokens t div bs" using length_blocks [OF ok] r by simp
  let ?t = "t\<lparr>bt_blocks := bt_blocks t @ [b], bt_tokens := Suc (bt_tokens t)\<rparr>"
  let ?slot = "new_slot b (bt_tokens t mod bs)"
  have "slot_for_position (t\<lparr>bt_blocks := bt_blocks t @ [b]\<rparr>) (bt_tokens t) = Some ?slot"
    using D(1,2) len by (simp add: slot_for_position_def)
  then have op: "append_token (t, a) = Ok (?slot, None) (?t, a')"
    using r al(1) by (simp add: append_token_def room_eq [OF ok])
  have "table_ok bs ?t" using ok r D(1) new(2) by (simp add: table_ok_def ceil_div_Suc)
  moreover have "takes_block t a" using r D(2) by (simp add: takes_block_def)
  ultimately have "appended bs t a ?slot None ?t a'"
    using al F new len r by (auto simp: appended_def takes_def idle_def)
  with op show ?thesis by blast
qed

lemma append_cow:
  assumes inv: "alloc_inv a" and ok: "table_ok bs t" and h: "holds a t"
    and r: "bt_tokens t mod bs \<noteq> 0" and s: "1 < cnt a (last (bt_blocks t))" and f: "0 < num_free a"
  shows "\<exists>slot t' a'. append_token (t, a) =
      Ok (slot, Some \<lparr>cow_src = last (bt_blocks t), cow_dst = ps_block slot\<rparr>) (t', a') \<and>
    appended bs t a slot (Some \<lparr>cow_src = last (bt_blocks t), cow_dst = ps_block slot\<rparr>) t' a'"
proof -
  note D = table_okD [OF ok] and T = room_tail [OF ok r]
  let ?tail = "last (bt_blocks t)"
  have tb: "index ?tail < al_num_blocks a" by (rule cnt_range) (use s in simp)
  from allocate_ok [OF inv f] obtain b a1 where al: "allocate a = Ok b a1" "takes a b a1"
    "cached a1 = (cached a)(b := None)" by blast
  note F = takes_num_free(1) [OF inv al(2)]
  have new: "b \<in> idle a" "b \<notin> set (bt_blocks t)"
    using al(2) holds_idle [OF h] by (simp_all add: takes_def)
  then have nt: "?tail \<noteq> b" using T(1) by auto
  from al(2) nt have i1: "alloc_inv a1" and c1: "cnt a1 ?tail = cnt a ?tail"
    by (simp_all add: takes_def)
  from bp.decref_law [OF i1, of ?tail] s c1 obtain a' where
    de: "decref ?tail a1 = Ok (cnt a ?tail - 1) a'" "alloc_inv a'" "same_content a1 a'"
      "cnt a' = (cnt a1)(?tail := cnt a ?tail - 1)" "num_free a' = num_free a1" by auto
  obtain xs where xs: "bt_blocks t = xs @ [?tail]" "length xs = bt_tokens t div bs"
    using T(1,3) by (metis append_butlast_last_id length_butlast diff_Suc_1)
  let ?t = "t\<lparr>bt_blocks := xs @ [b], bt_tokens := Suc (bt_tokens t)\<rparr>"
  let ?slot = "new_slot b (bt_tokens t mod bs)"
  let ?cow = "Some \<lparr>cow_src = ?tail, cow_dst = b\<rparr>"
  have bl: "butlast (bt_blocks t) = xs" using xs(1) by (metis butlast_snoc)
  have "slot_for_position (t\<lparr>bt_blocks := xs @ [b]\<rparr>) (bt_tokens t) = Some ?slot"
    using D(1,2) xs(2) by (simp add: slot_for_position_def)
  then have op: "append_token (t, a) = Ok (?slot, ?cow) (?t, a')"
    using r s al(1) de(1) T(2) bl is_shared_eq(2) [OF inv tb]
    by (simp add: append_token_def room_eq [OF ok])
  have dist: "distinct (xs @ [b])" "distinct (xs @ [?tail])" using D(3) new(2) xs(1) by (metis
    append_is_Nil_conv distinct_append distinct_singleton Un_iff disjoint_insert(2) distinct.simps(2)
    empty_set inf_bot_right list.simps(15) set_append)+
  have "table_ok bs ?t"
    using ok r D(1) dist(1) xs(1) by (simp add: table_ok_def ceil_div_Suc) (metis length_append_singleton)
  moreover have "takes_block t a" using s by (simp add: takes_block_def)
  moreover have refs: "\<forall>x. cnt a' x + count_list (bt_blocks t) x = cnt a x + count_list (xs @ [b]) x"
  proof
    fix x
    have "count_list (bt_blocks t) x = count_list xs x + (if x = ?tail then 1 else 0)"
      by (subst xs(1)) simp
    then show "cnt a' x + count_list (bt_blocks t) x = cnt a x + count_list (xs @ [b]) x"
      using de(4) al(2) new(1) nt s by (auto simp: takes_def idle_def)
  qed
  moreover have "\<forall>x. 0 < cnt a x \<longrightarrow> 0 < cnt a' x"
    using de(4) al(2) s nt by (auto simp: takes_def)
  moreover have "take (bt_tokens t div bs) (bt_blocks t) = xs"
    by (subst xs(1)) (simp add: xs(2))
  moreover have "same_pool a a'" "next_of a' = next_of a" "cached a' = (cached a)(b := None)"
    using al(2,3) de(3) same_pool_trans by (auto simp: takes_def same_content_def)
  moreover have "cnt a' b = 1" "num_free a = Suc (num_free a')" "alloc_inv a'"
    using de F nt al(2) by (auto simp: takes_def)
  ultimately have "appended bs t a ?slot ?cow ?t a'"
    unfolding appended_def using new(1) r s xs(2) by simp
  with op show ?thesis by (intro exI [of _ ?slot] exI [of _ ?t] exI [of _ a']) simp
qed

lemma append_ok:
  assumes "alloc_inv a" "table_ok bs t" "holds a t" "takes_block t a \<Longrightarrow> 0 < num_free a"
  shows "\<exists>slot cow t' a'. append_token (t, a) = Ok (slot, cow) (t', a') \<and>
    appended bs t a slot cow t' a'"
proof (cases "takes_block t a")
  case False
  with append_in_place [OF assms(1-3)] show ?thesis by blast
next
  case True
  with assms(4) have f: "0 < num_free a" by simp
  show ?thesis
  proof (cases "bt_tokens t mod bs = 0")
    case True
    with append_fresh [OF assms(1-3) True f] show ?thesis by blast
  next
    case False
    with True table_okD(2) [OF assms(2)] have "1 < cnt a (last (bt_blocks t))"
      by (simp add: takes_block_def)
    with append_cow [OF assms(1-3) False _ f] show ?thesis by blast
  qed
qed

text \<open>With no free block an append that needs one changes nothing.\<close>

lemma append_out_of_blocks:
  assumes inv: "alloc_inv a" and ok: "table_ok bs t" and h: "holds a t"
    and n: "takes_block t a" and f: "num_free a = 0"
  shows "append_token (t, a) = Err (OutOfBlocks 1 0) (t, a)"
proof (cases "bt_tokens t mod bs = 0")
  case True
  then show ?thesis by (simp add: append_token_def room_eq [OF ok] allocate_fails [OF inv f])
next
  case False
  note T = room_tail [OF ok False]
  have b: "index (last (bt_blocks t)) < al_num_blocks a"
    by (rule cnt_range) (use h T(1) in \<open>simp add: holds_def\<close>)
  from n False table_okD(2) [OF ok] have "1 < cnt a (last (bt_blocks t))"
    by (simp add: takes_block_def)
  then show ?thesis
    using False T(2) is_shared_eq(2) [OF inv b]
    by (simp add: append_token_def room_eq [OF ok] allocate_fails [OF inv f])
qed


section \<open>Appending many tokens\<close>

definition unshared :: "nat \<Rightarrow> BlockTable \<Rightarrow> BlockAllocator \<Rightarrow> bool" where
  "unshared bs t a \<longleftrightarrow> bt_tokens t mod bs = 0 \<or> \<not> 1 < cnt a (last (bt_blocks t))"

definition room_left :: "nat \<Rightarrow> BlockTable \<Rightarrow> nat" where
  "room_left bs t = (if bt_tokens t mod bs = 0 then 0 else bs - bt_tokens t mod bs)"

definition need :: "nat \<Rightarrow> BlockTable \<Rightarrow> BlockAllocator \<Rightarrow> nat \<Rightarrow> nat" where
  "need bs t a n =
     (if n = 0 then 0
      else ceil_div (n - room_left bs t) bs + (if unshared bs t a then 0 else 1))"

lemma blocks_needed_eq:
  assumes inv: "alloc_inv a" and ok: "table_ok bs t" and h: "holds a t"
  shows "blocks_needed t a n = Ok (need bs t a n) ()"
proof (cases "bt_tokens t mod bs = 0")
  case True
  then show ?thesis
    using table_okD(1,2) [OF ok]
    by (simp add: blocks_needed_def need_def room_left_def unshared_def room_eq [OF ok])
next
  case False
  note T = room_tail [OF ok False]
  have b: "index (last (bt_blocks t)) < al_num_blocks a"
    by (rule cnt_range) (use h T(1) in \<open>simp add: holds_def\<close>)
  show ?thesis
    using False T(2) table_okD(1,2) [OF ok] is_shared_eq(2) [OF inv b]
    by (simp add: blocks_needed_def need_def room_left_def unshared_def room_eq [OF ok])
qed

text \<open>The new blocks are exactly those the longer table has and the shorter has not.\<close>

lemma room_left_growth:
  assumes "0 < bs"
  shows "ceil_div (bt_tokens t) bs + ceil_div (n - room_left bs t) bs = ceil_div (bt_tokens t + n) bs"
proof -
  let ?T = "bt_tokens t" and ?k = "ceil_div (bt_tokens t) bs"
  have full: "?T + room_left bs t = ?k * bs"
  proof (cases "?T mod bs = 0")
    case True
    then have "?T = ?T div bs * bs" by (metis add.right_neutral div_mult_mod_eq)
    with True assms show ?thesis by (metis ceil_div_mult add.right_neutral room_left_def)
  next
    case False
    have T: "?T = ?T div bs * bs + ?T mod bs" by simp
    have "?T mod bs < bs" using assms by simp
    then have "ceil_div (?T mod bs) bs = 1"
      using False assms ceil_div_le_iff [of bs "?T mod bs" 1] less_ceil_div_iff [of bs 0 "?T mod bs"]
      by simp
    with ceil_div_mult_add [OF assms, of "?T div bs" "?T mod bs"] T
    have "?k = Suc (?T div bs)" by simp
    moreover have "?T + (bs - ?T mod bs) = Suc (?T div bs) * bs"
      using T \<open>?T mod bs < bs\<close> by (simp only: mult_Suc)
    ultimately show ?thesis using False by (simp add: room_left_def)
  qed
  show ?thesis
  proof (cases "room_left bs t \<le> n")
    case True
    with full have "?T + n = ?k * bs + (n - room_left bs t)" by simp
    then show ?thesis by (simp add: ceil_div_mult_add [OF assms])
  next
    case False
    with full have "?T + n \<le> ?k * bs" by simp
    then have "ceil_div (?T + n) bs \<le> ?k" by (simp add: ceil_div_le_iff [OF assms])
    moreover have "?k \<le> ceil_div (?T + n) bs" by (rule ceil_div_mono [OF assms]) simp
    ultimately show ?thesis using False by simp
  qed
qed

lemma appendedD:
  assumes "appended bs t a slot cow t' a'"
  shows "alloc_inv a'" "same_pool a a'" "next_of a' = next_of a" "table_ok bs t'"
    "bt_tokens t' = Suc (bt_tokens t)"
    "take (bt_tokens t div bs) (bt_blocks t') = take (bt_tokens t div bs) (bt_blocks t)"
    "slot = new_slot (bt_blocks t' ! (bt_tokens t div bs)) (bt_tokens t mod bs)"
    "cow = (if unshared bs t a then None
            else Some \<lparr>cow_src = last (bt_blocks t), cow_dst = ps_block slot\<rparr>)"
    "cnt a' (ps_block slot) = 1"
    "takes_block t a \<Longrightarrow> ps_block slot \<in> idle a \<and> num_free a = Suc (num_free a') \<and>
        cached a' = (cached a)(ps_block slot := None)"
    "\<not> takes_block t a \<Longrightarrow> t' = t\<lparr>bt_tokens := Suc (bt_tokens t)\<rparr> \<and> a' = a \<and>
        ps_block slot = last (bt_blocks t)"
    "cnt a' b + count_list (bt_blocks t) b = cnt a b + count_list (bt_blocks t') b"
    "0 < cnt a b \<Longrightarrow> 0 < cnt a' b"
  using assms by (auto simp: appended_def unshared_def)

lemma appended_last:
  assumes "appended bs t a slot cow t' a'"
  shows "bt_blocks t' \<noteq> []" "last (bt_blocks t') = bt_blocks t' ! (bt_tokens t div bs)"
    "length (bt_blocks t') = Suc (bt_tokens t div bs)"
proof -
  note A = appendedD [OF assms]
  have bs: "0 < bs" by (rule table_okD(1) [OF A(4)])
  have "length (bt_blocks t') = ceil_div (Suc (bt_tokens t)) bs"
    using table_okD(4) [OF A(4)] A(5) by simp
  also have "\<dots> = Suc (bt_tokens t div bs)"
  proof -
    have "ceil_div (Suc (bt_tokens t)) bs \<le> k \<longleftrightarrow> Suc (bt_tokens t div bs) \<le> k" for k
      using ceil_div_le_iff [OF bs] div_less_iff_less_mult [OF bs] by (simp add: Suc_le_eq)
    then show ?thesis by (metis le_antisym le_refl)
  qed
  finally show len: "length (bt_blocks t') = Suc (bt_tokens t div bs)" .
  then show ne: "bt_blocks t' \<noteq> []" by auto
  with len show "last (bt_blocks t') = bt_blocks t' ! (bt_tokens t div bs)"
    by (simp add: last_conv_nth)
qed

lemma appended_unshared: "appended bs t a slot cow t' a' \<Longrightarrow> unshared bs t' a'"
  using appendedD(7,9) appended_last(2) by (fastforce simp: unshared_def)

lemma appended_prefix:
  assumes ok: "table_ok bs t" and ap: "appended bs t a slot cow t' a'" and u: "unshared bs t a"
  shows "prefix (bt_blocks t) (bt_blocks t')"
proof (cases "takes_block t a")
  case True
  then have "bt_tokens t mod bs = 0"
    using u table_okD(2) [OF ok] by (auto simp: takes_block_def unshared_def)
  then have "length (bt_blocks t) = bt_tokens t div bs" using length_blocks [OF ok] by simp
  with appendedD(6) [OF ap] show ?thesis by (metis order_refl take_all take_is_prefix)
next
  case False
  with appendedD(11) [OF ap] show ?thesis by simp
qed

lemma need_Suc:
  assumes ok: "table_ok bs t" and ap: "appended bs t a slot cow t' a'"
  shows "need bs t a (Suc n) = (if takes_block t a then 1 else 0) + need bs t' a' n"
proof -
  note A = appendedD [OF ap] and D = table_okD [OF ok]
  have c: "need bs t' a' n = ceil_div (n - room_left bs t') bs"
    using appended_unshared [OF ap] D(1) by (simp add: need_def)
  have "ceil_div (Suc (bt_tokens t)) bs + need bs t' a' n = ceil_div (bt_tokens t + Suc n) bs"
    using room_left_growth [OF D(1), of t' n] A(5) c by simp
  also have "\<dots> = ceil_div (bt_tokens t) bs + ceil_div (Suc n - room_left bs t) bs"
    by (simp add: room_left_growth [OF D(1)])
  finally have "ceil_div (Suc n - room_left bs t) bs =
    (if bt_tokens t mod bs = 0 then 1 else 0) + need bs t' a' n"
    by (simp add: ceil_div_Suc [OF D(1)])
  with D(2) show ?thesis by (auto simp: need_def unshared_def takes_block_def)
qed

lemma appended_num_free:
  "appended bs t a slot cow t' a' \<Longrightarrow>
     num_free a = num_free a' + (if takes_block t a then 1 else 0)"
  using appendedD(10,11) by fastforce

text \<open>
  The effect of a run of appends. Every slot handed out is where the new position resolves
  in the final table, in a block with one owner.
\<close>

definition grown :: "nat \<Rightarrow> nat \<Rightarrow> BlockTable \<Rightarrow> BlockAllocator \<Rightarrow> PhysicalSlot list \<Rightarrow>
    BlockTable \<Rightarrow> BlockAllocator \<Rightarrow> bool" where
  "grown bs n t a slots t' a' \<longleftrightarrow>
     alloc_inv a' \<and> same_pool a a' \<and> next_of a' = next_of a \<and> table_ok bs t' \<and>
     bt_tokens t' = bt_tokens t + n \<and>
     num_free a = num_free a' + need bs t a n \<and>
     take (bt_tokens t div bs) (bt_blocks t') = take (bt_tokens t div bs) (bt_blocks t) \<and>
     (unshared bs t a \<longrightarrow> prefix (bt_blocks t) (bt_blocks t')) \<and>
     (0 < n \<longrightarrow> unshared bs t' a') \<and>
     length slots = n \<and>
     (\<forall>i < n. resolve t' (bt_tokens t + i) = Ok (slots ! i) () \<and> cnt a' (ps_block (slots ! i)) = 1) \<and>
     (\<forall>b. cnt a' b + count_list (bt_blocks t) b = cnt a b + count_list (bt_blocks t') b) \<and>
     (\<forall>b. 0 < cnt a b \<longrightarrow> 0 < cnt a' b \<and> cached a' b = cached a b) \<and>
     (\<forall>b x. cached a' b = Some x \<longrightarrow> cached a b = Some x) \<and>
     (\<forall>b. b \<in> set (bt_blocks t') \<longrightarrow> b \<notin> set (bt_blocks t) \<longrightarrow>
        cached a' b = None \<and> cnt a b = 0)"

lemma grownD:
  assumes "grown bs n t a slots t' a'"
  shows "alloc_inv a'" "same_pool a a'" "next_of a' = next_of a" "table_ok bs t'"
    "bt_tokens t' = bt_tokens t + n" "num_free a = num_free a' + need bs t a n"
    "take (bt_tokens t div bs) (bt_blocks t') = take (bt_tokens t div bs) (bt_blocks t)"
    "unshared bs t a \<Longrightarrow> prefix (bt_blocks t) (bt_blocks t')"
    "0 < n \<Longrightarrow> unshared bs t' a'" "length slots = n"
    "i < n \<Longrightarrow> resolve t' (bt_tokens t + i) = Ok (slots ! i) ()"
    "i < n \<Longrightarrow> cnt a' (ps_block (slots ! i)) = 1"
    "cnt a' b + count_list (bt_blocks t) b = cnt a b + count_list (bt_blocks t') b"
    "0 < cnt a b \<Longrightarrow> 0 < cnt a' b" "0 < cnt a b \<Longrightarrow> cached a' b = cached a b"
    "cached a' b = Some x \<Longrightarrow> cached a b = Some x"
    "b \<in> set (bt_blocks t') \<Longrightarrow> b \<notin> set (bt_blocks t) \<Longrightarrow> cached a' b = None \<and> cnt a b = 0"
  using assms unfolding grown_def by blast+

lemma holds_transfer:
  assumes h: "holds a t" and d: "distinct (bt_blocks t)"
    and refs: "\<And>b. cnt a' b + count_list (bt_blocks t) b = cnt a b + count_list (bt_blocks t') b"
  shows "holds a' t'"
  unfolding holds_def
proof
  fix b assume "b \<in> set (bt_blocks t')"
  then have "0 < count_list (bt_blocks t') b" by (simp add: count_list_0_iff neq0_conv [symmetric])
  with refs [of b] h show "0 < cnt a' b"
    by (cases "b \<in> set (bt_blocks t)") (auto simp: count_list_distinct [OF d] holds_def count_notin)
qed

lemma appended_cached:
  assumes "appended bs t a slot cow t' a'"
  shows "0 < cnt a b \<Longrightarrow> cached a' b = cached a b" "cached a' b = Some x \<Longrightarrow> cached a b = Some x"
proof -
  have c: "cached a' = cached a \<or> ps_block slot \<in> idle a \<and> cached a' = (cached a)(ps_block slot := None)"
    using appendedD(10,11) [OF assms] by (cases "takes_block t a") simp_all
  then show "cached a' b = cached a b" if "0 < cnt a b" using that by (auto simp: idle_def)
  from c show "cached a b = Some x" if "cached a' b = Some x" using that by (auto split: if_splits)
qed

lemma appended_new:
  assumes ap: "appended bs t a slot cow t' a'"
    and b: "b \<in> set (bt_blocks t')" "b \<notin> set (bt_blocks t)"
  shows "cached a' b = None" "cnt a b = 0"
proof -
  note A = appendedD [OF ap]
  let ?k = "bt_tokens t div bs"
  have tk: "takes_block t a" using A(11) b by (cases "takes_block t a") auto
  obtain j where j: "j < Suc ?k" "b = bt_blocks t' ! j"
    using b(1) appended_last(3) [OF ap] by (auto simp: in_set_conv_nth)
  have "j = ?k"
  proof (rule ccontr)
    assume "j \<noteq> ?k"
    with j appended_last(3) [OF ap] have "b \<in> set (take ?k (bt_blocks t'))"
      by (auto simp: in_set_conv_nth intro!: exI [of _ j])
    then have "b \<in> set (take ?k (bt_blocks t))" using A(6) by simp
    with b(2) show False by (blast dest: in_set_takeD)
  qed
  with j(2) have "b = last (bt_blocks t')" using appended_last(2) [OF ap] by simp
  then have "b = ps_block slot" using A(7) appended_last(2) [OF ap] by simp
  with A(10) [OF tk] show "cached a' b = None" "cnt a b = 0" by (simp_all add: idle_def)
qed

lemma prefix_nth: "prefix xs ys \<Longrightarrow> i < length xs \<Longrightarrow> ys ! i = xs ! i"
  by (auto simp: prefix_def nth_append)

lemma prefix_take: "prefix xs ys \<Longrightarrow> n \<le> length xs \<Longrightarrow> take n ys = take n xs"
  by (auto simp: prefix_def)

lemma grown_0: "alloc_inv a \<Longrightarrow> table_ok bs t \<Longrightarrow> grown bs 0 t a [] t a"
  by (simp add: grown_def need_def)

lemma grown_Suc:
  assumes ok: "table_ok bs t" and ap: "appended bs t a slot cow t1 a1"
    and g: "grown bs n t1 a1 slots t' a'"
  shows "grown bs (Suc n) t a (slot # slots) t' a'"
proof -
  note A = appendedD [OF ap] and D = table_okD [OF ok]
  have u1: "unshared bs t1 a1" by (rule appended_unshared [OF ap])
  note G = grownD [OF g]
  note L = appended_last [OF ap]
  have pre1: "prefix (bt_blocks t1) (bt_blocks t')" by (rule G(8) [OF u1])
  let ?k = "bt_tokens t div bs"
  have nth: "bt_blocks t' ! ?k = bt_blocks t1 ! ?k" using prefix_nth [OF pre1] L(3) by simp
  have T': "bt_tokens t < bt_tokens t'" using A(5) G(5) by simp
  have res: "resolve t' (bt_tokens t) = Ok slot ()"
    using resolve_ok(1) [OF G(4) T'] nth A(7) by simp
  have "ps_block slot = last (bt_blocks t1)" using A(7) L(2) by simp
  then have mem: "ps_block slot \<in> set (bt_blocks t1)" "ps_block slot \<in> set (bt_blocks t')"
    using L(1) set_mono_prefix [OF pre1] by auto
  have own: "cnt a' (ps_block slot) = 1"
    using G(13) [of "ps_block slot"] A(9) mem
    by (simp add: count_list_distinct [OF table_okD(3) [OF A(4)]]
        count_list_distinct [OF table_okD(3) [OF G(4)]])
  have slots: "resolve t' (bt_tokens t + i) = Ok ((slot # slots) ! i) ()"
    "cnt a' (ps_block ((slot # slots) ! i)) = 1" if "i < Suc n" for i
    using that res own G(11) [of "i - 1"] G(12) [of "i - 1"] A(5) by (cases i; simp)+
  have nf: "num_free a = num_free a' + need bs t a (Suc n)"
    using appended_num_free [OF ap] G(6) need_Suc [OF ok ap, of n] by simp
  have tk: "take ?k (bt_blocks t') = take ?k (bt_blocks t)"
    using prefix_take [OF pre1] L(3) A(6) by simp
  have un: "unshared bs t' a'"
  proof (cases n)
    case 0
    then have "bt_tokens t' = bt_tokens t1" using G(5) by simp
    then have "length (bt_blocks t') = length (bt_blocks t1)"
      using table_okD(4) [OF G(4)] table_okD(4) [OF A(4)] by simp
    with pre1 have "bt_blocks t' = bt_blocks t1" by (auto simp: prefix_def)
    with own L(1) \<open>ps_block slot = last (bt_blocks t1)\<close> show ?thesis by (simp add: unshared_def)
  next
    case (Suc m)
    with G(9) show ?thesis by simp
  qed
  have pre: "prefix (bt_blocks t) (bt_blocks t')" if "unshared bs t a"
    using prefix_order.trans [OF appended_prefix [OF ok ap that] pre1] .
  have refs: "cnt a' b + count_list (bt_blocks t) b = cnt a b + count_list (bt_blocks t') b" for b
    using G(13) [of b] A(12) [of b] by linarith
  show ?thesis
    unfolding grown_def
  proof (intro conjI allI impI)
    show "same_pool a a'" using A(2) G(2) by (rule same_pool_trans)
    show "bt_tokens t' = bt_tokens t + Suc n" using A(5) G(5) by simp
    show "next_of a' = next_of a" using A(3) G(3) by simp
    show "length (slot # slots) = Suc n" using G(10) by simp
    show "0 < cnt a' b" "cached a' b = cached a b" if "0 < cnt a b" for b
      using G(14,15) [of b] A(13) [OF that] appended_cached(1) [OF ap that] by simp_all
    show "cached a b = Some x" if "cached a' b = Some x" for b x
      using appended_cached(2) [OF ap G(16) [OF that]] .
    show "cached a' b = None" "cnt a b = 0"
      if "b \<in> set (bt_blocks t')" "b \<notin> set (bt_blocks t)" for b
    proof -
      have "cached a' b = None \<and> cnt a b = 0"
      proof (cases "b \<in> set (bt_blocks t1)")
        case True
        have "count_list (bt_blocks t) b = 0" using that(2) by (simp add: count_list_0_iff)
        then have "0 < cnt a1 b"
          using A(12) [of b] True by (simp add: count_list_distinct [OF table_okD(3) [OF A(4)]])
        with G(15) [of b] appended_new [OF ap True that(2)] show ?thesis by simp
      next
        case False
        with G(17) [OF that(1)] A(13) [of b] show ?thesis by (cases "cnt a b") simp_all
      qed
      then show "cached a' b = None" "cnt a b = 0" by simp_all
    qed
  qed (use G(1,4) slots nf tk un pre refs in simp_all)
qed

lemma append_loop_ok:
  assumes "alloc_inv a" "table_ok bs t" "holds a t" "need bs t a n \<le> num_free a"
  shows "\<exists>slots t' a'. grown bs n t a slots t' a' \<and>
    (\<forall>ss cs. append_loop n ss cs (t, a) =
      Ok (ss @ slots, cs @ (if n = 0 \<or> unshared bs t a then []
            else [\<lparr>cow_src = last (bt_blocks t), cow_dst = ps_block (slots ! 0)\<rparr>])) (t', a'))"
  using assms
proof (induction n arbitrary: t a)
  case 0
  then show ?case by (intro exI [of _ "[]"] exI [of _ t] exI [of _ a]) (simp add: grown_0)
next
  case (Suc n)
  have D: "0 < bs" "bt_block_size t = bs" using table_okD [OF Suc.prems(2)] by simp_all
  have pos: "0 < num_free a" if "takes_block t a"
  proof -
    have "0 < need bs t a (Suc n)"
    proof (cases "bt_tokens t mod bs = 0")
      case True
      then show ?thesis
        using D less_ceil_div_iff [of bs 0 "Suc n"] by (simp add: need_def room_left_def)
    next
      case False
      with that D(2) show ?thesis by (simp add: need_def unshared_def takes_block_def)
    qed
    with Suc.prems(4) show ?thesis by simp
  qed
  from append_ok [OF Suc.prems(1-3) pos] obtain slot cow t1 a1 where
    op: "append_token (t, a) = Ok (slot, cow) (t1, a1)" and ap: "appended bs t a slot cow t1 a1"
    by blast
  note A = appendedD [OF ap]
  have h1: "holds a1 t1"
    using A(12) by (rule holds_transfer [OF Suc.prems(3) table_okD(3) [OF Suc.prems(2)]])
  have "need bs t1 a1 n \<le> num_free a1"
    using need_Suc [OF Suc.prems(2) ap, of n] appended_num_free [OF ap] Suc.prems(4) by simp
  from Suc.IH [OF A(1,4) h1 this] appended_unshared [OF ap] obtain slots t' a' where
    l: "\<And>ss cs. append_loop n ss cs (t1, a1) = Ok (ss @ slots, cs) (t', a')"
      "grown bs n t1 a1 slots t' a'" by auto
  with op A(8) grown_Suc [OF Suc.prems(2) ap l(2)] show ?case
    by (intro exI [of _ "slot # slots"] exI [of _ t'] exI [of _ a']) simp
qed

lemma append_many_ok:
  assumes "alloc_inv a" "table_ok bs t" "holds a t" "need bs t a n \<le> num_free a"
  shows "\<exists>slots t' a'. append_many n (t, a) =
      Ok (slots, if n = 0 \<or> unshared bs t a then []
            else [\<lparr>cow_src = last (bt_blocks t), cow_dst = ps_block (slots ! 0)\<rparr>]) (t', a') \<and>
    grown bs n t a slots t' a'"
proof -
  from append_loop_ok [OF assms] obtain slots t' a' where g: "grown bs n t a slots t' a'"
    "\<And>ss cs. append_loop n ss cs (t, a) =
      Ok (ss @ slots, cs @ (if n = 0 \<or> unshared bs t a then []
            else [\<lparr>cow_src = last (bt_blocks t), cow_dst = ps_block (slots ! 0)\<rparr>])) (t', a')" by blast
  have "append_many n (t, a) = append_loop n [] [] (t, a)"
    using assms(4) by (simp add: append_many_def blocks_needed_eq [OF assms(1-3)])
  with g show ?thesis by simp
qed

lemma append_many_fails:
  assumes "alloc_inv a" "table_ok bs t" "holds a t" "num_free a < need bs t a n"
  shows "append_many n (t, a) = Err (OutOfBlocks (need bs t a n) (num_free a)) (t, a)"
  using assms(4) by (simp add: append_many_def blocks_needed_eq [OF assms(1-3)] Let_def)

section \<open>Forking and freeing\<close>

definition owned :: "BlockTable list \<Rightarrow> BlockId \<Rightarrow> nat" where
  "owned ts b = sum_list (map (\<lambda>t. count_list (bt_blocks t) b) ts)"

lemma owned_simps [simp]:
  "owned [] b = 0" "owned (t # ts) b = count_list (bt_blocks t) b + owned ts b"
  "owned (ts @ us) b = owned ts b + owned us b"
  by (simp_all add: owned_def)

lemma owned_holds: "cnt a = owned ts \<Longrightarrow> t \<in> set ts \<Longrightarrow> holds a t"
  unfolding holds_def
proof
  fix b assume a: "cnt a = owned ts" "t \<in> set ts" "b \<in> set (bt_blocks t)"
  have "count_list (bt_blocks t) b \<le> owned ts b"
    using a(2) by (auto simp: owned_def intro: member_le_sum_list)
  moreover have "0 < count_list (bt_blocks t) b" using a(3) by (simp add: count_list_0_iff neq0_conv [symmetric])
  ultimately show "0 < cnt a b" using a(1) by simp
qed

lemma fork_table_ok:
  assumes inv: "alloc_inv a" and d: "distinct (bt_blocks t)" and h: "holds a t"
    and l: "\<forall>b \<in> set (bt_blocks t). cnt a b < 65535"
  shows "\<exists>a'. fork_table t a = Ok t a' \<and> alloc_inv a' \<and> same_content a a' \<and>
    cnt a' = (\<lambda>b. cnt a b + count_list (bt_blocks t) b) \<and> num_free a' = num_free a"
proof -
  from h l have "\<forall>b \<in> set (bt_blocks t). 0 < cnt a b \<and> cnt a b < 65535" by (simp add: holds_def)
  from bp.incref_all [OF inv d this] show ?thesis by (auto simp: fork_table_def)
qed

lemma free_table_ok:
  assumes inv: "alloc_inv a" and d: "distinct (bt_blocks t)" and h: "holds a t"
  shows "\<exists>a'. free_table t a = Ok () a' \<and> alloc_inv a' \<and> same_content a a' \<and>
    cnt a' = (\<lambda>b. cnt a b - count_list (bt_blocks t) b) \<and>
    num_free a' = num_free a + card {b \<in> set (bt_blocks t). cnt a b = 1}"
proof -
  have "\<forall>b. count_list (rev (bt_blocks t)) b \<le> cnt a b"
    using h by (auto simp: count_list_distinct [OF d] holds_def Suc_leI)
  from bp.decref_all [OF inv this] show ?thesis
    by (auto simp: free_table_def count_list_distinct [OF d] cong: conj_cong)
qed

section \<open>The ownership check\<close>

lemma tally_blocks_total:
  "(\<exists>out. tally_blocks ti bs owners = Inr out) \<longleftrightarrow> (\<forall>b \<in> set bs. index b < length owners)"
  by (induction bs arbitrary: owners) auto

lemma tally_blocks_counts:
  "tally_blocks ti bs owners = Inr out \<Longrightarrow> length owners < 2 ^ 32 \<Longrightarrow>
   length out = length owners \<and>
   (\<forall>i < length owners. out ! i = owners ! i + of_nat (count_list bs (block_of i)))"
proof (induction bs arbitrary: owners)
  case Nil
  then show ?case by simp
next
  case (Cons b bs)
  from Cons.prems(1) have b: "index b < length owners"
    and r: "tally_blocks ti bs (owners[index b := owners ! index b + 1]) = Inr out"
    by (auto split: if_splits)
  have "b = block_of i \<longleftrightarrow> index b = i" if "i < length owners" for i
    using that Cons.prems(2) by auto
  with Cons.IH [OF r] Cons.prems(2) b show ?case by (auto simp: nth_list_update)
qed

definition table_fits :: "nat \<Rightarrow> BlockTable \<Rightarrow> bool" where
  "table_fits n t \<longleftrightarrow> 0 < bt_block_size t \<and>
     length (bt_blocks t) = ceil_div (bt_tokens t) (bt_block_size t) \<and>
     (\<forall>b \<in> set (bt_blocks t). index b < n)"

lemma tally_tables_total:
  "(\<exists>out. tally_tables ti ts owners = Inr out) \<longleftrightarrow> (\<forall>t \<in> set ts. table_fits (length owners) t)"
  if "length owners < 2 ^ 32"
  using that
proof (induction ts arbitrary: ti owners)
  case Nil
  then show ?case by simp
next
  case (Cons t ts)
  show ?case
  proof (cases "table_fits (length owners) t")
    case True
    then obtain o1 where o1: "tally_blocks ti (bt_blocks t) owners = Inr o1"
      using tally_blocks_total [of ti "bt_blocks t" owners] by (auto simp: table_fits_def)
    with tally_blocks_counts [OF o1 Cons.prems] Cons.IH [of o1 "ti + 1"] Cons.prems True
    show ?thesis by (simp add: table_fits_def)
  next
    case False
    then have "\<nexists>out. tally_tables ti (t # ts) owners = Inr out"
      using tally_blocks_total [of ti "bt_blocks t" owners]
      by (cases "bt_block_size t = 0")
        (auto simp: table_fits_def div_ceil_def ceil_div_def split: if_splits sum.splits)
    with False show ?thesis by auto
  qed
qed

lemma tally_tables_counts:
  "tally_tables ti ts owners = Inr out \<Longrightarrow> length owners < 2 ^ 32 \<Longrightarrow>
   length out = length owners \<and> (\<forall>i < length owners. out ! i = owners ! i + of_nat (owned ts (block_of i)))"
proof (induction ts arbitrary: ti owners)
  case Nil
  then show ?case by simp
next
  case (Cons t ts)
  then obtain o1 where o1: "tally_blocks ti (bt_blocks t) owners = Inr o1"
    "tally_tables (ti + 1) ts o1 = Inr out" by (auto split: if_splits sum.splits option.splits)
  from tally_blocks_counts [OF o1(1) Cons.prems(2)] Cons.IH [OF o1(2)] Cons.prems(2)
  show ?case by simp
qed

lemma check_owner_counts_iff:
  assumes inv: "alloc_inv a"
  shows "(\<forall>(i, c) \<in> set xs. i < al_num_blocks a) \<Longrightarrow>
    check_owner_counts a xs = Inr () \<longleftrightarrow> (\<forall>(i, c) \<in> set xs. cnt a (block_of i) = unat c)"
proof (induction xs)
  case Nil
  then show ?case by simp
next
  case (Cons x xs)
  obtain i c where x: "x = (i, c)" by (cases x)
  with Cons.prems have i: "index (block_of i) < al_num_blocks a"
    using alloc_invD(1) [OF inv] by simp
  have "check_owner_counts a xs = Inr () \<longleftrightarrow> (\<forall>(i, c) \<in> set xs. cnt a (block_of i) = unat c)"
    using Cons.IH Cons.prems by simp
  with x is_shared_eq(1) [OF inv i] show ?case by (cases "cnt a (block_of i) = unat c") simp_all
qed

text \<open>
  The check accepts exactly the states where every table has the blocks its tokens need and
  every refcount is the number of references the tables hold, counted in 32 bits.
\<close>

lemma check_ownership_words:
  assumes inv: "alloc_inv a"
  shows "check_ownership a ts = Inr () \<longleftrightarrow>
    (\<forall>t \<in> set ts. table_fits (al_num_blocks a) t) \<and> (\<forall>b. cnt a b = owned ts b mod 2 ^ 32)"
proof -
  let ?n = "al_num_blocks a" and ?z = "replicate (al_num_blocks a) (0 :: u32)"
  have n: "length ?z < 2 ^ 32" using alloc_invD(1) [OF inv] by simp
  note ac = alloc_check_ok [OF inv]
  show ?thesis
  proof (cases "\<forall>t \<in> set ts. table_fits ?n t")
    case True
    with tally_tables_total [OF n, of 0 ts] obtain out where
      out: "tally_tables 0 ts ?z = Inr out" by auto
    note C = tally_tables_counts [OF out n]
    have set: "(i, c) \<in> set (enumerate 0 out) \<longleftrightarrow> i < ?n \<and> c = of_nat (owned ts (block_of i))" for i c
      using C by (auto simp: in_set_enumerate_eq)
    have "check_ownership a ts = check_owner_counts a (enumerate 0 out)"
      using ac out by (simp add: check_ownership_def)
    also have "\<dots> = Inr () \<longleftrightarrow> (\<forall>(i, c) \<in> set (enumerate 0 out). cnt a (block_of i) = unat c)"
      by (rule check_owner_counts_iff [OF inv])
        (unfold Ball_def split_paired_All prod.case set, simp)
    also have "\<dots> \<longleftrightarrow> (\<forall>i < ?n. cnt a (block_of i) = owned ts (block_of i) mod 2 ^ 32)"
      by (simp only: Ball_def split_paired_All prod.case set) (simp add: unat_of_nat)
    also have "\<dots> \<longleftrightarrow> (\<forall>b. cnt a b = owned ts b mod 2 ^ 32)"
    proof
      assume eq: "\<forall>i < ?n. cnt a (block_of i) = owned ts (block_of i) mod 2 ^ 32"
      show "\<forall>b. cnt a b = owned ts b mod 2 ^ 32"
      proof
        fix b
        show "cnt a b = owned ts b mod 2 ^ 32"
        proof (cases "index b < ?n")
          case True
          with eq [rule_format, OF True] show ?thesis by simp
        next
          case False
          with True have "\<forall>t \<in> set ts. b \<notin> set (bt_blocks t)" by (auto simp: table_fits_def)
          then have "owned ts b = 0" by (auto simp: owned_def count_list_0_iff)
          with False show ?thesis by (simp add: cnt_def)
        qed
      qed
    qed simp
    finally show ?thesis using True by simp
  next
    case False
    with tally_tables_total [OF n, of 0 ts] have "\<nexists>out. tally_tables 0 ts ?z = Inr out" by simp
    with ac have "check_ownership a ts \<noteq> Inr ()"
      by (cases "tally_tables 0 ts ?z") (simp_all add: check_ownership_def)
    with False show ?thesis by blast
  qed
qed

text \<open>Short of \<open>2 ^ 32\<close> references to one block no counter wraps.\<close>

lemma check_ownership_iff:
  assumes "alloc_inv a" "\<forall>b. owned ts b < 2 ^ 32"
  shows "check_ownership a ts = Inr () \<longleftrightarrow>
    (\<forall>t \<in> set ts. table_fits (al_num_blocks a) t) \<and> cnt a = owned ts"
  using assms by (simp add: check_ownership_words fun_eq_iff)

lemma table_ok_fits:
  "table_ok bs t \<Longrightarrow> holds a t \<Longrightarrow> table_fits (al_num_blocks a) t"
  using cnt_range by (auto simp: table_ok_def table_fits_def holds_def)

end
