(* ===== verification/Table_Props.thy ===== *)
theory Table_Props
  imports Block_Table
begin

text \<open>
  What block tables promise: exact block accounting, all-or-nothing growth, slots that stay
  where they were handed out, the copy-on-write record, and the ownership check.
\<close>

definition demo_alloc :: BlockAllocator where
  "demo_alloc = alloc_new 4"

lemma demo_alloc_inv: "alloc_inv demo_alloc"
  unfolding demo_alloc_def by (rule alloc_inv_new) simp

lemma demo_table: "table_ok 2 (table_new 2)" "holds demo_alloc (table_new 2)"
  using table_ok_new [of 2] by (simp, simp add: holds_def table_new_def)

text \<open>
  C17: \<open>blocks_needed\<close> is exact: growing by \<open>n\<close> tokens succeeds if and only if that many blocks
  are free, then takes exactly that many, and otherwise reports the shortage and leaves the
  table and the allocator untouched.
\<close>

theorem append_many_exact:
  assumes "alloc_inv a" "table_ok bs t" "holds a t"
  shows "\<exists>k. blocks_needed t a n = Ok k () \<and>
    (if k \<le> num_free a
     then \<exists>slots copies t' a'. append_many n (t, a) = Ok (slots, copies) (t', a') \<and>
       num_free a = num_free a' + k \<and> bt_tokens t' = bt_tokens t + n
     else append_many n (t, a) = Err (OutOfBlocks k (num_free a)) (t, a))"
proof (cases "need bs t a n \<le> num_free a")
  case True
  from append_many_ok [OF assms True] obtain slots t' a' where
    op: "append_many n (t, a) = Ok (slots, if n = 0 \<or> unshared bs t a then []
      else [\<lparr>cow_src = last (bt_blocks t), cow_dst = ps_block (slots ! 0)\<rparr>]) (t', a')"
    and g: "grown bs n t a slots t' a'" by blast
  from grownD(5,6) [OF g] op True show ?thesis
    by (intro exI [of _ "need bs t a n"]) (simp add: blocks_needed_eq [OF assms])
next
  case False
  then show ?thesis
    by (intro exI [of _ "need bs t a n"])
      (simp add: blocks_needed_eq [OF assms] append_many_fails [OF assms])
qed

theorem append_many_exact_witness:
  "\<exists>slots copies t' a'. append_many 5 (table_new 2, demo_alloc) = Ok (slots, copies) (t', a') \<and>
    num_free demo_alloc = num_free a' + 3"
proof -
  have 1: "blocks_needed (table_new 2) demo_alloc 5 = Ok 3 ()" "num_free demo_alloc = 4" by code_simp+
  from append_many_exact [OF demo_alloc_inv demo_table, of 5] 1 show ?thesis by auto
qed

text \<open>Where an old position lies after the table has grown.\<close>

lemma grown_old_position:
  assumes "table_ok bs t" and op: "append_many n (t, a) = Ok (slots, copies) (t', a')"
    and g: "grown bs n t a slots t' a'"
    and c: "copies = (if n = 0 \<or> unshared bs t a then []
      else [\<lparr>cow_src = last (bt_blocks t), cow_dst = ps_block (slots ! 0)\<rparr>])"
    and i: "i < bt_tokens t" "resolve t i = Ok p ()"
  shows "resolve t' i = Ok (case copies of [] \<Rightarrow> p
    | c # _ \<Rightarrow> if ps_block p = cow_src c then new_slot (cow_dst c) (ps_slot p) else p) ()"
proof -
  note G = grownD [OF g] and D = table_okD [OF assms(1)]
  have i': "i < bt_tokens t'" using i(1) G(5) by simp
  note R = resolve_ok [OF assms(1) i(1)] and R' = resolve_ok [OF G(4) i']
  from R(1) i(2) have p: "p = new_slot (bt_blocks t ! (i div bs)) (i mod bs)" by simp
  show ?thesis
  proof (cases "n = 0 \<or> unshared bs t a")
    case True
    have "bt_blocks t' ! (i div bs) = bt_blocks t ! (i div bs)"
    proof (cases "unshared bs t a")
      case True
      from prefix_nth [OF G(8) [OF True] R(2)] show ?thesis .
    next
      case False
      with \<open>n = 0 \<or> unshared bs t a\<close> op show ?thesis
        by (simp add: append_many_def blocks_needed_def Let_def)
    qed
    with True c p R'(1) show ?thesis by simp
  next
    case False
    then have r: "bt_tokens t mod bs \<noteq> 0" "0 < n" by (auto simp: unshared_def)
    note T = room_tail [OF assms(1) r(1)]
    let ?k = "bt_tokens t div bs"
    have ne: "last (bt_blocks t) = bt_blocks t ! j \<longleftrightarrow> j = ?k" if "j < length (bt_blocks t)" for j
      using that T(3,4) D(3) by (auto simp: nth_eq_iff_index_eq)
    have dst: "ps_block (slots ! 0) = bt_blocks t' ! ?k"
    proof -
      have "bt_tokens t < bt_tokens t'" using G(5) r(2) by simp
      from resolve_ok(1) [OF G(4) this] G(11) [OF r(2)]
      have "slots ! 0 = new_slot (bt_blocks t' ! ?k) (bt_tokens t mod bs)" by simp
      then show ?thesis by simp
    qed
    show ?thesis
    proof (cases "i div bs = ?k")
      case True
      with False c p R'(1) dst ne [OF R(2)] show ?thesis by simp
    next
      case k: False
      have "i div bs < ?k" using k R(2) T(3) by simp
      moreover from this have "bt_blocks t' ! (i div bs) = bt_blocks t ! (i div bs)"
        using arg_cong [OF G(7), of "\<lambda>xs. xs ! (i div bs)"] by simp
      ultimately show ?thesis using False c p R'(1) ne [OF R(2)] k by simp
    qed
  qed
qed

text \<open>
  C25: Every slot that growing hands out is where its position resolves afterwards, its block
  has one owner, and a position written before still resolves to the same place, except that
  the positions of a copied tail move from the copy's source to its destination.
\<close>

theorem append_many_slots:
  assumes "alloc_inv a" "table_ok bs t" "holds a t"
    and op: "append_many n (t, a) = Ok (slots, copies) (t', a')"
  shows "length slots = n \<and>
    (\<forall>i < n. resolve t' (bt_tokens t + i) = Ok (slots ! i) () \<and> cnt a' (ps_block (slots ! i)) = 1) \<and>
    (\<forall>i < bt_tokens t. \<forall>p. resolve t i = Ok p () \<longrightarrow>
       resolve t' i = Ok (case copies of [] \<Rightarrow> p
         | c # _ \<Rightarrow> if ps_block p = cow_src c then new_slot (cow_dst c) (ps_slot p) else p) ())"
proof -
  have fit: "need bs t a n \<le> num_free a"
    using append_many_fails [OF assms(1-3), of n] op by (cases "num_free a < need bs t a n") auto
  from append_many_ok [OF assms(1-3) fit] op have
    g: "grown bs n t a slots t' a'" and
    c: "copies = (if n = 0 \<or> unshared bs t a then []
      else [\<lparr>cow_src = last (bt_blocks t), cow_dst = ps_block (slots ! 0)\<rparr>])" by auto
  show ?thesis
    using grownD(10-12) [OF g] grown_old_position [OF assms(2) op g c] by blast
qed

theorem append_many_slots_witness:
  "\<exists>slots copies t' a'. append_many 3 (table_new 2, demo_alloc) = Ok (slots, copies) (t', a') \<and>
    resolve t' 2 = Ok (slots ! 2) ()"
proof -
  have "case append_many 3 (table_new 2, demo_alloc) of Ok _ _ \<Rightarrow> True | _ \<Rightarrow> False" by code_simp
  then obtain slots copies t' a' where
    op: "append_many 3 (table_new 2, demo_alloc) = Ok (slots, copies) (t', a')"
    by (cases "append_many 3 (table_new 2, demo_alloc)") auto
  from append_many_slots [OF demo_alloc_inv demo_table op] op show ?thesis
    by (auto simp: table_new_def)
qed

text \<open>
  C29: A table maps distinct written positions to distinct slots, and refuses positions not yet
  written.
\<close>

theorem resolve_injective:
  assumes "table_ok bs t"
  shows "inj_on (resolve t) {..<bt_tokens t} \<and>
    (\<forall>i < bt_tokens t. is_ok (resolve t i)) \<and>
    (\<forall>i \<ge> bt_tokens t. resolve t i = Err (SlotOutOfRange i (bt_tokens t)) ())"
  using resolve_inj [OF assms] resolve_ok(1) [OF assms] resolve_unwritten
  by (auto simp: inj_on_def)

theorem resolve_injective_witness: "resolve (from_blocks [BlockId 3, BlockId 1] 2) 1 \<noteq>
  resolve (from_blocks [BlockId 3, BlockId 1] 2) 3"
proof -
  let ?t = "from_blocks [BlockId 3, BlockId 1] 2"
  have ok: "table_ok 2 ?t" by (rule table_ok_from_blocks) simp_all
  have mem: "1 \<in> {..<bt_tokens ?t}" "3 \<in> {..<bt_tokens ?t}" by (simp_all add: from_blocks_def)
  from resolve_injective [OF ok] have "inj_on (resolve ?t) {..<bt_tokens ?t}" by blast
  from inj_on_eq_iff [OF this mem] show ?thesis by simp
qed

text \<open>
  C23: Forking a table and freeing the fork gives every refcount and the number of free blocks
  back; while the fork lives nothing new is allocated.
\<close>

theorem fork_free_roundtrip:
  assumes "alloc_inv a" "table_ok bs t" "holds a t" "\<forall>b \<in> set (bt_blocks t). cnt a b < 65535"
  shows "\<exists>a' a''. fork_table t a = Ok t a' \<and> num_free a' = num_free a \<and>
    (\<forall>b \<in> set (bt_blocks t). cnt a' b = cnt a b + 1) \<and>
    free_table t a' = Ok () a'' \<and> alloc_inv a'' \<and> cnt a'' = cnt a \<and> num_free a'' = num_free a \<and>
    cached a'' = cached a"
proof -
  note D = table_okD [OF assms(2)]
  from fork_table_ok [OF assms(1) D(3) assms(3,4)] obtain a' where
    f: "fork_table t a = Ok t a'" "alloc_inv a'" "same_content a a'"
      "cnt a' = (\<lambda>b. cnt a b + count_list (bt_blocks t) b)" "num_free a' = num_free a" by blast
  have h: "holds a' t" using f(4) assms(3) by (simp add: holds_def)
  from free_table_ok [OF f(2) D(3) h] obtain a'' where
    g: "free_table t a' = Ok () a''" "alloc_inv a''" "same_content a' a''"
      "cnt a'' = (\<lambda>b. cnt a' b - count_list (bt_blocks t) b)"
      "num_free a'' = num_free a' + card {b \<in> set (bt_blocks t). cnt a' b = 1}" by blast
  have "{b \<in> set (bt_blocks t). cnt a' b = 1} = {}"
    using f(4) assms(3) by (auto simp: holds_def count_list_distinct [OF D(3)])
  moreover have "\<forall>b \<in> set (bt_blocks t). cnt a' b = cnt a b + 1"
    using f(4) by (simp add: count_list_distinct [OF D(3)])
  ultimately show ?thesis
    using f g by (intro exI [of _ a'] exI [of _ a'']) (simp add: same_content_def fun_eq_iff)
qed

definition demo_filled :: "BlockTable \<times> BlockAllocator" where
  "demo_filled = the (res_state (append_many 3 (table_new 2, demo_alloc)))"

lemma demo_filled_ok:
  "table_ok 2 (fst demo_filled)" "alloc_inv (snd demo_filled)" "holds (snd demo_filled) (fst demo_filled)"
proof -
  have "case append_many 3 (table_new 2, demo_alloc) of Ok _ _ \<Rightarrow> True | _ \<Rightarrow> False" by code_simp
  moreover from this have fit: "need 2 (table_new 2) demo_alloc 3 \<le> num_free demo_alloc"
    using append_many_fails [OF demo_alloc_inv demo_table, of 3]
    by (cases "num_free demo_alloc < need 2 (table_new 2) demo_alloc 3") auto
  from append_many_ok [OF demo_alloc_inv demo_table fit] obtain slots copies where
    "append_many 3 (table_new 2, demo_alloc) = Ok (slots, copies) demo_filled"
    "grown 2 3 (table_new 2) demo_alloc slots (fst demo_filled) (snd demo_filled)"
    by (auto simp: demo_filled_def)
  with grownD(1,4,13) [OF this(2)]
  show "table_ok 2 (fst demo_filled)" "alloc_inv (snd demo_filled)"
    "holds (snd demo_filled) (fst demo_filled)"
    using holds_transfer [OF demo_table(2) table_okD(3) [OF demo_table(1)]] by auto
qed

theorem fork_free_roundtrip_witness:
  "\<exists>a' a''. fork_table (fst demo_filled) (snd demo_filled) = Ok (fst demo_filled) a' \<and>
    free_table (fst demo_filled) a' = Ok () a'' \<and> cnt a'' = cnt (snd demo_filled)"
proof -
  have "\<forall>b \<in> set (bt_blocks (fst demo_filled)). cnt (snd demo_filled) b < 65535" by code_simp
  from fork_free_roundtrip [OF demo_filled_ok(2,1,3) this] show ?thesis by blast
qed

text \<open>
  C21: As long as no block is referenced \<open>2 ^ 32\<close> times, so that none of the 32-bit owner counters
  overflows, the ownership check accepts exactly the states in which every table holds the blocks
  its tokens need, all in range, and every refcount is the number of table references.
\<close>

theorem check_ownership_exact:
  assumes "alloc_inv a" "\<forall>b. (\<Sum>t\<leftarrow>ts. count_list (bt_blocks t) b) < 2 ^ 32"
  shows "check_ownership a ts = Inr () \<longleftrightarrow>
    (\<forall>t \<in> set ts. 0 < bt_block_size t \<and>
       length (bt_blocks t) = ceil_div (bt_tokens t) (bt_block_size t) \<and>
       (\<forall>b \<in> set (bt_blocks t). index b < al_num_blocks a)) \<and>
    (\<forall>b. cnt a b = (\<Sum>t\<leftarrow>ts. count_list (bt_blocks t) b))"
  using check_ownership_iff [of a ts] assms by (auto simp: table_fits_def owned_def fun_eq_iff)

theorem check_ownership_exact_witness:
  "check_ownership (snd demo_filled) [fst demo_filled, fst demo_filled] \<noteq> Inr ()"
proof -
  let ?t = "fst demo_filled" and ?b = "hd (bt_blocks (fst demo_filled))"
  have "length (bt_blocks ?t) < 2 ^ 31" by code_simp
  have few: "\<forall>b. (\<Sum>t\<leftarrow>[?t, ?t]. count_list (bt_blocks t) b) < 2 ^ 32"
  proof
    fix b
    from le_less_trans [OF count_le_length \<open>length (bt_blocks ?t) < 2 ^ 31\<close>, of b]
    show "(\<Sum>t\<leftarrow>[?t, ?t]. count_list (bt_blocks t) b) < 2 ^ 32" by simp
  qed
  have "cnt (snd demo_filled) ?b \<noteq> (\<Sum>t\<leftarrow>[?t, ?t]. count_list (bt_blocks t) ?b)" by code_simp
  with check_ownership_exact [OF demo_filled_ok(2) few] show ?thesis by blast
qed

end
