(* ===== verification/Scheduler.thy ===== *)
theory Scheduler
  imports Block_Table Prefix_Match
begin

text \<open>
  Continuous batching, \<open>scheduler.rs\<close>: a FIFO queue, the running sequences and the block
  pool. This theory holds the state, every operation and the invariant; admission, decoding
  and the theorems about a whole step are in the theories that import it. The operations of
  \<open>step\<close> work on the scheduler and the outcome being filled.
\<close>

section \<open>State\<close>

record PendingSeq =
  pd_id :: SeqId
  pd_context_len :: nat
  pd_max_new :: nat
  pd_prompt :: "u32 list"

record RunningSeq =
  rn_id :: SeqId
  rn_table :: BlockTable
  rn_max_new :: nat
  rn_generated :: nat
  rn_prompt :: "u32 list"
  rn_cached :: nat

record BlockInfo =
  bi_id :: BlockId
  bi_ref_count :: nat
  bi_cached :: bool

record RunningInfo =
  ri_id :: SeqId
  ri_tokens :: nat
  ri_generated :: nat
  ri_max_new :: nat
  ri_blocks :: "BlockId list"
  ri_cached :: nat

record WaitingInfo =
  wi_id :: SeqId
  wi_context_len :: nat
  wi_max_new :: nat

record DecodedToken =
  dt_id :: SeqId
  dt_slot :: PhysicalSlot
  dt_cow :: "CowCopy option"

record Prefill =
  pf_id :: SeqId
  pf_cached :: nat
  pf_computed :: nat

record StepOutcome =
  admitted :: "SeqId list"
  prefills :: "Prefill list"
  decoded :: "DecodedToken list"
  preempted :: "SeqId list"
  finished :: "SeqId list"

definition no_outcome :: StepOutcome where
  "no_outcome = \<lparr>admitted = [], prefills = [], decoded = [], preempted = [], finished = []\<rparr>"

record Scheduler =
  sc_alloc :: BlockAllocator
  sc_block_size :: nat
  sc_max_batch :: nat
  waiting :: "PendingSeq list"
  running :: "RunningSeq list"

section \<open>Construction and inspection\<close>

definition with_allocator :: "BlockAllocator \<Rightarrow> CacheConfig \<Rightarrow> nat \<Rightarrow> Scheduler" where
  "with_allocator a config max_batch =
     \<lparr>sc_alloc = a, sc_block_size = block_size config, sc_max_batch = max_batch,
      waiting = [], running = []\<rparr>"

definition sched_new :: "CacheConfig \<Rightarrow> nat \<Rightarrow> Scheduler" where
  "sched_new config max_batch = with_allocator (alloc_new (num_blocks config)) config max_batch"

definition sched_with_prefix_caching :: "CacheConfig \<Rightarrow> nat \<Rightarrow> Scheduler" where
  "sched_with_prefix_caching config max_batch =
     with_allocator (alloc_with_prefix_caching (num_blocks config)) config max_batch"

definition is_idle :: "Scheduler \<Rightarrow> bool" where
  "is_idle s \<longleftrightarrow> waiting s = [] \<and> running s = []"

definition block_info :: "BlockAllocator \<Rightarrow> nat \<Rightarrow> BlockInfo option" where
  "block_info a i =
     (let b = block_of i in do {
        cached \<leftarrow> is_cached a b;
        rc \<leftarrow> (case ref_count a b of Ok rc _ \<Rightarrow> Some rc | Err _ _ \<Rightarrow> Some 0 | Panic \<Rightarrow> None);
        Some \<lparr>bi_id = b, bi_ref_count = rc, bi_cached = cached\<rparr> })"

definition block_snapshot :: "Scheduler \<Rightarrow> BlockInfo option list" where
  "block_snapshot s = map (block_info (sc_alloc s)) [0..<al_num_blocks (sc_alloc s)]"

definition running_snapshot :: "Scheduler \<Rightarrow> RunningInfo list" where
  "running_snapshot s = map (\<lambda>q. \<lparr>ri_id = rn_id q, ri_tokens = bt_tokens (rn_table q),
     ri_generated = rn_generated q, ri_max_new = rn_max_new q,
     ri_blocks = bt_blocks (rn_table q), ri_cached = rn_cached q\<rparr>) (running s)"

definition waiting_snapshot :: "Scheduler \<Rightarrow> WaitingInfo list" where
  "waiting_snapshot s = map (\<lambda>p. \<lparr>wi_id = pd_id p, wi_context_len = pd_context_len p,
     wi_max_new = pd_max_new p\<rparr>) (waiting s)"

section \<open>Requests\<close>

definition enqueue :: "SeqId \<Rightarrow> nat \<Rightarrow> u32 list \<Rightarrow> nat \<Rightarrow> Scheduler \<Rightarrow> (Scheduler, unit) cache_res" where
  "enqueue i prompt_len prompt max_new s =
     (let total_capacity = usize_mul (al_num_blocks (sc_alloc s)) (sc_block_size s);
          final_context_len = usize_add prompt_len max_new in
      if total_capacity < final_context_len then
        unwrap_res (div_ceil final_context_len (sc_block_size s)) (\<lambda>r.
          Err (OutOfBlocks r (al_num_blocks (sc_alloc s))) s)
      else
        Ok () (s\<lparr>waiting := waiting s @ [\<lparr>pd_id = i, pd_context_len = prompt_len,
          pd_max_new = max_new, pd_prompt = prompt\<rparr>]\<rparr>))"

definition add_request :: "SeqId \<Rightarrow> nat \<Rightarrow> nat \<Rightarrow> Scheduler \<Rightarrow> (Scheduler, unit) cache_res" where
  "add_request i prompt_len max_new = enqueue i prompt_len [] max_new"

definition add_prompt :: "SeqId \<Rightarrow> u32 list \<Rightarrow> nat \<Rightarrow> Scheduler \<Rightarrow> (Scheduler, unit) cache_res" where
  "add_prompt i prompt max_new = enqueue i (length prompt) prompt max_new"

section \<open>One step\<close>

type_synonym stepping = "Scheduler \<times> StepOutcome"

text \<open>An allocator operation, seen as one on the scheduler being stepped.\<close>

definition on_alloc :: "(BlockAllocator \<Rightarrow> (BlockAllocator, 'a) cache_res) \<Rightarrow> stepping \<Rightarrow>
    (stepping, 'a) cache_res" where
  "on_alloc f so =
     (case so of (s, out) \<Rightarrow> map_state (\<lambda>a. (s\<lparr>sc_alloc := a\<rparr>, out)) (f (sc_alloc s)))"

fun cache_chunks :: "BlockId list \<Rightarrow> nat \<Rightarrow> PrefixEntry \<Rightarrow> u32 list list \<Rightarrow> BlockAllocator \<Rightarrow>
    (BlockAllocator, unit) cache_res" where
  "cache_chunks blocks i parent [] a = Ok () a"
| "cache_chunks blocks i parent (tokens # chunks) a =
     unwrap_res (nth_at blocks i) (\<lambda>b.
       bind_res (cache_block b parent tokens a) (\<lambda>entry a.
         cache_chunks blocks (i + 1) entry chunks a))"

definition cache_prompt :: "nat \<Rightarrow> BlockTable \<Rightarrow> u32 list \<Rightarrow> nat \<Rightarrow> PrefixEntry \<Rightarrow> BlockAllocator \<Rightarrow>
    (BlockAllocator, unit) cache_res" where
  "cache_prompt bs table prompt skip parent a =
     (if \<not> prefix_caching a then Ok () a
      else if bs = 0 then Panic
      else cache_chunks (bt_blocks table) skip parent (drop skip (chunks_exact bs prompt)) a)"

fun reserve_all :: "BlockAllocator \<Rightarrow> RunningSeq list \<Rightarrow> (unit, nat) cache_res" where
  "reserve_all a [] = Ok 0 ()"
| "reserve_all a (q # qs) =
     bind_res (blocks_needed (rn_table q) a 1) (\<lambda>n _.
       bind_res (reserve_all a qs) (\<lambda>m _. Ok (n + m) ()))"

text \<open>
  One pass of the admission loop: \<open>None\<close> is \<open>break\<close>, \<open>Some r\<close> goes on with \<open>r\<close> reserved.
\<close>

definition admit_front :: "nat \<Rightarrow> stepping \<Rightarrow> (stepping, nat option) cache_res" where
  "admit_front reserved so =
     (case so of (s, out) \<Rightarrow>
       if sc_max_batch s \<le> length (running s) then Ok None (s, out)
       else
         (case waiting s of
            [] \<Rightarrow> Ok None (s, out)
          | pending # rest \<Rightarrow>
              (let bs = sc_block_size s;
                   matchable = min (length (pd_prompt pending)) (pd_context_len pending - 1) in
               unwrap_res (match_prefix (sc_alloc s) (take matchable (pd_prompt pending)) bs) (\<lambda>hit.
                 let cached_tokens = length (pm_blocks hit) * bs;
                     computed_tokens = usize_sub (pd_context_len pending) cached_tokens in
                 unwrap_res (div_ceil (usize_add computed_tokens 1) bs) (\<lambda>fresh.
                   if num_free (sc_alloc s) < pm_evictable hit + fresh + reserved
                   then Ok None (s, out)
                   else
                     bind_res (on_alloc (for_each acquire_cached (pm_blocks hit))
                         (s\<lparr>waiting := rest\<rparr>, out)) (\<lambda>_ so.
                     bind_res (on_alloc (\<lambda>a. pull_local (append_many computed_tokens
                         (from_blocks (pm_blocks hit) bs, a))) so) (\<lambda>(_, table) so.
                     bind_res (on_alloc (cache_prompt bs table (pd_prompt pending)
                         (length (pm_blocks hit)) (pm_last_entry hit)) so) (\<lambda>_ (s, out).
                     read_res (blocks_needed table (sc_alloc s) 1) (s, out) (\<lambda>n.
                     Ok (Some (reserved + n))
                       (s\<lparr>running := running s @
                          [\<lparr>rn_id = pd_id pending, rn_table = table,
                            rn_max_new = pd_max_new pending, rn_generated = 0,
                            rn_prompt = pd_prompt pending, rn_cached = cached_tokens\<rparr>]\<rparr>,
                        out\<lparr>admitted := admitted out @ [pd_id pending],
                          prefills := prefills out @ [\<lparr>pf_id = pd_id pending,
                            pf_cached = cached_tokens, pf_computed = computed_tokens\<rparr>]\<rparr>))))))))))"

text \<open>Every pass that goes on takes one request off the queue, so its length bounds the loop.\<close>

fun admit_loop :: "nat \<Rightarrow> nat \<Rightarrow> stepping \<Rightarrow> (stepping, unit) cache_res" where
  "admit_loop 0 reserved so = Ok () so"
| "admit_loop (Suc n) reserved so =
     bind_res (admit_front reserved so) (\<lambda>go so.
       case go of None \<Rightarrow> Ok () so | Some reserved \<Rightarrow> admit_loop n reserved so)"

definition admit :: "stepping \<Rightarrow> (stepping, unit) cache_res" where
  "admit so =
     (case so of (s, out) \<Rightarrow>
       read_res (reserve_all (sc_alloc s) (running s)) (s, out) (\<lambda>reserved.
         admit_loop (length (waiting s)) reserved (s, out)))"

definition preempt :: "nat \<Rightarrow> stepping \<Rightarrow> (stepping, unit) cache_res" where
  "preempt idx so =
     (case so of (s, out) \<Rightarrow>
       unwrap_res (nth_at (running s) idx) (\<lambda>q.
         let out = out\<lparr>decoded := filter (\<lambda>d. dt_id d \<noteq> rn_id q) (decoded out),
               preempted := preempted out @ [rn_id q]\<rparr>;
             context_len = bt_tokens (rn_table q);
             remaining = usize_sub (rn_max_new q) (rn_generated q) in
         bind_res (on_alloc (free_table (rn_table q))
             (s\<lparr>running := remove_at idx (running s)\<rparr>, out)) (\<lambda>_ (s, out).
           Ok () (s\<lparr>waiting := \<lparr>pd_id = rn_id q, pd_context_len = context_len,
             pd_max_new = remaining, pd_prompt = rn_prompt q\<rparr> # waiting s\<rparr>, out))))"

text \<open>
  The inner loop of \<open>decode\<close>: retry after each preemption. A retry has one running sequence
  fewer, so the length of \<open>running\<close> bounds it; running out of fuel would be \<open>Panic\<close>.
\<close>

fun decode_one :: "nat \<Rightarrow> SeqId \<Rightarrow> nat \<Rightarrow> stepping \<Rightarrow> (stepping, unit) cache_res" where
  "decode_one 0 i idx so = Panic"
| "decode_one (Suc n) i idx so =
     (case so of (s, out) \<Rightarrow>
       unwrap_res (nth_at (running s) idx) (\<lambda>q.
         case append_token (rn_table q, sc_alloc s) of
           Ok (slot, cow) (t, a) \<Rightarrow>
             Ok () (s\<lparr>sc_alloc := a, running := (running s)[idx :=
                 q\<lparr>rn_table := t, rn_generated := rn_generated q + 1\<rparr>]\<rparr>,
               out\<lparr>decoded := decoded out @ [\<lparr>dt_id = i, dt_slot = slot, dt_cow = cow\<rparr>]\<rparr>)
         | Err e (t, a) \<Rightarrow>
             (let s = s\<lparr>sc_alloc := a, running := (running s)[idx := q\<lparr>rn_table := t\<rparr>]\<rparr> in
              if is_out_of_blocks e then
                bind_res (preempt (length (running s) - 1) (s, out)) (\<lambda>_ (s, out).
                  case position_of (\<lambda>r. rn_id r = i) (running s) of
                    Some idx \<Rightarrow> decode_one n i idx (s, out)
                  | None \<Rightarrow> Ok () (s, out))
              else Err e (s, out))
         | Panic \<Rightarrow> Panic))"

fun decode_ids :: "SeqId list \<Rightarrow> stepping \<Rightarrow> (stepping, unit) cache_res" where
  "decode_ids [] so = Ok () so"
| "decode_ids (i # ids) so =
     (case so of (s, out) \<Rightarrow>
       case position_of (\<lambda>r. rn_id r = i) (running s) of
         None \<Rightarrow> decode_ids ids (s, out)
       | Some idx \<Rightarrow>
           bind_res (decode_one (length (running s)) i idx (s, out)) (\<lambda>_ so. decode_ids ids so))"

definition decode :: "stepping \<Rightarrow> (stepping, unit) cache_res" where
  "decode so = decode_ids (map rn_id (running (fst so))) so"

text \<open>Each pass either removes the sequence at \<open>i\<close> or moves past it.\<close>

fun retire_loop :: "nat \<Rightarrow> nat \<Rightarrow> stepping \<Rightarrow> (stepping, unit) cache_res" where
  "retire_loop 0 i so = Ok () so"
| "retire_loop (Suc n) i so =
     (case so of (s, out) \<Rightarrow>
       if length (running s) \<le> i then Ok () (s, out)
       else
         (let q = running s ! i in
          if rn_max_new q \<le> rn_generated q then
            bind_res (on_alloc (free_table (rn_table q))
                (s\<lparr>running := remove_at i (running s)\<rparr>,
                 out\<lparr>finished := finished out @ [rn_id q]\<rparr>))
              (\<lambda>_ so. retire_loop n i so)
          else retire_loop n (i + 1) (s, out)))"

definition retire_finished :: "stepping \<Rightarrow> (stepping, unit) cache_res" where
  "retire_finished so = retire_loop (length (running (fst so))) 0 so"

definition step :: "Scheduler \<Rightarrow> (Scheduler, StepOutcome) cache_res" where
  "step s =
     (case bind_res (bind_res (admit (s, no_outcome)) (\<lambda>_. decode)) (\<lambda>_. retire_finished) of
        Ok _ (s, out) \<Rightarrow> Ok out s
      | Err e (s, _) \<Rightarrow> Err e s
      | Panic \<Rightarrow> Panic)"

section \<open>Leaving early and forking\<close>

definition finish_sequence :: "SeqId \<Rightarrow> Scheduler \<Rightarrow> (Scheduler, unit) cache_res" where
  "finish_sequence i s =
     (case position_of (\<lambda>r. rn_id r = i) (running s) of
        Some idx \<Rightarrow>
          map_state (\<lambda>a. s\<lparr>running := remove_at idx (running s), sc_alloc := a\<rparr>)
            (free_table (rn_table (running s ! idx)) (sc_alloc s))
      | None \<Rightarrow>
          (case position_of (\<lambda>p. pd_id p = i) (waiting s) of
             Some idx \<Rightarrow> Ok () (s\<lparr>waiting := remove_at idx (waiting s)\<rparr>)
           | None \<Rightarrow> Err (UnknownSequence i) s))"

definition fork_sequence :: "SeqId \<Rightarrow> SeqId \<Rightarrow> nat \<Rightarrow> Scheduler \<Rightarrow> (Scheduler, unit) cache_res" where
  "fork_sequence parent child max_new s =
     (case position_of (\<lambda>r. rn_id r = parent) (running s) of
        None \<Rightarrow> Err (UnknownSequence parent) s
      | Some idx \<Rightarrow>
          if sc_max_batch s \<le> length (running s) then Err (BatchFull (sc_max_batch s)) s
          else
            bind_res (map_state (\<lambda>a. s\<lparr>sc_alloc := a\<rparr>)
                (fork_table (rn_table (running s ! idx)) (sc_alloc s)))
              (\<lambda>child_table s.
                Ok () (s\<lparr>running := running s @
                  [\<lparr>rn_id = child, rn_table = child_table, rn_max_new = max_new,
                    rn_generated = 0, rn_prompt = rn_prompt (running s ! idx),
                    rn_cached = 0\<rparr>]\<rparr>)))"

definition sched_check :: "Scheduler \<Rightarrow> CheckError + unit" where
  "sched_check s =
     (if sc_max_batch s < length (running s)
      then Inl (TooManyRunning (length (running s)) (sc_max_batch s))
      else check_ownership (sc_alloc s) (map rn_table (running s)))"

section \<open>Invariant\<close>

text \<open>
  The blocks of a running sequence that are cached are cached for the prompt: the entry of
  the \<open>i\<close>-th stands for the prompt's first \<open>i + 1\<close> blocks of tokens.
\<close>

definition prompt_cached ::
  "(PrefixEntry \<Rightarrow> u32 list) \<Rightarrow> BlockAllocator \<Rightarrow> nat \<Rightarrow> BlockTable \<Rightarrow> u32 list \<Rightarrow> bool" where
  "prompt_cached E a bs t prompt \<longleftrightarrow>
     (\<forall>i < length (bt_blocks t). \<forall>e k. cached a (bt_blocks t ! i) = Some (e, k) \<longrightarrow>
        (i + 1) * bs \<le> length prompt \<and> E e = take ((i + 1) * bs) prompt)"

definition running_ok :: "(PrefixEntry \<Rightarrow> u32 list) \<Rightarrow> BlockAllocator \<Rightarrow> nat \<Rightarrow> RunningSeq \<Rightarrow> bool" where
  "running_ok E a bs q \<longleftrightarrow> table_ok bs (rn_table q) \<and>
     length (rn_prompt q) \<le> bt_tokens (rn_table q) \<and>
     prompt_cached E a bs (rn_table q) (rn_prompt q)"

definition pending_ok :: "BlockAllocator \<Rightarrow> nat \<Rightarrow> PendingSeq \<Rightarrow> bool" where
  "pending_ok a bs p \<longleftrightarrow> length (pd_prompt p) \<le> pd_context_len p \<and>
     pd_context_len p \<le> al_num_blocks a * bs"

definition seq_ids :: "Scheduler \<Rightarrow> SeqId list" where
  "seq_ids s = map rn_id (running s) @ map pd_id (waiting s)"

definition core_inv :: "(PrefixEntry \<Rightarrow> u32 list) \<Rightarrow> Scheduler \<Rightarrow> bool" where
  "core_inv E s \<longleftrightarrow>
     alloc_inv (sc_alloc s) \<and> alloc_sound E (sc_alloc s) \<and>
     0 < sc_block_size s \<and> al_num_blocks (sc_alloc s) * sc_block_size s + 1 < 2 ^ 64 \<and>
     sc_max_batch s \<le> 65535 \<and> length (running s) \<le> sc_max_batch s \<and>
     cnt (sc_alloc s) = owned (map rn_table (running s)) \<and>
     (\<forall>q \<in> set (running s). running_ok E (sc_alloc s) (sc_block_size s) q) \<and>
     (\<forall>p \<in> set (waiting s). pending_ok (sc_alloc s) (sc_block_size s) p) \<and>
     distinct (seq_ids s)"

text \<open>Between steps no running sequence has generated more than it may.\<close>

definition within_budget :: "RunningSeq \<Rightarrow> bool" where
  "within_budget q \<longleftrightarrow> rn_generated q \<le> rn_max_new q"

definition sched_inv :: "(PrefixEntry \<Rightarrow> u32 list) \<Rightarrow> Scheduler \<Rightarrow> bool" where
  "sched_inv E s \<longleftrightarrow> core_inv E s \<and> (\<forall>q \<in> set (running s). within_budget q)"

lemma core_invD:
  assumes "core_inv E s"
  shows "alloc_inv (sc_alloc s)" "alloc_sound E (sc_alloc s)" "0 < sc_block_size s"
    "al_num_blocks (sc_alloc s) * sc_block_size s + 1 < 2 ^ 64"
    "sc_max_batch s \<le> 65535" "length (running s) \<le> sc_max_batch s"
    "cnt (sc_alloc s) = owned (map rn_table (running s))"
    "q \<in> set (running s) \<Longrightarrow> running_ok E (sc_alloc s) (sc_block_size s) q"
    "p \<in> set (waiting s) \<Longrightarrow> pending_ok (sc_alloc s) (sc_block_size s) p"
    "distinct (seq_ids s)"
  using assms unfolding core_inv_def by blast+

end
