(* ===== verification/Sched_Admit.thy ===== *)
theory Sched_Admit
  imports Scheduler
begin

text \<open>
  Admission: reserving a block for every running sequence's next token, reusing a cached
  prefix, filling the rest of the context into fresh blocks and registering the prompt's
  full blocks. Each pass keeps the invariant and leaves the reserve available.
\<close>

section \<open>Owners\<close>

lemma owned_le_length:
  "\<forall>t \<in> set ts. distinct (bt_blocks t) \<Longrightarrow> owned ts b \<le> length ts"
proof (induction ts)
  case (Cons t ts)
  then have "owned ts b \<le> length ts" "count_list (bt_blocks t) b \<le> 1"
    by (auto simp: count_list_distinct)
  then show ?case by simp
qed simp

lemma core_distinct:
  assumes "core_inv E s" "q \<in> set (running s)"
  shows "table_ok (sc_block_size s) (rn_table q)" "holds (sc_alloc s) (rn_table q)"
    "distinct (bt_blocks (rn_table q))"
proof -
  show ok: "table_ok (sc_block_size s) (rn_table q)"
    using core_invD(8) [OF assms] by (simp add: running_ok_def)
  then show "distinct (bt_blocks (rn_table q))" by (rule table_okD(3))
  show "holds (sc_alloc s) (rn_table q)"
    using core_invD(7) [OF assms(1)] assms(2) by (auto intro: owned_holds)
qed

lemma core_cnt_le:
  assumes "core_inv E s"
  shows "cnt (sc_alloc s) b \<le> length (running s)"
  using owned_le_length [of "map rn_table (running s)" b] core_distinct(3) [OF assms]
    core_invD(7) [OF assms] by auto

lemma alloc_limit:
  assumes ok: "table_ok bs t" and h: "holds a t" and n: "al_num_blocks a < 2 ^ 32"
  shows "length (bt_blocks t) \<le> al_num_blocks a" "bt_tokens t \<le> al_num_blocks a * bs"
proof -
  have "set (bt_blocks t) \<subseteq> {b. index b < al_num_blocks a}"
    using h cnt_range by (auto simp: holds_def)
  then have "card (set (bt_blocks t)) \<le> card {b. index b < al_num_blocks a}"
    by (intro card_mono) simp_all
  then show l: "length (bt_blocks t) \<le> al_num_blocks a"
    using n distinct_card [OF table_okD(3) [OF ok]] by simp
  then show "bt_tokens t \<le> al_num_blocks a * bs"
    using table_okD(4) [OF ok] by (simp add: ceil_div_le_iff [OF table_okD(1) [OF ok]])
qed

section \<open>The reserve\<close>

text \<open>What the running sequences need for one token each, as the loop adds it up.\<close>

definition demand :: "BlockAllocator \<Rightarrow> nat \<Rightarrow> RunningSeq list \<Rightarrow> nat" where
  "demand a bs qs = sum_list (map (\<lambda>q. need bs (rn_table q) a 1) qs)"

lemma demand_simps [simp]:
  "demand a bs [] = 0" "demand a bs (q # qs) = need bs (rn_table q) a 1 + demand a bs qs"
  "demand a bs (qs @ rs) = demand a bs qs + demand a bs rs"
  by (simp_all add: demand_def)

lemma reserve_all_eq:
  assumes "alloc_inv a" "\<forall>q \<in> set qs. table_ok bs (rn_table q) \<and> holds a (rn_table q)"
  shows "reserve_all a qs = Ok (demand a bs qs) ()"
  using assms(2)
proof (induction qs)
  case (Cons q qs)
  then show ?case using blocks_needed_eq [OF assms(1), of bs "rn_table q" 1] by simp
qed simp

lemma need_1:
  assumes "table_ok bs t"
  shows "need bs t a 1 = (if takes_block t a then 1 else 0)"
proof (cases "bt_tokens t mod bs = 0")
  case True
  with table_okD(1,2) [OF assms] show ?thesis
    using ceil_div_mult [of bs 1] ceil_div_Suc [of bs 0]
    by (simp add: need_def room_left_def unshared_def takes_block_def)
next
  case False
  have "bt_tokens t mod bs < bs" using table_okD(1) [OF assms] by simp
  then have "1 - room_left bs t = 0" using False by (simp add: room_left_def)
  with False table_okD(2) [OF assms] show ?thesis
    by (simp add: need_def unshared_def takes_block_def)
qed

lemma demand_mono:
  assumes "\<And>q. q \<in> set qs \<Longrightarrow> need bs (rn_table q) a' 1 \<le> need bs (rn_table q) a 1"
  shows "demand a' bs qs \<le> demand a bs qs"
  using assms by (induction qs) (auto intro: add_mono)

section \<open>Registering a prompt\<close>

lemma cache_chunks_ok:
  assumes "alloc_inv a" "alloc_sound E a" "prefix_caching a" "entry_num parent < next_of a"
    and "distinct blocks" "i + length cs \<le> length blocks"
    and "\<forall>j < length cs. 0 < cnt a (blocks ! (i + j)) \<and> cached a (blocks ! (i + j)) = None"
    and "\<forall>j < length cs. cs ! j = take bs (drop ((i + j) * bs) prompt)"
    and "E parent = take (i * bs) prompt"
  shows "\<exists>a' E'. cache_chunks blocks i parent cs a = Ok () a' \<and> alloc_inv a' \<and> alloc_sound E' a' \<and>
    same_pool a a' \<and> cnt a' = cnt a \<and> num_free a' = num_free a \<and>
    (\<forall>x. entry_num x < next_of a \<longrightarrow> E' x = E x) \<and> next_of a \<le> next_of a' \<and>
    (\<forall>x. x \<notin> set (take (length cs) (drop i blocks)) \<longrightarrow> cached a' x = cached a x) \<and>
    (\<forall>j < length cs. \<forall>e k. cached a' (blocks ! (i + j)) = Some (e, k) \<longrightarrow>
       entry_num e < next_of a' \<and> E' e = take ((i + j + 1) * bs) prompt) \<and>
    (\<forall>c. al_cache a' = Some c \<longrightarrow>
       length (chain_walk (index_lookup (pc_index c)) parent cs) = length cs)"
  using assms
proof (induction cs arbitrary: a E parent i)
  case Nil
  then show ?case by (intro exI [of _ a] exI [of _ E]) simp
next
  case (Cons c cs)
  let ?b = "blocks ! i"
  have i: "i < length blocks" using Cons.prems(6) by simp
  have b: "0 < cnt a ?b" "cached a ?b = None" using Cons.prems(7) [rule_format, of 0] by simp_all
  have c: "c = take bs (drop (i * bs) prompt)" using Cons.prems(8) [rule_format, of 0] by simp
  from cache_block_ok [OF Cons.prems(1,2) b(1) Cons.prems(3,4) b(2), of c] obtain e a1 E1 where
    op: "cache_block ?b parent c a = Ok e a1" and A: "alloc_inv a1" "alloc_sound E1 a1"
      "same_pool a a1" "cnt a1 = cnt a" "free_list a1 = free_list a" "evictables a1 = evictables a"
      "\<forall>x. entry_num x < next_of a \<longrightarrow> E1 x = E x" "entry_num e < next_of a1"
      "next_of a \<le> next_of a1" "E1 e = E parent @ c"
      "\<forall>x. x \<noteq> ?b \<longrightarrow> cached a1 x = cached a x"
      "cached a1 ?b \<in> {None, Some (e, \<lparr>key_parent = parent, key_tokens = c\<rparr>)}"
      "\<exists>x. cached a1 x = Some (e, \<lparr>key_parent = parent, key_tokens = c\<rparr>)" by blast
  have e: "E1 e = take (Suc i * bs) prompt"
    using A(10) Cons.prems(9) c take_add [of "i * bs" bs prompt] by (simp add: add.commute)
  have pc1: "prefix_caching a1" using A(3) Cons.prems(3) by (simp add: same_pool_def)
  have own1: "\<forall>j < length cs. 0 < cnt a1 (blocks ! (Suc i + j)) \<and> cached a1 (blocks ! (Suc i + j)) = None"
  proof (intro allI impI)
    fix j assume j: "j < length cs"
    then have "blocks ! (Suc i + j) \<noteq> ?b"
      using Cons.prems(5,6) by (simp add: nth_eq_iff_index_eq)
    with j Cons.prems(7) [rule_format, of "Suc j"] A(4,11)
    show "0 < cnt a1 (blocks ! (Suc i + j)) \<and> cached a1 (blocks ! (Suc i + j)) = None" by simp
  qed
  have ch1: "\<forall>j < length cs. cs ! j = take bs (drop ((Suc i + j) * bs) prompt)"
    using Cons.prems(8) by (metis Suc_less_eq add_Suc_shift length_Cons nth_Cons_Suc)
  have len1: "Suc i + length cs \<le> length blocks" using Cons.prems(6) by simp
  from Cons.IH [OF A(1,2) pc1 A(8) Cons.prems(5) len1 own1 ch1 e] obtain a' E' where
    l: "cache_chunks blocks (Suc i) e cs a1 = Ok () a'" "alloc_inv a'" "alloc_sound E' a'"
      "same_pool a1 a'" "cnt a' = cnt a1" "num_free a' = num_free a1"
      "\<forall>x. entry_num x < next_of a1 \<longrightarrow> E' x = E1 x" "next_of a1 \<le> next_of a'"
      "\<forall>x. x \<notin> set (take (length cs) (drop (Suc i) blocks)) \<longrightarrow> cached a' x = cached a1 x"
      "\<forall>j < length cs. \<forall>e k. cached a' (blocks ! (Suc i + j)) = Some (e, k) \<longrightarrow>
         entry_num e < next_of a' \<and> E' e = take ((Suc i + j + 1) * bs) prompt"
      "\<forall>c. al_cache a' = Some c \<longrightarrow>
         length (chain_walk (index_lookup (pc_index c)) e cs) = length cs" by blast
  have nf: "num_free a' = num_free a"
    using l(6) A(5,6) by (simp add: num_free_eq [OF A(1)] num_free_eq [OF Cons.prems(1)])
  have tk: "take (length (c # cs)) (drop i blocks) = ?b # take (length cs) (drop (Suc i) blocks)"
    using i by (simp add: Cons_nth_drop_Suc [symmetric])
  have nb: "?b \<notin> set (take (length cs) (drop (Suc i) blocks))"
  proof -
    have "?b \<notin> set (drop (Suc i) blocks)"
      using Cons.prems(5) i by (metis Cons_nth_drop_Suc distinct.simps(2) distinct_drop)
    then show ?thesis using in_set_takeD by fastforce
  qed
  have first: "entry_num e' < next_of a' \<and> E' e' = take ((i + 1) * bs) prompt"
    if "cached a' ?b = Some (e', k)" for e' k
  proof -
    from that l(9) nb have "cached a1 ?b = Some (e', k)" by simp
    with A(12) have "e' = e" by auto
    with e A(8) l(7,8) show ?thesis by simp
  qed
  have all: "\<forall>j < length (c # cs). \<forall>e k. cached a' (blocks ! (i + j)) = Some (e, k) \<longrightarrow>
      entry_num e < next_of a' \<and> E' e = take ((i + j + 1) * bs) prompt"
  proof (intro allI impI)
    fix j e' k assume "j < length (c # cs)" "cached a' (blocks ! (i + j)) = Some (e', k)"
    then show "entry_num e' < next_of a' \<and> E' e' = take ((i + j + 1) * bs) prompt"
      using first [of e' k] l(10) [rule_format, of "j - 1" e' k] by (cases j) simp_all
  qed
  have old: "\<forall>x. entry_num x < next_of a \<longrightarrow> E' x = E x"
    using A(7,9) l(7) by (metis le_trans less_le_trans)
  have keep: "\<forall>x. x \<notin> set (take (length (c # cs)) (drop i blocks)) \<longrightarrow> cached a' x = cached a x"
    unfolding tk using l(9) A(11) by auto
  have walk: "\<forall>ca. al_cache a' = Some ca \<longrightarrow>
      length (chain_walk (index_lookup (pc_index ca)) parent (c # cs)) = length (c # cs)"
  proof (intro allI impI)
    fix ca assume ca: "al_cache a' = Some ca"
    from A(13) obtain x where x: "cached a1 x = Some (e, \<lparr>key_parent = parent, key_tokens = c\<rparr>)" ..
    have "x \<notin> set (take (length cs) (drop (Suc i) blocks))"
    proof
      assume "x \<in> set (take (length cs) (drop (Suc i) blocks))"
      then obtain j where "j < length cs" "x = blocks ! (Suc i + j)"
        using len1 by (auto simp: in_set_conv_nth)
      with own1 x show False by simp
    qed
    with l(9) x have "cached a' x = Some (e, \<lparr>key_parent = parent, key_tokens = c\<rparr>)" by simp
    with lookup_cached [OF cache_invD(2) [OF alloc_invD(4) [OF l(2)] ca]] ca
    have "index_lookup (pc_index ca) parent c = Some (e, x)" by (simp add: cached_Some)
    with l(11) ca show "length (chain_walk (index_lookup (pc_index ca)) parent (c # cs)) =
      length (c # cs)" by simp
  qed
  have "cache_chunks blocks i parent (c # cs) a = Ok () a'" using i op l(1) by simp
  with walk l(2,3,5,8) A(4,9) same_pool_trans [OF A(3) l(4)] nf old keep all
  show ?case by (intro exI [of _ a'] exI [of _ E']) simp
qed

lemma cache_prompt_ok:
  assumes inv: "alloc_inv a" and snd: "alloc_sound E a" and ok: "table_ok bs t" and h: "holds a t"
    and parent: "entry_num parent < next_of a" "E parent = take (skip * bs) prompt"
    and len: "length prompt \<le> bt_tokens t" "skip * bs \<le> length prompt"
    and new: "\<And>i. skip \<le> i \<Longrightarrow> i < length (bt_blocks t) \<Longrightarrow> cached a (bt_blocks t ! i) = None"
  shows "\<exists>a' E'. cache_prompt bs t prompt skip parent a = Ok () a' \<and> alloc_inv a' \<and>
    alloc_sound E' a' \<and> same_pool a a' \<and> cnt a' = cnt a \<and> num_free a' = num_free a \<and>
    (\<forall>x. entry_num x < next_of a \<longrightarrow> E' x = E x) \<and> next_of a \<le> next_of a' \<and>
    (\<forall>x. x \<notin> set (drop skip (bt_blocks t)) \<longrightarrow> cached a' x = cached a x) \<and>
    (\<forall>i < length (bt_blocks t). skip \<le> i \<longrightarrow>
       (\<forall>e k. cached a' (bt_blocks t ! i) = Some (e, k) \<longrightarrow>
          (i + 1) * bs \<le> length prompt \<and> E' e = take ((i + 1) * bs) prompt))"
proof (cases "prefix_caching a")
  case False
  then have "al_cache a = None" by (simp add: prefix_caching_def)
  with False inv snd show ?thesis
    by (intro exI [of _ a] exI [of _ E]) (simp add: cache_prompt_def)
next
  case True
  note D = table_okD [OF ok]
  let ?cs = "drop skip (chunks_exact bs prompt)"
  have lc: "length ?cs = length prompt div bs - skip" by (simp add: length_chunks_exact [OF D(1)])
  have "length prompt div bs \<le> length (bt_blocks t)"
  proof -
    have "length prompt div bs \<le> bt_tokens t div bs" using len(1) by (rule div_le_mono)
    then show ?thesis using length_blocks [OF ok] by simp
  qed
  moreover have "skip \<le> length prompt div bs" using len(2) D(1) by (simp add: less_eq_div_iff_mult_less_eq)
  ultimately have fit: "skip + length ?cs \<le> length (bt_blocks t)" using lc by simp
  have own: "\<forall>j < length ?cs. 0 < cnt a (bt_blocks t ! (skip + j)) \<and>
      cached a (bt_blocks t ! (skip + j)) = None"
    using new fit h by (auto simp: holds_def)
  have ch: "\<forall>j < length ?cs. ?cs ! j = take bs (drop ((skip + j) * bs) prompt)"
    by (auto simp: nth_chunks_exact)
  from cache_chunks_ok [OF inv snd True parent(1) D(3) fit own ch parent(2)] obtain a' E' where
    op: "cache_chunks (bt_blocks t) skip parent ?cs a = Ok () a'" and A: "alloc_inv a'"
      "alloc_sound E' a'" "same_pool a a'" "cnt a' = cnt a" "num_free a' = num_free a"
      "\<forall>x. entry_num x < next_of a \<longrightarrow> E' x = E x" "next_of a \<le> next_of a'"
      "\<forall>x. x \<notin> set (take (length ?cs) (drop skip (bt_blocks t))) \<longrightarrow> cached a' x = cached a x"
      "\<forall>j < length ?cs. \<forall>e k. cached a' (bt_blocks t ! (skip + j)) = Some (e, k) \<longrightarrow>
         entry_num e < next_of a' \<and> E' e = take ((skip + j + 1) * bs) prompt" by blast
  have "(i + 1) * bs \<le> length prompt \<and> E' e = take ((i + 1) * bs) prompt"
    if i: "i < length (bt_blocks t)" "skip \<le> i" "cached a' (bt_blocks t ! i) = Some (e, k)" for i e k
  proof (cases "i < length prompt div bs")
    case True
    then have "i - skip < length ?cs" "skip + (i - skip) = i" using lc i(2) by auto
    with A(9) i(3) have "E' e = take ((i + 1) * bs) prompt" by metis
    moreover have "(i + 1) * bs \<le> length prompt"
      using True less_eq_div_iff_mult_less_eq [OF D(1), of "i + 1" "length prompt"] by simp
    ultimately show ?thesis by simp
  next
    case False
    have "bt_blocks t ! i \<notin> set (take (length ?cs) (drop skip (bt_blocks t)))"
    proof
      assume "bt_blocks t ! i \<in> set (take (length ?cs) (drop skip (bt_blocks t)))"
      then obtain j where "j < length ?cs" "skip + j < length (bt_blocks t)"
        "bt_blocks t ! i = bt_blocks t ! (skip + j)" by (auto simp: in_set_conv_nth)
      with D(3) i(1) lc False show False by (simp add: nth_eq_iff_index_eq)
    qed
    with A(8) i(3) new [OF i(2,1)] show ?thesis by simp
  qed
  moreover have "set (take (length ?cs) (drop skip (bt_blocks t))) \<subseteq> set (drop skip (bt_blocks t))"
    by (rule set_take_subset)
  ultimately show ?thesis
    using op A True D(1)
    by (intro exI [of _ a'] exI [of _ E']) (auto simp: cache_prompt_def)
qed

section \<open>Filling the context\<close>

lemma need_add:
  assumes bs: "0 < bs" and u: "unshared bs t a" and u': "unshared bs t' a'"
    and T: "bt_tokens t' = bt_tokens t + n"
  shows "need bs t a n + need bs t' a' m = need bs t a (n + m)"
proof -
  have e: "need bs t a k = ceil_div (k - room_left bs t) bs" if "unshared bs t a" for t a k
    using that bs by (simp add: need_def)
  show ?thesis
    using room_left_growth [OF bs, of t n] room_left_growth [OF bs, of t "n + m"]
      room_left_growth [OF bs, of t' m] T
    by (simp add: e [OF u] e [OF u'] add.assoc)
qed

lemma fill_context:
  assumes inv: "alloc_inv a" and ok: "table_ok bs t" and h: "holds a t"
    and full: "bt_tokens t mod bs = 0" and f: "ceil_div (n + 1) bs \<le> num_free a"
  shows "\<exists>slots t' a'. append_many n (t, a) = Ok (slots, []) (t', a') \<and>
    grown bs n t a slots t' a' \<and> prefix (bt_blocks t) (bt_blocks t') \<and>
    num_free a + need bs t' a' 1 = num_free a' + ceil_div (n + 1) bs"
proof -
  note D = table_okD [OF ok]
  have u: "unshared bs t a" using full by (simp add: unshared_def)
  have nd: "need bs t a k = ceil_div k bs" for k
    using u full D(1) by (simp add: need_def room_left_def)
  have "need bs t a n \<le> num_free a"
    using f ceil_div_mono [OF D(1), of n "n + 1"] nd by simp
  from append_many_ok [OF inv ok h this] u obtain slots t' a' where
    op: "append_many n (t, a) = Ok (slots, []) (t', a')" and g: "grown bs n t a slots t' a'" by auto
  note G = grownD [OF g]
  have u': "unshared bs t' a'"
  proof (cases n)
    case 0
    with G(5) full show ?thesis by (simp add: unshared_def)
  next
    case (Suc m)
    with G(9) show ?thesis by simp
  qed
  have "need bs t a n + need bs t' a' 1 = ceil_div (n + 1) bs"
    using need_add [OF D(1) u u' G(5)] nd by simp
  with G(6) op g G(8) [OF u] show ?thesis
    by (intro exI [of _ slots] exI [of _ t'] exI [of _ a']) simp
qed

section \<open>One admission\<close>

definition same_config :: "Scheduler \<Rightarrow> Scheduler \<Rightarrow> bool" where
  "same_config s s' \<longleftrightarrow> same_pool (sc_alloc s) (sc_alloc s') \<and>
     sc_block_size s' = sc_block_size s \<and> sc_max_batch s' = sc_max_batch s"

lemma same_config_refl [simp]: "same_config s s"
  by (simp add: same_config_def)

lemma same_config_trans: "same_config s t \<Longrightarrow> same_config t u \<Longrightarrow> same_config s u"
  using same_pool_trans by (auto simp: same_config_def)

text \<open>What one admission leaves behind.\<close>

definition fill_blocks :: "Scheduler \<Rightarrow> PendingSeq \<Rightarrow> PrefixMatch \<Rightarrow> nat" where
  "fill_blocks s p m = pm_evictable m +
     ceil_div (pd_context_len p - length (pm_blocks m) * sc_block_size s + 1) (sc_block_size s)"

definition front_match :: "Scheduler \<Rightarrow> PendingSeq \<Rightarrow> PrefixMatch option" where
  "front_match s p = match_prefix (sc_alloc s)
     (take (min (length (pd_prompt p)) (pd_context_len p - 1)) (pd_prompt p)) (sc_block_size s)"

text \<open>The tail of a table that still has room is never cached.\<close>

lemma cached_full:
  assumes ok: "running_ok E a bs q" and i: "i < length (bt_blocks (rn_table q))"
    and c: "cached a (bt_blocks (rn_table q) ! i) \<noteq> None"
  shows "(i + 1) * bs \<le> bt_tokens (rn_table q)"
proof -
  from c obtain e k where "cached a (bt_blocks (rn_table q) ! i) = Some (e, k)" by auto
  with ok i show ?thesis by (fastforce simp: running_ok_def prompt_cached_def)
qed

lemma room_tail_uncached:
  assumes ok: "running_ok E a bs q" and r: "bt_tokens (rn_table q) mod bs \<noteq> 0"
  shows "cached a (last (bt_blocks (rn_table q))) = None"
proof (rule ccontr)
  assume c: "cached a (last (bt_blocks (rn_table q))) \<noteq> None"
  let ?T = "bt_tokens (rn_table q)"
  from ok have t: "table_ok bs (rn_table q)" by (simp add: running_ok_def)
  note T = room_tail [OF t r]
  have "(?T div bs + 1) * bs \<le> ?T" using cached_full [OF ok] c T(3,4) by simp
  moreover have "?T < (?T div bs + 1) * bs"
    using table_okD(1) [OF t] by (metis Suc_eq_plus1 lessI div_less_iff_less_mult)
  ultimately show False by simp
qed

lemma need_stable:
  assumes ok: "running_ok E a bs q"
    and same: "\<And>b. cached a b = None \<Longrightarrow> 0 < cnt a b \<Longrightarrow> cnt a' b \<le> cnt a b"
    and h: "holds a (rn_table q)"
  shows "need bs (rn_table q) a' 1 \<le> need bs (rn_table q) a 1"
proof -
  from ok have t: "table_ok bs (rn_table q)" by (simp add: running_ok_def)
  have "cnt a' (last (bt_blocks (rn_table q))) \<le> cnt a (last (bt_blocks (rn_table q)))"
    if "bt_tokens (rn_table q) mod bs \<noteq> 0"
    using that h room_tail(1) [OF t that] room_tail_uncached [OF ok that]
    by (intro same) (simp_all add: holds_def)
  then show ?thesis
    unfolding need_1 [OF t] using table_okD(2) [OF t] by (auto simp: takes_block_def)
qed

text \<open>
  No block is shared but by way of the prefix cache, which is so as long as nobody forks.
\<close>

definition lone :: "BlockAllocator \<Rightarrow> bool" where
  "lone a \<longleftrightarrow> (\<forall>b. cached a b = None \<longrightarrow> cnt a b \<le> 1)"

text \<open>
  What an admission does to the blocks of its table: the first \<open>k\<close> were cached and still are,
  the others nobody owned, and nothing but those is registered anew.
\<close>

definition filled :: "BlockAllocator \<Rightarrow> nat \<Rightarrow> BlockTable \<Rightarrow> BlockAllocator \<Rightarrow> bool" where
  "filled a k t a' \<longleftrightarrow>
     (\<forall>b \<in> set (drop k (bt_blocks t)). cnt a b = 0) \<and>
     (\<forall>b \<in> set (take k (bt_blocks t)). cached a b \<noteq> None \<and> cached a' b = cached a b) \<and>
     (\<forall>b x. cached a' b = Some x \<longrightarrow> cached a b = Some x \<or> b \<in> set (drop k (bt_blocks t))) \<and>
     (\<forall>b. cnt a' b = cnt a b + count_list (bt_blocks t) b) \<and>
     (\<forall>b. 0 < cnt a b \<longrightarrow> cached a' b = cached a b) \<and> (lone a \<longrightarrow> lone a')"

lemma fill_admitted:
  assumes core: "core_inv E s" and p: "pending_ok (sc_alloc s) (sc_block_size s) p"
    and room: "length (running s) < sc_max_batch s" and m: "front_match s p = Some m"
    and f: "fill_blocks s p m \<le> num_free (sc_alloc s)"
  shows "\<exists>a1 slots t a2 a3 E'.
    length (pm_blocks m) * sc_block_size s \<le> pd_context_len p - 1 \<and>
    filled (sc_alloc s) (length (pm_blocks m)) t a3 \<and>
    for_each acquire_cached (pm_blocks m) (sc_alloc s) = Ok () a1 \<and>
    append_many (pd_context_len p - length (pm_blocks m) * sc_block_size s)
      (from_blocks (pm_blocks m) (sc_block_size s), a1) = Ok (slots, []) (t, a2) \<and>
    cache_prompt (sc_block_size s) t (pd_prompt p) (length (pm_blocks m)) (pm_last_entry m) a2 =
      Ok () a3 \<and>
    blocks_needed t a3 1 = Ok (need (sc_block_size s) t a3 1) () \<and>
    alloc_inv a3 \<and> alloc_sound E' a3 \<and> same_pool (sc_alloc s) a3 \<and>
    (\<forall>x. entry_num x < next_of (sc_alloc s) \<longrightarrow> E' x = E x) \<and>
    next_of (sc_alloc s) \<le> next_of a3 \<and>
    table_ok (sc_block_size s) t \<and> bt_tokens t = pd_context_len p \<and>
    (\<forall>b. cnt a3 b = cnt (sc_alloc s) b + count_list (bt_blocks t) b) \<and>
    (\<forall>b. 0 < cnt (sc_alloc s) b \<longrightarrow> cached a3 b = cached (sc_alloc s) b) \<and>
    (\<forall>b. 0 < cnt (sc_alloc s) b \<longrightarrow> cached (sc_alloc s) b = None \<longrightarrow>
       cnt a3 b = cnt (sc_alloc s) b) \<and>
    prompt_cached E' a3 (sc_block_size s) t (pd_prompt p) \<and>
    num_free (sc_alloc s) + need (sc_block_size s) t a3 1 = num_free a3 + fill_blocks s p m"
proof -
  let ?a = "sc_alloc s" and ?bs = "sc_block_size s" and ?bl = "pm_blocks m"
  let ?pr = "pd_prompt p" and ?n = "pd_context_len p"
  let ?mt = "min (length ?pr) (?n - 1)"
  let ?k = "length ?bl"
  let ?c = "?n - ?k * ?bs"
  note C = core_invD [OF core]
  from match_prefix_ok [OF C(1,3,2), of "take ?mt ?pr"] m
  have M: "distinct ?bl" "?k * ?bs \<le> ?mt" "\<forall>b \<in> set ?bl. cached ?a b \<noteq> None"
    "pm_evictable m = length (filter (\<lambda>b. cnt ?a b = 0) ?bl)"
    "entry_num (pm_last_entry m) < next_of ?a"
    "E (pm_last_entry m) = take (?k * ?bs) (take ?mt ?pr)"
    "\<forall>i < ?k. stands_for ?a E (take ?mt ?pr) (Suc i * ?bs) (?bl ! i)"
    by (auto simp: front_match_def)
  have kn: "?k * ?bs \<le> ?n" "?k * ?bs \<le> length ?pr" using M(2) by auto
  have lim: "\<forall>b \<in> set ?bl. cached ?a b \<noteq> None \<and> cnt ?a b < 65535"
    using M(3) core_cnt_le [OF core] room C(5) by (meson le_less_trans less_le_trans)
  from acquire_all_ok [OF C(1) M(1) lim] obtain a1 where
    op1: "for_each acquire_cached ?bl ?a = Ok () a1"
    and r1: "recounts ?a (\<lambda>b. cnt ?a b + count_list ?bl b) a1"
    and nf1: "num_free ?a = num_free a1 + pm_evictable m" using M(4) by auto
  from r1 have R1: "alloc_inv a1" "same_pool ?a a1" "cnt a1 = (\<lambda>b. cnt ?a b + count_list ?bl b)"
    "cached a1 = cached ?a" "next_of a1 = next_of ?a" by (simp_all add: recounts_def)
  let ?t0 = "from_blocks ?bl ?bs"
  have t0: "table_ok ?bs ?t0" "bt_blocks ?t0 = ?bl" "bt_tokens ?t0 = ?k * ?bs"
    using table_ok_from_blocks [OF C(3) M(1)] by (simp_all add: from_blocks_def)
  have h0: "holds a1 ?t0" using R1(3) t0(2) by (auto simp: holds_def count_list_distinct [OF M(1)])
  have f1: "ceil_div (?c + 1) ?bs \<le> num_free a1" using f nf1 by (simp add: fill_blocks_def)
  from fill_context [OF R1(1) t0(1) h0 _ f1] t0(3) obtain slots t a2 where
    op2: "append_many ?c (?t0, a1) = Ok (slots, []) (t, a2)" and g: "grown ?bs ?c ?t0 a1 slots t a2"
    and pre: "prefix ?bl (bt_blocks t)"
    and nf2: "num_free a1 + need ?bs t a2 1 = num_free a2 + ceil_div (?c + 1) ?bs"
    using t0(2) by auto
  note G = grownD [OF g]
  have T: "bt_tokens t = ?n" using G(5) t0(3) kn(1) by simp
  have h2: "holds a2 t"
    using G(13) by (rule holds_transfer [OF h0 table_okD(3) [OF t0(1)]])
  have snd2: "alloc_sound E a2"
    by (rule alloc_sound_mono [OF C(2)]) (use G(16) R1(4) in auto)
  have lp: "length ?pr \<le> bt_tokens t" using p T by (simp add: pending_ok_def)
  have parent: "entry_num (pm_last_entry m) < next_of a2"
    "E (pm_last_entry m) = take (?k * ?bs) ?pr"
    using M(2,5,6) G(3) R1(5) by (simp_all add: min_def)
  have new: "cached a2 (bt_blocks t ! i) = None" if "?k \<le> i" "i < length (bt_blocks t)" for i
  proof -
    have "bt_blocks t ! i \<notin> set ?bl"
    proof
      assume "bt_blocks t ! i \<in> set ?bl"
      then obtain j where "j < ?k" "bt_blocks t ! i = ?bl ! j" by (auto simp: in_set_conv_nth)
      then have "j < ?k" "bt_blocks t ! i = bt_blocks t ! j" using prefix_nth [OF pre] by auto
      with that table_okD(3) [OF G(4)] show False by (simp add: nth_eq_iff_index_eq)
    qed
    with G(17) [of "bt_blocks t ! i"] that(2) t0(2) show ?thesis by simp
  qed
  from cache_prompt_ok [OF G(1) snd2 G(4) h2 parent lp kn(2) new] obtain a3 E' where
    op3: "cache_prompt ?bs t ?pr ?k (pm_last_entry m) a2 = Ok () a3"
    and A: "alloc_inv a3" "alloc_sound E' a3" "same_pool a2 a3" "cnt a3 = cnt a2"
      "num_free a3 = num_free a2" "\<forall>x. entry_num x < next_of a2 \<longrightarrow> E' x = E x"
      "next_of a2 \<le> next_of a3"
      "\<forall>x. x \<notin> set (drop ?k (bt_blocks t)) \<longrightarrow> cached a3 x = cached a2 x"
      "\<forall>i < length (bt_blocks t). ?k \<le> i \<longrightarrow>
         (\<forall>e k. cached a3 (bt_blocks t ! i) = Some (e, k) \<longrightarrow>
            (i + 1) * ?bs \<le> length ?pr \<and> E' e = take ((i + 1) * ?bs) ?pr)" by blast
  have dropped: "cnt ?a b = 0 \<and> b \<notin> set ?bl" if "b \<in> set (drop ?k (bt_blocks t))" for b
  proof -
    from pre obtain ys where ys: "bt_blocks t = ?bl @ ys" by (auto simp: prefix_def)
    with that table_okD(3) [OF G(4)] have "b \<notin> set ?bl" "b \<in> set (bt_blocks t)" by auto
    with G(17) [of b] t0(2) R1(3) show ?thesis by simp
  qed
  have keep: "cached a3 b = cached ?a b" if "b \<in> set ?bl \<or> 0 < cnt ?a b" for b
  proof -
    have "0 < cnt a1 b" using that R1(3) by (auto simp: count_list_distinct [OF M(1)])
    moreover have "b \<notin> set (drop ?k (bt_blocks t))" using that dropped by auto
    ultimately show ?thesis using G(15) A(8) R1(4) by simp
  qed
  have cnt3: "cnt a3 b = cnt ?a b + count_list (bt_blocks t) b" for b
    using G(13) [of b] R1(3) t0(2) A(4) by simp
  have unc: "cnt a3 b = cnt ?a b" if "0 < cnt ?a b" "cached ?a b = None" for b
  proof -
    have "b \<notin> set ?bl" using that(2) M(3) by auto
    moreover have "b \<notin> set (bt_blocks t)"
    proof
      assume "b \<in> set (bt_blocks t)"
      with G(17) [of b] \<open>b \<notin> set ?bl\<close> t0(2) R1(3) that(1) show False by simp
    qed
    ultimately show ?thesis using cnt3 [of b] by (simp add: count_notin)
  qed
  have pc: "prompt_cached E' a3 ?bs t ?pr"
    unfolding prompt_cached_def
  proof (intro allI impI)
    fix i e k
    assume i: "i < length (bt_blocks t)" "cached a3 (bt_blocks t ! i) = Some (e, k)"
    show "(i + 1) * ?bs \<le> length ?pr \<and> E' e = take ((i + 1) * ?bs) ?pr"
    proof (cases "?k \<le> i")
      case True
      with A(9) i show ?thesis by blast
    next
      case False
      then have ik: "i < ?k" by simp
      then have b: "bt_blocks t ! i = ?bl ! i" by (rule prefix_nth [OF pre])
      with keep [of "?bl ! i"] ik i(2) have ca: "cached ?a (?bl ! i) = Some (e, k)" by simp
      with M(7) ik have Ee: "E e = take (Suc i * ?bs) (take ?mt ?pr)" by (auto simp: stands_for_def)
      have le: "Suc i * ?bs \<le> ?mt"
        using ik M(2) mult_le_mono1 [of "Suc i" ?k ?bs] by linarith
      have "entry_num e < next_of a2"
        using cached_entry_less(2) [OF C(1) ca] G(3) R1(5) by simp
      with A(6) Ee le show ?thesis by (simp add: min.absorb1)
    qed
  qed
  have h3: "holds a3 t" using h2 A(4) by (simp add: holds_def)
  have n3: "need ?bs t a3 1 = need ?bs t a2 1" using A(4) by (simp add: need_def unshared_def)
  show ?thesis
  proof (rule exI [of _ a1], rule exI [of _ slots], rule exI [of _ t], rule exI [of _ a2],
      rule exI [of _ a3], rule exI [of _ E'], intro conjI)
    show "same_pool ?a a3" using R1(2) G(2) A(3) same_pool_trans by blast
    show "blocks_needed t a3 1 = Ok (need ?bs t a3 1) ()" by (rule blocks_needed_eq [OF A(1) G(4) h3])
    show "num_free ?a + need ?bs t a3 1 = num_free a3 + fill_blocks s p m"
      using nf1 nf2 n3 A(5) by (simp add: fill_blocks_def)
    show "\<forall>x. entry_num x < next_of ?a \<longrightarrow> E' x = E x" using A(6) G(3) R1(5) by simp
    show "next_of ?a \<le> next_of a3" using A(7) G(3) R1(5) by simp
    show "\<forall>b. 0 < cnt ?a b \<longrightarrow> cached a3 b = cached ?a b" using keep by blast
    show "?k * ?bs \<le> ?n - 1" using M(2) by simp
    from pre have tk: "take ?k (bt_blocks t) = ?bl" by (auto simp: prefix_def)
    have "cached a3 b = Some x \<Longrightarrow> cached ?a b = Some x \<or> b \<in> set (drop ?k (bt_blocks t))" for b x
      using A(8) G(16) [of b x] R1(4) by (cases "b \<in> set (drop ?k (bt_blocks t))") simp_all
    moreover have "lone a3" if "lone ?a"
      unfolding lone_def
    proof (intro allI impI)
      fix b assume b: "cached a3 b = None"
      show "cnt a3 b \<le> 1"
      proof (cases "0 < cnt ?a b")
        case True
        with b keep have "cached ?a b = None" by simp
        with True unc that show ?thesis by (auto simp: lone_def)
      next
        case False
        with cnt3 [of b] count_list_distinct [OF table_okD(3) [OF G(4)], of b] show ?thesis by simp
      qed
    qed
    ultimately show "filled ?a ?k t a3"
      unfolding filled_def tk using dropped keep M(3) cnt3 by blast
  qed (use kn op1 op2 op3 A G(4) T cnt3 unc pc in simp_all)
qed

text \<open>
  A pass that admits: the front request joins the end of the running list, the invariant
  holds with the ghost prefixes extended, and the reserve still covers everybody.
\<close>

lemma admit_front_go:
  assumes core: "core_inv E s" and w: "waiting s = p # rest"
    and room: "length (running s) < sc_max_batch s" and m: "front_match s p = Some m"
    and f: "fill_blocks s p m + R \<le> num_free (sc_alloc s)"
    and R: "demand (sc_alloc s) (sc_block_size s) (running s) \<le> R"
  shows "\<exists>s' R' E' q. admit_front R (s, out) = Ok (Some R') (s',
      out\<lparr>admitted := admitted out @ [pd_id p], prefills := prefills out @ [\<lparr>pf_id = pd_id p,
        pf_cached = length (pm_blocks m) * sc_block_size s,
        pf_computed = pd_context_len p - length (pm_blocks m) * sc_block_size s\<rparr>]\<rparr>) \<and>
    core_inv E' s' \<and> same_config s s' \<and> waiting s' = rest \<and> running s' = running s @ [q] \<and>
    (\<forall>x. entry_num x < next_of (sc_alloc s) \<longrightarrow> E' x = E x) \<and>
    next_of (sc_alloc s) \<le> next_of (sc_alloc s') \<and>
    rn_id q = pd_id p \<and> rn_max_new q = pd_max_new p \<and> rn_generated q = 0 \<and>
    rn_prompt q = pd_prompt p \<and> bt_tokens (rn_table q) = pd_context_len p \<and>
    rn_cached q = length (pm_blocks m) * sc_block_size s \<and> rn_cached q \<le> pd_context_len p - 1 \<and>
    filled (sc_alloc s) (length (pm_blocks m)) (rn_table q) (sc_alloc s') \<and>
    demand (sc_alloc s') (sc_block_size s') (running s') \<le> R' \<and> R' \<le> num_free (sc_alloc s')"
proof -
  let ?a = "sc_alloc s" and ?bs = "sc_block_size s"
  let ?n = "pd_context_len p" and ?k = "length (pm_blocks m)"
  note C = core_invD [OF core]
  have p: "pending_ok ?a ?bs p" using C(9) w by simp
  have f': "fill_blocks s p m \<le> num_free ?a" using f by simp
  from fill_admitted [OF core p room m f'] obtain a1 slots t a2 a3 E' where
    F: "?k * ?bs \<le> ?n - 1" "for_each acquire_cached (pm_blocks m) ?a = Ok () a1"
    "append_many (?n - ?k * ?bs) (from_blocks (pm_blocks m) ?bs, a1) = Ok (slots, []) (t, a2)"
    "cache_prompt ?bs t (pd_prompt p) ?k (pm_last_entry m) a2 = Ok () a3"
    "blocks_needed t a3 1 = Ok (need ?bs t a3 1) ()"
    "alloc_inv a3" "alloc_sound E' a3" "same_pool ?a a3"
    "\<forall>x. entry_num x < next_of ?a \<longrightarrow> E' x = E x" "next_of ?a \<le> next_of a3"
    "table_ok ?bs t" "bt_tokens t = ?n"
    and K: "\<forall>b. cnt a3 b = cnt ?a b + count_list (bt_blocks t) b"
    "\<forall>b. 0 < cnt ?a b \<longrightarrow> cached a3 b = cached ?a b"
    "\<forall>b. 0 < cnt ?a b \<longrightarrow> cached ?a b = None \<longrightarrow> cnt a3 b = cnt ?a b"
    "prompt_cached E' a3 ?bs t (pd_prompt p)"
    "num_free ?a + need ?bs t a3 1 = num_free a3 + fill_blocks s p m"
    and L: "filled ?a ?k t a3" by blast
  have kn: "?k * ?bs \<le> ?n" using F(1) by simp
  let ?q = "\<lparr>rn_id = pd_id p, rn_table = t, rn_max_new = pd_max_new p, rn_generated = 0,
    rn_prompt = pd_prompt p, rn_cached = ?k * ?bs\<rparr>"
  let ?s = "s\<lparr>waiting := rest, sc_alloc := a3, running := running s @ [?q]\<rparr>"
  let ?R = "R + need ?bs t a3 1"
  have "?n + 1 < 2 ^ 64" using p C(4) unfolding pending_ok_def by linarith
  then have ctx: "?n - ?k * ?bs + 1 < 2 ^ 64" by linarith
  have op: "admit_front R (s, out) = Ok (Some ?R) (?s,
      out\<lparr>admitted := admitted out @ [pd_id p], prefills := prefills out @ [\<lparr>pf_id = pd_id p,
        pf_cached = ?k * ?bs, pf_computed = ?n - ?k * ?bs\<rparr>]\<rparr>)"
    using room w m C(3) kn F(2-5) ctx f
    by (simp add: admit_front_def front_match_def fill_blocks_def on_alloc_def Let_def)
  have ne: "\<not> al_num_blocks a3 \<noteq> al_num_blocks ?a" using F(8) by (simp add: same_pool_def)
  have old: "running_ok E' a3 ?bs q" if q: "q \<in> set (running s)" for q
  proof -
    from C(8) [OF q] have ok: "running_ok E ?a ?bs q" .
    have "prompt_cached E' a3 ?bs (rn_table q) (rn_prompt q)"
      unfolding prompt_cached_def
    proof (intro allI impI)
      fix i e k
      assume i: "i < length (bt_blocks (rn_table q))" "cached a3 (bt_blocks (rn_table q) ! i) = Some (e, k)"
      from core_distinct(2) [OF core q] i(1) have "0 < cnt ?a (bt_blocks (rn_table q) ! i)"
        by (simp add: holds_def)
      with K(2) i(2) have ca: "cached ?a (bt_blocks (rn_table q) ! i) = Some (e, k)" by simp
      with ok i(1) have "(i + 1) * ?bs \<le> length (rn_prompt q) \<and> E e = take ((i + 1) * ?bs) (rn_prompt q)"
        by (auto simp: running_ok_def prompt_cached_def)
      with F(9) cached_entry_less(2) [OF C(1) ca]
      show "(i + 1) * ?bs \<le> length (rn_prompt q) \<and> E' e = take ((i + 1) * ?bs) (rn_prompt q)"
        by simp
    qed
    with ok show ?thesis by (simp add: running_ok_def)
  qed
  have new: "running_ok E' a3 ?bs ?q" using F(11,12) K(4) p by (simp add: running_ok_def pending_ok_def)
  have core': "core_inv E' ?s"
    unfolding core_inv_def
  proof (intro conjI ballI)
    show "cnt (sc_alloc ?s) = owned (map rn_table (running ?s))"
      using K(1) C(7) by (simp add: fun_eq_iff)
    show "running_ok E' (sc_alloc ?s) (sc_block_size ?s) q" if "q \<in> set (running ?s)" for q
      using that old new by auto
    show "pending_ok (sc_alloc ?s) (sc_block_size ?s) x" if "x \<in> set (waiting ?s)" for x
      using that C(9) [of x] w ne by (simp add: pending_ok_def)
    show "distinct (seq_ids ?s)" using C(10) w by (auto simp: seq_ids_def)
  qed (use F(6,7) C(3-5) room ne in simp_all)
  have dm: "demand a3 ?bs (running s) \<le> demand ?a ?bs (running s)"
  proof (rule demand_mono)
    fix q assume q: "q \<in> set (running s)"
    show "need ?bs (rn_table q) a3 1 \<le> need ?bs (rn_table q) ?a 1"
      by (rule need_stable [OF C(8) [OF q] _ core_distinct(2) [OF core q]]) (use K(3) in simp)
  qed
  show ?thesis
    by (rule exI [of _ ?s], rule exI [of _ ?R], rule exI [of _ E'], rule exI [of _ ?q])
      (use op core' dm R f K(5) F(1,8-10,12) L in \<open>simp add: same_config_def\<close>)
qed

lemma front_match_ok:
  assumes "core_inv E s"
  shows "\<exists>m. front_match s p = Some m \<and>
    length (pm_blocks m) * sc_block_size s \<le> pd_context_len p \<and>
    pm_evictable m \<le> length (pm_blocks m)"
proof -
  note C = core_invD [OF assms]
  from match_prefix_ok [OF C(1,3,2), of "take (min (length (pd_prompt p)) (pd_context_len p - 1)) (pd_prompt p)"]
  obtain m where "front_match s p = Some m"
    "length (pm_blocks m) * sc_block_size s \<le> min (length (pd_prompt p)) (pd_context_len p - 1)"
    "pm_evictable m = length (filter (\<lambda>b. cnt (sc_alloc s) b = 0) (pm_blocks m))"
    by (auto simp: front_match_def)
  moreover from this(2) have "length (pm_blocks m) * sc_block_size s \<le> pd_context_len p" by linarith
  ultimately show ?thesis by (intro exI [of _ m]) simp
qed

lemma admit_front_stop:
  assumes core: "core_inv E s"
    and stop: "sc_max_batch s \<le> length (running s) \<or> waiting s = [] \<or>
      (\<exists>p rest m. waiting s = p # rest \<and> front_match s p = Some m \<and>
        num_free (sc_alloc s) < fill_blocks s p m + R)"
  shows "admit_front R (s, out) = Ok None (s, out)"
proof (cases "sc_max_batch s \<le> length (running s) \<or> waiting s = []")
  case True
  then show ?thesis by (auto simp: admit_front_def)
next
  case False
  with stop obtain p rest m where w: "waiting s = p # rest" "front_match s p = Some m"
    "num_free (sc_alloc s) < fill_blocks s p m + R" by auto
  note C = core_invD [OF core]
  from w(1) C(9) have p: "pending_ok (sc_alloc s) (sc_block_size s) p" by simp
  have k: "length (pm_blocks m) * sc_block_size s \<le> pd_context_len p"
    using front_match_ok [OF core, of p] w(2) by auto
  have "pd_context_len p + 1 < 2 ^ 64" using p C(4) unfolding pending_ok_def by linarith
  then have "pd_context_len p - length (pm_blocks m) * sc_block_size s + 1 < 2 ^ 64" by linarith
  with False w k C(3) show ?thesis
    by (simp add: admit_front_def front_match_def fill_blocks_def Let_def)
qed

section \<open>The admission loop\<close>

definition started :: "PendingSeq \<Rightarrow> RunningSeq \<Rightarrow> bool" where
  "started p q \<longleftrightarrow> rn_id q = pd_id p \<and> rn_max_new q = pd_max_new p \<and> rn_generated q = 0 \<and>
     rn_prompt q = pd_prompt p \<and> bt_tokens (rn_table q) = pd_context_len p"

definition extends :: "(PrefixEntry \<Rightarrow> u32 list) \<Rightarrow> Scheduler \<Rightarrow> (PrefixEntry \<Rightarrow> u32 list) \<Rightarrow> Scheduler \<Rightarrow> bool" where
  "extends E s E' s' \<longleftrightarrow> (\<forall>x. entry_num x < next_of (sc_alloc s) \<longrightarrow> E' x = E x) \<and>
     next_of (sc_alloc s) \<le> next_of (sc_alloc s')"

lemma extends_refl [simp]: "extends E s E s"
  by (simp add: extends_def)

lemma extends_trans: "extends E s F t \<Longrightarrow> extends F t G u \<Longrightarrow> extends E s G u"
  by (auto simp: extends_def)

text \<open>The prefills reported for the sequences started, and what starting them did to the pool.\<close>

definition prefill_of :: "RunningSeq \<Rightarrow> Prefill" where
  "prefill_of q = \<lparr>pf_id = rn_id q, pf_cached = rn_cached q,
     pf_computed = bt_tokens (rn_table q) - rn_cached q\<rparr>"

definition filling :: "nat \<Rightarrow> BlockAllocator \<Rightarrow> RunningSeq \<Rightarrow> BlockAllocator \<Rightarrow> bool" where
  "filling bs a q a' \<longleftrightarrow> bs dvd rn_cached q \<and> rn_cached q \<le> bt_tokens (rn_table q) - 1 \<and>
     filled a (rn_cached q div bs) (rn_table q) a'"

fun fills :: "nat \<Rightarrow> BlockAllocator \<Rightarrow> RunningSeq list \<Rightarrow> BlockAllocator \<Rightarrow> bool" where
  "fills bs a [] a' \<longleftrightarrow> a' = a"
| "fills bs a (q # qs) a' \<longleftrightarrow> (\<exists>a1. filling bs a q a1 \<and> fills bs a1 qs a')"

definition admits :: "nat \<Rightarrow> (PrefixEntry \<Rightarrow> u32 list) \<Rightarrow> stepping \<Rightarrow> (PrefixEntry \<Rightarrow> u32 list) \<Rightarrow>
    stepping \<Rightarrow> bool" where
  "admits k E so E' so' \<longleftrightarrow>
     (case so of (s, out) \<Rightarrow> case so' of (s', out') \<Rightarrow>
       core_inv E' s' \<and> extends E s E' s' \<and> same_config s s' \<and>
       k \<le> length (waiting s) \<and> waiting s' = drop k (waiting s) \<and>
       (\<exists>qs. running s' = running s @ qs \<and> list_all2 started (take k (waiting s)) qs \<and>
          prefills out' = prefills out @ map prefill_of qs \<and>
          fills (sc_block_size s) (sc_alloc s) qs (sc_alloc s')) \<and>
       admitted out' = admitted out @ map pd_id (take k (waiting s)) \<and>
       decoded out' = decoded out \<and> preempted out' = preempted out \<and> finished out' = finished out \<and>
       (0 < k \<or> demand (sc_alloc s) (sc_block_size s) (running s) \<le> num_free (sc_alloc s) \<longrightarrow>
          demand (sc_alloc s') (sc_block_size s') (running s') \<le> num_free (sc_alloc s')))"

lemma admit_loop_ok:
  assumes "core_inv E s" "demand (sc_alloc s) (sc_block_size s) (running s) \<le> R"
  shows "\<exists>k E' so'. admit_loop n R (s, out) = Ok () so' \<and> admits k E (s, out) E' so' \<and>
    (0 < n \<longrightarrow> length (running s) < sc_max_batch s \<longrightarrow>
       (\<forall>p rest m. waiting s = p # rest \<longrightarrow> front_match s p = Some m \<longrightarrow>
          fill_blocks s p m + R \<le> num_free (sc_alloc s) \<longrightarrow> 0 < k))"
  using assms
proof (induction n arbitrary: E s R out)
  case 0
  then show ?case
    by (intro exI [of _ 0] exI [of _ E] exI [of _ "(s, out)"]) (simp add: admits_def)
next
  case (Suc n)
  show ?case
  proof (cases "length (running s) < sc_max_batch s \<and> (\<exists>p rest m. waiting s = p # rest \<and>
      front_match s p = Some m \<and> fill_blocks s p m + R \<le> num_free (sc_alloc s))")
    case False
    have "sc_max_batch s \<le> length (running s) \<or> waiting s = [] \<or>
      (\<exists>p rest m. waiting s = p # rest \<and> front_match s p = Some m \<and>
        num_free (sc_alloc s) < fill_blocks s p m + R)"
    proof (cases "waiting s")
      case (Cons p rest)
      with front_match_ok [OF Suc.prems(1), of p] False show ?thesis by (auto simp: not_le not_less)
    qed simp
    from admit_front_stop [OF Suc.prems(1) this] False Suc.prems(1) show ?thesis
      by (intro exI [of _ 0] exI [of _ E] exI [of _ "(s, out)"]) (auto simp: admits_def)
  next
    case True
    then obtain p rest m where w: "length (running s) < sc_max_batch s" "waiting s = p # rest"
      "front_match s p = Some m" "fill_blocks s p m + R \<le> num_free (sc_alloc s)" by blast
    from admit_front_go [OF Suc.prems(1) w(2,1,3,4) Suc.prems(2), of out]
    obtain s1 R1 E1 q where
      op0: "admit_front R (s, out) = Ok (Some R1) (s1,
        out\<lparr>admitted := admitted out @ [pd_id p], prefills := prefills out @ [\<lparr>pf_id = pd_id p,
          pf_cached = length (pm_blocks m) * sc_block_size s,
          pf_computed = pd_context_len p - length (pm_blocks m) * sc_block_size s\<rparr>]\<rparr>)"
      and A: "core_inv E1 s1" "same_config s s1" "waiting s1 = rest" "running s1 = running s @ [q]"
        "\<forall>x. entry_num x < next_of (sc_alloc s) \<longrightarrow> E1 x = E x"
        "next_of (sc_alloc s) \<le> next_of (sc_alloc s1)"
        "rn_id q = pd_id p" "rn_max_new q = pd_max_new p" "rn_generated q = 0"
        "rn_prompt q = pd_prompt p" "bt_tokens (rn_table q) = pd_context_len p"
        "rn_cached q = length (pm_blocks m) * sc_block_size s" "rn_cached q \<le> pd_context_len p - 1"
        "filled (sc_alloc s) (length (pm_blocks m)) (rn_table q) (sc_alloc s1)"
        "demand (sc_alloc s1) (sc_block_size s1) (running s1) \<le> R1" "R1 \<le> num_free (sc_alloc s1)"
      by (elim exE conjE) (rule that)
    have q: "\<lparr>pf_id = pd_id p, pf_cached = length (pm_blocks m) * sc_block_size s,
        pf_computed = pd_context_len p - length (pm_blocks m) * sc_block_size s\<rparr> = prefill_of q"
      using A(7,11,12) by (simp add: prefill_of_def)
    let ?out1 = "out\<lparr>admitted := admitted out @ [pd_id p], prefills := prefills out @ [prefill_of q]\<rparr>"
    note op = op0 [unfolded q]
    have ex: "extends E s E1 s1" and st: "started p q"
      using A(5-11) by (simp_all add: extends_def started_def)
    have fl: "filling (sc_block_size s) (sc_alloc s) q (sc_alloc s1)"
      using A(11-14) core_invD(3) [OF Suc.prems(1)] by (simp add: filling_def)
    have bs1: "sc_block_size s1 = sc_block_size s" using A(2) by (simp add: same_config_def)
    from Suc.IH [OF A(1,15), of ?out1] obtain k E' s' out' where
      l: "admit_loop n R1 (s1, ?out1) = Ok () (s', out')" "admits k E1 (s1, ?out1) E' (s', out')" by auto
    from l(2) A(15,16) have L: "core_inv E' s'" "extends E1 s1 E' s'" "same_config s1 s'"
      "k \<le> length rest" "waiting s' = drop k rest"
      "admitted out' = admitted ?out1 @ map pd_id (take k rest)" "decoded out' = decoded out"
      "preempted out' = preempted out" "finished out' = finished out"
      "demand (sc_alloc s') (sc_block_size s') (running s') \<le> num_free (sc_alloc s')"
      by (simp_all add: admits_def A(3))
    from l(2) obtain qs where qs: "running s' = running s1 @ qs"
      "list_all2 started (take k rest) qs" "prefills out' = prefills ?out1 @ map prefill_of qs"
      "fills (sc_block_size s) (sc_alloc s1) qs (sc_alloc s')" by (auto simp: admits_def A(3) bs1)
    have "fills (sc_block_size s) (sc_alloc s) (q # qs) (sc_alloc s')" using fl qs(4) by auto
    then have "admits (Suc k) E (s, out) E' (s', out')"
      using L w(2) A(4) st qs(1-3) extends_trans [OF ex L(2)] same_config_trans [OF A(2) L(3)]
      by (auto simp: admits_def simp del: fills.simps intro!: exI [of _ "q # qs"])
    with op l(1) show ?thesis
      by (intro exI [of _ "Suc k"] exI [of _ E'] exI [of _ "(s', out')"]) simp
  qed
qed

text \<open>The whole of \<open>admit\<close>: it never fails, and its fuel is enough by construction.\<close>

lemma admit_ok:
  assumes core: "core_inv E s"
  shows "\<exists>k E' so'. admit (s, out) = Ok () so' \<and> admits k E (s, out) E' so' \<and>
    (length (running s) < sc_max_batch s \<longrightarrow>
       (\<forall>p rest m. waiting s = p # rest \<longrightarrow> front_match s p = Some m \<longrightarrow>
          fill_blocks s p m + demand (sc_alloc s) (sc_block_size s) (running s)
            \<le> num_free (sc_alloc s) \<longrightarrow> 0 < k))"
proof -
  note C = core_invD [OF core]
  have "reserve_all (sc_alloc s) (running s) =
    Ok (demand (sc_alloc s) (sc_block_size s) (running s)) ()"
    by (rule reserve_all_eq [OF C(1)]) (use core_distinct [OF core] in blast)
  with admit_loop_ok [OF core order_refl, of "length (waiting s)" out] show ?thesis
    by (auto simp: admit_def)
qed

text \<open>
  More fuel than the queue is long changes nothing: the loop has always stopped by itself.
\<close>

lemma admit_front_pops:
  assumes "admit_front R (s, out) = Ok (Some R') (s', out')"
  shows "Suc (length (waiting s')) = length (waiting s)"
  using assms
  by (auto simp: admit_front_def on_alloc_def Let_def res_simps
      split: if_splits list.splits prod.splits)

lemma admit_loop_fuel:
  "length (waiting (fst so)) \<le> n \<Longrightarrow>
   admit_loop (n + d) R so = admit_loop n R so"
proof (induction n arbitrary: R so)
  case 0
  then have "waiting (fst so) = []" by simp
  then have "admit_front R so = Ok None so" for R by (cases so) (simp add: admit_front_def)
  then show ?case by (cases d) simp_all
next
  case (Suc n)
  show ?case
  proof (cases "admit_front R so")
    case (Ok go so1)
    show ?thesis
    proof (cases go)
      case (Some R1)
      have "Suc (length (waiting (fst so1))) = length (waiting (fst so))"
        using Ok Some admit_front_pops [of R "fst so" "snd so" R1 "fst so1" "snd so1"] by simp
      with Suc.prems have "length (waiting (fst so1)) \<le> n" by simp
      from Suc.IH [OF this] Ok Some show ?thesis by simp
    qed (use Ok in simp)
  qed simp_all
qed

end
