(* ===== verification/Sched_Decode.thy ===== *)
theory Sched_Decode
  imports Sched_Admit
begin

text \<open>
  Decoding: one append per running sequence, oldest first. When a block is missing the newest
  sequence yields; the victims of a step are a tail of the running list, they go back to the
  front of the queue in their order, and none of them has been decoded in the step.
\<close>

section \<open>Yielding\<close>

text \<open>Nothing is registered in the prefix cache, and lone blocks stay lone.\<close>

definition steady :: "BlockAllocator \<Rightarrow> BlockAllocator \<Rightarrow> bool" where
  "steady a a' \<longleftrightarrow> (\<forall>b x. cached a' b = Some x \<longrightarrow> cached a b = Some x) \<and> (lone a \<longrightarrow> lone a')"

lemma steady_refl [simp]: "steady a a"
  by (simp add: steady_def)

lemma steady_trans: "steady a a1 \<Longrightarrow> steady a1 a2 \<Longrightarrow> steady a a2"
  by (simp add: steady_def)

lemma steadyI:
  assumes "cached a' = cached a" "\<And>b. cnt a' b \<le> cnt a b"
  shows "steady a a'"
  unfolding steady_def lone_def assms(1) by (meson assms(2) order_trans)

definition suspend :: "RunningSeq \<Rightarrow> PendingSeq" where
  "suspend q = \<lparr>pd_id = rn_id q, pd_context_len = bt_tokens (rn_table q),
     pd_max_new = rn_max_new q - rn_generated q, pd_prompt = rn_prompt q\<rparr>"

lemma suspend_simps [simp]:
  "pd_id (suspend q) = rn_id q" "pd_context_len (suspend q) = bt_tokens (rn_table q)"
  "pd_max_new (suspend q) = rn_max_new q - rn_generated q" "pd_prompt (suspend q) = rn_prompt q"
  by (simp_all add: suspend_def)

text \<open>
  \<open>yields E vs so so'\<close>: the sequences \<open>vs\<close> at the end of the running list were preempted,
  the last of them first.
\<close>

definition yields :: "(PrefixEntry \<Rightarrow> u32 list) \<Rightarrow> RunningSeq list \<Rightarrow> stepping \<Rightarrow> stepping \<Rightarrow> bool" where
  "yields E vs so so' \<longleftrightarrow>
     (case so of (s, out) \<Rightarrow> case so' of (s', out') \<Rightarrow>
       running s = running s' @ vs \<and> waiting s' = map suspend vs @ waiting s \<and>
       preempted out' = preempted out @ rev (map rn_id vs) \<and>
       decoded out' = filter (\<lambda>d. dt_id d \<notin> rn_id ` set vs) (decoded out) \<and>
       admitted out' = admitted out \<and> prefills out' = prefills out \<and> finished out' = finished out \<and>
       core_inv E s' \<and> same_config s s' \<and> next_of (sc_alloc s') = next_of (sc_alloc s) \<and>
       cached (sc_alloc s') = cached (sc_alloc s) \<and>
       (\<forall>b. cnt (sc_alloc s') b \<le> cnt (sc_alloc s) b) \<and>
       num_free (sc_alloc s) \<le> num_free (sc_alloc s'))"

lemma yields_steady: "yields E vs (s, out) (s', out') \<Longrightarrow> steady (sc_alloc s) (sc_alloc s')"
  by (simp add: yields_def steadyI)

lemma yields_refl: "core_inv E s \<Longrightarrow> yields E [] (s, out) (s, out)"
  by (simp add: yields_def)

lemma yields_trans:
  assumes "yields E vs so so1" "yields E us so1 so2"
  shows "yields E (us @ vs) so so2"
  using assms same_config_trans
  by (cases so; cases so1; cases so2) (auto simp: yields_def intro: le_trans filter_cong)

lemma core_free:
  assumes core: "core_inv E s" and r: "running s = xs @ q # ys"
    and a': "alloc_inv a'" "same_content (sc_alloc s) a'"
      "cnt a' = (\<lambda>b. cnt (sc_alloc s) b - count_list (bt_blocks (rn_table q)) b)"
    and ids: "distinct (map rn_id (xs @ ys) @ map pd_id ws)"
    and ws: "\<forall>p \<in> set ws. pending_ok (sc_alloc s) (sc_block_size s) p"
  shows "core_inv E (s\<lparr>sc_alloc := a', running := xs @ ys, waiting := ws\<rparr>)"
proof -
  note C = core_invD [OF core]
  have n: "al_num_blocks a' = al_num_blocks (sc_alloc s)" "cached a' = cached (sc_alloc s)"
    using a'(2) by (simp_all add: same_content_def same_pool_def)
  show ?thesis
    unfolding core_inv_def
  proof (intro conjI ballI)
    let ?s = "s\<lparr>sc_alloc := a', running := xs @ ys, waiting := ws\<rparr>"
    show "alloc_sound E (sc_alloc ?s)" using C(2) n(2) by (simp add: alloc_sound_def)
    show "cnt (sc_alloc ?s) = owned (map rn_table (running ?s))"
      using a'(3) C(7) r by (simp add: fun_eq_iff)
    show "running_ok E (sc_alloc ?s) (sc_block_size ?s) x" if "x \<in> set (running ?s)" for x
      using that C(8) [of x] r n(2) by (auto simp: running_ok_def prompt_cached_def)
    show "pending_ok (sc_alloc ?s) (sc_block_size ?s) p" if "p \<in> set (waiting ?s)" for p
      using that ws n(1) by (simp add: pending_ok_def)
    show "distinct (seq_ids ?s)" using ids by (simp add: seq_ids_def)
  qed (use a'(1) n C(3-6) r in simp_all)
qed

lemma preempt_ok:
  assumes core: "core_inv E s" and r: "running s = xs @ [q]" and b: "within_budget q"
  shows "\<exists>so'. preempt (length xs) (s, out) = Ok () so' \<and> yields E [q] (s, out) so'"
proof -
  note C = core_invD [OF core]
  have q: "q \<in> set (running s)" using r by simp
  note Q = core_distinct [OF core q]
  from free_table_ok [OF C(1) Q(3,2)] obtain a' where
    op: "free_table (rn_table q) (sc_alloc s) = Ok () a'" and A: "alloc_inv a'"
      "same_content (sc_alloc s) a'"
      "cnt a' = (\<lambda>b. cnt (sc_alloc s) b - count_list (bt_blocks (rn_table q)) b)"
      "num_free a' = num_free (sc_alloc s) +
        card {b \<in> set (bt_blocks (rn_table q)). cnt (sc_alloc s) b = 1}" by blast
  let ?s = "s\<lparr>sc_alloc := a', running := xs, waiting := suspend q # waiting s\<rparr>"
  let ?out = "out\<lparr>decoded := filter (\<lambda>d. dt_id d \<noteq> rn_id q) (decoded out),
    preempted := preempted out @ [rn_id q]\<rparr>"
  have rm: "remove_at (length xs) (running s) = xs" using r by (metis append_Nil2 remove_at_append)
  have "core_inv E (s\<lparr>sc_alloc := a', running := xs @ [], waiting := suspend q # waiting s\<rparr>)"
  proof (rule core_free [OF core _ A(1-3)])
    show "running s = xs @ q # []" using r by simp
    show "distinct (map rn_id (xs @ []) @ map pd_id (suspend q # waiting s))"
      using C(10) r by (auto simp: seq_ids_def)
    have "pending_ok (sc_alloc s) (sc_block_size s) (suspend q)"
      using C(8) [OF q] alloc_limit(2) [OF Q(1,2) alloc_invD(1) [OF C(1)]]
      by (simp add: pending_ok_def running_ok_def)
    with C(9) show "\<forall>p \<in> set (suspend q # waiting s). pending_ok (sc_alloc s) (sc_block_size s) p"
      by auto
  qed
  then have core': "core_inv E ?s" by simp
  have "preempt (length xs) (s, out) = Ok () (?s, ?out)"
    using r op b rm by (simp add: preempt_def on_alloc_def suspend_def within_budget_def Let_def)
  moreover have "yields E [q] (s, out) (?s, ?out)"
    using core' r A by (simp add: yields_def same_config_def same_content_def)
  ultimately show ?thesis by blast
qed

section \<open>One token for one sequence\<close>

text \<open>The block a sequence wrote last has no other owner.\<close>

definition exclusive :: "BlockAllocator \<Rightarrow> RunningSeq \<Rightarrow> bool" where
  "exclusive a q \<longleftrightarrow> bt_blocks (rn_table q) \<noteq> [] \<and> cnt a (last (bt_blocks (rn_table q))) = 1"

definition advanced :: "RunningSeq \<Rightarrow> RunningSeq \<Rightarrow> bool" where
  "advanced q q' \<longleftrightarrow> rn_id q' = rn_id q \<and> rn_max_new q' = rn_max_new q \<and>
     rn_prompt q' = rn_prompt q \<and> rn_cached q' = rn_cached q \<and>
     rn_generated q' = rn_generated q + 1 \<and>
     bt_tokens (rn_table q') = bt_tokens (rn_table q) + 1"

text \<open>The slot of a decoded token is where the sequence's newest position resolves.\<close>

definition written :: "RunningSeq \<Rightarrow> DecodedToken \<Rightarrow> bool" where
  "written q d \<longleftrightarrow> dt_id d = rn_id q \<and>
     resolve (rn_table q) (bt_tokens (rn_table q) - 1) = Ok (dt_slot d) () \<and>
     ps_block (dt_slot d) = last (bt_blocks (rn_table q))"

text \<open>
  The copies a step asks its caller for, in the order it decided them. Once they are made, the
  blocks a sequence holds have the content of the blocks it held before its append.
\<close>

definition cow_pairs :: "DecodedToken list \<Rightarrow> (BlockId \<times> BlockId) list" where
  "cow_pairs ds = map (\<lambda>c. (cow_src c, cow_dst c)) (List.map_filter dt_cow ds)"

definition restored :: "(BlockId \<times> BlockId) list \<Rightarrow> RunningSeq \<Rightarrow> RunningSeq \<Rightarrow> bool" where
  "restored cs q q' \<longleftrightarrow>
     prefix (bt_blocks (rn_table q)) (map (copy_origin cs) (bt_blocks (rn_table q')))"

definition untouched :: "(BlockId \<times> BlockId) list \<Rightarrow> RunningSeq \<Rightarrow> bool" where
  "untouched cs q \<longleftrightarrow> map (copy_origin cs) (bt_blocks (rn_table q)) = bt_blocks (rn_table q)"

definition in_blocks :: "nat \<Rightarrow> (BlockId \<times> BlockId) list \<Rightarrow> bool" where
  "in_blocks n cs \<longleftrightarrow> (\<forall>(x, y) \<in> set cs. index x < n \<and> index y < n)"

lemma in_blocks_simps [simp]:
  "in_blocks n []" "in_blocks n ((x, y) # cs) \<longleftrightarrow> index x < n \<and> index y < n \<and> in_blocks n cs"
  "in_blocks n (cs @ ds) \<longleftrightarrow> in_blocks n cs \<and> in_blocks n ds"
  by (auto simp: in_blocks_def)

lemma cow_pairs_simps [simp]:
  "cow_pairs [] = []"
  "cow_pairs (d # ds) = (case dt_cow d of None \<Rightarrow> [] | Some c \<Rightarrow> [(cow_src c, cow_dst c)]) @ cow_pairs ds"
  "cow_pairs (ds @ es) = cow_pairs ds @ cow_pairs es"
  by (simp_all add: cow_pairs_def List.map_filter_def split: option.splits)

definition cow_list :: "CowCopy option \<Rightarrow> (BlockId \<times> BlockId) list" where
  "cow_list cow = (case cow of None \<Rightarrow> [] | Some c \<Rightarrow> [(cow_src c, cow_dst c)])"

lemma appended_copy_fresh:
  assumes ap: "appended bs t a slot cow t' a'" and b: "0 < cnt a b"
  shows "copy_origin (cow_list cow) b = b"
proof (cases "unshared bs t a")
  case True
  with appendedD(8) [OF ap] show ?thesis by (simp add: cow_list_def)
next
  case False
  then have "takes_block t a" using table_okD(2) [OF appendedD(4) [OF ap]] appendedD(10,11) [OF ap]
    by (auto simp: unshared_def takes_block_def)
  with appendedD(10) [OF ap] b have "b \<noteq> ps_block slot" by (auto simp: idle_def)
  with False appendedD(8) [OF ap] show ?thesis by (simp add: cow_list_def)
qed

lemma appended_in_blocks:
  assumes ok: "table_ok bs t" and h: "holds a t" and ap: "appended bs t a slot cow t' a'"
  shows "in_blocks (al_num_blocks a) (cow_list cow)"
proof (cases "unshared bs t a")
  case True
  with appendedD(8) [OF ap] show ?thesis by (simp add: cow_list_def)
next
  case False
  note A = appendedD [OF ap]
  from False have m: "bt_tokens t mod bs \<noteq> 0" by (simp add: unshared_def)
  from room_tail(1) [OF ok m] h have "0 < cnt a (last (bt_blocks t))" by (simp add: holds_def)
  moreover have "0 < cnt a' (ps_block slot)" using A(9) by simp
  ultimately have "index (last (bt_blocks t)) < al_num_blocks a" "index (ps_block slot) < al_num_blocks a'"
    by (auto intro: cnt_range)
  with False A(2,8) show ?thesis by (simp add: cow_list_def same_pool_def)
qed

lemma appended_restores:
  assumes ok: "table_ok bs t" and h: "holds a t" and ap: "appended bs t a slot cow t' a'"
  shows "prefix (bt_blocks t) (map (copy_origin (cow_list cow)) (bt_blocks t'))"
proof (cases "unshared bs t a")
  case True
  have "map (copy_origin []) xs = xs" for xs by (simp add: map_idI)
  with True appendedD(8) [OF ap] appended_prefix [OF ok ap True] show ?thesis by (simp add: cow_list_def)
next
  case False
  note A = appendedD [OF ap] and L = appended_last [OF ap]
  let ?k = "bt_tokens t div bs"
  from False have m: "bt_tokens t mod bs \<noteq> 0" by (simp add: unshared_def)
  note T = room_tail [OF ok m]
  have cow: "cow_list cow = [(last (bt_blocks t), bt_blocks t' ! ?k)]"
    using False A(7,8) by (simp add: cow_list_def)
  have "map (copy_origin (cow_list cow)) (bt_blocks t') = bt_blocks t"
  proof (rule nth_equalityI)
    fix i assume "i < length (map (copy_origin (cow_list cow)) (bt_blocks t'))"
    with L(3) have i: "i < Suc ?k" by simp
    show "map (copy_origin (cow_list cow)) (bt_blocks t') ! i = bt_blocks t ! i"
    proof (cases "i = ?k")
      case True
      with cow T(4) L(3) show ?thesis by simp
    next
      case False
      with i have i': "i < ?k" by simp
      then have "bt_blocks t' ! i = take ?k (bt_blocks t') ! i" by simp
      also have "\<dots> = bt_blocks t ! i" using i' unfolding A(6) by simp
      finally have e: "bt_blocks t' ! i = bt_blocks t ! i" .
      have "bt_blocks t ! i \<in> set (bt_blocks t)" using i' T(3) by simp
      with h have "0 < cnt a (bt_blocks t ! i)" by (simp add: holds_def)
      from appended_copy_fresh [OF ap this] e i L(3) show ?thesis by simp
    qed
  qed (simp add: L(3) T(3))
  then show ?thesis by simp
qed

lemma untouched_Nil [simp]: "untouched [] q"
  by (simp add: untouched_def map_idI)

lemma map_copy_origin_append:
  "map (copy_origin (xs @ ys)) bs = map (copy_origin xs) (map (copy_origin ys) bs)"
  by (simp add: copy_origin_append)

lemma untouched_append:
  "untouched ys q \<Longrightarrow> \<forall>b \<in> set (bt_blocks (rn_table q)). copy_origin xs b = b \<Longrightarrow> untouched (xs @ ys) q"
  by (simp add: untouched_def map_copy_origin_append map_idI del: map_map)

lemma restored_before: "untouched ys q' \<Longrightarrow> restored xs q q' \<Longrightarrow> restored (xs @ ys) q q'"
  by (simp add: untouched_def restored_def map_copy_origin_append del: map_map)

lemma restored_after:
  assumes "restored ys q q'" "\<forall>b \<in> set (bt_blocks (rn_table q)). copy_origin xs b = b"
  shows "restored (xs @ ys) q q'"
proof -
  from assms(1) have "prefix (map (copy_origin xs) (bt_blocks (rn_table q)))
      (map (copy_origin xs) (map (copy_origin ys) (bt_blocks (rn_table q'))))"
    unfolding restored_def by (rule map_mono_prefix)
  moreover have "map (copy_origin xs) (bt_blocks (rn_table q)) = bt_blocks (rn_table q)"
    using assms(2) by (simp add: map_idI)
  ultimately show ?thesis by (simp add: restored_def map_copy_origin_append del: map_map)
qed

lemma appended_cnt_le:
  assumes ap: "appended bs t a slot cow t' a'" and b: "0 < cnt a b"
  shows "cnt a' b \<le> cnt a b"
proof -
  note A = appendedD [OF ap]
  show ?thesis
  proof (cases "b \<in> set (bt_blocks t') \<and> b \<notin> set (bt_blocks t)")
    case True
    with appended_new(2) [OF ap] b show ?thesis by auto
  next
    case False
    then have "count_list (bt_blocks t') b \<le> count_list (bt_blocks t) b"
      by (auto simp: count_list_distinct [OF table_okD(3) [OF A(4)]] count_notin
          neq0_conv [symmetric] count_list_0_iff Suc_le_eq)
    with A(12) [of b] show ?thesis by linarith
  qed
qed

text \<open>An append to a table whose blocks nobody else writes copies nothing.\<close>

lemma appended_steady:
  assumes ap: "appended bs t a slot cow t' a'"
  shows "steady a a'"
  unfolding steady_def lone_def
proof (intro conjI allI impI)
  show "cached a b = Some x" if "cached a' b = Some x" for b x
    by (rule appended_cached(2) [OF ap that])
  fix b assume l: "\<forall>b. cached a b = None \<longrightarrow> cnt a b \<le> 1" and b: "cached a' b = None"
  show "cnt a' b \<le> 1"
  proof (cases "0 < cnt a b")
    case True
    with b appended_cached(1) [OF ap] have "cached a b = None" by simp
    with l have "cnt a b \<le> 1" by blast
    with appended_cnt_le [OF ap True] show ?thesis by (rule order_trans)
  next
    case False
    with appendedD(12) [OF ap, of b] count_list_distinct [OF table_okD(3) [OF appendedD(4) [OF ap]], of b]
    show ?thesis by (simp split: if_splits)
  qed
qed

lemma appended_no_copy:
  assumes ap: "appended bs (rn_table q) a slot cow t' a'" and ok: "running_ok E a bs q" and l: "lone a"
  shows "cow = None"
proof (cases "bt_tokens (rn_table q) mod bs = 0")
  case True
  with appendedD(8) [OF ap] show ?thesis by (simp add: unshared_def)
next
  case False
  from room_tail_uncached [OF ok False] l have "cnt a (last (bt_blocks (rn_table q))) \<le> 1"
    by (simp add: lone_def)
  with appendedD(8) [OF ap] show ?thesis by (simp add: unshared_def)
qed

lemma core_append:
  assumes core: "core_inv E s" and r: "running s = xs @ q # ys"
    and ap: "appended (sc_block_size s) (rn_table q) (sc_alloc s) slot cow t a'"
  defines "q' \<equiv> q\<lparr>rn_table := t, rn_generated := rn_generated q + 1\<rparr>"
  defines "s' \<equiv> s\<lparr>sc_alloc := a', running := xs @ q' # ys\<rparr>"
  shows "core_inv E s'" "same_config s s'" "next_of (sc_alloc s') = next_of (sc_alloc s)"
    "advanced q q'" "written q' \<lparr>dt_id = rn_id q, dt_slot = slot, dt_cow = cow\<rparr>"
    "exclusive a' q'"
proof -
  let ?bs = "sc_block_size s" and ?a = "sc_alloc s" and ?t = "rn_table q"
  note C = core_invD [OF core] and A = appendedD [OF ap] and L = appended_last [OF ap]
  have q: "q \<in> set (running s)" using r by simp
  have n: "al_num_blocks a' = al_num_blocks ?a" using A(2) by (simp add: same_pool_def)
  have ca: "cached ?a b = Some x" if "cached a' b = Some x" for b x
    using appended_cached(2) [OF ap that] .
  have old: "running_ok E a' ?bs x" if "x \<in> set (running s)" for x
    using C(8) [OF that] ca by (fastforce simp: running_ok_def prompt_cached_def)
  have pc: "prompt_cached E a' ?bs t (rn_prompt q)"
    unfolding prompt_cached_def
  proof (intro allI impI)
    fix i e k
    assume i: "i < length (bt_blocks t)" "cached a' (bt_blocks t ! i) = Some (e, k)"
    have "i < length (bt_blocks ?t) \<and> bt_blocks t ! i = bt_blocks ?t ! i"
    proof (cases "bt_blocks t ! i \<in> set (bt_blocks ?t)")
      case False
      with appended_new(1) [OF ap] i show ?thesis by simp
    next
      case True
      show ?thesis
      proof (cases "takes_block ?t ?a")
        case False
        with A(11) i(1) show ?thesis by simp
      next
        case takes: True
        have "i \<noteq> bt_tokens ?t div ?bs"
          using A(7) A(10) [OF takes] i(2) by auto
        with i(1) L(3) have i': "i < bt_tokens ?t div ?bs" by simp
        then have "bt_blocks t ! i = take (bt_tokens ?t div ?bs) (bt_blocks t) ! i" by simp
        also have "\<dots> = bt_blocks ?t ! i" using i' unfolding A(6) by simp
        finally show ?thesis
          using i' length_blocks [OF core_distinct(1) [OF core q]] by simp
      qed
    qed
    with C(8) [OF q] ca [OF i(2)]
    show "(i + 1) * ?bs \<le> length (rn_prompt q) \<and> E e = take ((i + 1) * ?bs) (rn_prompt q)"
      by (auto simp: running_ok_def prompt_cached_def)
  qed
  have q': "running_ok E a' ?bs q'"
    using A(4,5) pc C(8) [OF q] by (simp add: running_ok_def q'_def)
  show "core_inv E s'"
    unfolding core_inv_def
  proof (intro conjI ballI)
    show "alloc_sound E (sc_alloc s')"
      using alloc_sound_mono [OF C(2) ca] by (simp add: s'_def)
    show "cnt (sc_alloc s') = owned (map rn_table (running s'))"
    proof
      fix b
      have "cnt ?a b = owned (map rn_table xs) b + count_list (bt_blocks ?t) b +
          owned (map rn_table ys) b" using C(7) r by simp
      with A(12) [of b] show "cnt (sc_alloc s') b = owned (map rn_table (running s')) b"
        by (simp add: s'_def q'_def)
    qed
    show "running_ok E (sc_alloc s') (sc_block_size s') x" if "x \<in> set (running s')" for x
      using that old [of x] q' r by (auto simp: s'_def)
    show "pending_ok (sc_alloc s') (sc_block_size s') p" if "p \<in> set (waiting s')" for p
      using that C(9) n by (simp add: pending_ok_def s'_def)
    show "distinct (seq_ids s')" using C(10) r by (simp add: seq_ids_def s'_def q'_def)
  qed (use A(1) n C(3-6) r in \<open>simp_all add: s'_def\<close>)
  show "same_config s s'" "next_of (sc_alloc s') = next_of ?a" "advanced q q'"
    using A(2,3,5) by (simp_all add: s'_def same_config_def advanced_def q'_def)
  have "bt_tokens ?t < bt_tokens t" using A(5) by simp
  from resolve_ok(1) [OF A(4) this] A(5,7) L(2)
  show "written q' \<lparr>dt_id = rn_id q, dt_slot = slot, dt_cow = cow\<rparr>"
    by (simp add: written_def q'_def)
  show "exclusive a' q'" using A(7,9) L(1,2) by (simp add: exclusive_def q'_def)
qed

text \<open>A sequence that owns every block alone and still needs one has filled the pool.\<close>

lemma alone_full:
  assumes core: "core_inv E s" and r: "running s = [q]" and f: "num_free (sc_alloc s) = 0"
    and t: "takes_block (rn_table q) (sc_alloc s)"
  shows "bt_tokens (rn_table q) = al_num_blocks (sc_alloc s) * sc_block_size s"
proof -
  let ?a = "sc_alloc s" and ?t = "rn_table q" and ?bs = "sc_block_size s"
  note C = core_invD [OF core]
  have q: "q \<in> set (running s)" using r by simp
  note Q = core_distinct [OF core q] and D = table_okD [OF core_distinct(1) [OF core q]]
  have c: "cnt ?a b = count_list (bt_blocks ?t) b" for b using C(7) r by simp
  have "idle ?a = {}" using f num_free_card [OF C(1)] by simp
  then have "{b. index b < al_num_blocks ?a} \<subseteq> set (bt_blocks ?t)"
    using c by (auto simp: idle_def count_list_0_iff)
  then have "card {b. index b < al_num_blocks ?a} \<le> card (set (bt_blocks ?t))"
    by (intro card_mono) simp_all
  with alloc_invD(1) [OF C(1)] distinct_card [OF Q(3)]
  have "al_num_blocks ?a \<le> length (bt_blocks ?t)" by simp
  with alloc_limit(1) [OF Q(1,2) alloc_invD(1) [OF C(1)]]
  have len: "length (bt_blocks ?t) = al_num_blocks ?a" by simp
  have "\<not> 1 < cnt ?a (last (bt_blocks ?t))" using c by (simp add: count_list_distinct [OF Q(3)])
  with t D(2) have m: "bt_tokens ?t mod ?bs = 0" by (simp add: takes_block_def)
  with length_blocks [OF Q(1)] len have "bt_tokens ?t div ?bs = al_num_blocks ?a" by simp
  with m show ?thesis by (metis add.right_neutral div_mult_mod_eq)
qed

text \<open>The success of the inner loop, at position \<open>length xs\<close>.\<close>

definition one_token :: "(PrefixEntry \<Rightarrow> u32 list) \<Rightarrow> RunningSeq list \<Rightarrow> RunningSeq \<Rightarrow> RunningSeq list \<Rightarrow>
    stepping \<Rightarrow> stepping \<Rightarrow> bool" where
  "one_token E xs q ys so so' \<longleftrightarrow>
     (case so of (s, out) \<Rightarrow> case so' of (s', out') \<Rightarrow>
       \<exists>slot cow t a' q'. running s = xs @ q # ys \<and>
         appended (sc_block_size s) (rn_table q) (sc_alloc s) slot cow t a' \<and>
         q' = q\<lparr>rn_table := t, rn_generated := rn_generated q + 1\<rparr> \<and>
         s' = s\<lparr>sc_alloc := a', running := xs @ q' # ys\<rparr> \<and>
         out' = out\<lparr>decoded := decoded out @ [\<lparr>dt_id = rn_id q, dt_slot = slot, dt_cow = cow\<rparr>]\<rparr>)"

lemma list_update_middle: "(xs @ q # ys)[length xs := x] = xs @ x # ys"
  by simp

lemma decode_one_ok:
  assumes "core_inv E s" "running s = xs @ q # ys" "\<forall>r \<in> set (q # ys). within_budget r"
    and "Suc (length ys) \<le> n"
  shows "\<exists>vs so1 so'. decode_one n (rn_id q) (length xs) (s, out) = Ok () so' \<and>
    yields E vs (s, out) so1 \<and>
    ((\<exists>ys'. ys = ys' @ vs \<and> one_token E xs q ys' so1 so') \<or> vs = q # ys \<and> so' = so1) \<and>
    (vs \<noteq> [] \<longrightarrow> takes_block (rn_table q) (sc_alloc s) \<and> num_free (sc_alloc s) = 0) \<and>
    (vs = q # ys \<longrightarrow> xs \<noteq> [] \<or>
       bt_tokens (rn_table q) = al_num_blocks (sc_alloc s) * sc_block_size s)"
  using assms
proof (induction n arbitrary: s ys out)
  case 0
  then show ?case by simp
next
  case (Suc n)
  let ?a = "sc_alloc s" and ?bs = "sc_block_size s"
  note C = core_invD [OF Suc.prems(1)]
  have q: "q \<in> set (running s)" using Suc.prems(2) by simp
  note Q = core_distinct [OF Suc.prems(1) q]
  have nth: "nth_at (running s) (length xs) = Some q" using Suc.prems(2) by (simp add: nth_append)
  show ?case
  proof (cases "takes_block (rn_table q) ?a \<longrightarrow> 0 < num_free ?a")
    case True
    then have "takes_block (rn_table q) ?a \<Longrightarrow> 0 < num_free ?a" by simp
    from append_ok [OF C(1) Q(1,2) this] obtain slot cow t a' where
      op: "append_token (rn_table q, ?a) = Ok (slot, cow) (t, a')"
      and ap: "appended ?bs (rn_table q) ?a slot cow t a'" by blast
    let ?q = "q\<lparr>rn_table := t, rn_generated := rn_generated q + 1\<rparr>"
    let ?so = "(s\<lparr>sc_alloc := a', running := xs @ ?q # ys\<rparr>,
      out\<lparr>decoded := decoded out @ [\<lparr>dt_id = rn_id q, dt_slot = slot, dt_cow = cow\<rparr>]\<rparr>)"
    have "decode_one (Suc n) (rn_id q) (length xs) (s, out) = Ok () ?so"
      using nth op Suc.prems(2) by simp
    moreover have "one_token E xs q ys (s, out) ?so"
      using ap Suc.prems(2) unfolding one_token_def prod.case by blast
    ultimately show ?thesis
      using yields_refl [OF Suc.prems(1), of out]
      by (intro exI [of _ "[]"] exI [of _ "(s, out)"] exI [of _ ?so]) simp
  next
    case False
    then have t: "takes_block (rn_table q) ?a" and f: "num_free ?a = 0" by simp_all
    have op: "append_token (rn_table q, ?a) = Err (OutOfBlocks 1 0) (rn_table q, ?a)"
      by (rule append_out_of_blocks [OF C(1) Q(1,2) t f])
    have upd: "s\<lparr>sc_alloc := ?a, running := (running s)[length xs := q\<lparr>rn_table := rn_table q\<rparr>]\<rparr> = s"
      using Suc.prems(2) by simp
    have unfolded: "decode_one (Suc n) (rn_id q) (length xs) (s, out) =
      bind_res (preempt (length (running s) - 1) (s, out)) (\<lambda>_ (s, out).
        case position_of (\<lambda>r. rn_id r = rn_id q) (running s) of
          Some idx \<Rightarrow> decode_one n (rn_id q) idx (s, out) | None \<Rightarrow> Ok () (s, out))"
      by (simp only: decode_one.simps prod.case nth unwrap_res.simps op res.case upd Let_def
          is_out_of_blocks.simps if_True)
    show ?thesis
    proof (cases ys rule: rev_cases)
      case Nil
      have r: "running s = xs @ [q]" "within_budget q" using Suc.prems(2,3) Nil by simp_all
      from preempt_ok [OF Suc.prems(1) r, of out] obtain s1 out1 where
        p: "preempt (length xs) (s, out) = Ok () (s1, out1)" "yields E [q] (s, out) (s1, out1)"
        by (metis surj_pair)
      from p(2) r(1) have r1: "running s1 = xs" by (simp add: yields_def)
      have "position_of (\<lambda>r. rn_id r = rn_id q) xs = None"
        using C(10) r(1) distinct_map_before [of rn_id xs q "[]"]
        by (simp add: position_of_None_iff seq_ids_def)
      with p(1) r1 r(1) have "decode_one (Suc n) (rn_id q) (length xs) (s, out) = Ok () (s1, out1)"
        unfolding unfolded by simp
      moreover have "xs \<noteq> [] \<or> bt_tokens (rn_table q) = al_num_blocks ?a * ?bs"
        using alone_full [OF Suc.prems(1) _ f t] r(1) by auto
      ultimately show ?thesis
        using p(2) t f Nil
        by (intro exI [of _ "[q]"] exI [of _ "(s1, out1)"] exI [of _ "(s1, out1)"]) simp
    next
      case (snoc zs v)
      have r: "running s = (xs @ q # zs) @ [v]" "within_budget v" using Suc.prems(2,3) snoc by simp_all
      from preempt_ok [OF Suc.prems(1) r, of out] obtain s1 out1 where
        p: "preempt (length (xs @ q # zs)) (s, out) = Ok () (s1, out1)"
          "yields E [v] (s, out) (s1, out1)"
        by (metis surj_pair)
      from p(2) r(1) have S: "running s1 = xs @ q # zs" "core_inv E s1" "same_config s s1"
        by (simp_all add: yields_def)
      have "rn_id q \<notin> rn_id ` set xs" using C(10) r(1) by (simp add: seq_ids_def)
      then have before: "\<forall>x \<in> set xs. rn_id x \<noteq> rn_id q" by (metis imageI)
      have pos: "position_of (\<lambda>r. rn_id r = rn_id q) (running s1) = Some (length xs)"
        unfolding S(1) by (rule position_of_append [OF before refl])
      have dec: "decode_one (Suc n) (rn_id q) (length xs) (s, out) =
        decode_one n (rn_id q) (length xs) (s1, out1)"
        using p(1) pos r(1) unfolding unfolded by simp
      have pre: "\<forall>r \<in> set (q # zs). within_budget r" "Suc (length zs) \<le> n"
        using Suc.prems(3,4) snoc by simp_all
      from Suc.IH [OF S(2,1) pre, of out1] obtain vs so1 so' where
        i: "decode_one n (rn_id q) (length xs) (s1, out1) = Ok () so'" "yields E vs (s1, out1) so1"
          "(\<exists>ys'. zs = ys' @ vs \<and> one_token E xs q ys' so1 so') \<or> vs = q # zs \<and> so' = so1"
          "vs = q # zs \<longrightarrow> xs \<noteq> [] \<or>
             bt_tokens (rn_table q) = al_num_blocks (sc_alloc s1) * sc_block_size s1" by blast
      have "al_num_blocks (sc_alloc s1) = al_num_blocks ?a" "sc_block_size s1 = ?bs"
        using S(3) by (simp_all add: same_config_def same_pool_def)
      with i dec yields_trans [OF p(2) i(2)] t f snoc show ?thesis
        by (intro exI [of _ "vs @ [v]"] exI [of _ so1] exI [of _ so']) auto
    qed
  qed
qed

section \<open>All running sequences\<close>

lemma need_mono:
  assumes "table_ok bs t" "cnt a' (last (bt_blocks t)) \<le> cnt a (last (bt_blocks t))"
  shows "need bs t a' 1 \<le> need bs t a 1"
  using assms(2) unfolding need_1 [OF assms(1)] by (auto simp: takes_block_def)

lemma exclusive_mono:
  assumes "exclusive a q" "holds a' (rn_table q)"
    and "\<And>b. 0 < cnt a b \<Longrightarrow> cnt a' b \<le> cnt a b"
  shows "exclusive a' q"
proof -
  let ?b = "last (bt_blocks (rn_table q))"
  from assms(1) have b: "bt_blocks (rn_table q) \<noteq> []" "cnt a ?b = 1" by (simp_all add: exclusive_def)
  with assms(2) have "0 < cnt a' ?b" by (simp add: holds_def)
  with assms(3) [of ?b] b show ?thesis by (simp add: exclusive_def)
qed

lemma one_tokenD:
  assumes core: "core_inv E s" and o: "one_token E xs q ys (s, out) (s', out')"
  obtains q' d where "running s = xs @ q # ys" "running s' = xs @ q' # ys" "waiting s' = waiting s"
    "decoded out' = decoded out @ [d]" "written q' d" "advanced q q'"
    "admitted out' = admitted out" "prefills out' = prefills out"
    "preempted out' = preempted out" "finished out' = finished out"
    "core_inv E s'" "same_config s s'" "next_of (sc_alloc s') = next_of (sc_alloc s)"
    "exclusive (sc_alloc s') q'" "restored (cow_pairs [d]) q q'"
    "in_blocks (al_num_blocks (sc_alloc s)) (cow_pairs [d])"
    "\<And>b. 0 < cnt (sc_alloc s) b \<Longrightarrow> copy_origin (cow_pairs [d]) b = b"
    "\<And>b. 0 < cnt (sc_alloc s) b \<Longrightarrow> cnt (sc_alloc s') b \<le> cnt (sc_alloc s) b"
    "num_free (sc_alloc s) = num_free (sc_alloc s') +
       need (sc_block_size s) (rn_table q) (sc_alloc s) 1"
    "steady (sc_alloc s) (sc_alloc s')" "lone (sc_alloc s) \<Longrightarrow> cow_pairs [d] = []"
proof -
  from o obtain slot cow t a' where o': "running s = xs @ q # ys"
    "appended (sc_block_size s) (rn_table q) (sc_alloc s) slot cow t a'"
    "s' = s\<lparr>sc_alloc := a', running :=
       xs @ q\<lparr>rn_table := t, rn_generated := rn_generated q + 1\<rparr> # ys\<rparr>"
    "out' = out\<lparr>decoded := decoded out @ [\<lparr>dt_id = rn_id q, dt_slot = slot, dt_cow = cow\<rparr>]\<rparr>"
    by (auto simp: one_token_def)
  have q: "q \<in> set (running s)" using o'(1) by simp
  note c = core_append [OF core o'(1,2)]
  show thesis
  proof (rule that [where q' = "q\<lparr>rn_table := t, rn_generated := rn_generated q + 1\<rparr>"
        and d = "\<lparr>dt_id = rn_id q, dt_slot = slot, dt_cow = cow\<rparr>"])
    show "num_free (sc_alloc s) = num_free (sc_alloc s') +
       need (sc_block_size s) (rn_table q) (sc_alloc s) 1"
      using appended_num_free [OF o'(2)] o'(3)
      unfolding need_1 [OF core_distinct(1) [OF core q]] by simp
    show "cnt (sc_alloc s') b \<le> cnt (sc_alloc s) b" if "0 < cnt (sc_alloc s) b" for b
      using appended_cnt_le [OF o'(2) that] o'(3) by simp
    show "steady (sc_alloc s) (sc_alloc s')" using appended_steady [OF o'(2)] o'(3) by simp
    show "cow_pairs [\<lparr>dt_id = rn_id q, dt_slot = slot, dt_cow = cow\<rparr>] = []" if "lone (sc_alloc s)"
      using appended_no_copy [OF o'(2) core_invD(8) [OF core q] that] by simp
    have cp: "cow_pairs [\<lparr>dt_id = rn_id q, dt_slot = slot, dt_cow = cow\<rparr>] = cow_list cow"
      by (simp add: cow_list_def)
    show "copy_origin (cow_pairs [\<lparr>dt_id = rn_id q, dt_slot = slot, dt_cow = cow\<rparr>]) b = b"
      if "0 < cnt (sc_alloc s) b" for b
      unfolding cp by (rule appended_copy_fresh [OF o'(2) that])
    show "in_blocks (al_num_blocks (sc_alloc s)) (cow_pairs [\<lparr>dt_id = rn_id q, dt_slot = slot, dt_cow = cow\<rparr>])"
      unfolding cp by (rule appended_in_blocks [OF core_distinct(1,2) [OF core q] o'(2)])
    show "restored (cow_pairs [\<lparr>dt_id = rn_id q, dt_slot = slot, dt_cow = cow\<rparr>]) q
        (q\<lparr>rn_table := t, rn_generated := rn_generated q + 1\<rparr>)"
      unfolding cp restored_def
      using appended_restores [OF core_distinct(1,2) [OF core q] o'(2)] by simp
  qed (use c o' in simp_all)
qed

lemma written_ids: "list_all2 written qs ds \<Longrightarrow> map dt_id ds = map rn_id qs"
  by (induction rule: list_all2_induct) (simp_all add: written_def)

definition decodes :: "(PrefixEntry \<Rightarrow> u32 list) \<Rightarrow> RunningSeq list \<Rightarrow> RunningSeq list \<Rightarrow>
    RunningSeq list \<Rightarrow> RunningSeq list \<Rightarrow> stepping \<Rightarrow> stepping \<Rightarrow> bool" where
  "decodes E D keep keep' vs so so' \<longleftrightarrow>
     (case so of (s, out) \<Rightarrow> case so' of (s', out') \<Rightarrow>
       list_all2 advanced keep keep' \<and> running s' = D @ keep' \<and>
       waiting s' = map suspend vs @ waiting s \<and>
       preempted out' = preempted out @ rev (map rn_id vs) \<and>
       list_all2 written (D @ keep') (decoded out') \<and>
       admitted out' = admitted out \<and> prefills out' = prefills out \<and> finished out' = finished out \<and>
       core_inv E s' \<and> same_config s s' \<and> next_of (sc_alloc s') = next_of (sc_alloc s) \<and>
       (\<forall>r \<in> set (D @ keep'). exclusive (sc_alloc s') r) \<and> steady (sc_alloc s) (sc_alloc s') \<and>
       (\<exists>new. decoded out' = decoded out @ new \<and> in_blocks (al_num_blocks (sc_alloc s)) (cow_pairs new) \<and>
          (lone (sc_alloc s) \<longrightarrow> cow_pairs new = []) \<and>
          (\<forall>r \<in> set D. untouched (cow_pairs new) r) \<and>
          list_all2 (restored (cow_pairs new)) keep keep'))"

lemma decode_ids_ok:
  assumes "core_inv E s" "running s = D @ T" "ids = map rn_id T @ rest"
    "\<forall>i \<in> set rest. i \<notin> rn_id ` set (running s)" "\<forall>r \<in> set T. within_budget r"
    "\<forall>r \<in> set D. exclusive (sc_alloc s) r" "list_all2 written D (decoded out)"
  shows "\<exists>keep keep' vs so'. decode_ids ids (s, out) = Ok () so' \<and> T = keep @ vs \<and>
    decodes E D keep keep' vs (s, out) so' \<and>
    (demand (sc_alloc s) (sc_block_size s) T \<le> num_free (sc_alloc s) \<longrightarrow> vs = []) \<and>
    (D = [] \<longrightarrow> T \<noteq> [] \<longrightarrow>
       bt_tokens (rn_table (hd T)) < al_num_blocks (sc_alloc s) * sc_block_size s \<longrightarrow> keep \<noteq> [])"
  using assms
proof (induction ids arbitrary: D T rest s out)
  case Nil
  then show ?case
    by (intro exI [of _ "[]"] exI [of _ "[]"] exI [of _ "[]"] exI [of _ "(s, out)"])
      (simp add: decodes_def)
next
  case (Cons i ids)
  let ?a = "sc_alloc s" and ?bs = "sc_block_size s"
  note C = core_invD [OF Cons.prems(1)]
  show ?case
  proof (cases T)
    case Nil
    with Cons.prems(3,4) have i: "i \<notin> rn_id ` set (running s)" "ids = map rn_id [] @ tl rest"
      "\<forall>j \<in> set (tl rest). j \<notin> rn_id ` set (running s)" by auto
    from i(1) have "position_of (\<lambda>r. rn_id r = i) (running s) = None"
      by (auto simp: position_of_None_iff)
    then have "decode_ids (i # ids) (s, out) = decode_ids ids (s, out)" by simp
    with Cons.IH [OF Cons.prems(1) _ i(2,3), of D out] Cons.prems(2,6,7) Nil show ?thesis by auto
  next
    case (Cons q ys)
    have r: "running s = D @ q # ys" and i: "i = rn_id q" "ids = map rn_id ys @ rest"
      using Cons.prems(2,3) Cons by simp_all
    have dist: "distinct (map rn_id D @ rn_id q # map rn_id ys)"
      using C(10) r by (simp add: seq_ids_def Int_Un_distrib)
    then have before: "\<forall>x \<in> set D. rn_id x \<noteq> rn_id q" by (metis distinct_map_before r
          list.simps(9) map_append)
    have pos: "position_of (\<lambda>x. rn_id x = rn_id q) (running s) = Some (length D)"
      unfolding r by (rule position_of_append [OF before refl])
    have wb: "\<forall>r \<in> set (q # ys). within_budget r" using Cons.prems(5) Cons by simp
    have fuel: "Suc (length ys) \<le> length (running s)" using r by simp
    from decode_one_ok [OF Cons.prems(1) r wb fuel, of out] obtain vs1 so1 so2 where
      op: "decode_one (length (running s)) (rn_id q) (length D) (s, out) = Ok () so2"
      and y: "yields E vs1 (s, out) so1"
      and alt: "(\<exists>ys'. ys = ys' @ vs1 \<and> one_token E D q ys' so1 so2) \<or> vs1 = q # ys \<and> so2 = so1"
      and starved: "vs1 \<noteq> [] \<longrightarrow> takes_block (rn_table q) ?a \<and> num_free ?a = 0"
      and alone: "vs1 = q # ys \<longrightarrow> D \<noteq> [] \<or> bt_tokens (rn_table q) = al_num_blocks ?a * ?bs" by blast
    obtain s1 out1 where so1: "so1 = (s1, out1)" by (cases so1)
    obtain s2 out2 where so2: "so2 = (s2, out2)" by (cases so2)
    have dec: "decode_ids (i # ids) (s, out) = decode_ids ids (s2, out2)"
      using pos op i(1) so2 by simp
    from y so1 have Y: "running s = running s1 @ vs1" "waiting s1 = map suspend vs1 @ waiting s"
      "preempted out1 = preempted out @ rev (map rn_id vs1)"
      "decoded out1 = filter (\<lambda>d. dt_id d \<notin> rn_id ` set vs1) (decoded out)"
      "admitted out1 = admitted out" "prefills out1 = prefills out" "finished out1 = finished out"
      "core_inv E s1" "same_config s s1" "next_of (sc_alloc s1) = next_of ?a"
      "\<forall>b. cnt (sc_alloc s1) b \<le> cnt ?a b" "num_free ?a \<le> num_free (sc_alloc s1)"
      by (simp_all add: yields_def)
    have vsub: "set vs1 \<subseteq> set (q # ys)" using alt by auto
    have "dt_id d \<notin> rn_id ` set vs1" if "d \<in> set (decoded out)" for d
    proof -
      from that written_ids [OF Cons.prems(7)] have "dt_id d \<in> set (map rn_id D)"
        by (metis imageI list.set_map)
      moreover have "set (map rn_id D) \<inter> set (map rn_id (q # ys)) = {}" using dist by auto
      moreover have "rn_id ` set vs1 \<subseteq> set (map rn_id (q # ys))" using vsub by auto
      ultimately show ?thesis by blast
    qed
    then have dec1: "decoded out1 = decoded out" using Y(4) by (simp add: filter_id_conv)
    have "\<exists>zs. running s1 = D @ zs"
    proof (cases "vs1 = q # ys")
      case True
      with Y(1) r have "running s1 = D" by simp
      then show ?thesis by simp
    next
      case False
      with alt obtain ys' where "ys = ys' @ vs1" by blast
      with Y(1) r have "running s1 @ vs1 = (D @ q # ys') @ vs1" by simp
      then have "running s1 = D @ q # ys'" by (simp only: append_same_eq)
      then show ?thesis by blast
    qed
    then obtain zs where zs: "running s1 = D @ zs" ..
    have excl1: "\<forall>x \<in> set D. exclusive (sc_alloc s1) x"
    proof
      fix x assume x: "x \<in> set D"
      have "x \<in> set (running s1)" using x zs by simp
      then have "holds (sc_alloc s1) (rn_table x)" by (rule core_distinct(2) [OF Y(8)])
      with Cons.prems(6) x Y(11) show "exclusive (sc_alloc s1) x" by (blast intro: exclusive_mono)
    qed
    show ?thesis
    proof (cases "\<exists>ys'. ys = ys' @ vs1 \<and> one_token E D q ys' so1 so2")
      case True
      then obtain ys' where ys: "ys = ys' @ vs1" and o: "one_token E D q ys' (s1, out1) (s2, out2)"
        using so1 so2 by blast
      from one_tokenD [OF Y(8) o] obtain q' d where
        O: "running s1 = D @ q # ys'" "running s2 = D @ q' # ys'" "waiting s2 = waiting s1"
          "decoded out2 = decoded out1 @ [d]" "written q' d" "advanced q q'"
          "admitted out2 = admitted out1" "prefills out2 = prefills out1"
          "preempted out2 = preempted out1" "finished out2 = finished out1"
          "core_inv E s2" "same_config s1 s2" "next_of (sc_alloc s2) = next_of (sc_alloc s1)"
          "exclusive (sc_alloc s2) q'" "restored (cow_pairs [d]) q q'"
          "in_blocks (al_num_blocks (sc_alloc s1)) (cow_pairs [d])"
          "\<And>b. 0 < cnt (sc_alloc s1) b \<Longrightarrow> copy_origin (cow_pairs [d]) b = b"
          "\<And>b. 0 < cnt (sc_alloc s1) b \<Longrightarrow> cnt (sc_alloc s2) b \<le> cnt (sc_alloc s1) b"
          "num_free (sc_alloc s1) = num_free (sc_alloc s2) +
             need (sc_block_size s1) (rn_table q) (sc_alloc s1) 1"
          "steady (sc_alloc s1) (sc_alloc s2)" "lone (sc_alloc s1) \<Longrightarrow> cow_pairs [d] = []" by metis
      have st1: "steady ?a (sc_alloc s1)" using y unfolding so1 by (rule yields_steady)
      have st2: "steady ?a (sc_alloc s2)" using st1 O(20) by (rule steady_trans)
      have r2: "running s2 = (D @ [q']) @ ys'" using O(2) by simp
      have ids2: "ids = map rn_id ys' @ (map rn_id vs1 @ rest)" using i(2) ys by simp
      have idq: "rn_id q' = rn_id q" using O(6) by (simp add: advanced_def)
      have "\<forall>j \<in> set (map rn_id vs1 @ rest). j \<notin> rn_id ` set (running s2)"
      proof
        fix j assume j: "j \<in> set (map rn_id vs1 @ rest)"
        have s2: "rn_id ` set (running s2) = set (map rn_id D @ rn_id q # map rn_id ys')"
          using idq unfolding r2 by auto
        show "j \<notin> rn_id ` set (running s2)"
        proof (cases "j \<in> set rest")
          case True
          with Cons.prems(4) have "j \<notin> rn_id ` set (running s)" by blast
          then show ?thesis unfolding s2 r ys by auto
        next
          case False
          with j have "j \<in> set (map rn_id vs1)" by simp
          moreover have "distinct ((map rn_id D @ rn_id q # map rn_id ys') @ map rn_id vs1)"
            using dist ys by simp
          ultimately show ?thesis unfolding s2 by (meson disjoint_iff distinct_append)
        qed
      qed
      note rest2 = this
      have wb2: "\<forall>x \<in> set ys'. within_budget x" using wb ys by simp
      have excl2: "\<forall>x \<in> set (D @ [q']). exclusive (sc_alloc s2) x"
      proof
        fix x assume x: "x \<in> set (D @ [q'])"
        show "exclusive (sc_alloc s2) x"
        proof (cases "x = q'")
          case True
          with O(14) show ?thesis by simp
        next
          case False
          with x have xD: "x \<in> set D" by simp
          then have "holds (sc_alloc s2) (rn_table x)"
            by (intro core_distinct(2) [OF O(11)]) (simp add: O(2))
          with excl1 xD O(18) show ?thesis by (blast intro: exclusive_mono)
        qed
      qed
      have wr2: "list_all2 written (D @ [q']) (decoded out2)"
        using Cons.prems(7) O(4,5) dec1 by (simp add: list_all2_appendI)
      from Cons.IH [OF O(11) r2 ids2 rest2 wb2 excl2 wr2] obtain keep keep' vs so' where
        l0: "decode_ids ids (s2, out2) = Ok () so'" "ys' = keep @ vs"
          "decodes E (D @ [q']) keep keep' vs (s2, out2) so'"
          "demand (sc_alloc s2) (sc_block_size s2) ys' \<le> num_free (sc_alloc s2) \<longrightarrow> vs = []"
        by blast
      obtain s' out' where so': "so' = (s', out')" by (cases so')
      note l = l0 [unfolded so']
      have cfg: "same_config s s2" using same_config_trans [OF Y(9) O(12)] .
      from l(3) obtain new where N: "decoded out' = decoded out2 @ new"
        "\<forall>r \<in> set (D @ [q']). untouched (cow_pairs new) r"
        "list_all2 (restored (cow_pairs new)) keep keep'"
        "in_blocks (al_num_blocks (sc_alloc s2)) (cow_pairs new)"
        "lone (sc_alloc s2) \<longrightarrow> cow_pairs new = []" by (auto simp: decodes_def)
      have none: "lone ?a \<longrightarrow> cow_pairs [d] @ cow_pairs new = []"
        using N(5) O(21) st1 st2 by (simp add: steady_def)
      have "al_num_blocks (sc_alloc s1) = al_num_blocks ?a" "al_num_blocks (sc_alloc s2) = al_num_blocks ?a"
        using Y(9) cfg by (simp_all add: same_config_def same_pool_def)
      then have inb: "in_blocks (al_num_blocks ?a) (cow_pairs [d] @ cow_pairs new)"
        using N(4) O(16) by simp
      have fresh: "\<forall>b \<in> set (bt_blocks (rn_table x)). copy_origin (cow_pairs [d]) b = b"
        if "x \<in> set (running s1)" for x
        using core_distinct(2) [OF Y(8) that] O(17) by (auto simp: holds_def)
      have "\<forall>r \<in> set D. untouched (cow_pairs [d] @ cow_pairs new) r"
        using N(2) fresh O(1) by (auto intro!: untouched_append)
      moreover have "restored (cow_pairs [d] @ cow_pairs new) q q'"
        using N(2) O(15) by (intro restored_before) auto
      moreover have "list_all2 (restored (cow_pairs [d] @ cow_pairs new)) keep keep'"
        using N(3)
      proof (rule list.rel_mono_strong)
        fix x x' assume "x \<in> set keep" "restored (cow_pairs new) x x'"
        then show "restored (cow_pairs [d] @ cow_pairs new) x x'"
          using fresh [of x] O(1) l(2) by (intro restored_after) auto
      qed
      moreover have "decoded out' = decoded out @ (d # new)" using N(1) O(4) dec1 by simp
      moreover have "cow_pairs (d # new) = cow_pairs [d] @ cow_pairs new" by simp
      ultimately have news: "\<exists>new. decoded out' = decoded out @ new \<and>
        in_blocks (al_num_blocks ?a) (cow_pairs new) \<and> (lone ?a \<longrightarrow> cow_pairs new = []) \<and>
        (\<forall>r \<in> set D. untouched (cow_pairs new) r) \<and>
        list_all2 (restored (cow_pairs new)) (q # keep) (q' # keep')"
        using inb none by (metis list.rel_intros(2))
      have D': "decodes E D (q # keep) (q' # keep') (vs @ vs1) (s, out) (s', out')"
        using l(3) O(1-14) Y same_config_trans [OF cfg] steady_trans [OF st2] news by (simp add: decodes_def)
      have nopre: "vs @ vs1 = []" if dm: "demand ?a ?bs T \<le> num_free ?a"
      proof -
        have okq: "table_ok ?bs (rn_table x)" if "x \<in> set (q # ys)" for x
          using that r by (intro core_distinct(1) [OF Cons.prems(1)]) auto
        have "vs1 = []"
        proof (rule ccontr)
          assume "vs1 \<noteq> []"
          with starved have "takes_block (rn_table q) ?a" "num_free ?a = 0" by simp_all
          with dm Cons need_1 [OF okq [of q]] show False by simp
        qed
        have bs: "sc_block_size s1 = ?bs" "sc_block_size s2 = ?bs"
          using Y(9) cfg by (simp_all add: same_config_def)
        have m1: "need ?bs (rn_table x) (sc_alloc s1) 1 \<le> need ?bs (rn_table x) ?a 1"
          if "x \<in> set (q # ys)" for x
          by (rule need_mono [OF okq [OF that]]) (use Y(11) in simp)
        have m2: "need ?bs (rn_table x) (sc_alloc s2) 1 \<le> need ?bs (rn_table x) (sc_alloc s1) 1"
          if x: "x \<in> set ys'" for x
        proof (cases "bt_blocks (rn_table x) = []")
          case True
          have "table_ok ?bs (rn_table x)" using okq x ys by simp
          with True have "bt_tokens (rn_table x) mod ?bs = 0"
            using length_blocks [of ?bs "rn_table x"] by (auto split: if_splits)
          then show ?thesis by (simp add: need_def unshared_def)
        next
          case False
          have "x \<in> set (running s1)" using x O(1) by simp
          from core_distinct(2) [OF Y(8) this] False
          have "0 < cnt (sc_alloc s1) (last (bt_blocks (rn_table x)))" by (simp add: holds_def)
          from O(18) [OF this] show ?thesis using okq x ys by (intro need_mono) auto
        qed
        have "demand (sc_alloc s2) ?bs ys' \<le> demand (sc_alloc s1) ?bs ys'"
          by (rule demand_mono) (rule m2)
        also have "\<dots> \<le> demand ?a ?bs ys'" by (rule demand_mono) (use m1 ys in simp)
        finally have "demand (sc_alloc s2) ?bs ys' + need ?bs (rn_table q) (sc_alloc s1) 1
          \<le> num_free (sc_alloc s1)"
          using dm Cons ys \<open>vs1 = []\<close> m1 [of q] Y(12) by simp
        with O(19) bs have "demand (sc_alloc s2) (sc_block_size s2) ys' \<le> num_free (sc_alloc s2)"
          by simp
        with l(4) \<open>vs1 = []\<close> show ?thesis by simp
      qed
      show ?thesis
        by (rule exI [of _ "q # keep"], rule exI [of _ "q' # keep'"], rule exI [of _ "vs @ vs1"],
            rule exI [of _ "(s', out')"])
          (use dec l(1,2) Cons ys D' nopre in auto)
    next
      case False
      with alt have vs1: "vs1 = q # ys" "so2 = so1" by auto
      with so1 so2 have s21: "s2 = s1" "out2 = out1" by simp_all
      have r1: "running s1 = D @ []" using Y(1) r vs1(1) by simp
      have ids1: "ids = map rn_id [] @ ids" by simp
      have rest1: "\<forall>j \<in> set ids. j \<notin> rn_id ` set (running s1)"
        using dist Cons.prems(4) r i(2) r1 by auto
      have wr1: "list_all2 written D (decoded out1)" using Cons.prems(7) dec1 by simp
      from Cons.IH [OF Y(8) r1 ids1 rest1 _ excl1 wr1] obtain s' out' where
        l: "decode_ids ids (s1, out1) = Ok () (s', out')"
          "decodes E D [] [] [] (s1, out1) (s', out')" by (auto simp: decodes_def)
      have n1: "al_num_blocks (sc_alloc s1) = al_num_blocks ?a"
        using Y(9) by (simp add: same_config_def same_pool_def)
      have st1: "steady ?a (sc_alloc s1)" using y unfolding so1 by (rule yields_steady)
      then have ln: "lone ?a \<Longrightarrow> lone (sc_alloc s1)" by (simp add: steady_def)
      from l(2) obtain new where N: "decoded out' = decoded out1 @ new"
        "in_blocks (al_num_blocks (sc_alloc s1)) (cow_pairs new)" "\<forall>r \<in> set D. untouched (cow_pairs new) r"
        "lone (sc_alloc s1) \<longrightarrow> cow_pairs new = []" by (auto simp: decodes_def)
      then have news: "\<exists>new. decoded out' = decoded out @ new \<and>
        in_blocks (al_num_blocks ?a) (cow_pairs new) \<and> (lone ?a \<longrightarrow> cow_pairs new = []) \<and>
        (\<forall>r \<in> set D. untouched (cow_pairs new) r)"
        using dec1 n1 ln by (intro exI [of _ new]) simp
      have D': "decodes E D [] [] T (s, out) (s', out')"
        using l(2) Y(1-3,5-12) dec1 vs1(1) Cons same_config_trans [OF Y(9)] n1 steady_trans [OF st1] news
        by (simp add: decodes_def)
      have okq: "table_ok ?bs (rn_table q)"
        by (rule core_distinct(1) [OF Cons.prems(1)]) (simp add: r)
      have "\<not> demand ?a ?bs T \<le> num_free ?a"
        using starved vs1(1) Cons need_1 [OF okq] by simp
      with dec l(1) D' s21 alone vs1(1) Cons show ?thesis
        by (intro exI [of _ "[]"] exI [of _ "[]"] exI [of _ T] exI [of _ "(s', out')"]) simp
    qed
  qed
qed

end
