(* ===== verification/Sched_Step.thy ===== *)
theory Sched_Step
  imports Sched_Decode
begin

text \<open>
  Retiring, the whole step, and the other operations of the scheduler: what each does to the
  queue and the running list, that none of them fails on a state of the invariant, and that
  all of them keep it.
\<close>

section \<open>Retiring\<close>

definition spent :: "RunningSeq \<Rightarrow> bool" where
  "spent q \<longleftrightarrow> rn_max_new q \<le> rn_generated q"

definition retires :: "(PrefixEntry \<Rightarrow> u32 list) \<Rightarrow> stepping \<Rightarrow> stepping \<Rightarrow> bool" where
  "retires E so so' \<longleftrightarrow>
     (case so of (s, out) \<Rightarrow> case so' of (s', out') \<Rightarrow>
       running s' = filter (\<lambda>q. \<not> spent q) (running s) \<and> waiting s' = waiting s \<and>
       finished out' = finished out @ map rn_id (filter spent (running s)) \<and>
       admitted out' = admitted out \<and> prefills out' = prefills out \<and>
       decoded out' = decoded out \<and> preempted out' = preempted out \<and>
       core_inv E s' \<and> same_config s s' \<and> next_of (sc_alloc s') = next_of (sc_alloc s) \<and>
       steady (sc_alloc s) (sc_alloc s'))"

lemma free_running_ok:
  assumes core: "core_inv E s" and r: "running s = xs @ q # ys"
  shows "\<exists>a'. free_table (rn_table q) (sc_alloc s) = Ok () a' \<and>
    core_inv E (s\<lparr>sc_alloc := a', running := xs @ ys\<rparr>) \<and> same_content (sc_alloc s) a' \<and>
    cnt a' = (\<lambda>b. cnt (sc_alloc s) b - count_list (bt_blocks (rn_table q)) b)"
proof -
  note C = core_invD [OF core]
  have q: "q \<in> set (running s)" using r by simp
  note Q = core_distinct [OF core q]
  from free_table_ok [OF C(1) Q(3,2)] obtain a' where
    op: "free_table (rn_table q) (sc_alloc s) = Ok () a'" and A: "alloc_inv a'"
      "same_content (sc_alloc s) a'"
      "cnt a' = (\<lambda>b. cnt (sc_alloc s) b - count_list (bt_blocks (rn_table q)) b)" by blast
  have "core_inv E (s\<lparr>sc_alloc := a', running := xs @ ys, waiting := waiting s\<rparr>)"
    by (rule core_free [OF core r A]) (use C(9,10) r in \<open>simp_all add: seq_ids_def\<close>)
  with op A show ?thesis by (intro exI [of _ a']) simp
qed

lemma retire_loop_ok:
  assumes "core_inv E s" "running s = xs @ ys" "\<forall>x \<in> set xs. \<not> spent x" "length ys \<le> n"
  shows "\<exists>so'. retire_loop n (length xs) (s, out) = Ok () so' \<and> retires E (s, out) so'"
  using assms
proof (induction n arbitrary: s xs ys out)
  case 0
  then show ?case by (simp add: retires_def filter_id_conv) 
next
  case (Suc n)
  show ?case
  proof (cases ys)
    case Nil
    with Suc.prems show ?thesis by (simp add: retires_def filter_id_conv)
  next
    case (Cons q zs)
    have r: "running s = xs @ q # zs" using Suc.prems(2) Cons by simp
    show ?thesis
    proof (cases "spent q")
      case False
      have "\<forall>x \<in> set (xs @ [q]). \<not> spent x" using Suc.prems(3) False by simp
      with Suc.IH [OF Suc.prems(1), of "xs @ [q]" zs out] r Suc.prems(4) Cons obtain so' where
        "retire_loop n (length (xs @ [q])) (s, out) = Ok () so'" "retires E (s, out) so'" by auto
      with r False show ?thesis by (simp add: spent_def Let_def nth_append)
    next
      case True
      from free_running_ok [OF Suc.prems(1) r] obtain a' where
        op: "free_table (rn_table q) (sc_alloc s) = Ok () a'" and
        A: "core_inv E (s\<lparr>sc_alloc := a', running := xs @ zs\<rparr>)" "same_content (sc_alloc s) a'"
        and c: "cnt a' = (\<lambda>b. cnt (sc_alloc s) b - count_list (bt_blocks (rn_table q)) b)"
        by blast
      have sd: "steady (sc_alloc s) a'"
        using A(2) c by (intro steadyI) (simp_all add: same_content_def)
      let ?s = "s\<lparr>sc_alloc := a', running := xs @ zs\<rparr>"
      let ?out = "out\<lparr>finished := finished out @ [rn_id q]\<rparr>"
      have n: "length zs \<le> n" using Suc.prems(4) Cons by simp
      from Suc.IH [OF A(1) _ Suc.prems(3) n, of ?out] obtain so' where
        l: "retire_loop n (length xs) (?s, ?out) = Ok () so'" "retires E (?s, ?out) so'" by auto
      have comm: "s\<lparr>running := xs @ zs, sc_alloc := a'\<rparr> = ?s" by simp
      have "retire_loop (Suc n) (length xs) (s, out) =
        retire_loop n (length xs) (s\<lparr>running := xs @ zs, sc_alloc := a'\<rparr>, ?out)"
        using r True op by (simp add: spent_def Let_def nth_append on_alloc_def)
      also have "\<dots> = Ok () so'" using l(1) by (simp only: comm)
      finally have "retire_loop (Suc n) (length xs) (s, out) = Ok () so'" .
      moreover have "retires E (s, out) so'"
        using l(2) r True Suc.prems(3) A(2) steady_trans [OF sd]
        by (cases so') (auto simp: retires_def same_config_def same_content_def filter_id_conv
            intro: same_pool_trans)
      ultimately show ?thesis by blast
    qed
  qed
qed

section \<open>The step\<close>

lemma started_generated: "list_all2 started ps qs \<Longrightarrow> r \<in> set qs \<Longrightarrow> rn_generated r = 0"
  by (induction rule: list_all2_induct) (auto simp: started_def)

text \<open>
  The shape of a step: the first \<open>k\<close> requests of the queue start, the running list splits
  into those that get a token and the victims at its end, and of the former the spent ones
  leave.
\<close>

definition stepped :: "Scheduler \<Rightarrow> nat \<Rightarrow> RunningSeq list \<Rightarrow> RunningSeq list \<Rightarrow> RunningSeq list \<Rightarrow>
    RunningSeq list \<Rightarrow> StepOutcome \<Rightarrow> Scheduler \<Rightarrow> bool" where
  "stepped s k qs keep keep' vs out s' \<longleftrightarrow>
     k \<le> length (waiting s) \<and> list_all2 started (take k (waiting s)) qs \<and>
     running s @ qs = keep @ vs \<and> list_all2 advanced keep keep' \<and>
     running s' = filter (\<lambda>q. \<not> spent q) keep' \<and>
     waiting s' = map suspend vs @ drop k (waiting s) \<and>
     admitted out = map pd_id (take k (waiting s)) \<and>
     preempted out = rev (map rn_id vs) \<and>
     finished out = map rn_id (filter spent keep') \<and>
     prefills out = map prefill_of qs \<and>
     list_all2 written keep' (decoded out) \<and>
     distinct (map (\<lambda>d. ps_block (dt_slot d)) (decoded out)) \<and>
     list_all2 (restored (cow_pairs (decoded out))) keep keep' \<and>
     in_blocks (al_num_blocks (sc_alloc s)) (cow_pairs (decoded out)) \<and>
     (0 < k \<longrightarrow> vs = [])"

lemma exclusive_distinct:
  assumes core: "core_inv E s" and ex: "\<forall>r \<in> set (running s). exclusive (sc_alloc s) r"
  shows "distinct (map (\<lambda>r. last (bt_blocks (rn_table r))) (running s))"
proof -
  have "distinct (map (\<lambda>r. last (bt_blocks (rn_table r))) qs)"
    if "set qs \<subseteq> set (running s)" "\<And>b. owned (map rn_table qs) b \<le> cnt (sc_alloc s) b" for qs
    using that
  proof (induction qs)
    case Nil
    then show ?case by simp
  next
    case (Cons q qs)
    have le: "owned (map rn_table qs) b \<le> cnt (sc_alloc s) b" for b
      using Cons.prems(2) [of b] by simp
    let ?b = "last (bt_blocks (rn_table q))"
    have q: "exclusive (sc_alloc s) q" using Cons.prems(1) ex by simp
    have ne: "last (bt_blocks (rn_table r)) \<noteq> ?b" if r: "r \<in> set qs" for r
    proof
      assume eq: "last (bt_blocks (rn_table r)) = ?b"
      have "exclusive (sc_alloc s) r" using Cons.prems(1) ex r by auto
      then have "?b \<in> set (bt_blocks (rn_table r))" "?b \<in> set (bt_blocks (rn_table q))"
        using q eq by (metis exclusive_def last_in_set)+
      then have "0 < count_list (bt_blocks (rn_table r)) ?b"
        "0 < count_list (bt_blocks (rn_table q)) ?b"
        by (simp_all add: count_list_0_iff neq0_conv [symmetric])
      moreover have "count_list (bt_blocks (rn_table r)) ?b \<le> owned (map rn_table qs) ?b"
        using r by (auto simp: owned_def intro!: member_le_sum_list)
      ultimately show False using Cons.prems(2) [of ?b] q by (simp add: exclusive_def)
    qed
    have "?b \<notin> (\<lambda>r. last (bt_blocks (rn_table r))) ` set qs"
    proof (rule notI, erule imageE)
      fix r assume "?b = last (bt_blocks (rn_table r))" "r \<in> set qs"
      from ne [OF this(2)] this(1) show False by (rule notE [OF _ sym])
    qed
    moreover have "distinct (map (\<lambda>r. last (bt_blocks (rn_table r))) qs)"
      by (rule Cons.IH [OF _ le]) (use Cons.prems(1) in simp)
    ultimately show ?case by simp
  qed
  then show ?thesis using core_invD(7) [OF core] by simp
qed

lemma written_blocks:
  "list_all2 written qs ds \<Longrightarrow>
   map (\<lambda>d. ps_block (dt_slot d)) ds = map (\<lambda>r. last (bt_blocks (rn_table r))) qs"
  by (induction rule: list_all2_induct) (simp_all add: written_def)

text \<open>What admitting did to the pool, and that the rest of the step registered nothing.\<close>

definition fed :: "(PrefixEntry \<Rightarrow> u32 list) \<Rightarrow> Scheduler \<Rightarrow> RunningSeq list \<Rightarrow> StepOutcome \<Rightarrow> Scheduler \<Rightarrow> bool" where
  "fed E s qs out s' \<longleftrightarrow> (\<exists>s1. core_inv E s1 \<and> running s1 = running s @ qs \<and> same_config s s1 \<and>
     fills (sc_block_size s) (sc_alloc s) qs (sc_alloc s1) \<and> steady (sc_alloc s1) (sc_alloc s') \<and>
     (lone (sc_alloc s1) \<longrightarrow> cow_pairs (decoded out) = []))"

lemma step_fed:
  assumes inv: "sched_inv E s"
  shows "\<exists>k qs keep keep' vs out s' E'. step s = Ok out s' \<and>
    stepped s k qs keep keep' vs out s' \<and> sched_inv E' s' \<and> extends E s E' s' \<and> same_config s s' \<and>
    fed E' s qs out s' \<and>
    (running s = [] \<longrightarrow> 0 < sc_max_batch s \<longrightarrow>
       (\<forall>p rest m. waiting s = p # rest \<longrightarrow> front_match s p = Some m \<longrightarrow>
          fill_blocks s p m \<le> num_free (sc_alloc s) \<longrightarrow> 0 < k)) \<and>
    (running s @ qs \<noteq> [] \<longrightarrow> bt_tokens (rn_table (hd (running s @ qs))) <
       al_num_blocks (sc_alloc s) * sc_block_size s \<longrightarrow> keep \<noteq> [])"
proof -
  from inv have core: "core_inv E s" by (simp add: sched_inv_def)
  from admit_ok [OF core, of no_outcome] obtain k E1 so1 where
    a: "admit (s, no_outcome) = Ok () so1" "admits k E (s, no_outcome) E1 so1"
      "length (running s) < sc_max_batch s \<longrightarrow>
       (\<forall>p rest m. waiting s = p # rest \<longrightarrow> front_match s p = Some m \<longrightarrow>
          fill_blocks s p m + demand (sc_alloc s) (sc_block_size s) (running s)
            \<le> num_free (sc_alloc s) \<longrightarrow> 0 < k)" by blast
  obtain s1 out1 where so1: "so1 = (s1, out1)" by (cases so1)
  from a(2) so1 have A: "core_inv E1 s1" "extends E s E1 s1" "same_config s s1"
    "k \<le> length (waiting s)" "waiting s1 = drop k (waiting s)"
    "admitted out1 = map pd_id (take k (waiting s))" "decoded out1 = []" "preempted out1 = []"
    "finished out1 = []"
    "0 < k \<longrightarrow> demand (sc_alloc s1) (sc_block_size s1) (running s1) \<le> num_free (sc_alloc s1)"
    by (simp_all add: admits_def no_outcome_def)
  from a(2) so1 obtain qs where qs: "running s1 = running s @ qs"
    "list_all2 started (take k (waiting s)) qs" "prefills out1 = map prefill_of qs"
    "fills (sc_block_size s) (sc_alloc s) qs (sc_alloc s1)"
    by (auto simp: admits_def no_outcome_def)
  have wb: "\<forall>r \<in> set (running s1). within_budget r"
  proof
    fix r assume "r \<in> set (running s1)"
    then consider "r \<in> set (running s)" | "r \<in> set qs" using qs(1) by auto
    then show "within_budget r"
    proof cases
      case 1
      with inv show ?thesis by (simp add: sched_inv_def)
    next
      case 2
      with qs(2) have "rn_generated r = 0"
        by (rule started_generated)
      then show ?thesis by (simp add: within_budget_def)
    qed
  qed
  have r1: "running s1 = [] @ running s1" "map rn_id (running s1) = map rn_id (running s1) @ []" by simp_all
  have d0: "\<forall>i \<in> set []. i \<notin> rn_id ` set (running s1)" "\<forall>r \<in> set []. exclusive (sc_alloc s1) r"
    "list_all2 written [] (decoded out1)" using A(7) by simp_all
  from decode_ids_ok [OF A(1) r1 d0(1) wb d0(2,3)] obtain keep keep' vs so2 where
    d: "decode_ids (map rn_id (running s1)) (s1, out1) = Ok () so2" "running s1 = keep @ vs"
      "decodes E1 [] keep keep' vs (s1, out1) so2"
      "demand (sc_alloc s1) (sc_block_size s1) (running s1) \<le> num_free (sc_alloc s1) \<longrightarrow> vs = []"
      "running s1 \<noteq> [] \<longrightarrow> bt_tokens (rn_table (hd (running s1))) <
         al_num_blocks (sc_alloc s1) * sc_block_size s1 \<longrightarrow> keep \<noteq> []"
    by blast
  obtain s2 out2 where so2: "so2 = (s2, out2)" by (cases so2)
  from d(3) so2 have D: "list_all2 advanced keep keep'" "running s2 = keep'"
    "waiting s2 = map suspend vs @ waiting s1" "preempted out2 = rev (map rn_id vs)"
    "list_all2 written keep' (decoded out2)" "admitted out2 = admitted out1"
    "finished out2 = []" "core_inv E1 s2" "same_config s1 s2"
    "next_of (sc_alloc s2) = next_of (sc_alloc s1)" "\<forall>r \<in> set keep'. exclusive (sc_alloc s2) r"
    "list_all2 (restored (cow_pairs (decoded out2))) keep keep'"
    "in_blocks (al_num_blocks (sc_alloc s1)) (cow_pairs (decoded out2))"
    "prefills out2 = prefills out1" "steady (sc_alloc s1) (sc_alloc s2)"
    "lone (sc_alloc s1) \<longrightarrow> cow_pairs (decoded out2) = []"
    using A(7-9) by (simp_all add: decodes_def)
  have "running s2 = [] @ running s2" by simp
  from retire_loop_ok [OF D(8) this _ order_refl, of out2] obtain so3 where
    r: "retire_finished so2 = Ok () so3" "retires E1 (s2, out2) so3"
    by (auto simp: retire_finished_def so2)
  obtain s3 out3 where so3: "so3 = (s3, out3)" by (cases so3)
  from r(2) so3 have R: "running s3 = filter (\<lambda>q. \<not> spent q) keep'" "waiting s3 = waiting s2"
    "finished out3 = map rn_id (filter spent keep')" "admitted out3 = admitted out2"
    "decoded out3 = decoded out2" "preempted out3 = preempted out2" "core_inv E1 s3"
    "same_config s2 s3" "next_of (sc_alloc s3) = next_of (sc_alloc s2)" "prefills out3 = prefills out2"
    "steady (sc_alloc s2) (sc_alloc s3)"
    using D(2,7) by (simp_all add: retires_def)
  have n1: "al_num_blocks (sc_alloc s1) = al_num_blocks (sc_alloc s)"
    using A(3) by (simp add: same_config_def same_pool_def)
  have "step s = Ok out3 s3" using a(1) d(1) r(1) so1 so2 so3 by (simp add: step_def decode_def)
  moreover have "stepped s k qs keep keep' vs out3 s3"
    using n1 A D R qs d(2,4) exclusive_distinct [OF D(8)] written_blocks [OF D(5)]
    by (simp add: stepped_def)
  moreover have "sched_inv E1 s3"
    using R(1,7) by (auto simp: sched_inv_def within_budget_def spent_def)
  moreover have "extends E s E1 s3" using A(2) D(10) R(9) by (simp add: extends_def)
  moreover have "same_config s s3"
    using same_config_trans [OF A(3) same_config_trans [OF D(9) R(8)]] .
  moreover have "fed E1 s qs out3 s3"
    unfolding fed_def using A(1,3) qs(1,4) steady_trans [OF D(15) R(11)] D(16) R(5)
    by (intro exI [of _ s1]) simp
  moreover have "al_num_blocks (sc_alloc s1) * sc_block_size s1 =
      al_num_blocks (sc_alloc s) * sc_block_size s"
    using A(3) by (simp add: same_config_def same_pool_def)
  ultimately show ?thesis
    using a(3) d(5) qs(1)
    by (intro exI [of _ k] exI [of _ qs] exI [of _ keep] exI [of _ keep'] exI [of _ vs]
        exI [of _ out3] exI [of _ s3] exI [of _ E1]) simp
qed

lemma step_ok:
  assumes inv: "sched_inv E s"
  shows "\<exists>k qs keep keep' vs out s' E'. step s = Ok out s' \<and>
    stepped s k qs keep keep' vs out s' \<and> sched_inv E' s' \<and> extends E s E' s' \<and> same_config s s' \<and>
    (running s = [] \<longrightarrow> 0 < sc_max_batch s \<longrightarrow>
       (\<forall>p rest m. waiting s = p # rest \<longrightarrow> front_match s p = Some m \<longrightarrow>
          fill_blocks s p m \<le> num_free (sc_alloc s) \<longrightarrow> 0 < k)) \<and>
    (running s @ qs \<noteq> [] \<longrightarrow> bt_tokens (rn_table (hd (running s @ qs))) <
       al_num_blocks (sc_alloc s) * sc_block_size s \<longrightarrow> keep \<noteq> [])"
  using step_fed [OF inv] by metis

end
