(* ===== verification/Sched_Run.thy ===== *)
theory Sched_Run
  imports Sched_Step
begin

text \<open>
  Runs of the scheduler: the states any sequence of operations can reach, the invariant on
  them, and the work a run gets done.
\<close>

section \<open>The other operations keep the invariant\<close>

lemma core_new:
  assumes "alloc_inv a" "cnt a = (\<lambda>_. 0)" "cached a = (\<lambda>_. None)"
    and "0 < block_size config" "al_num_blocks a * block_size config + 1 < 2 ^ 64" "max_batch \<le> 65535"
  shows "sched_inv (\<lambda>_. []) (with_allocator a config max_batch)"
  using assms
  by (simp add: sched_inv_def core_inv_def with_allocator_def alloc_sound_def seq_ids_def fun_eq_iff)

definition geometry_ok :: "CacheConfig \<Rightarrow> nat \<Rightarrow> bool" where
  "geometry_ok config max_batch \<longleftrightarrow> num_blocks config < 2 ^ 32 \<and> 0 < block_size config \<and>
     num_blocks config * block_size config + 1 < 2 ^ 64 \<and> max_batch \<le> 65535"

lemma sched_inv_new:
  assumes "geometry_ok config max_batch"
  shows "sched_inv (\<lambda>_. []) (sched_new config max_batch)"
    "sched_inv (\<lambda>_. []) (sched_with_prefix_caching config max_batch)"
proof -
  have G: "num_blocks config < 2 ^ 32" "0 < block_size config"
    "num_blocks config * block_size config + 1 < 2 ^ 64" "max_batch \<le> 65535"
    using assms by (simp_all add: geometry_ok_def)
  show "sched_inv (\<lambda>_. []) (sched_new config max_batch)"
    unfolding sched_new_def
    by (rule core_new [OF alloc_inv_new [OF G(1)]])
      (use G in \<open>auto simp: alloc_new_def cnt_def cached_def fun_eq_iff\<close>)
  show "sched_inv (\<lambda>_. []) (sched_with_prefix_caching config max_batch)"
    unfolding sched_with_prefix_caching_def
    by (rule core_new [OF alloc_inv_with_prefix_caching [OF G(1)]])
      (use G in \<open>auto simp: alloc_new_def alloc_with_prefix_caching_def cnt_def cached_def
          index_new_def cached_as_def fun_eq_iff\<close>)
qed

text \<open>
  A request is accepted when its prompt and its budget fit the pool, and refused with the
  state unchanged otherwise; the sum must not overflow for the test to mean that.
\<close>

lemma enqueue_eq:
  assumes inv: "sched_inv E s" and fit: "prompt_len + max_new < 2 ^ 64"
  shows "enqueue i prompt_len prompt max_new s =
    (if prompt_len + max_new \<le> al_num_blocks (sc_alloc s) * sc_block_size s
     then Ok () (s\<lparr>waiting := waiting s @ [\<lparr>pd_id = i, pd_context_len = prompt_len,
       pd_max_new = max_new, pd_prompt = prompt\<rparr>]\<rparr>)
     else Err (OutOfBlocks (ceil_div (prompt_len + max_new) (sc_block_size s))
       (al_num_blocks (sc_alloc s))) s)"
  using core_invD(3,4) [of E s] inv fit by (simp add: enqueue_def sched_inv_def Let_def)

lemma enqueue_inv:
  assumes inv: "sched_inv E s" and fit: "prompt_len + max_new < 2 ^ 64"
    and fresh: "i \<notin> set (seq_ids s)" and p: "length prompt \<le> prompt_len"
    and ok: "enqueue i prompt_len prompt max_new s = Ok () s'"
  shows "sched_inv E s'"
proof -
  let ?p = "\<lparr>pd_id = i, pd_context_len = prompt_len, pd_max_new = max_new, pd_prompt = prompt\<rparr>"
  from ok enqueue_eq [OF inv fit] have
    le: "prompt_len + max_new \<le> al_num_blocks (sc_alloc s) * sc_block_size s" and
    s': "s' = s\<lparr>waiting := waiting s @ [?p]\<rparr>" by (auto split: if_splits)
  from inv have C: "core_inv E s" by (simp add: sched_inv_def)
  have "pending_ok (sc_alloc s) (sc_block_size s) ?p" using le p by (simp add: pending_ok_def)
  then have "core_inv E s'"
    using C fresh unfolding core_inv_def s' by (auto simp: seq_ids_def)
  with inv show ?thesis by (simp add: sched_inv_def s')
qed

text \<open>\<open>Vec::remove\<close> at a found position.\<close>

lemma position_split:
  assumes "position_of P xs = Some i"
  shows "xs = take i xs @ xs ! i # drop (Suc i) xs" "remove_at i xs = take i xs @ drop (Suc i) xs"
    "P (xs ! i)" "i < length xs"
  using position_of_Some [OF assms] by (auto simp: id_take_nth_drop remove_at_def)

lemma finish_running:
  assumes inv: "sched_inv E s" and i: "position_of (\<lambda>r. rn_id r = i) (running s) = Some idx"
  shows "\<exists>s'. finish_sequence i s = Ok () s' \<and> sched_inv E s' \<and> same_config s s' \<and>
    running s' = remove_at idx (running s) \<and> waiting s' = waiting s \<and>
    next_of (sc_alloc s') = next_of (sc_alloc s) \<and> steady (sc_alloc s) (sc_alloc s')"
proof -
  note P = position_split [OF i]
  from inv have C: "core_inv E s" by (simp add: sched_inv_def)
  from free_running_ok [OF C P(1)] obtain a' where
    op: "free_table (rn_table (running s ! idx)) (sc_alloc s) = Ok () a'" and
    A: "core_inv E (s\<lparr>sc_alloc := a', running := remove_at idx (running s)\<rparr>)"
      "same_content (sc_alloc s) a'" and
    c: "cnt a' = (\<lambda>b. cnt (sc_alloc s) b - count_list (bt_blocks (rn_table (running s ! idx))) b)"
    unfolding P(2) by blast
  have "steady (sc_alloc s) a'" using A(2) c by (intro steadyI) (simp_all add: same_content_def)
  let ?s = "s\<lparr>running := remove_at idx (running s), sc_alloc := a'\<rparr>"
  have s: "s\<lparr>sc_alloc := a', running := remove_at idx (running s)\<rparr> = ?s" by simp
  have "set (remove_at idx (running s)) \<subseteq> set (running s)"
    by (auto simp: remove_at_def dest: in_set_takeD in_set_dropD)
  with A(1) inv have "sched_inv E ?s" unfolding s by (auto simp: sched_inv_def)
  moreover have "finish_sequence i s = Ok () ?s" using i op by (simp add: finish_sequence_def)
  ultimately show ?thesis
    using A(2) \<open>steady (sc_alloc s) a'\<close>
    by (intro exI [of _ ?s]) (simp add: same_config_def same_content_def)
qed

lemma finish_waiting:
  assumes inv: "sched_inv E s" and n: "position_of (\<lambda>r. rn_id r = i) (running s) = None"
    and i: "position_of (\<lambda>p. pd_id p = i) (waiting s) = Some idx"
  shows "finish_sequence i s = Ok () (s\<lparr>waiting := remove_at idx (waiting s)\<rparr>)"
    "sched_inv E (s\<lparr>waiting := remove_at idx (waiting s)\<rparr>)"
proof -
  show "finish_sequence i s = Ok () (s\<lparr>waiting := remove_at idx (waiting s)\<rparr>)"
    using n i by (simp add: finish_sequence_def)
  note P = position_split [OF i]
  from inv have C: "core_inv E s" by (simp add: sched_inv_def)
  have sub: "set (remove_at idx (waiting s)) \<subseteq> set (waiting s)"
    by (auto simp: remove_at_def dest: in_set_takeD in_set_dropD)
  have "distinct (map rn_id (running s) @ map pd_id (take idx (waiting s) @ waiting s ! idx # drop (Suc idx) (waiting s)))"
    using core_invD(10) [OF C] P(1) by (simp add: seq_ids_def)
  then have "distinct (map rn_id (running s) @ map pd_id (remove_at idx (waiting s)))"
    unfolding P(2) by auto
  then have "core_inv E (s\<lparr>waiting := remove_at idx (waiting s)\<rparr>)"
    using C sub unfolding core_inv_def seq_ids_def by auto
  with inv show "sched_inv E (s\<lparr>waiting := remove_at idx (waiting s)\<rparr>)"
    by (simp add: sched_inv_def)
qed

lemma fork_ok:
  assumes inv: "sched_inv E s" and q: "position_of (\<lambda>r. rn_id r = parent) (running s) = Some idx"
    and room: "length (running s) < sc_max_batch s" and fresh: "child \<notin> set (seq_ids s)"
  shows "\<exists>s' c. fork_sequence parent child max_new s = Ok () s' \<and> sched_inv E s' \<and>
    same_config s s' \<and> running s' = running s @ [c] \<and> waiting s' = waiting s \<and>
    rn_id c = child \<and> rn_table c = rn_table (running s ! idx) \<and> rn_generated c = 0 \<and>
    rn_max_new c = max_new \<and> num_free (sc_alloc s') = num_free (sc_alloc s) \<and>
    next_of (sc_alloc s') = next_of (sc_alloc s)"
proof -
  note P = position_split [OF q]
  let ?q = "running s ! idx" and ?a = "sc_alloc s"
  from inv have core: "core_inv E s" by (simp add: sched_inv_def)
  note C = core_invD [OF core]
  have qr: "?q \<in> set (running s)" using P(4) by simp
  note Q = core_distinct [OF core qr]
  have "\<forall>b \<in> set (bt_blocks (rn_table ?q)). cnt ?a b < 65535"
    using core_cnt_le [OF core] room C(5) by (meson le_less_trans less_le_trans)
  from fork_table_ok [OF C(1) Q(3,2) this] obtain a' where
    op: "fork_table (rn_table ?q) ?a = Ok (rn_table ?q) a'" and A: "alloc_inv a'"
      "same_content ?a a'" "cnt a' = (\<lambda>b. cnt ?a b + count_list (bt_blocks (rn_table ?q)) b)"
      "num_free a' = num_free ?a" by blast
  let ?c = "\<lparr>rn_id = child, rn_table = rn_table ?q, rn_max_new = max_new, rn_generated = 0,
    rn_prompt = rn_prompt ?q, rn_cached = 0\<rparr>"
  let ?s = "s\<lparr>sc_alloc := a', running := running s @ [?c]\<rparr>"
  have n: "al_num_blocks a' = al_num_blocks ?a" "cached a' = cached ?a" "next_of a' = next_of ?a"
    using A(2) by (simp_all add: same_content_def same_pool_def)
  have rk: "running_ok E a' (sc_block_size s) r" if "running_ok E ?a (sc_block_size s) r" for r
    using that n(2) by (simp add: running_ok_def prompt_cached_def)
  have "core_inv E ?s"
    unfolding core_inv_def
  proof (intro conjI ballI)
    show "alloc_sound E (sc_alloc ?s)" using C(2) n(2) by (simp add: alloc_sound_def)
    show "cnt (sc_alloc ?s) = owned (map rn_table (running ?s))" using A(3) C(7) by (simp add: fun_eq_iff)
    show "running_ok E (sc_alloc ?s) (sc_block_size ?s) r" if "r \<in> set (running ?s)" for r
    proof (cases "r = ?c")
      case True
      with rk [OF C(8) [OF qr]] show ?thesis by (simp add: running_ok_def)
    next
      case False
      with that rk C(8) show ?thesis by auto
    qed
    show "pending_ok (sc_alloc ?s) (sc_block_size ?s) p" if "p \<in> set (waiting ?s)" for p
      using that C(9) n(1) by (simp add: pending_ok_def)
    show "distinct (seq_ids ?s)" using C(10) fresh by (auto simp: seq_ids_def)
  qed (use A(1) n(1) C(3-5) room in simp_all)
  with inv have "sched_inv E ?s" by (auto simp: sched_inv_def within_budget_def)
  moreover have "fork_sequence parent child max_new s = Ok () ?s"
    using q room op by (simp add: fork_sequence_def)
  ultimately show ?thesis
    using A(2,4) n(3) by (intro exI [of _ ?s] exI [of _ ?c]) (simp add: same_config_def same_content_def)
qed

lemma sched_check_ok:
  assumes inv: "sched_inv E s"
  shows "sched_check s = Inr ()"
proof -
  from inv have core: "core_inv E s" by (simp add: sched_inv_def)
  note C = core_invD [OF core]
  have "\<forall>t \<in> set (map rn_table (running s)). table_fits (al_num_blocks (sc_alloc s)) t"
    using core_distinct(1,2) [OF core] by (auto intro: table_ok_fits)
  moreover have "owned (map rn_table (running s)) b < 2 ^ 32" for b
    using C(7) le_less_trans [OF cnt_bound, of "2 ^ 32" "sc_alloc s" b] by simp
  ultimately show ?thesis
    using C(6,7) check_ownership_iff [OF C(1)] by (simp add: sched_check_def)
qed

section \<open>Reachable states\<close>

text \<open>
  Everything a client can do with a scheduler. A request and a fork bring a new id, as the
  documentation of \<open>fork_sequence\<close> demands; the code does not check it.
\<close>

inductive sched_reach :: "CacheConfig \<Rightarrow> nat \<Rightarrow> Scheduler \<Rightarrow> bool" for config max_batch where
  new: "sched_reach config max_batch (sched_new config max_batch)"
| caching: "sched_reach config max_batch (sched_with_prefix_caching config max_batch)"
| request: "sched_reach config max_batch s \<Longrightarrow> i \<notin> set (seq_ids s) \<Longrightarrow>
    prompt_len + max_new < 2 ^ 64 \<Longrightarrow> res_state (add_request i prompt_len max_new s) = Some s' \<Longrightarrow>
    sched_reach config max_batch s'"
| prompt: "sched_reach config max_batch s \<Longrightarrow> i \<notin> set (seq_ids s) \<Longrightarrow>
    length ts + max_new < 2 ^ 64 \<Longrightarrow> res_state (add_prompt i ts max_new s) = Some s' \<Longrightarrow>
    sched_reach config max_batch s'"
| step: "sched_reach config max_batch s \<Longrightarrow> res_state (step s) = Some s' \<Longrightarrow>
    sched_reach config max_batch s'"
| finish: "sched_reach config max_batch s \<Longrightarrow> res_state (finish_sequence i s) = Some s' \<Longrightarrow>
    sched_reach config max_batch s'"
| fork: "sched_reach config max_batch s \<Longrightarrow> child \<notin> set (seq_ids s) \<Longrightarrow>
    res_state (fork_sequence parent child max_new s) = Some s' \<Longrightarrow>
    sched_reach config max_batch s'"

lemma enqueue_keeps:
  assumes inv: "sched_inv E s" and "prompt_len + max_new < 2 ^ 64" "i \<notin> set (seq_ids s)"
    and "length prompt \<le> prompt_len" and r: "res_state (enqueue i prompt_len prompt max_new s) = Some s'"
  shows "sched_inv E s'"
proof (cases "enqueue i prompt_len prompt max_new s")
  case (Ok u t)
  with r assms enqueue_inv [OF inv] show ?thesis by (cases u) auto
next
  case (Err e t)
  with r enqueue_eq [OF inv assms(2)] inv show ?thesis by (auto split: if_splits)
next
  case Panic
  with r show ?thesis by simp
qed

lemma finish_keeps:
  assumes inv: "sched_inv E s" and r: "res_state (finish_sequence i s) = Some s'"
  shows "sched_inv E s'"
proof (cases "position_of (\<lambda>r. rn_id r = i) (running s)")
  case (Some idx)
  with finish_running [OF inv Some] r show ?thesis by auto
next
  case None
  show ?thesis
  proof (cases "position_of (\<lambda>p. pd_id p = i) (waiting s)")
    case None': None
    with None r inv show ?thesis by (simp add: finish_sequence_def)
  next
    case (Some idx)
    with finish_waiting [OF inv None Some] r show ?thesis by simp
  qed
qed

lemma fork_keeps:
  assumes inv: "sched_inv E s" and fresh: "child \<notin> set (seq_ids s)"
    and r: "res_state (fork_sequence parent child max_new s) = Some s'"
  shows "sched_inv E s'"
proof (cases "position_of (\<lambda>r. rn_id r = parent) (running s)")
  case None
  with r inv show ?thesis by (simp add: fork_sequence_def)
next
  case (Some idx)
  show ?thesis
  proof (cases "length (running s) < sc_max_batch s")
    case True
    from fork_ok [OF inv Some True fresh, of max_new] r show ?thesis by auto
  next
    case False
    with Some r inv show ?thesis by (simp add: fork_sequence_def)
  qed
qed

lemma reach_inv:
  assumes g: "geometry_ok config max_batch" and r: "sched_reach config max_batch s"
  shows "\<exists>E. sched_inv E s"
  using r
proof induction
  case new
  then show ?case using sched_inv_new [OF g] by blast
next
  case caching
  then show ?case using sched_inv_new [OF g] by blast
next
  case (request s i prompt_len max_new s')
  then obtain E where "sched_inv E s" by blast
  from enqueue_keeps [OF this request(3,2), of "[]" s'] request(4) show ?case
    by (auto simp: add_request_def)
next
  case (prompt s i ts max_new s')
  then obtain E where "sched_inv E s" by blast
  from enqueue_keeps [OF this prompt(3,2), of ts s'] prompt(4) show ?case
    by (auto simp: add_prompt_def)
next
  case (step s s')
  then obtain E where "sched_inv E s" by blast
  from step_ok [OF this] step(2) show ?case by auto
next
  case (finish s i s')
  then show ?case using finish_keeps by blast
next
  case (fork s child parent max_new s')
  then show ?case using fork_keeps by blast
qed

section \<open>Work\<close>

text \<open>
  The tokens still to be generated, weighted by the sequence they belong to; a weight of one
  everywhere gives the total, a weight that is one at a single id gives that request's share.
\<close>

definition work :: "(SeqId \<Rightarrow> nat) \<Rightarrow> Scheduler \<Rightarrow> nat" where
  "work w s = sum_list (map (\<lambda>q. w (rn_id q) * (rn_max_new q - rn_generated q)) (running s)) +
     sum_list (map (\<lambda>p. w (pd_id p) * pd_max_new p) (waiting s))"

definition gained :: "(SeqId \<Rightarrow> nat) \<Rightarrow> StepOutcome \<Rightarrow> nat" where
  "gained w out = sum_list (map (\<lambda>d. w (dt_id d)) (decoded out))"

text \<open>
  A request is live when it has something left to generate and will fit the pool at its end.
\<close>

definition live_running :: "nat \<Rightarrow> RunningSeq \<Rightarrow> bool" where
  "live_running cap q \<longleftrightarrow> rn_generated q < rn_max_new q \<and>
     bt_tokens (rn_table q) + (rn_max_new q - rn_generated q) \<le> cap"

definition live_pending :: "nat \<Rightarrow> PendingSeq \<Rightarrow> bool" where
  "live_pending cap p \<longleftrightarrow> 0 < pd_max_new p \<and> pd_context_len p + pd_max_new p \<le> cap"

definition capacity :: "Scheduler \<Rightarrow> nat" where
  "capacity s = al_num_blocks (sc_alloc s) * sc_block_size s"

definition live :: "Scheduler \<Rightarrow> bool" where
  "live s \<longleftrightarrow> 0 < sc_max_batch s \<and> (\<forall>q \<in> set (running s). live_running (capacity s) q) \<and>
     (\<forall>p \<in> set (waiting s). live_pending (capacity s) p)"

lemma work_started:
  "list_all2 started ps qs \<Longrightarrow>
   sum_list (map (\<lambda>q. w (rn_id q) * (rn_max_new q - rn_generated q)) qs) =
   sum_list (map (\<lambda>p. w (pd_id p) * pd_max_new p) ps)"
  by (induction rule: list_all2_induct) (simp_all add: started_def)

lemma live_started:
  "list_all2 started ps qs \<Longrightarrow> \<forall>p \<in> set ps. live_pending cap p \<Longrightarrow> \<forall>q \<in> set qs. live_running cap q"
  by (induction rule: list_all2_induct) (auto simp: started_def live_pending_def live_running_def)

lemma work_advanced:
  "list_all2 advanced keep keep' \<Longrightarrow> \<forall>q \<in> set keep. live_running cap q \<Longrightarrow>
   sum_list (map (\<lambda>q. w (rn_id q) * (rn_max_new q - rn_generated q)) keep) =
   sum_list (map (\<lambda>q. w (rn_id q) * (rn_max_new q - rn_generated q)) keep') +
   sum_list (map (\<lambda>q. w (rn_id q)) keep')"
proof (induction rule: list_all2_induct)
  case (Cons q qs q' qs')
  then have "rn_max_new q - rn_generated q = Suc (rn_max_new q' - rn_generated q')" "rn_id q' = rn_id q"
    by (auto simp: advanced_def live_running_def)
  with Cons show ?case by simp
qed simp

lemma live_advanced:
  "list_all2 advanced keep keep' \<Longrightarrow> \<forall>q \<in> set keep. live_running cap q \<Longrightarrow>
   \<forall>q \<in> set keep'. spent q \<or> live_running cap q"
  by (induction rule: list_all2_induct) (auto simp: advanced_def live_running_def spent_def)

lemma work_spent:
  "sum_list (map (\<lambda>q. w (rn_id q) * (rn_max_new q - rn_generated q)) qs) =
   sum_list (map (\<lambda>q. w (rn_id q) * (rn_max_new q - rn_generated q)) (filter (\<lambda>q. \<not> spent q) qs))"
  by (induction qs) (auto simp: spent_def)

lemma work_suspend:
  "sum_list (map (\<lambda>p. w (pd_id p) * pd_max_new p) (map suspend vs)) =
   sum_list (map (\<lambda>q. w (rn_id q) * (rn_max_new q - rn_generated q)) vs)"
  by (induction vs) simp_all

lemma live_suspend: "live_running cap q \<Longrightarrow> live_pending cap (suspend q)"
  unfolding live_running_def live_pending_def suspend_simps by linarith

lemma sum_list_take_drop:
  fixes f :: "'a \<Rightarrow> nat"
  shows "sum_list (map f xs) = sum_list (map f (take k xs)) + sum_list (map f (drop k xs))"
proof -
  have "sum_list (map f (take k xs @ drop k xs)) =
    sum_list (map f (take k xs)) + sum_list (map f (drop k xs))"
    by (simp only: map_append sum_list_append)
  then show ?thesis by (simp only: append_take_drop_id)
qed

lemma stepped_work:
  assumes st: "stepped s k qs keep keep' vs out s'" and l: "live s" and cfg: "same_config s s'"
  shows "work w s = work w s' + gained w out" "live s'"
proof -
  from st have S: "k \<le> length (waiting s)" "list_all2 started (take k (waiting s)) qs"
    "running s @ qs = keep @ vs" "list_all2 advanced keep keep'"
    "running s' = filter (\<lambda>q. \<not> spent q) keep'" "waiting s' = map suspend vs @ drop k (waiting s)"
    "list_all2 written keep' (decoded out)" by (simp_all add: stepped_def)
  let ?f = "\<lambda>q. w (rn_id q) * (rn_max_new q - rn_generated q)"
  let ?g = "\<lambda>p. w (pd_id p) * pd_max_new p"
  have cap: "capacity s' = capacity s"
    using cfg by (simp add: capacity_def same_config_def same_pool_def)
  have "\<forall>q \<in> set (running s @ qs). live_running (capacity s) q"
    using live_started [OF S(2), of "capacity s"] l set_take_subset [of k "waiting s"]
    by (auto simp: live_def)
  then have lk: "\<forall>q \<in> set (keep @ vs). live_running (capacity s) q" unfolding S(3) .
  have g: "gained w out = sum_list (map (\<lambda>q. w (rn_id q)) keep')"
  proof -
    have "gained w out = sum_list (map w (map dt_id (decoded out)))" by (simp add: gained_def comp_def)
    also have "\<dots> = sum_list (map w (map rn_id keep'))" by (simp only: written_ids [OF S(7)])
    finally show ?thesis by (simp add: comp_def)
  qed
  have "sum_list (map ?f (running s)) + sum_list (map ?g (take k (waiting s))) =
    sum_list (map ?f (running s @ qs))" using work_started [OF S(2)] by simp
  also have "\<dots> = sum_list (map ?f keep) + sum_list (map ?f vs)" unfolding S(3) by simp
  also have "sum_list (map ?f keep) = sum_list (map ?f keep') + gained w out"
    using work_advanced [OF S(4), of "capacity s" w] lk g by simp
  also have "sum_list (map ?f keep') = sum_list (map ?f (running s'))"
    unfolding S(5) by (rule work_spent)
  finally have r: "sum_list (map ?f (running s)) + sum_list (map ?g (take k (waiting s))) =
    sum_list (map ?f (running s')) + gained w out + sum_list (map ?f vs)" by simp
  have "sum_list (map ?g (waiting s)) =
    sum_list (map ?g (take k (waiting s))) + sum_list (map ?g (drop k (waiting s)))"
    by (rule sum_list_take_drop)
  with r show "work w s = work w s' + gained w out"
    by (simp add: work_def S(6) work_suspend [unfolded map_map])
  show "live s'"
    unfolding live_def cap
  proof (intro conjI ballI)
    show "0 < sc_max_batch s'" using l cfg by (simp add: live_def same_config_def)
    show "live_running (capacity s) q" if "q \<in> set (running s')" for q
      using live_advanced [OF S(4)] lk that by (auto simp: S(5))
    show "live_pending (capacity s) p" if "p \<in> set (waiting s')" for p
      using that lk l by (auto simp: S(6) live_def intro: live_suspend dest: in_set_dropD)
  qed
qed

text \<open>With nothing running the front request of a live queue always fits.\<close>

lemma front_fits:
  assumes core: "core_inv E s" and r: "running s = []" and w: "waiting s = p # rest" and l: "live s"
    and m: "front_match s p = Some m"
  shows "fill_blocks s p m \<le> num_free (sc_alloc s)"
proof -
  note C = core_invD [OF core]
  from l w have p: "pd_context_len p + 1 \<le> al_num_blocks (sc_alloc s) * sc_block_size s"
    by (auto simp: live_def live_pending_def capacity_def)
  have "idle (sc_alloc s) = {b. index b < al_num_blocks (sc_alloc s)}"
    using C(7) r by (simp add: idle_def)
  then have nf: "num_free (sc_alloc s) = al_num_blocks (sc_alloc s)"
    using num_free_card [OF C(1)] alloc_invD(1) [OF C(1)] by simp
  from front_match_ok [OF core, of p] m have M: "length (pm_blocks m) * sc_block_size s \<le> pd_context_len p"
    "pm_evictable m \<le> length (pm_blocks m)" by auto
  let ?c = "pd_context_len p - length (pm_blocks m) * sc_block_size s + 1"
  have "length (pm_blocks m) + ceil_div ?c (sc_block_size s) =
    ceil_div (length (pm_blocks m) * sc_block_size s + ?c) (sc_block_size s)"
    by (rule ceil_div_mult_add [OF C(3), symmetric])
  also have "length (pm_blocks m) * sc_block_size s + ?c = pd_context_len p + 1" using M(1) by simp
  also have "ceil_div (pd_context_len p + 1) (sc_block_size s) \<le> al_num_blocks (sc_alloc s)"
    using p by (simp add: ceil_div_le_iff [OF C(3)])
  finally show ?thesis using M(2) nf by (simp add: fill_blocks_def)
qed

lemma step_progress:
  assumes inv: "sched_inv E s" and l: "live s" and busy: "\<not> is_idle s"
  shows "\<exists>out s' E'. step s = Ok out s' \<and> sched_inv E' s' \<and> live s' \<and> decoded out \<noteq> [] \<and>
    (\<forall>w. work w s = work w s' + gained w out)"
proof -
  from inv have core: "core_inv E s" by (simp add: sched_inv_def)
  from step_ok [OF inv] obtain k qs keep keep' vs out s' E' where
    op: "step s = Ok out s'" and st: "stepped s k qs keep keep' vs out s'" and
    inv': "sched_inv E' s'" and "extends E s E' s'" and cfg: "same_config s s'" and
    rest: "running s = [] \<longrightarrow> 0 < sc_max_batch s \<longrightarrow>
       (\<forall>p rest m. waiting s = p # rest \<longrightarrow> front_match s p = Some m \<longrightarrow>
          fill_blocks s p m \<le> num_free (sc_alloc s) \<longrightarrow> 0 < k)" "running s @ qs \<noteq> [] \<longrightarrow>
       bt_tokens (rn_table (hd (running s @ qs))) <
       al_num_blocks (sc_alloc s) * sc_block_size s \<longrightarrow> keep \<noteq> []"
    by (elim exE conjE) (rule that)
  note first = rest(1) and hd = rest(2)
  from st have S: "list_all2 started (take k (waiting s)) qs" "list_all2 advanced keep keep'"
    "list_all2 written keep' (decoded out)" by (simp_all add: stepped_def)
  have ne: "running s @ qs \<noteq> []"
  proof (cases "running s = []")
    case True
    with busy obtain p rest where w: "waiting s = p # rest" by (cases "waiting s") (auto simp: is_idle_def)
    from front_match_ok [OF core, of p] obtain m where "front_match s p = Some m" by blast
    with first True w front_fits [OF core True w l] l have "0 < k" by (auto simp: live_def)
    with w S(1) show ?thesis by (cases k) (auto simp: list_all2_Cons1)
  qed simp
  have "\<forall>q \<in> set (running s @ qs). live_running (capacity s) q"
    using live_started [OF S(1), of "capacity s"] l set_take_subset [of k "waiting s"]
    by (auto simp: live_def)
  then have "live_running (capacity s) (hd (running s @ qs))" using ne hd_in_set by blast
  then have "bt_tokens (rn_table (hd (running s @ qs))) < al_num_blocks (sc_alloc s) * sc_block_size s"
    unfolding live_running_def capacity_def by linarith
  with hd ne have "keep \<noteq> []" by blast
  with S(2,3) have "decoded out \<noteq> []" by auto
  with op inv' stepped_work [OF st l cfg] show ?thesis by blast
qed

text \<open>Stepping until idle, as a serving loop does; the fuel bounds the number of steps.\<close>

fun run_steps :: "nat \<Rightarrow> Scheduler \<Rightarrow> (Scheduler, StepOutcome list) cache_res" where
  "run_steps 0 s = Ok [] s"
| "run_steps (Suc n) s =
     (if is_idle s then Ok [] s
      else bind_res (step s) (\<lambda>out s. bind_res (run_steps n s) (\<lambda>outs s. Ok (out # outs) s)))"

lemma gained_pos: "decoded out \<noteq> [] \<Longrightarrow> 0 < gained (\<lambda>_. 1) out"
  by (cases "decoded out") (simp_all add: gained_def)

lemma run_steps_ok:
  assumes "sched_inv E s" "live s" "work (\<lambda>_. 1) s \<le> n"
  shows "\<exists>outs s'. run_steps n s = Ok outs s' \<and> is_idle s' \<and> length outs \<le> work (\<lambda>_. 1) s \<and>
    (\<forall>w. work w s = sum_list (map (gained w) outs))"
  using assms
proof (induction n arbitrary: E s)
  case 0
  have "is_idle s"
  proof (rule ccontr)
    assume "\<not> is_idle s"
    from step_progress [OF 0(1,2) this] obtain out s' where
      "decoded out \<noteq> []" "work (\<lambda>_. 1) s = work (\<lambda>_. 1) s' + gained (\<lambda>_. 1) out" by blast
    with gained_pos [of out] 0(3) show False by simp
  qed
  then show ?case by (simp add: is_idle_def work_def)
next
  case (Suc n)
  show ?case
  proof (cases "is_idle s")
    case True
    then show ?thesis by (simp add: is_idle_def work_def)
  next
    case False
    from step_progress [OF Suc.prems(1,2) False] obtain out s1 E1 where
      s1: "step s = Ok out s1" "sched_inv E1 s1" "live s1" "decoded out \<noteq> []"
        "\<And>w. work w s = work w s1 + gained w out" by blast
    have "work (\<lambda>_. 1) s1 \<le> n" using s1(5) [of "\<lambda>_. 1"] gained_pos [OF s1(4)] Suc.prems(3) by simp
    from Suc.IH [OF s1(2,3) this] obtain outs s' where
      l: "run_steps n s1 = Ok outs s'" "is_idle s'" "length outs \<le> work (\<lambda>_. 1) s1"
        "\<And>w. work w s1 = sum_list (map (gained w) outs)" by blast
    have "length (out # outs) \<le> work (\<lambda>_. 1) s"
      using l(3) s1(5) [of "\<lambda>_. 1"] gained_pos [OF s1(4)] by simp
    with False s1(1,5) l show ?thesis by (intro exI [of _ "out # outs"] exI [of _ s']) simp
  qed
qed

end
