(* ===== verification/Sched_Fresh.thy ===== *)
theory Sched_Fresh
  imports Sched_Run
begin

text \<open>
  The first prompt of a scheduler with prefix caching: what its step does, and that the prefix
  cache finds the prompt's whole blocks from then on, also when the request is cancelled.
\<close>

section \<open>Registering and matching\<close>

text \<open>What is matched depends on what is cached, and on nothing else of the pool.\<close>

lemma match_prefix_cached:
  assumes inv: "alloc_inv a" "alloc_inv a'" and pc: "prefix_caching a" "prefix_caching a'"
    and eq: "cached a' = cached a" and bs: "0 < bs" and m: "match_prefix a ts bs = Some m"
  shows "\<exists>m'. match_prefix a' ts bs = Some m' \<and> pm_blocks m' = pm_blocks m"
proof -
  from pc obtain c c' where c: "al_cache a = Some c" "al_cache a' = Some c'" by (auto simp: prefix_caching_def)
  note P = cache_invD(2) [OF alloc_invD(4) [OF inv(1)] c(1)] cache_invD(2) [OF alloc_invD(4) [OF inv(2)] c(2)]
  have cc: "cached_as (pc_index c') = cached_as (pc_index c)" using eq c by (simp add: cached_def fun_eq_iff)
  have "index_lookup (pc_index c') p k = index_lookup (pc_index c) p k" for p k
  proof (cases "index_lookup (pc_index c) p k")
    case None
    show ?thesis
    proof (cases "index_lookup (pc_index c') p k")
      case (Some x)
      with lookup_cached [OF P(2)] have "cached_as (pc_index c) (snd x) = Some (fst x, \<lparr>key_parent = p, key_tokens = k\<rparr>)"
        by (cases x) (auto simp: cc)
      with lookup_cached [OF P(1), of p k "fst x" "snd x"] None show ?thesis by simp
    qed (simp add: None)
  next
    case (Some x)
    with lookup_cached [OF P(1)] have "cached_as (pc_index c') (snd x) = Some (fst x, \<lparr>key_parent = p, key_tokens = k\<rparr>)"
      by (cases x) (auto simp: cc)
    with lookup_cached [OF P(2), of p k "fst x" "snd x"] Some show ?thesis by simp
  qed
  then have "index_lookup (pc_index c') = index_lookup (pc_index c)" by blast
  with m bs c show ?thesis
    by (auto simp: match_prefix_def match_chunks_eq [OF inv(1) c(1)] match_chunks_eq [OF inv(2) c(2)] match_of_def)
qed

lemma prompt_registered:
  assumes "alloc_inv a" "alloc_sound E a" "prefix_caching a" "table_ok bs t" "holds a t"
    and "length ts \<le> bt_tokens t" "\<forall>b \<in> set (bt_blocks t). cached a b = None"
  shows "\<exists>a' m. cache_prompt bs t ts 0 ROOT a = Ok () a' \<and> alloc_inv a' \<and> same_pool a a' \<and> cnt a' = cnt a \<and>
    num_free a' = num_free a \<and> (\<forall>x. x \<notin> set (bt_blocks t) \<longrightarrow> cached a' x = cached a x) \<and>
    match_prefix a' ts bs = Some m \<and> length (pm_blocks m) = length ts div bs"
proof -
  note D = table_okD [OF assms(4)]
  let ?cs = "chunks_exact bs ts"
  have "length ?cs \<le> bt_tokens t div bs"
    using assms(6) by (simp add: length_chunks_exact [OF D(1)] div_le_mono)
  then have fit: "0 + length ?cs \<le> length (bt_blocks t)" using length_blocks [OF assms(4)] by simp
  have own: "\<forall>j < length ?cs. 0 < cnt a (bt_blocks t ! (0 + j)) \<and> cached a (bt_blocks t ! (0 + j)) = None"
    using fit assms(5,7) by (auto simp: holds_def)
  have ch: "\<forall>j < length ?cs. ?cs ! j = take bs (drop ((0 + j) * bs) ts)"
    by (simp add: nth_chunks_exact)
  from assms(3) obtain c0 where c0: "al_cache a = Some c0" by (auto simp: prefix_caching_def)
  then have root: "entry_num ROOT < next_of a" "E ROOT = take (0 * bs) ts"
    using pi_invD(4) [OF cache_invD(2) [OF alloc_invD(4) [OF assms(1)] c0]] assms(2)
    by (simp_all add: ROOT_def next_of_def alloc_sound_def)
  from cache_chunks_ok [OF assms(1-3) root(1) D(3) fit own ch root(2)] obtain a' where
    op: "cache_chunks (bt_blocks t) 0 ROOT ?cs a = Ok () a'" and A: "alloc_inv a'" "same_pool a a'"
      "cnt a' = cnt a" "num_free a' = num_free a"
      "\<forall>x. x \<notin> set (take (length ?cs) (drop 0 (bt_blocks t))) \<longrightarrow> cached a' x = cached a x"
      "\<forall>c. al_cache a' = Some c \<longrightarrow>
         length (chain_walk (index_lookup (pc_index c)) ROOT ?cs) = length ?cs" by blast
  from A(2) assms(3) obtain c where c: "al_cache a' = Some c"
    by (auto simp: same_pool_def prefix_caching_def)
  from match_chunks_eq [OF A(1) c, of no_match ?cs] c D(1)
  have "match_prefix a' ts bs =
    Some (match_of a' no_match (chain_walk (index_lookup (pc_index c)) ROOT ?cs))"
    by (simp add: match_prefix_def no_match_def)
  moreover have "cache_prompt bs t ts 0 ROOT a = Ok () a'"
    using op assms(3) D(1) by (simp add: cache_prompt_def)
  moreover have "length (pm_blocks (match_of a' no_match
      (chain_walk (index_lookup (pc_index c)) ROOT ?cs))) = length ts div bs"
    using A(6) c by (simp add: match_of_def no_match_def length_chunks_exact [OF D(1)])
  moreover have "cached a' x = cached a x" if "x \<notin> set (bt_blocks t)" for x
    using A(5) that by (auto dest: in_set_takeD)
  ultimately show ?thesis using A(1-4) by blast
qed

text \<open>Nothing cached, nothing matched.\<close>

lemma fresh_match:
  assumes inv: "alloc_inv a" and snd: "alloc_sound E a" and bs: "0 < bs" and pc: "prefix_caching a"
    and none: "cached a = (\<lambda>_. None)"
  shows "\<exists>m. match_prefix a ts bs = Some m \<and> pm_blocks m = [] \<and> pm_evictable m = 0 \<and> pm_last_entry m = ROOT"
proof -
  from match_prefix_ok [OF inv bs snd, of ts] obtain m where
    m: "match_prefix a ts bs = Some m" "\<forall>b \<in> set (pm_blocks m). cached a b \<noteq> None" by blast
  from m(2) none have e: "pm_blocks m = []" by (cases "pm_blocks m") auto
  from pc obtain c where c: "al_cache a = Some c" by (auto simp: prefix_caching_def)
  with m(1) bs match_chunks_eq [OF inv c, of no_match]
  have "m = match_of a no_match (chain_walk (index_lookup (pc_index c)) ROOT (chunks_exact bs ts))"
    by (simp add: match_prefix_def no_match_def)
  with m(1) e show ?thesis by (simp add: match_of_def no_match_def)
qed

section \<open>The first step\<close>

text \<open>On a pool nobody uses and with nothing cached, a prompt that fits is admitted as a whole.\<close>

lemma fresh_admit:
  assumes core: "core_inv E s" and idle: "running s = []" and w: "waiting s = [p]"
    and p: "pd_context_len p = length (pd_prompt p)" "Suc (length (pd_prompt p)) \<le> capacity s"
    and mb: "0 < sc_max_batch s" and pc: "prefix_caching (sc_alloc s)"
    and none: "cached (sc_alloc s) = (\<lambda>_. None)"
  shows "\<exists>t a m. admit (s, out) = Ok () (s\<lparr>sc_alloc := a, waiting := [], running := [\<lparr>rn_id = pd_id p,
      rn_table = t, rn_max_new = pd_max_new p, rn_generated = 0, rn_prompt = pd_prompt p, rn_cached = 0\<rparr>]\<rparr>,
      out\<lparr>admitted := admitted out @ [pd_id p], prefills := prefills out @ [\<lparr>pf_id = pd_id p,
        pf_cached = 0, pf_computed = length (pd_prompt p)\<rparr>]\<rparr>) \<and>
    alloc_inv a \<and> same_pool (sc_alloc s) a \<and> table_ok (sc_block_size s) t \<and> holds a t \<and>
    bt_tokens t = length (pd_prompt p) \<and> (\<forall>b. cnt a b = count_list (bt_blocks t) b) \<and>
    need (sc_block_size s) t a 1 \<le> num_free a \<and> (\<forall>x. cnt a x = 0 \<longrightarrow> cached a x = None) \<and>
    match_prefix a (pd_prompt p) (sc_block_size s) = Some m \<and>
    length (pm_blocks m) = length (pd_prompt p) div sc_block_size s"
proof -
  note C = core_invD [OF core]
  let ?a = "sc_alloc s" and ?bs = "sc_block_size s" and ?n = "al_num_blocks (sc_alloc s)"
  let ?L = "length (pd_prompt p)" and ?t = "from_blocks [] (sc_block_size s)"
  have z: "cnt ?a b = 0" for b using C(7) idle by simp
  then have "idle ?a = {b. index b < ?n}" by (simp add: idle_def)
  then have nf: "num_free ?a = ?n" using num_free_card [OF C(1)] alloc_invD(1) [OF C(1)] by simp
  have t0: "table_ok ?bs ?t" "holds ?a ?t" "bt_tokens ?t mod ?bs = 0" "bt_tokens ?t = 0" "bt_blocks ?t = []"
    using C(3) by (simp_all add: table_ok_def holds_def from_blocks_def ceil_div_def)
  have f: "ceil_div (?L + 1) ?bs \<le> num_free ?a"
    using p(2) C(3) by (simp add: nf ceil_div_le_iff capacity_def)
  from fill_context [OF C(1) t0(1-3) f] obtain slots t a2 where
    op: "append_many ?L (?t, ?a) = Ok (slots, []) (t, a2)" and g: "grown ?bs ?L ?t ?a slots t a2" and
    nd: "num_free ?a + need ?bs t a2 1 = num_free a2 + ceil_div (?L + 1) ?bs" by blast
  note G = grownD [OF g]
  have cnt2: "cnt a2 b = count_list (bt_blocks t) b" for b using g z by (simp add: t0 grown_def)
  have "\<forall>b x. cached a2 b = Some x \<longrightarrow> cached ?a b = Some x" using g by (simp add: grown_def)
  then have c2: "cached a2 = (\<lambda>_. None)" unfolding none fun_eq_iff by (metis option.exhaust option.distinct(1))
  have h2: "holds a2 t" by (simp add: holds_def cnt2 count_list_0_iff neq0_conv [symmetric])
  have T: "table_ok ?bs t" "bt_tokens t = ?L" "alloc_inv a2" "same_pool ?a a2" using g t0 by (simp_all add: grown_def)
  have snd: "alloc_sound (\<lambda>_. []) a2" by (simp add: alloc_sound_def c2)
  have pc2: "prefix_caching a2" using T(4) pc by (auto simp: same_pool_def prefix_caching_def)
  from prompt_registered [OF T(3) snd pc2 T(1) h2, of "pd_prompt p"] T(2) c2 obtain a3 m where
    R: "cache_prompt ?bs t (pd_prompt p) 0 ROOT a2 = Ok () a3" "alloc_inv a3" "same_pool a2 a3" "cnt a3 = cnt a2"
      "num_free a3 = num_free a2" "\<forall>x. x \<notin> set (bt_blocks t) \<longrightarrow> cached a3 x = None"
      "match_prefix a3 (pd_prompt p) ?bs = Some m" "length (pm_blocks m) = ?L div ?bs" by auto
  have h3: "holds a3 t" using h2 R(4) by (simp add: holds_def)
  have n3: "need ?bs t a3 1 = need ?bs t a2 1" by (simp add: need_def unshared_def R(4))
  have le: "need ?bs t a3 1 \<le> num_free a3" using nd f R(5) n3 by linarith
  have idle3: "cached a3 x = None" if "cnt a3 x = 0" for x
    using that R(4,6) cnt2 by (simp add: count_list_0_iff)
  obtain m0 where m0: "match_prefix ?a (take (min ?L (?L - 1)) (pd_prompt p)) ?bs = Some m0" "pm_blocks m0 = []"
    "pm_evictable m0 = 0" "pm_last_entry m0 = ROOT"
    using fresh_match [OF C(1-3) pc none] by blast
  have "div_ceil (usize_add ?L 1) ?bs = Some (ceil_div (?L + 1) ?bs)"
    using C(3,4) p(2) by (simp add: div_ceil_def ceil_div_def capacity_def)
  moreover have "blocks_needed t a3 1 = Ok (need ?bs t a3 1) ()" by (rule blocks_needed_eq [OF R(2) T(1) h3])
  ultimately have "admit_front 0 (s, out) = Ok (Some (need ?bs t a3 1)) (s\<lparr>sc_alloc := a3, waiting := [], running := [\<lparr>rn_id = pd_id p,
      rn_table = t, rn_max_new = pd_max_new p, rn_generated = 0, rn_prompt = pd_prompt p, rn_cached = 0\<rparr>]\<rparr>,
      out\<lparr>admitted := admitted out @ [pd_id p], prefills := prefills out @ [\<lparr>pf_id = pd_id p,
        pf_cached = 0, pf_computed = ?L\<rparr>]\<rparr>)"
    using idle w mb m0 p(1) f op R(1) by (simp add: admit_front_def Let_def on_alloc_def not_less)
  then have "admit (s, out) = Ok () (s\<lparr>sc_alloc := a3, waiting := [], running := [\<lparr>rn_id = pd_id p,
      rn_table = t, rn_max_new = pd_max_new p, rn_generated = 0, rn_prompt = pd_prompt p, rn_cached = 0\<rparr>]\<rparr>,
      out\<lparr>admitted := admitted out @ [pd_id p], prefills := prefills out @ [\<lparr>pf_id = pd_id p,
        pf_cached = 0, pf_computed = ?L\<rparr>]\<rparr>)"
    using idle w by (simp add: admit_def)
  moreover have "same_pool ?a a3" by (rule same_pool_trans [OF T(4) R(3)])
  ultimately show ?thesis using R T(1,2) h3 le idle3 cnt2 by metis
qed

lemma fresh_step:
  assumes core: "core_inv E s" and idle: "running s = []" and w: "waiting s = [p]"
    and p: "pd_context_len p = length (pd_prompt p)" "Suc (length (pd_prompt p)) \<le> capacity s" "1 < pd_max_new p"
    and mb: "0 < sc_max_batch s" and pc: "prefix_caching (sc_alloc s)"
    and none: "cached (sc_alloc s) = (\<lambda>_. None)"
  shows "\<exists>d r a m. step s = Ok \<lparr>admitted = [pd_id p], prefills = [\<lparr>pf_id = pd_id p, pf_cached = 0,
      pf_computed = length (pd_prompt p)\<rparr>], decoded = [d], preempted = [], finished = []\<rparr>
      (s\<lparr>sc_alloc := a, waiting := [], running := [r]\<rparr>) \<and> dt_cow d = None \<and>
    rn_id r = pd_id p \<and> bt_tokens (rn_table r) = Suc (length (pd_prompt p)) \<and>
    table_ok (sc_block_size s) (rn_table r) \<and> (\<forall>b. cnt a b = count_list (bt_blocks (rn_table r)) b) \<and>
    alloc_inv a \<and> same_pool (sc_alloc s) a \<and>
    match_prefix a (pd_prompt p) (sc_block_size s) = Some m \<and>
    length (pm_blocks m) = length (pd_prompt p) div sc_block_size s"
proof -
  let ?bs = "sc_block_size s" and ?L = "length (pd_prompt p)"
  let ?q = "\<lambda>t. \<lparr>rn_id = pd_id p, rn_table = t, rn_max_new = pd_max_new p, rn_generated = 0,
    rn_prompt = pd_prompt p, rn_cached = 0\<rparr>"
  let ?out = "\<lparr>admitted = [pd_id p], prefills = [\<lparr>pf_id = pd_id p, pf_cached = 0, pf_computed = ?L\<rparr>],
    decoded = [], preempted = [], finished = []\<rparr>"
  from fresh_admit [OF core idle w p(1,2) mb pc none, of no_outcome] obtain t a m where
    A: "admit (s, no_outcome) = Ok () (s\<lparr>sc_alloc := a, waiting := [], running := [?q t]\<rparr>, ?out)"
    "alloc_inv a" "same_pool (sc_alloc s) a" "table_ok ?bs t" "holds a t" "bt_tokens t = ?L"
    "\<forall>b. cnt a b = count_list (bt_blocks t) b" "need ?bs t a 1 \<le> num_free a"
    "\<forall>x. cnt a x = 0 \<longrightarrow> cached a x = None" "match_prefix a (pd_prompt p) ?bs = Some m"
    "length (pm_blocks m) = ?L div ?bs" by (auto simp: no_outcome_def)
  note T = table_okD [OF A(4)]
  have one: "cnt a b \<le> 1" for b using A(7) T(3) by (simp add: count_list_distinct)
  have "0 < num_free a" if "takes_block t a"
    using that A(8) T(1,2) one [of "last (bt_blocks t)"]
    by (auto simp: takes_block_def need_def room_left_def ceil_div_def split: if_splits)
  from append_ok [OF A(2,4,5) this] obtain slot cow t' a' where
    ap: "append_token (t, a) = Ok (slot, cow) (t', a')" "appended ?bs t a slot cow t' a'" by blast
  note P = appendedD [OF ap(2)]
  have cow: "cow = None" using P(8) one [of "last (bt_blocks t)"] by (auto simp: unshared_def)
  have eq: "cached a' = cached a"
  proof (cases "takes_block t a")
    case True
    with P(10) A(9) show ?thesis by (auto simp: idle_def fun_upd_idem)
  qed (use P(11) in simp)
  have cnt': "cnt a' b = count_list (bt_blocks t') b" for b using P(12) [of b] A(7) by simp
  have pcs: "prefix_caching a" "prefix_caching a'"
    using pc A(3) P(2) by (auto simp: same_pool_def prefix_caching_def)
  from match_prefix_cached [OF A(2) P(1) pcs eq T(1) A(10)] A(11) obtain m' where
    m': "match_prefix a' (pd_prompt p) ?bs = Some m'" "length (pm_blocks m') = ?L div ?bs" by auto
  let ?r = "(?q t)\<lparr>rn_table := t', rn_generated := 1\<rparr>" and ?d = "\<lparr>dt_id = pd_id p, dt_slot = slot, dt_cow = cow\<rparr>"
  have "step s = Ok (?out\<lparr>decoded := [?d]\<rparr>) (s\<lparr>sc_alloc := a', waiting := [], running := [?r]\<rparr>)"
    using p(3) by (simp add: step_def A(1) decode_def retire_finished_def ap(1))
  with cow P(1,4,5) A(6) cnt' same_pool_trans [OF A(3) P(2)] m' show ?thesis
    by (intro exI [of _ ?d] exI [of _ ?r] exI [of _ a'] exI [of _ m']) simp
qed

end
