(* ===== verification/Sched_Props.thy ===== *)
theory Sched_Props
  imports Sched_Fresh
begin

text \<open>
  What the scheduler promises, over every state a sequence of operations can reach: a step
  never fails, keeps the arrival order, never undoes an admission, writes to blocks with one
  owner, shares cached blocks only between equal prompts, and gets all its work done.
\<close>

lemma reach_step:
  assumes g: "geometry_ok config max_batch" and r: "sched_reach config max_batch s"
    and op: "step s = Ok out s'"
  obtains k qs keep keep' vs E E' where "stepped s k qs keep keep' vs out s'" "sched_inv E s"
    "sched_inv E' s'" "same_config s s'"
proof -
  from reach_inv [OF g r] obtain E where inv: "sched_inv E s" ..
  from step_ok [OF inv] op that inv show thesis by auto
qed

lemma stepped_ids:
  assumes "stepped s k qs keep keep' vs out s'"
  shows "seq_ids s = map rn_id keep' @ map rn_id vs @ map pd_id (drop k (waiting s))"
    "seq_ids s' = map rn_id (filter (\<lambda>q. \<not> spent q) keep') @ map rn_id vs @
       map pd_id (drop k (waiting s))"
proof -
  from assms have S: "list_all2 started (take k (waiting s)) qs" "running s @ qs = keep @ vs"
    "list_all2 advanced keep keep'" "running s' = filter (\<lambda>q. \<not> spent q) keep'"
    "waiting s' = map suspend vs @ drop k (waiting s)" by (simp_all add: stepped_def)
  have a: "map rn_id keep' = map rn_id keep"
    using S(3) by (induction rule: list_all2_induct) (simp_all add: advanced_def)
  have b: "map pd_id (take k (waiting s)) = map rn_id qs"
    using S(1) by (induction rule: list_all2_induct) (simp_all add: started_def)
  have "map pd_id (waiting s) = map pd_id (take k (waiting s)) @ map pd_id (drop k (waiting s))"
    by (simp only: append_take_drop_id flip: map_append)
  then have "seq_ids s = map rn_id (running s @ qs) @ map pd_id (drop k (waiting s))"
    using b by (simp add: seq_ids_def)
  then show "seq_ids s = map rn_id keep' @ map rn_id vs @ map pd_id (drop k (waiting s))"
    unfolding S(2) a by simp
  show "seq_ids s' = map rn_id (filter (\<lambda>q. \<not> spent q) keep') @ map rn_id vs @
       map pd_id (drop k (waiting s))"
    by (simp add: seq_ids_def S(4,5) comp_def)
qed

lemma filter_ids:
  assumes "distinct (map f xs @ ys)"
  shows "filter (\<lambda>i. i \<notin> f ` {x \<in> set xs. P x}) (map f xs @ ys) = map f (filter (\<lambda>x. \<not> P x) xs) @ ys"
proof -
  have "filter (\<lambda>i. i \<notin> f ` {x \<in> set xs. P x}) (map f xs) = map f (filter (\<lambda>x. \<not> P x) xs)"
    using assms by (auto simp: filter_map comp_def distinct_map inj_on_def intro!: filter_cong arg_cong [of _ _ "map f"])
  moreover have "filter (\<lambda>i. i \<notin> f ` {x \<in> set xs. P x}) ys = ys"
    using assms by (auto simp: filter_id_conv)
  ultimately show ?thesis by simp
qed

lemma stepped_order:
  assumes st: "stepped s k qs keep keep' vs out s'" and d: "distinct (seq_ids s)"
  shows "seq_ids s' = filter (\<lambda>i. i \<notin> set (finished out)) (seq_ids s)"
    "length (seq_ids s) = length (seq_ids s') + length (finished out)"
    "set (finished out) \<subseteq> set (seq_ids s)" "set (preempted out) \<subseteq> set (seq_ids s)"
    "map dt_id (decoded out) = map rn_id keep'" "set (map dt_id (decoded out)) \<subseteq> set (seq_ids s)"
    "map pf_id (prefills out) = admitted out" "set (admitted out) \<subseteq> set (seq_ids s)"
    "set (finished out) \<inter> set (preempted out) = {}"
proof -
  have S: "finished out = map rn_id (filter spent keep')" "preempted out = rev (map rn_id vs)"
    "list_all2 written keep' (decoded out)" "list_all2 started (take k (waiting s)) qs"
    "prefills out = map prefill_of qs" "admitted out = map pd_id (take k (waiting s))"
    using st by (simp_all add: stepped_def)
  have f: "set (finished out) = rn_id ` {q \<in> set keep'. spent q}" using S(1) by auto
  have d': "distinct (map rn_id keep' @ map rn_id vs @ map pd_id (drop k (waiting s)))"
    using d unfolding stepped_ids(1) [OF st] .
  from filter_ids [OF d', of spent] show "seq_ids s' = filter (\<lambda>i. i \<notin> set (finished out)) (seq_ids s)"
    unfolding f stepped_ids [OF st] by simp
  have "length keep' = length (filter (\<lambda>q. \<not> spent q) keep') + length (filter spent keep')"
    using sum_length_filter_compl [of spent keep'] by simp
  then show "length (seq_ids s) = length (seq_ids s') + length (finished out)"
    unfolding stepped_ids [OF st] S(1) by simp
  show "set (finished out) \<subseteq> set (seq_ids s)" "set (preempted out) \<subseteq> set (seq_ids s)"
    unfolding f S(2) stepped_ids(1) [OF st] by auto
  show m: "map dt_id (decoded out) = map rn_id keep'" using S(3) by (rule written_ids)
  show "set (map dt_id (decoded out)) \<subseteq> set (seq_ids s)" unfolding m stepped_ids(1) [OF st] by auto
  have "map rn_id qs = map pd_id (take k (waiting s))"
    using S(4) by (induction rule: list_all2_induct) (simp_all add: started_def)
  then show "map pf_id (prefills out) = admitted out"
    unfolding S(5,6) by (simp add: prefill_of_def comp_def)
  show "set (admitted out) \<subseteq> set (seq_ids s)"
    unfolding S(6) using set_take_subset [of k "waiting s"] by (auto simp: seq_ids_def)
  show "set (finished out) \<inter> set (preempted out) = {}"
    unfolding f S(2) using d' by auto
qed

section \<open>Steps\<close>

definition demo_config :: CacheConfig where
  "demo_config = \<lparr>num_blocks = 4, block_size = 2, num_kv_heads = 1, head_dim = 1, num_layers = 1,
     dtype_bytes = 2\<rparr>"

lemma demo_geometry: "geometry_ok demo_config 2"
  by (simp add: geometry_ok_def demo_config_def)

definition demo_sched :: Scheduler where
  "demo_sched = the (res_state (add_request (SeqId 1) 3 2 (sched_new demo_config 2)))"

lemma demo_reach: "sched_reach demo_config 2 demo_sched"
proof (rule sched_reach.request [OF sched_reach.new])
  show "SeqId 1 \<notin> set (seq_ids (sched_new demo_config 2))"
    by (simp add: seq_ids_def sched_new_def with_allocator_def)
  show "(3 :: nat) + 2 < 2 ^ 64" by simp
  show "res_state (add_request (SeqId 1) 3 2 (sched_new demo_config 2)) = Some demo_sched"
    by (simp add: demo_sched_def add_request_def enqueue_def sched_new_def with_allocator_def
        alloc_new_def demo_config_def Let_def)
qed

text \<open>
  C1: On every state reachable by requests and forks with new ids, whose lengths and budgets do not
  overflow, a step returns normally, no panic, no error and no fuel running out, and leaves a state
  that the code's own consistency check accepts.
\<close>

theorem step_never_fails:
  assumes "geometry_ok config max_batch" "sched_reach config max_batch s"
  shows "\<exists>out s'. step s = Ok out s' \<and> sched_check s' = Inr () \<and> sched_reach config max_batch s'"
proof -
  from reach_inv [OF assms] obtain E where inv: "sched_inv E s" ..
  from step_ok [OF inv] obtain out s' E' where "step s = Ok out s'" "sched_inv E' s'" by blast
  with sched_check_ok sched_reach.step [OF assms(2)] show ?thesis by fastforce
qed

theorem step_never_fails_witness:
  "\<exists>out s'. step demo_sched = Ok out s' \<and> sched_check s' = Inr () \<and> sched_reach demo_config 2 s'"
  by (rule step_never_fails [OF demo_geometry demo_reach])

text \<open>
  C19: A step keeps the arrival order: the running sequences followed by the queue are the
  same ids in the same order as before, without those it finished. Nothing is lost,
  duplicated or overtaken, preempted sequences included, and admission takes a prefix of
  the queue.
\<close>

theorem step_keeps_order:
  assumes "geometry_ok config max_batch" "sched_reach config max_batch s" "step s = Ok out s'"
  shows "seq_ids s' = filter (\<lambda>i. i \<notin> set (finished out)) (seq_ids s) \<and> distinct (seq_ids s') \<and>
    admitted out = map pd_id (take (length (admitted out)) (waiting s))"
proof -
  from reach_step [OF assms] obtain k qs keep keep' vs E E' where
    st: "stepped s k qs keep keep' vs out s'" and inv: "sched_inv E s" "sched_inv E' s'" by metis
  have d: "distinct (seq_ids s)" "distinct (seq_ids s')"
    using inv core_invD(10) by (auto simp: sched_inv_def)
  have "admitted out = map pd_id (take k (waiting s))" "k \<le> length (waiting s)"
    using st by (simp_all add: stepped_def)
  with stepped_order(1) [OF st d(1)] d(2) show ?thesis by simp
qed

theorem step_keeps_order_witness:
  "\<exists>out s'. step demo_sched = Ok out s' \<and>
    seq_ids s' = filter (\<lambda>i. i \<notin> set (finished out)) (seq_ids demo_sched)"
proof -
  from reach_inv [OF demo_geometry demo_reach] obtain E where "sched_inv E demo_sched" ..
  from step_ok [OF this] obtain out s' where "step demo_sched = Ok out s'" by blast
  with step_keeps_order [OF demo_geometry demo_reach this] show ?thesis by blast
qed

text \<open>
  C20: The headroom works: a step that admits anybody preempts nobody, so no prefill is
  thrown away in the step that paid for it.
\<close>

theorem admission_never_preempts:
  assumes "geometry_ok config max_batch" "sched_reach config max_batch s" "step s = Ok out s'"
    and "admitted out \<noteq> []"
  shows "preempted out = []"
proof -
  from reach_step [OF assms(1-3)] obtain k qs keep keep' vs E E' where
    "stepped s k qs keep keep' vs out s'" by metis
  with assms(4) show ?thesis by (auto simp: stepped_def)
qed

theorem admission_never_preempts_witness:
  "\<exists>out s'. step demo_sched = Ok out s' \<and> admitted out = [SeqId 1] \<and> preempted out = []"
proof -
  have "case step demo_sched of Ok out s' \<Rightarrow> admitted out = [SeqId 1] | _ \<Rightarrow> False" by code_simp
  then obtain out s' where "step demo_sched = Ok out s'" "admitted out = [SeqId 1]"
    by (cases "step demo_sched") auto
  with admission_never_preempts [OF demo_geometry demo_reach this(1)] show ?thesis by simp
qed

text \<open>
  C4: The scheduler drains. If every request has a token to generate and fits the pool at its
  end, then stepping reaches the idle state within as many steps as tokens are due, and by
  then every request has received exactly the tokens due to it, however often it was
  preempted on the way.
\<close>

theorem run_drains:
  assumes "geometry_ok config max_batch" "sched_reach config max_batch s" "live s"
  shows "\<exists>outs s'. run_steps (work (\<lambda>_. 1) s) s = Ok outs s' \<and> is_idle s' \<and>
    (\<forall>i. sum_list (map (\<lambda>out. count_list (map dt_id (decoded out)) i) outs) =
       work (\<lambda>j. if j = i then 1 else 0) s)"
proof -
  have g: "gained (\<lambda>j. if j = i then 1 else 0) = (\<lambda>out. count_list (map dt_id (decoded out)) i)" for i
  proof (rule ext)
    fix out
    have "sum_list (map (\<lambda>d. if dt_id d = i then 1 else 0) ds) = count_list (map dt_id ds) i" for ds
      by (induction ds) simp_all
    then show "gained (\<lambda>j. if j = i then 1 else 0) out = count_list (map dt_id (decoded out)) i"
      by (simp add: gained_def)
  qed
  from reach_inv [OF assms(1,2)] obtain E where inv: "sched_inv E s" ..
  from run_steps_ok [OF inv assms(3) order_refl] obtain outs s' where
    r: "run_steps (work (\<lambda>_. 1) s) s = Ok outs s'" "is_idle s'"
      "\<forall>w. work w s = sum_list (map (gained w) outs)" by blast
  have "sum_list (map (\<lambda>out. count_list (map dt_id (decoded out)) i) outs) =
    work (\<lambda>j. if j = i then 1 else 0) s" for i
    using r(3) [rule_format, of "\<lambda>j. if j = i then 1 else 0"] by (simp only: g)
  with r(1,2) show ?thesis by blast
qed

theorem run_drains_witness:
  "\<exists>outs s'. run_steps (work (\<lambda>_. 1) demo_sched) demo_sched = Ok outs s' \<and> is_idle s' \<and>
    sum_list (map (\<lambda>out. count_list (map dt_id (decoded out)) (SeqId 1)) outs) = 2"
proof -
  have l: "live demo_sched" by code_simp
  have w: "work (\<lambda>j. if j = SeqId 1 then 1 else 0) demo_sched = 2" by code_simp
  from run_drains [OF demo_geometry demo_reach l] w show ?thesis by metis
qed

text \<open>
  C9: The tokens of one step are written to blocks no two of them share, at most one per
  sequence, and never for a sequence that the same step preempts.
\<close>

theorem decoded_slots_exclusive:
  assumes "geometry_ok config max_batch" "sched_reach config max_batch s" "step s = Ok out s'"
  shows "distinct (map (\<lambda>d. ps_block (dt_slot d)) (decoded out)) \<and>
    distinct (map dt_id (decoded out)) \<and> set (map dt_id (decoded out)) \<inter> set (preempted out) = {}"
proof -
  from reach_step [OF assms] obtain k qs keep keep' vs E E' where
    st: "stepped s k qs keep keep' vs out s'" and inv: "sched_inv E s" by metis
  have "distinct (map rn_id keep' @ map rn_id vs @ map pd_id (drop k (waiting s)))"
    using core_invD(10) [of E s] inv stepped_ids(1) [OF st] by (simp add: sched_inv_def)
  moreover have "map dt_id (decoded out) = map rn_id keep'"
    using st by (intro written_ids) (simp add: stepped_def)
  ultimately show ?thesis using st unfolding stepped_def by auto
qed

theorem decoded_slots_exclusive_witness:
  "\<exists>out s'. step demo_sched = Ok out s' \<and> distinct (map (\<lambda>d. ps_block (dt_slot d)) (decoded out))"
proof -
  from step_never_fails [OF demo_geometry demo_reach] obtain out s' where
    "step demo_sched = Ok out s'" by blast
  with decoded_slots_exclusive [OF demo_geometry demo_reach this] show ?thesis by blast
qed

text \<open>
  C5: Sharing is sound: if two running sequences hold the same cached block, they hold it at
  the same logical position and their prompts agree on every token up to the block's end.
\<close>

theorem shared_blocks_same_prompt:
  assumes "geometry_ok config max_batch" "sched_reach config max_batch s"
    and "q \<in> set (running s)" "r \<in> set (running s)"
    and "i < length (bt_blocks (rn_table q))" "j < length (bt_blocks (rn_table r))"
    and "bt_blocks (rn_table q) ! i = bt_blocks (rn_table r) ! j"
    and "is_cached (sc_alloc s) (bt_blocks (rn_table q) ! i) = Some True"
  shows "i = j \<and> (i + 1) * sc_block_size s \<le> length (rn_prompt q) \<and>
    take ((i + 1) * sc_block_size s) (rn_prompt q) = take ((i + 1) * sc_block_size s) (rn_prompt r)"
proof -
  from reach_inv [OF assms(1,2)] obtain E where "core_inv E s" by (auto simp: sched_inv_def)
  note C = core_invD [OF this]
  from assms(8) is_cached_eq [OF C(1)] obtain e k where
    c: "cached (sc_alloc s) (bt_blocks (rn_table q) ! i) = Some (e, k)" by auto
  from C(8) [OF assms(3)] assms(5) c have
    1: "(i + 1) * sc_block_size s \<le> length (rn_prompt q)" "E e = take ((i + 1) * sc_block_size s) (rn_prompt q)"
    by (auto simp: running_ok_def prompt_cached_def)
  from C(8) [OF assms(4)] assms(6,7) c have
    2: "(j + 1) * sc_block_size s \<le> length (rn_prompt r)" "E e = take ((j + 1) * sc_block_size s) (rn_prompt r)"
    by (auto simp: running_ok_def prompt_cached_def)
  from 1 2 have "(i + 1) * sc_block_size s = (j + 1) * sc_block_size s"
    by (metis length_take min.absorb2)
  with C(3) have "i = j" by simp
  with 1 2 show ?thesis by simp
qed

text \<open>Two requests with a common first block, after one step with prefix caching.\<close>

definition demo_queued :: "nat \<Rightarrow> Scheduler" where
  "demo_queued n =
     (let s0 = sched_with_prefix_caching demo_config 2;
          s1 = the (res_state (add_prompt (SeqId 1) [1, 2, 3] 2 s0));
          s2 = the (res_state (add_prompt (SeqId 2) [1, 2, 4] 2 s1)) in
      [s0, s1, s2, the (res_state (step s2))] ! n)"

lemma demo_shared_reach: "sched_reach demo_config 2 (demo_queued 3)"
proof (rule sched_reach.step [where s = "demo_queued 2"])
  show "sched_reach demo_config 2 (demo_queued 2)"
  proof (rule sched_reach.prompt [where s = "demo_queued 1" and i = "SeqId 2"])
    show "sched_reach demo_config 2 (demo_queued 1)"
    proof (rule sched_reach.prompt [where s = "demo_queued 0" and i = "SeqId 1"])
      have "demo_queued 0 = sched_with_prefix_caching demo_config 2"
        by (simp add: demo_queued_def Let_def)
      then show "sched_reach demo_config 2 (demo_queued 0)" by (simp add: sched_reach.caching)
      show "res_state (add_prompt (SeqId 1) [1, 2, 3] 2 (demo_queued 0)) = Some (demo_queued 1)"
        by code_simp
    qed (code_simp, simp)
    show "res_state (add_prompt (SeqId 2) [1, 2, 4] 2 (demo_queued 1)) = Some (demo_queued 2)"
      by code_simp
  qed (code_simp, simp)
  show "res_state (step (demo_queued 2)) = Some (demo_queued 3)" by code_simp
qed

theorem shared_blocks_same_prompt_witness:
  "take 2 (rn_prompt (running (demo_queued 3) ! 0)) = take 2 (rn_prompt (running (demo_queued 3) ! 1))"
proof -
  let ?s = "demo_queued 3"
  have in_set: "running ?s ! 0 \<in> set (running ?s)" "running ?s ! 1 \<in> set (running ?s)" by code_simp+
  have len: "0 < length (bt_blocks (rn_table (running ?s ! 0)))"
    "0 < length (bt_blocks (rn_table (running ?s ! 1)))" by code_simp+
  have eq: "bt_blocks (rn_table (running ?s ! 0)) ! 0 = bt_blocks (rn_table (running ?s ! 1)) ! 0"
    "is_cached (sc_alloc ?s) (bt_blocks (rn_table (running ?s ! 0)) ! 0) = Some True" by code_simp+
  have "sc_block_size ?s = 2" by code_simp
  with shared_blocks_same_prompt [OF demo_geometry demo_shared_reach in_set len eq] show ?thesis by simp
qed

section \<open>Registering and matching\<close>

text \<open>
  C22: What was registered is found: after the full blocks of a prompt have been registered,
  matching that prompt finds every one of its whole blocks.
\<close>

theorem registered_prompt_matches:
  assumes "alloc_inv a" "alloc_sound E a" "prefix_caching a" "table_ok bs t" "holds a t"
    and "length ts \<le> bt_tokens t" "\<forall>b \<in> set (bt_blocks t). cached a b = None"
  shows "\<exists>a' m. cache_prompt bs t ts 0 ROOT a = Ok () a' \<and> cnt a' = cnt a \<and>
    num_free a' = num_free a \<and> match_prefix a' ts bs = Some m \<and> length (pm_blocks m) = length ts div bs"
  using prompt_registered [OF assms] by blast

definition demo_owned :: BlockAllocator where
  "demo_owned = the (res_state (allocate (alloc_with_prefix_caching 1)))"

theorem registered_prompt_matches_witness:
  "\<exists>a' m. cache_prompt 2 (from_blocks [BlockId 0] 2) [5, 6] 0 ROOT demo_owned = Ok () a' \<and>
    match_prefix a' [5, 6] 2 = Some m \<and> length (pm_blocks m) = 1"
proof -
  let ?a = "alloc_with_prefix_caching 1"
  have inv: "alloc_inv ?a" by (rule alloc_inv_with_prefix_caching) simp
  have f: "0 < num_free ?a" "allocate ?a = Ok (BlockId 0) demo_owned" by code_simp+
  with allocate_ok [OF inv f(1)] have t: "takes ?a (BlockId 0) demo_owned"
    "cached demo_owned = (cached ?a)(BlockId 0 := None)" by auto
  have c0: "cached ?a = (\<lambda>_. None)"
    by (simp add: alloc_with_prefix_caching_def cached_def index_new_def cached_as_def fun_eq_iff)
  have c: "cached demo_owned = (\<lambda>_. None)" using t(2) c0 by auto
  have snd: "alloc_sound (\<lambda>_. []) demo_owned" by (simp add: alloc_sound_def c)
  have own: "alloc_inv demo_owned" "cnt demo_owned (BlockId 0) = 1" using t(1) by (simp_all add: takes_def)
  have pc: "prefix_caching demo_owned" by code_simp
  have ok: "table_ok 2 (from_blocks [BlockId 0] 2)" by (rule table_ok_from_blocks) simp_all
  have h: "holds demo_owned (from_blocks [BlockId 0] 2)" using own(2) by (simp add: holds_def from_blocks_def)
  from registered_prompt_matches [OF own(1) snd pc ok h, of "[5, 6]"] c show ?thesis
    by (auto simp: from_blocks_def)
qed

section \<open>Requests at the edges\<close>

text \<open>
  C35: The capacity test of a request is void when its length and budget overflow together. On any
  reachable scheduler that is idle, a prompt length of \<open>2 ^ 64 - 1\<close> is accepted (in the release profile)
  with every positive budget up to one more than the capacity, since the sum wraps; the next step
  then fails with \<open>OutOfBlocks\<close>, and the request is neither waiting nor running any more.
\<close>

theorem overflowing_request_breaks_step:
  assumes "geometry_ok config max_batch" "sched_reach config max_batch s" "is_idle s" "0 < sc_max_batch s"
    and "0 < max_new" "max_new \<le> capacity s + 1"
  shows "\<exists>s1 s2. add_request i (2 ^ 64 - 1) max_new s = Ok () s1 \<and> map pd_id (waiting s1) = [i] \<and>
    step s1 = Err (OutOfBlocks (ceil_div (2 ^ 64 - 1) (sc_block_size s)) (al_num_blocks (sc_alloc s))) s2 \<and> is_idle s2"
proof -
  from reach_inv [OF assms(1,2)] obtain E where core: "core_inv E s" by (auto simp: sched_inv_def)
  note C = core_invD [OF core]
  let ?bs = "sc_block_size s" and ?n = "al_num_blocks (sc_alloc s)" and ?L = "2 ^ 64 - 1 :: nat"
  let ?t = "from_blocks [] ?bs"
  let ?s = "s\<lparr>waiting := [\<lparr>pd_id = i, pd_context_len = ?L, pd_max_new = max_new, pd_prompt = []\<rparr>]\<rparr>"
  have idle: "running s = []" "waiting s = []" using assms(3) by (simp_all add: is_idle_def)
  have cap: "?n * ?bs < ?L" using C(4) by simp
  have sum: "usize_add ?L max_new = max_new - 1"
  proof -
    from assms(5) obtain k where k: "max_new = Suc k" by (cases max_new) auto
    have e: "?L + Suc k = k + 2 ^ 64" by simp
    have "k < 2 ^ 64" using assms(6) cap by (simp add: k capacity_def)
    then show ?thesis unfolding usize_add_def k e mod_add_self2 by simp
  qed
  have add: "add_request i ?L max_new s = Ok () ?s"
    using sum assms(6) cap idle by (simp add: add_request_def enqueue_def capacity_def Let_def)
  have "cnt (sc_alloc s) b = 0" for b using C(7) idle by simp
  then have "idle (sc_alloc s) = {b. index b < ?n}" by (simp add: idle_def)
  then have nf: "num_free (sc_alloc s) = ?n"
    using num_free_card [OF C(1)] alloc_invD(1) [OF C(1)] by simp
  have need: "need ?bs ?t (sc_alloc s) ?L = ceil_div ?L ?bs"
    by (simp add: need_def room_left_def unshared_def from_blocks_def)
  have many: "append_many ?L (?t, sc_alloc s) = Err (OutOfBlocks (ceil_div ?L ?bs) ?n) (?t, sc_alloc s)"
  proof -
    have "?n < ceil_div ?L ?bs" using cap by (subst less_ceil_div_iff [OF C(3)])
    with append_many_fails [OF C(1), of ?bs ?t ?L] need nf C(3) show ?thesis
      by (simp add: table_ok_def holds_def from_blocks_def ceil_div_def)
  qed
  have "match_prefix (sc_alloc s) [] ?bs = Some no_match"
    using C(3) by (simp add: match_prefix_def chunks_exact_less split: option.split)
  moreover have "div_ceil (usize_add ?L 1) ?bs = Some 0"
    using C(3) by (simp add: usize_add_def div_ceil_def)
  ultimately have "admit_front 0 (?s, no_outcome) =
      Err (OutOfBlocks (ceil_div ?L ?bs) ?n) (?s\<lparr>waiting := []\<rparr>, no_outcome)"
    using idle assms(4) many by (simp add: admit_front_def Let_def no_match_def on_alloc_def)
  then have "step ?s = Err (OutOfBlocks (ceil_div ?L ?bs) ?n) (?s\<lparr>waiting := []\<rparr>)"
    using idle by (simp add: step_def admit_def)
  with add idle show ?thesis
    by (intro exI [of _ ?s] exI [of _ "?s\<lparr>waiting := []\<rparr>"]) (simp add: is_idle_def)
qed

theorem overflowing_request_breaks_step_witness:
  "\<exists>s1 s2. add_request (SeqId 9) (2 ^ 64 - 1) 1 (sched_new demo_config 2) = Ok () s1 \<and>
    step s1 = Err (OutOfBlocks (2 ^ 63) 4) s2 \<and> is_idle s2"
proof -
  let ?s = "sched_new demo_config 2"
  have s: "sched_reach demo_config 2 ?s" by (rule sched_reach.intros)
  have f: "is_idle ?s" "0 < sc_max_batch ?s" "sc_block_size ?s = 2" "al_num_blocks (sc_alloc ?s) = 4" by code_simp+
  from overflowing_request_breaks_step [OF demo_geometry s f(1,2), of 1 "SeqId 9"] show ?thesis
    by (auto simp: f(3,4) ceil_div_def)
qed

text \<open>
  C36: A queued prompt that fills the whole pool (a budget of zero lets one in) can never be
  admitted, since admission asks for room for one more token: with it at the front and
  nothing running a step does nothing at all, and so does every later one.
\<close>

theorem full_prompt_blocks_queue:
  assumes "geometry_ok config max_batch" "sched_reach config max_batch s"
    and "running s = []" "waiting s = p # rest" "pd_context_len p = capacity s"
  shows "step s = Ok no_outcome s"
proof -
  from reach_inv [OF assms(1,2)] obtain E where core: "core_inv E s" by (auto simp: sched_inv_def)
  note C = core_invD [OF core]
  let ?bs = "sc_block_size s" and ?n = "al_num_blocks (sc_alloc s)"
  have z: "cnt (sc_alloc s) b = 0" for b using C(7) assms(3) by simp
  then have "idle (sc_alloc s) = {b. index b < ?n}" by (simp add: idle_def)
  then have nf: "num_free (sc_alloc s) = ?n"
    using num_free_card [OF C(1)] alloc_invD(1) [OF C(1)] by simp
  from match_prefix_ok [OF C(1,3,2),
      of "take (min (length (pd_prompt p)) (pd_context_len p - 1)) (pd_prompt p)"]
  obtain m where m: "front_match s p = Some m" "pm_evictable m = length (pm_blocks m)"
    by (auto simp: front_match_def z)
  have k: "length (pm_blocks m) * ?bs \<le> pd_context_len p"
    using front_match_ok [OF core, of p] m(1) by auto
  have "fill_blocks s p m =
    ceil_div (length (pm_blocks m) * ?bs + (pd_context_len p - length (pm_blocks m) * ?bs + 1)) ?bs"
    using m(2) ceil_div_mult_add [OF C(3), of "length (pm_blocks m)"
      "pd_context_len p - length (pm_blocks m) * ?bs + 1"] by (simp add: fill_blocks_def)
  also have "\<dots> = ceil_div (Suc (?n * ?bs)) ?bs" using k assms(5) by (simp add: capacity_def)
  also have "\<dots> = ?n + 1" using ceil_div_Suc [OF C(3), of "?n * ?bs"] C(3) by simp
  finally have "num_free (sc_alloc s) < fill_blocks s p m + 0" using nf by simp
  with admit_front_stop [OF core, of 0] m(1) assms(4)
  have "admit_front 0 (s, no_outcome) = Ok None (s, no_outcome)" by blast
  with assms(3,4) show ?thesis
    by (simp add: step_def admit_def decode_def retire_finished_def)
qed

definition demo_full :: Scheduler where
  "demo_full = the (res_state (add_request (SeqId 1) 8 0 (sched_new demo_config 2)))"

theorem full_prompt_blocks_queue_witness:
  "step demo_full = Ok no_outcome demo_full \<and> \<not> is_idle demo_full"
proof -
  have r: "sched_reach demo_config 2 demo_full"
    by (rule sched_reach.request [OF sched_reach.new, where i = "SeqId 1" and prompt_len = 8
          and max_new = 0]) code_simp+
  have f: "running demo_full = []" "waiting demo_full = [\<lparr>pd_id = SeqId 1, pd_context_len = 8,
    pd_max_new = 0, pd_prompt = []\<rparr>]" "capacity demo_full = 8" by code_simp+
  from full_prompt_blocks_queue [OF demo_geometry r f(1,2)] f show ?thesis by (simp add: is_idle_def)
qed

end
