(* ===== verification/Backend.thy ===== *)
theory Backend
  imports Config
begin

text \<open>
  The device seam, \<open>backend.rs\<close>: the calls every K/V backend offers, their default
  implementations, the description of an attention batch and its validation. The interface
  locale \<open>kv_store\<close> states what a backend promises about the entries it stores; both the
  host-memory backend and the CUDA backend are shown to keep it. 32-bit floats are a type
  parameter: no operation here computes with them.
\<close>

section \<open>Slices of a buffer\<close>

text \<open>\<open>&buf[off..off + n]\<close> and \<open>buf[off..off + xs.len()].copy_from_slice(xs)\<close>: \<open>None\<close> is the panic.\<close>

definition read_slice :: "nat \<Rightarrow> nat \<Rightarrow> 'f list \<Rightarrow> 'f list option" where
  "read_slice off n buf = (if off + n \<le> length buf then Some (take n (drop off buf)) else None)"

definition write_slice :: "nat \<Rightarrow> 'f list \<Rightarrow> 'f list \<Rightarrow> 'f list option" where
  "write_slice off xs buf =
     (if off + length xs \<le> length buf
      then Some (take off buf @ xs @ drop (off + length xs) buf) else None)"

lemma read_sliceD:
  assumes "read_slice off n buf = Some xs"
  shows "off + n \<le> length buf" "length xs = n" "j < n \<Longrightarrow> xs ! j = buf ! (off + j)"
  using assms by (auto simp: read_slice_def split: if_splits)

lemma write_sliceD:
  assumes "write_slice off xs buf = Some buf'"
  shows "off + length xs \<le> length buf" "length buf' = length buf"
    "i < length buf \<Longrightarrow>
       buf' ! i = (if off \<le> i \<and> i < off + length xs then xs ! (i - off) else buf ! i)"
  using assms by (auto simp: write_slice_def nth_append min_def split: if_splits)

lemma read_slice_fits: "off + n \<le> length buf \<Longrightarrow> \<exists>xs. read_slice off n buf = Some xs"
  by (simp add: read_slice_def)

lemma write_slice_fits: "off + length xs \<le> length buf \<Longrightarrow> \<exists>buf'. write_slice off xs buf = Some buf'"
  by (simp add: write_slice_def)

lemma read_slice_cong:
  assumes "length buf = length buf'" "\<And>j. j < n \<Longrightarrow> buf ! (off + j) = buf' ! (off + j)"
  shows "read_slice off n buf = read_slice off n buf'"
proof (cases "off + n \<le> length buf")
  case True
  then have "take n (drop off buf) = take n (drop off buf')"
    using assms by (intro nth_equalityI) auto
  with True assms(1) show ?thesis by (simp add: read_slice_def)
next
  case False
  with assms(1) show ?thesis by (simp add: read_slice_def)
qed

text \<open>A buffer of equal cells: writing one cell is seen by a read of that cell only.\<close>

lemma cell_index:
  fixes w :: nat
  assumes "j < w"
  shows "(c * w \<le> d * w + j \<and> d * w + j < c * w + w) \<longleftrightarrow> c = d"
proof -
  have d: "(d * w + j) div w = d" using assms by simp
  show ?thesis
  proof
    assume "c * w \<le> d * w + j \<and> d * w + j < c * w + w"
    then have "w * c \<le> d * w + j" "d * w + j < w * Suc c" by (simp_all add: mult.commute)
    then have "(d * w + j) div w = c" by (rule div_nat_eqI)
    with d show "c = d" by simp
  qed (use assms in simp)
qed

lemma read_write_cell:
  assumes "write_slice (c * w) xs buf = Some buf'" "length xs = w" "d * w + w \<le> length buf"
  shows "read_slice (d * w) w buf' = (if c = d then Some xs else read_slice (d * w) w buf)"
proof (cases "c = d")
  case True
  note W = write_sliceD [OF assms(1)]
  have "take w (drop (d * w) buf') = xs"
    using W(2,3) assms(2,3) True by (intro nth_equalityI) auto
  with True W(2) assms(3) show ?thesis by (simp add: read_slice_def)
next
  case False
  note W = write_sliceD [OF assms(1)]
  have "read_slice (d * w) w buf' = read_slice (d * w) w buf"
    using False W(2,3) assms(2,3) cell_index [of _ w c d] by (intro read_slice_cong) auto
  with False show ?thesis by simp
qed

section \<open>Default implementations of the trait\<close>

text \<open>
  A backend's operations are functions on its state. The two batched calls are defined over
  the single ones; an error stops them where it occurs, with the earlier part done.
\<close>

type_synonym ('b, 'f) kv_write =
  "nat \<Rightarrow> PhysicalSlot \<Rightarrow> 'f list \<Rightarrow> 'f list \<Rightarrow> 'b \<Rightarrow> ('b, unit) cache_res"

fun write_each :: "('b, 'f) kv_write \<Rightarrow> nat \<Rightarrow> nat \<Rightarrow> nat \<Rightarrow> PhysicalSlot list \<Rightarrow> 'f list \<Rightarrow> 'f list \<Rightarrow>
    'b \<Rightarrow> ('b, unit) cache_res" where
  "write_each wr n layer i [] k v b = Ok () b"
| "write_each wr n layer i (dst # dsts) k v b =
     unwrap_res (read_slice (i * n) n k) (\<lambda>ki.
       unwrap_res (read_slice (i * n) n v) (\<lambda>vi.
         bind_res (wr layer dst ki vi b) (\<lambda>_ b. write_each wr n layer (i + 1) dsts k v b)))"

definition write_kv_batch :: "CacheConfig \<Rightarrow> ('b, 'f) kv_write \<Rightarrow> nat \<Rightarrow> PhysicalSlot list \<Rightarrow>
    'f list \<Rightarrow> 'f list \<Rightarrow> 'b \<Rightarrow> ('b, unit) cache_res" where
  "write_kv_batch config wr layer dsts k v b =
     (let n = entry_elems config;
          expected = length dsts * n in
      if length k \<noteq> expected then Err (ShapeMismatch expected (length k)) b
      else if length v \<noteq> expected then Err (ShapeMismatch expected (length v)) b
      else write_each wr n layer 0 dsts k v b)"

definition copy_blocks :: "(BlockId \<Rightarrow> BlockId \<Rightarrow> 'b \<Rightarrow> ('b, unit) cache_res) \<Rightarrow>
    (BlockId \<times> BlockId) list \<Rightarrow> 'b \<Rightarrow> ('b, unit) cache_res" where
  "copy_blocks copy pairs = for_each (\<lambda>(src, dst). copy src dst) pairs"

definition allocated_bytes :: "CacheConfig \<Rightarrow> nat" where
  "allocated_bytes config = total_bytes config"

section \<open>Attention batches\<close>

record AttentionSeq =
  as_block_table :: "BlockId list"
  as_context_len :: nat
  as_num_queries :: nat

fun check_seqs :: "CacheConfig \<Rightarrow> AttentionSeq list \<Rightarrow> (unit, unit) cache_res" where
  "check_seqs c [] = Ok () ()"
| "check_seqs c (s # seqs) =
     (if as_context_len s < as_num_queries s
      then Err (ShapeMismatch (as_context_len s) (as_num_queries s)) ()
      else
        unwrap_res (blocks_for_tokens c (as_context_len s)) (\<lambda>needed.
          if length (as_block_table s) < needed
          then Err (ShapeMismatch needed (length (as_block_table s))) ()
          else
            (case find (\<lambda>b. num_blocks c \<le> index b) (take needed (as_block_table s)) of
               Some i \<Rightarrow> Err (InvalidBlock i (num_blocks c)) ()
             | None \<Rightarrow> check_seqs c seqs)))"

definition query_rows :: "AttentionSeq list \<Rightarrow> nat" where
  "query_rows seqs = sum_list (map as_num_queries seqs)"

text \<open>
  The row test evaluates its disjuncts in the order of the code: \<open>% group\<close> is reached, and
  panics on a group of zero elements, only when the rows divide the query length.
\<close>

definition check_attention ::
  "CacheConfig \<Rightarrow> nat \<Rightarrow> AttentionSeq list \<Rightarrow> nat \<Rightarrow> nat \<Rightarrow> (unit, nat) cache_res" where
  "check_attention c layer seqs q_len out_len =
     (if num_layers c \<le> layer then Err (InvalidLayer layer (num_layers c)) ()
      else
        bind_res (check_seqs c seqs) (\<lambda>_ _.
          if out_len \<noteq> q_len then Err (ShapeMismatch q_len out_len) ()
          else
            (let rows = query_rows seqs; group = entry_elems c in
             if rows = 0 \<and> q_len = 0 then Ok (num_kv_heads c) ()
             else if rows = 0 \<or> q_len mod rows \<noteq> 0 then Err (ShapeMismatch (rows * group) q_len) ()
             else if group = 0 then Panic
             else if (q_len div rows) mod group \<noteq> 0 \<or> q_len = 0
             then Err (ShapeMismatch (rows * group) q_len) ()
             else Ok (q_len div rows div head_dim c) ())))"

text \<open>A sequence of a batch that passed the check: its context lies in blocks of the pool.\<close>

definition seq_in_pool :: "CacheConfig \<Rightarrow> AttentionSeq \<Rightarrow> bool" where
  "seq_in_pool c s \<longleftrightarrow>
     as_num_queries s \<le> as_context_len s \<and>
     (\<forall>t < as_context_len s. t div block_size c < length (as_block_table s) \<and>
        index (as_block_table s ! (t div block_size c)) < num_blocks c)"

lemma check_seqs_ok:
  assumes "0 < block_size c"
  shows "check_seqs c seqs = Ok () () \<Longrightarrow> s \<in> set seqs \<Longrightarrow> seq_in_pool c s"
proof (induction seqs)
  case (Cons r seqs)
  have k: "blocks_for_tokens c (as_context_len r) = Some (ceil_div (as_context_len r) (block_size c))"
    using assms by (simp add: blocks_for_tokens_def)
  from Cons.prems(1) k have r: "as_num_queries r \<le> as_context_len r"
      "ceil_div (as_context_len r) (block_size c) \<le> length (as_block_table r)"
      "find (\<lambda>b. num_blocks c \<le> index b)
         (take (ceil_div (as_context_len r) (block_size c)) (as_block_table r)) = None"
    and rest: "check_seqs c seqs = Ok () ()"
    by (auto split: if_splits option.splits)
  have "seq_in_pool c r"
    unfolding seq_in_pool_def
  proof (intro conjI allI impI)
    fix t assume "t < as_context_len r"
    then have t: "t div block_size c < ceil_div (as_context_len r) (block_size c)"
      by (subst less_ceil_div_iff [OF assms]) (meson div_times_less_eq_dividend le_less_trans)
    with r(2) show len: "t div block_size c < length (as_block_table r)" by simp
    with t have "as_block_table r ! (t div block_size c) \<in>
        set (take (ceil_div (as_context_len r) (block_size c)) (as_block_table r))"
      by (auto simp: in_set_conv_nth intro!: exI [of _ "t div block_size c"])
    with r(3) show "index (as_block_table r ! (t div block_size c)) < num_blocks c"
      by (auto simp: find_None_iff not_le)
  qed (rule r(1))
  with Cons.IH [OF rest] Cons.prems(2) show ?case by auto
qed simp

lemma check_attention_ok:
  assumes "0 < block_size c" "check_attention c layer seqs q_len out_len = Ok heads ()"
  shows "layer < num_layers c" "\<forall>s \<in> set seqs. seq_in_pool c s" "out_len = q_len"
    "query_rows seqs = 0 \<longrightarrow> q_len = 0 \<and> heads = num_kv_heads c"
    "0 < query_rows seqs \<longrightarrow> num_kv_heads c dvd heads \<and> 0 < heads \<and> 0 < num_kv_heads c \<and>
       0 < head_dim c \<and> q_len = query_rows seqs * heads * head_dim c"
proof -
  from assms(2) have l: "layer < num_layers c" and ok: "check_seqs c seqs = Ok () ()"
    and len: "out_len = q_len"
    by (auto simp: check_attention_def Let_def bind_res_Ok_iff split: if_splits)
  from l ok len check_seqs_ok [OF assms(1) ok] show "layer < num_layers c"
    "\<forall>s \<in> set seqs. seq_in_pool c s" "out_len = q_len" by auto
  from assms(2) l ok len show "query_rows seqs = 0 \<longrightarrow> q_len = 0 \<and> heads = num_kv_heads c"
    by (auto simp: check_attention_def Let_def split: if_splits)
  show "0 < query_rows seqs \<longrightarrow> num_kv_heads c dvd heads \<and> 0 < heads \<and> 0 < num_kv_heads c \<and>
       0 < head_dim c \<and> q_len = query_rows seqs * heads * head_dim c"
  proof
    assume r: "0 < query_rows seqs"
    with assms(2) l ok len have q: "query_rows seqs dvd q_len" "0 < entry_elems c"
        "entry_elems c dvd q_len div query_rows seqs" "0 < q_len"
        and h: "heads = q_len div query_rows seqs div head_dim c"
      by (auto simp: check_attention_def Let_def mod_eq_0_iff_dvd split: if_splits)
    from q(1) obtain m where m: "q_len = query_rows seqs * m" by (elim dvdE)
    from q(2,3) obtain g where g: "m = num_kv_heads c * head_dim c * g" "0 < num_kv_heads c" "0 < head_dim c"
      using r by (auto simp: m entry_elems_def elim!: dvdE)
    have "heads = num_kv_heads c * g"
      using r g(3) by (simp add: h m g(1) div_mult2_eq [symmetric] mult.assoc mult.commute [of "head_dim c"])
    with g(2,3) q(4) r show "num_kv_heads c dvd heads \<and> 0 < heads \<and> 0 < num_kv_heads c \<and>
       0 < head_dim c \<and> q_len = query_rows seqs * heads * head_dim c"
      by (simp add: m g(1) mult.assoc)
  qed
qed

section \<open>The interface\<close>

text \<open>What a sequence's block table makes of a store: the entries of the first positions.\<close>

definition gather :: "(PhysicalSlot \<Rightarrow> 'e) \<Rightarrow> nat \<Rightarrow> BlockId list \<Rightarrow> nat \<Rightarrow> 'e list" where
  "gather st bs table n = map (\<lambda>t. st (new_slot (table ! (t div bs)) (t mod bs))) [0..<n]"

lemma length_gather [simp]: "length (gather st bs table n) = n"
  by (simp add: gather_def)

lemma nth_gather [simp]:
  "t < n \<Longrightarrow> gather st bs table n ! t = st (new_slot (table ! (t div bs)) (t mod bs))"
  by (simp add: gather_def)

definition in_pool :: "CacheConfig \<Rightarrow> nat \<Rightarrow> PhysicalSlot \<Rightarrow> bool" where
  "in_pool c layer at \<longleftrightarrow>
     layer < num_layers c \<and> index (ps_block at) < num_blocks c \<and> ps_slot at < block_size c"

text \<open>
  What a backend stores is a K and a V entry for every layer and slot of the pool. A write
  replaces one entry, a block copy and a block reset one block in every layer; a call with an
  address outside the pool or a buffer of the wrong length fails and changes nothing.
\<close>

locale kv_store =
  fixes inv :: "'b \<Rightarrow> bool"
    and config_of :: "'b \<Rightarrow> CacheConfig"
    and entry_at :: "'b \<Rightarrow> nat \<Rightarrow> PhysicalSlot \<Rightarrow> 'f list \<times> 'f list"
    and write_kv :: "('b, 'f) kv_write"
    and read_kv :: "nat \<Rightarrow> PhysicalSlot \<Rightarrow> nat \<Rightarrow> nat \<Rightarrow> 'b \<Rightarrow> ('b, 'f list \<times> 'f list) cache_res"
    and copy_block :: "BlockId \<Rightarrow> BlockId \<Rightarrow> 'b \<Rightarrow> ('b, unit) cache_res"
    and zero_block :: "BlockId \<Rightarrow> 'b \<Rightarrow> ('b, unit) cache_res"
    and zero :: 'f
  assumes write_ok: "\<lbrakk>inv b; in_pool (config_of b) layer dst; length k = entry_elems (config_of b);
      length v = entry_elems (config_of b)\<rbrakk> \<Longrightarrow>
      \<exists>b'. write_kv layer dst k v b = Ok () b' \<and> inv b' \<and> config_of b' = config_of b \<and>
        (\<forall>l s. in_pool (config_of b) l s \<longrightarrow>
           entry_at b' l s = (if l = layer \<and> s = dst then (k, v) else entry_at b l s))"
    and write_err: "\<lbrakk>inv b; \<not> (in_pool (config_of b) layer dst \<and>
      length k = entry_elems (config_of b) \<and> length v = entry_elems (config_of b))\<rbrakk> \<Longrightarrow>
      \<exists>e. write_kv layer dst k v b = Err e b"
    and read_ok: "\<lbrakk>inv b; in_pool (config_of b) layer src; nk = entry_elems (config_of b);
      nv = entry_elems (config_of b)\<rbrakk> \<Longrightarrow>
      \<exists>b'. read_kv layer src nk nv b = Ok (entry_at b layer src) b' \<and> inv b' \<and>
        config_of b' = config_of b \<and> entry_at b' = entry_at b"
    and copy_ok: "\<lbrakk>inv b; index x < num_blocks (config_of b); index y < num_blocks (config_of b)\<rbrakk> \<Longrightarrow>
      \<exists>b'. copy_block x y b = Ok () b' \<and> inv b' \<and> config_of b' = config_of b \<and>
        (\<forall>l s. in_pool (config_of b) l s \<longrightarrow>
           entry_at b' l s = entry_at b l (if ps_block s = y then new_slot x (ps_slot s) else s))"
    and zero_ok: "\<lbrakk>inv b; index block < num_blocks (config_of b)\<rbrakk> \<Longrightarrow>
      \<exists>b'. zero_block block b = Ok () b' \<and> inv b' \<and> config_of b' = config_of b \<and>
        (\<forall>l s. in_pool (config_of b) l s \<longrightarrow>
           entry_at b' l s = (if ps_block s = block
             then (replicate (entry_elems (config_of b)) zero, replicate (entry_elems (config_of b)) zero)
             else entry_at b l s))"


context kv_store
begin

lemma copies_ok:
  assumes "inv b" "\<forall>(s, d) \<in> set pairs. index s < num_blocks (config_of b) \<and> index d < num_blocks (config_of b)"
  shows "\<exists>b'. copy_blocks copy_block pairs b = Ok () b' \<and> inv b' \<and> config_of b' = config_of b \<and>
    (\<forall>l s. in_pool (config_of b) l s \<longrightarrow>
       entry_at b' l s = entry_at b l (new_slot (copy_origin pairs (ps_block s)) (ps_slot s)))"
  using assms
proof (induction pairs arbitrary: b)
  case Nil
  then show ?case by (simp add: copy_blocks_def)
next
  case (Cons p pairs)
  obtain src dst where p: "p = (src, dst)" by force
  with Cons.prems copy_ok [of b src dst] obtain b1 where
    b1: "copy_block src dst b = Ok () b1" "inv b1" "config_of b1 = config_of b"
      "\<forall>l s. in_pool (config_of b) l s \<longrightarrow>
         entry_at b1 l s = entry_at b l (if ps_block s = dst then new_slot src (ps_slot s) else s)"
    by auto
  from Cons.IH [of b1] b1(2,3) Cons.prems obtain b2 where
    b2: "copy_blocks copy_block pairs b1 = Ok () b2" "inv b2" "config_of b2 = config_of b"
      "\<forall>l s. in_pool (config_of b) l s \<longrightarrow>
         entry_at b2 l s = entry_at b1 l (new_slot (copy_origin pairs (ps_block s)) (ps_slot s))"
    by auto
  have "entry_at b2 l s = entry_at b l (new_slot (copy_origin (p # pairs) (ps_block s)) (ps_slot s))"
    if "in_pool (config_of b) l s" for l s
  proof -
    from that Cons.prems(2) have "in_pool (config_of b) l (new_slot (copy_origin pairs (ps_block s)) (ps_slot s))"
      using copy_origin_range [of pairs "\<lambda>x. index x < num_blocks (config_of b)"]
      by (fastforce simp: in_pool_def)
    with b2(4) b1(4) that show ?thesis by (simp add: p Let_def)
  qed
  with b1(1) b2 p show ?case by (auto simp: copy_blocks_def)
qed

text \<open>A batched write stores the \<open>i\<close>-th piece of both buffers at the \<open>i\<close>-th destination.\<close>

lemma write_each_ok:
  assumes "inv b" "\<forall>d \<in> set dsts. in_pool (config_of b) layer d" "distinct dsts"
    and "length k = (i + length dsts) * n" "length v = (i + length dsts) * n"
    and "n = entry_elems (config_of b)"
  shows "\<exists>b'. write_each write_kv n layer i dsts k v b = Ok () b' \<and> inv b' \<and>
    config_of b' = config_of b \<and>
    (\<forall>l s. in_pool (config_of b) l s \<longrightarrow> (l, s) \<notin> {layer} \<times> set dsts \<longrightarrow>
       entry_at b' l s = entry_at b l s) \<and>
    (\<forall>j < length dsts. entry_at b' layer (dsts ! j) =
       (take n (drop ((i + j) * n) k), take n (drop ((i + j) * n) v)))"
  using assms
proof (induction dsts arbitrary: b i)
  case Nil
  then show ?case by simp
next
  case (Cons dst dsts)
  have fit: "i * n + n \<le> length k" "i * n + n \<le> length v" using Cons.prems(4,5) by auto
  then have sl: "read_slice (i * n) n k = Some (take n (drop (i * n) k))"
      "read_slice (i * n) n v = Some (take n (drop (i * n) v))"
      "length (take n (drop (i * n) k)) = n" "length (take n (drop (i * n) v)) = n"
    by (auto simp: read_slice_def)
  let ?k = "take n (drop (i * n) k)" and ?v = "take n (drop (i * n) v)"
  from Cons.prems(2) have p: "in_pool (config_of b) layer dst" "\<forall>d \<in> set dsts. in_pool (config_of b) layer d"
    by simp_all
  from write_ok [OF Cons.prems(1) p(1)] sl(3,4) Cons.prems(6) obtain b1 where
    b1: "write_kv layer dst ?k ?v b = Ok () b1" "inv b1" "config_of b1 = config_of b"
      "\<And>l s. in_pool (config_of b) l s \<Longrightarrow>
         entry_at b1 l s = (if l = layer \<and> s = dst then (?k, ?v) else entry_at b l s)"
    by blast
  have "length k = (i + 1 + length dsts) * n" "length v = (i + 1 + length dsts) * n"
    "distinct dsts" "dst \<notin> set dsts" using Cons.prems(3-5) by simp_all
  note d = this
  from Cons.IH [of b1 "i + 1"] b1(2,3) p(2) d Cons.prems(6) obtain b2 where
    b2: "write_each write_kv n layer (i + 1) dsts k v b1 = Ok () b2" "inv b2" "config_of b2 = config_of b"
      "\<forall>l s. in_pool (config_of b) l s \<longrightarrow> (l, s) \<notin> {layer} \<times> set dsts \<longrightarrow>
         entry_at b2 l s = entry_at b1 l s"
      "\<forall>j < length dsts. entry_at b2 layer (dsts ! j) =
         (take n (drop ((i + 1 + j) * n) k), take n (drop ((i + 1 + j) * n) v))"
    by auto
  have "entry_at b2 layer dst = (?k, ?v)" using b1(4) [OF p(1)] b2(4) p(1) d(4) by simp
  then have "entry_at b2 layer ((dst # dsts) ! j) =
      (take n (drop ((i + j) * n) k), take n (drop ((i + j) * n) v))" if "j < length (dst # dsts)" for j
    using that b2(5) by (cases j) simp_all
  moreover have "entry_at b2 l s = entry_at b l s"
    if "in_pool (config_of b) l s" "(l, s) \<notin> {layer} \<times> set (dst # dsts)" for l s
    using that b1(4) [OF that(1)] b2(4) by auto
  moreover have "write_each write_kv n layer i (dst # dsts) k v b = Ok () b2"
    using sl(1,2) b1(1) b2(1) by simp
  ultimately show ?case using b2(2,3) by blast
qed

lemma write_batch_ok:
  assumes "inv b" "\<forall>d \<in> set dsts. in_pool (config_of b) layer d" "distinct dsts"
    and "length k = length dsts * entry_elems (config_of b)"
    and "length v = length dsts * entry_elems (config_of b)"
  shows "\<exists>b'. write_kv_batch (config_of b) write_kv layer dsts k v b = Ok () b' \<and> inv b' \<and>
    config_of b' = config_of b \<and>
    (\<forall>l s. in_pool (config_of b) l s \<longrightarrow> (l, s) \<notin> {layer} \<times> set dsts \<longrightarrow>
       entry_at b' l s = entry_at b l s) \<and>
    (\<forall>j < length dsts. entry_at b' layer (dsts ! j) =
       (take (entry_elems (config_of b)) (drop (j * entry_elems (config_of b)) k),
        take (entry_elems (config_of b)) (drop (j * entry_elems (config_of b)) v)))"
  using write_each_ok [OF assms(1-3), of k 0 "entry_elems (config_of b)" v] assms(4,5)
  by (simp add: write_kv_batch_def Let_def)

lemma read_back:
  assumes "inv b" "in_pool (config_of b) layer dst" "length k = entry_elems (config_of b)"
    "length v = entry_elems (config_of b)"
  shows "\<exists>b' b''. write_kv layer dst k v b = Ok () b' \<and>
    read_kv layer dst (length k) (length v) b' = Ok (k, v) b''"
proof -
  from write_ok [OF assms] obtain b' where b': "write_kv layer dst k v b = Ok () b'" "inv b'"
    "config_of b' = config_of b" "entry_at b' layer dst = (k, v)" using assms(2) by auto
  with read_ok [of b' layer dst "length k" "length v"] assms show ?thesis by auto
qed

end

end
