(* ===== verification/Cpu.thy ===== *)
theory Cpu
  imports Backend
begin

text \<open>
  The host-memory backend, \<open>cpu.rs\<close>: two flat planes of floats and the address arithmetic
  over them. Slices are bounds-checked (\<open>Panic\<close>). What the code does with floats is taken
  from a record of operations, so everything holds for any rounding.
\<close>

section \<open>The code\<close>

record 'f CpuBackend =
  cpu_config :: CacheConfig
  cpu_k :: "'f list"
  cpu_v :: "'f list"

definition cpu_new :: "'f \<Rightarrow> CacheConfig \<Rightarrow> 'f CpuBackend" where
  "cpu_new z config =
     (let plane = num_layers config * layer_elems config in
      \<lparr>cpu_config = config, cpu_k = replicate plane z, cpu_v = replicate plane z\<rparr>)"

definition block_offset :: "CacheConfig \<Rightarrow> nat \<Rightarrow> BlockId \<Rightarrow> nat" where
  "block_offset c layer block = (layer * num_blocks c + index block) * block_elems c"

definition slot_offset :: "CacheConfig \<Rightarrow> nat \<Rightarrow> PhysicalSlot \<Rightarrow> nat" where
  "slot_offset c layer at = block_offset c layer (ps_block at) + ps_slot at * entry_elems c"

definition validate_block :: "CacheConfig \<Rightarrow> BlockId \<Rightarrow> (unit, unit) cache_res" where
  "validate_block c block =
     (if num_blocks c \<le> index block then Err (InvalidBlock block (num_blocks c)) () else Ok () ())"

definition validate_slot :: "CacheConfig \<Rightarrow> nat \<Rightarrow> PhysicalSlot \<Rightarrow> (unit, unit) cache_res" where
  "validate_slot c layer at =
     (if num_layers c \<le> layer then Err (InvalidLayer layer (num_layers c)) ()
      else
        bind_res (validate_block c (ps_block at)) (\<lambda>_ _.
          if block_size c \<le> ps_slot at then Err (SlotOutOfRange (ps_slot at) (block_size c)) ()
          else Ok () ()))"

definition check_len :: "nat \<Rightarrow> nat \<Rightarrow> (unit, unit) cache_res" where
  "check_len expected actual =
     (if expected \<noteq> actual then Err (ShapeMismatch expected actual) () else Ok () ())"

definition cpu_write_kv :: "('f CpuBackend, 'f) kv_write" where
  "cpu_write_kv layer dst k v b =
     (let c = cpu_config b; n = entry_elems c; off = slot_offset c layer dst in
      read_res (validate_slot c layer dst) b (\<lambda>_.
      read_res (check_len n (length k)) b (\<lambda>_.
      read_res (check_len n (length v)) b (\<lambda>_.
      unwrap_res (write_slice off k (cpu_k b)) (\<lambda>k'.
      unwrap_res (write_slice off v (cpu_v b)) (\<lambda>v'.
        Ok () (b\<lparr>cpu_k := k', cpu_v := v'\<rparr>)))))))"

text \<open>The two output buffers are given by their lengths, and returned.\<close>

definition cpu_read_kv :: "nat \<Rightarrow> PhysicalSlot \<Rightarrow> nat \<Rightarrow> nat \<Rightarrow> 'f CpuBackend \<Rightarrow>
    ('f CpuBackend, 'f list \<times> 'f list) cache_res" where
  "cpu_read_kv layer src k_len v_len b =
     (let c = cpu_config b; n = entry_elems c; off = slot_offset c layer src in
      read_res (validate_slot c layer src) b (\<lambda>_.
      read_res (check_len n k_len) b (\<lambda>_.
      read_res (check_len n v_len) b (\<lambda>_.
      unwrap_res (read_slice off n (cpu_k b)) (\<lambda>k.
      unwrap_res (read_slice off n (cpu_v b)) (\<lambda>v. Ok (k, v) b))))))"

definition copy_within :: "nat \<Rightarrow> nat \<Rightarrow> nat \<Rightarrow> 'f list \<Rightarrow> 'f list option" where
  "copy_within s n d buf =
     (case read_slice s n buf of None \<Rightarrow> None | Some xs \<Rightarrow> write_slice d xs buf)"

definition copy_layer :: "BlockId \<Rightarrow> BlockId \<Rightarrow> nat \<Rightarrow> 'f CpuBackend \<Rightarrow> ('f CpuBackend, unit) cache_res" where
  "copy_layer src dst layer b =
     (let c = cpu_config b; n = block_elems c;
          s = block_offset c layer src; d = block_offset c layer dst in
      unwrap_res (copy_within s n d (cpu_k b)) (\<lambda>k.
      unwrap_res (copy_within s n d (cpu_v b)) (\<lambda>v. Ok () (b\<lparr>cpu_k := k, cpu_v := v\<rparr>))))"

definition cpu_copy_block :: "BlockId \<Rightarrow> BlockId \<Rightarrow> 'f CpuBackend \<Rightarrow> ('f CpuBackend, unit) cache_res" where
  "cpu_copy_block src dst b =
     read_res (validate_block (cpu_config b) src) b (\<lambda>_.
     read_res (validate_block (cpu_config b) dst) b (\<lambda>_.
       if src = dst then Ok () b
       else for_each (copy_layer src dst) [0..<num_layers (cpu_config b)] b))"

definition zero_layer :: "'f \<Rightarrow> BlockId \<Rightarrow> nat \<Rightarrow> 'f CpuBackend \<Rightarrow> ('f CpuBackend, unit) cache_res" where
  "zero_layer z block layer b =
     (let c = cpu_config b; n = block_elems c; off = block_offset c layer block in
      unwrap_res (write_slice off (replicate n z) (cpu_k b)) (\<lambda>k.
      unwrap_res (write_slice off (replicate n z) (cpu_v b)) (\<lambda>v.
        Ok () (b\<lparr>cpu_k := k, cpu_v := v\<rparr>))))"

definition cpu_zero_block :: "'f \<Rightarrow> BlockId \<Rightarrow> 'f CpuBackend \<Rightarrow> ('f CpuBackend, unit) cache_res" where
  "cpu_zero_block z block b =
     read_res (validate_block (cpu_config b) block) b (\<lambda>_.
       for_each (zero_layer z block) [0..<num_layers (cpu_config b)] b)"

section \<open>The layout\<close>

text \<open>Both planes are rows of cells, one per layer, block and slot, each one entry wide.\<close>

definition plane_len :: "CacheConfig \<Rightarrow> nat" where
  "plane_len c = num_layers c * layer_elems c"

definition block_cell :: "CacheConfig \<Rightarrow> nat \<Rightarrow> BlockId \<Rightarrow> nat" where
  "block_cell c l x = l * num_blocks c + index x"

definition plane_entry :: "CacheConfig \<Rightarrow> 'f list \<Rightarrow> nat \<Rightarrow> PhysicalSlot \<Rightarrow> 'f list" where
  "plane_entry c buf l s = take (entry_elems c) (drop (slot_offset c l s) buf)"

lemma block_offset_cell: "block_offset c l x = block_cell c l x * block_elems c"
  by (simp add: block_offset_def block_cell_def)

lemma slot_offset_cell:
  "slot_offset c l s = (block_cell c l (ps_block s) * block_size c + ps_slot s) * entry_elems c"
  by (simp add: slot_offset_def block_offset_cell block_elems_def algebra_simps)

lemma mult_add_less:
  fixes m :: nat
  assumes "i < m" "j < n"
  shows "i * n + j < m * n"
proof -
  have "i * n + j < Suc i * n" using assms(2) by simp
  also have "\<dots> \<le> m * n" using assms(1) by (intro mult_le_mono1) simp
  finally show ?thesis .
qed

lemma mult_add_inject:
  fixes n :: nat
  assumes "j < n" "j' < n"
  shows "i * n + j = i' * n + j' \<longleftrightarrow> i = i' \<and> j = j'"
proof
  assume *: "i * n + j = i' * n + j'"
  then have "(i * n + j) div n = (i' * n + j') div n" "(i * n + j) mod n = (i' * n + j') mod n"
    by simp_all
  with assms show "i = i' \<and> j = j'" by simp
qed simp

lemma block_cell_less:
  assumes "l < num_layers c" "index x < num_blocks c"
  shows "block_cell c l x < num_layers c * num_blocks c"
  using mult_add_less [OF assms] by (simp add: block_cell_def)

lemma block_cell_inject:
  assumes "index x < num_blocks c" "index y < num_blocks c"
  shows "block_cell c l x = block_cell c m y \<longleftrightarrow> l = m \<and> x = y"
  using mult_add_inject [OF assms, of l m] by (simp add: block_cell_def)

lemma block_fits:
  assumes "l < num_layers c" "index x < num_blocks c"
  shows "block_offset c l x + block_elems c \<le> plane_len c"
proof -
  have "Suc (block_cell c l x) * block_elems c \<le> num_layers c * num_blocks c * block_elems c"
    using block_cell_less [OF assms] by (intro mult_le_mono1) simp
  then show ?thesis by (simp add: block_offset_cell plane_len_def layer_elems_def algebra_simps)
qed

lemma slot_in_block:
  assumes "s < block_size c"
  shows "s * entry_elems c + entry_elems c \<le> block_elems c"
proof -
  have "Suc s * entry_elems c \<le> block_size c * entry_elems c"
    using assms by (intro mult_le_mono1) simp
  then show ?thesis by (simp add: block_elems_def algebra_simps)
qed

lemma slot_fits:
  assumes "in_pool c l s"
  shows "slot_offset c l s + entry_elems c \<le> plane_len c"
  using assms block_fits [of l c "ps_block s"] slot_in_block [of "ps_slot s" c]
  by (simp add: in_pool_def slot_offset_def)

lemma length_plane_entry [simp]:
  "in_pool c l s \<Longrightarrow> length buf = plane_len c \<Longrightarrow> length (plane_entry c buf l s) = entry_elems c"
  using slot_fits [of c l s] by (simp add: plane_entry_def)

lemma plane_entry_nth:
  "in_pool c l s \<Longrightarrow> length buf = plane_len c \<Longrightarrow> j < entry_elems c \<Longrightarrow>
   plane_entry c buf l s ! j = buf ! (slot_offset c l s + j)"
  using slot_fits [of c l s] by (simp add: plane_entry_def)

text \<open>Writing one cell, or one block, is seen by the entries of that cell or block alone.\<close>

lemma plane_write:
  assumes "write_slice (slot_offset c l s) xs buf = Some buf'" "length xs = entry_elems c"
    and "length buf = plane_len c" "in_pool c l s" "in_pool c m r"
  shows "plane_entry c buf' m r = (if m = l \<and> r = s then xs else plane_entry c buf m r)"
proof -
  let ?cell = "\<lambda>l s. block_cell c l (ps_block s) * block_size c + ps_slot s"
  note R = read_write_cell [OF assms(1) [unfolded slot_offset_cell] assms(2), of "?cell m r"]
  have fit: "?cell m r * entry_elems c + entry_elems c \<le> length buf"
    using slot_fits [OF assms(5)] assms(3) by (simp add: slot_offset_cell)
  have "?cell l s = ?cell m r \<longleftrightarrow> l = m \<and> ps_block s = ps_block r \<and> ps_slot s = ps_slot r"
    using assms(4,5) mult_add_inject [of "ps_slot s" "block_size c" "ps_slot r"]
      block_cell_inject [of "ps_block s" c "ps_block r"] by (auto simp: in_pool_def)
  then have eq: "?cell l s = ?cell m r \<longleftrightarrow> m = l \<and> r = s"
    by (auto intro: trans [OF new_slot_self [symmetric] new_slot_self])
  have len: "length buf' = length buf" using write_sliceD [OF assms(1)] by simp
  show ?thesis
    using R [OF fit] fit len unfolding eq by (auto simp: plane_entry_def read_slice_def slot_offset_cell)
qed

lemma plane_block_write:
  assumes "write_slice (block_offset c l x) xs buf = Some buf'" "length xs = block_elems c"
    and "length buf = plane_len c" "index x < num_blocks c" "in_pool c m r"
  shows "plane_entry c buf' m r = (if m = l \<and> ps_block r = x
    then take (entry_elems c) (drop (ps_slot r * entry_elems c) xs) else plane_entry c buf m r)"
proof (rule nth_equalityI)
  let ?n = "entry_elems c" and ?rhs = "if m = l \<and> ps_block r = x
    then take (entry_elems c) (drop (ps_slot r * entry_elems c) xs) else plane_entry c buf m r"
  note W = write_sliceD [OF assms(1)]
  have r: "ps_slot r < block_size c" "index (ps_block r) < num_blocks c"
    using assms(5) by (auto simp: in_pool_def)
  note fit = slot_fits [OF assms(5)] and inb = slot_in_block [OF r(1)]
  have lx: "length (take ?n (drop (ps_slot r * ?n) xs)) = ?n" using inb assms(2) by simp
  have len1: "length ?rhs = ?n"
    unfolding if_distrib [of length] lx length_plane_entry [OF assms(5,3)] by simp
  have len: "length (plane_entry c buf' m r) = ?n"
    using W(2) assms(3) by (intro length_plane_entry [OF assms(5)]) simp
  with len1 show "length (plane_entry c buf' m r) = length ?rhs" by simp
  fix j assume "j < length (plane_entry c buf' m r)"
  with len have j: "j < ?n" by simp
  let ?i = "ps_slot r * ?n + j"
  have i: "?i < block_elems c" using j inb by simp
  have off: "slot_offset c m r + j = block_cell c m (ps_block r) * block_elems c + ?i"
    by (simp add: slot_offset_def block_offset_cell)
  have "plane_entry c buf' m r ! j = buf' ! (slot_offset c m r + j)"
    using plane_entry_nth [OF assms(5) _ j] W(2) assms(3) by simp
  also have "\<dots> = (if block_cell c l x = block_cell c m (ps_block r) then xs ! ?i
      else buf ! (slot_offset c m r + j))"
  proof -
    have bnd: "slot_offset c m r + j < length buf" using j fit assms(3) by simp
    show ?thesis
      using W(3) [OF bnd] cell_index [OF i, of "block_cell c l x" "block_cell c m (ps_block r)"]
      unfolding off block_offset_cell assms(2) by auto
  qed
  also have "block_cell c l x = block_cell c m (ps_block r) \<longleftrightarrow> m = l \<and> ps_block r = x"
    using block_cell_inject [OF assms(4) r(2)] by auto
  finally have e: "plane_entry c buf' m r ! j =
    (if m = l \<and> ps_block r = x then xs ! ?i else buf ! (slot_offset c m r + j))" .
  show "plane_entry c buf' m r ! j = ?rhs ! j"
  proof (cases "m = l \<and> ps_block r = x")
    case True
    have "ps_slot r * ?n + ?n \<le> length xs" using inb assms(2) by simp
    with True e j show ?thesis by simp
  next
    case False
    with e plane_entry_nth [OF assms(5,3) j] show ?thesis by auto
  qed
qed

section \<open>The backend keeps the interface\<close>

definition cpu_inv :: "'f CpuBackend \<Rightarrow> bool" where
  "cpu_inv b \<longleftrightarrow> length (cpu_k b) = plane_len (cpu_config b) \<and> length (cpu_v b) = plane_len (cpu_config b)"

definition cpu_entry :: "'f CpuBackend \<Rightarrow> nat \<Rightarrow> PhysicalSlot \<Rightarrow> 'f list \<times> 'f list" where
  "cpu_entry b l s = (plane_entry (cpu_config b) (cpu_k b) l s, plane_entry (cpu_config b) (cpu_v b) l s)"

lemma cpu_inv_new: "cpu_inv (cpu_new z c)"
  by (simp add: cpu_inv_def cpu_new_def plane_len_def Let_def)

lemma validate_block_eq:
  "validate_block c x = (if index x < num_blocks c then Ok () () else Err (InvalidBlock x (num_blocks c)) ())"
  by (simp add: validate_block_def)

lemma validate_slot_ok: "in_pool c l s \<Longrightarrow> validate_slot c l s = Ok () ()"
  by (simp add: in_pool_def validate_slot_def validate_block_eq)

lemma validate_slot_err:
  assumes "\<not> in_pool c l s"
  obtains e where "validate_slot c l s = Err e ()"
proof (cases "validate_slot c l s")
  case (Ok u u')
  with assms show thesis by (auto simp: in_pool_def validate_slot_def validate_block_eq split: if_splits)
next
  case (Err e u)
  with that show thesis by simp
next
  case Panic
  then show thesis by (auto simp: validate_slot_def validate_block_eq split: if_splits)
qed

lemma read_slice_entry:
  "in_pool c l s \<Longrightarrow> length buf = plane_len c \<Longrightarrow>
   read_slice (slot_offset c l s) (entry_elems c) buf = Some (plane_entry c buf l s)"
  using slot_fits [of c l s] by (simp add: read_slice_def plane_entry_def)

lemma cpu_write_ok:
  assumes "cpu_inv b" "in_pool (cpu_config b) layer dst" "length k = entry_elems (cpu_config b)"
    "length v = entry_elems (cpu_config b)"
  shows "\<exists>b'. cpu_write_kv layer dst k v b = Ok () b' \<and> cpu_inv b' \<and> cpu_config b' = cpu_config b \<and>
    (\<forall>l s. in_pool (cpu_config b) l s \<longrightarrow>
       cpu_entry b' l s = (if l = layer \<and> s = dst then (k, v) else cpu_entry b l s))"
proof -
  let ?c = "cpu_config b" and ?off = "slot_offset (cpu_config b) layer dst"
  have len: "length (cpu_k b) = plane_len ?c" "length (cpu_v b) = plane_len ?c"
    using assms(1) by (auto simp: cpu_inv_def)
  have "?off + length k \<le> length (cpu_k b)" "?off + length v \<le> length (cpu_v b)"
    using slot_fits [OF assms(2)] assms(3,4) len by simp_all
  then obtain k' v' where w: "write_slice ?off k (cpu_k b) = Some k'" "write_slice ?off v (cpu_v b) = Some v'"
    using write_slice_fits by metis
  then have "cpu_write_kv layer dst k v b = Ok () (b\<lparr>cpu_k := k', cpu_v := v'\<rparr>)"
    using assms(3,4) validate_slot_ok [OF assms(2)] by (simp add: cpu_write_kv_def Let_def check_len_def)
  moreover have "cpu_inv (b\<lparr>cpu_k := k', cpu_v := v'\<rparr>)"
    using len w [THEN write_sliceD(2)] by (simp add: cpu_inv_def)
  moreover have "cpu_entry (b\<lparr>cpu_k := k', cpu_v := v'\<rparr>) l s =
      (if l = layer \<and> s = dst then (k, v) else cpu_entry b l s)" if "in_pool ?c l s" for l s
    using plane_write [OF w(1) assms(3) len(1) assms(2) that] plane_write [OF w(2) assms(4) len(2) assms(2) that]
    by (simp add: cpu_entry_def)
  ultimately show ?thesis by (intro exI [of _ "b\<lparr>cpu_k := k', cpu_v := v'\<rparr>"]) simp
qed

lemma cpu_write_err:
  assumes "\<not> (in_pool (cpu_config b) layer dst \<and> length k = entry_elems (cpu_config b) \<and>
    length v = entry_elems (cpu_config b))"
  shows "\<exists>e. cpu_write_kv layer dst k v b = Err e b"
proof (cases "in_pool (cpu_config b) layer dst")
  case True
  with assms show ?thesis
    by (auto simp: cpu_write_kv_def Let_def check_len_def validate_slot_ok)
next
  case False
  then obtain e where "validate_slot (cpu_config b) layer dst = Err e ()" by (rule validate_slot_err)
  then show ?thesis by (simp add: cpu_write_kv_def Let_def)
qed

lemma cpu_read_ok:
  assumes "cpu_inv b" "in_pool (cpu_config b) layer src" "nk = entry_elems (cpu_config b)"
    "nv = entry_elems (cpu_config b)"
  shows "cpu_read_kv layer src nk nv b = Ok (cpu_entry b layer src) b"
  using assms validate_slot_ok [OF assms(2)] read_slice_entry [OF assms(2), of "cpu_k b"]
    read_slice_entry [OF assms(2), of "cpu_v b"]
  by (simp add: cpu_read_kv_def Let_def check_len_def cpu_entry_def cpu_inv_def)

text \<open>One layer of a block copy or reset, and then all of them.\<close>

lemma block_entry:
  assumes "read_slice (block_offset c l x) (block_elems c) buf = Some xs"
    and "in_pool c l s" "index x < num_blocks c" "length buf = plane_len c"
  shows "take (entry_elems c) (drop (ps_slot s * entry_elems c) xs) = plane_entry c buf l (new_slot x (ps_slot s))"
proof -
  have s: "ps_slot s < block_size c" using assms(2) by (simp add: in_pool_def)
  have xs: "xs = take (block_elems c) (drop (block_offset c l x) buf)"
    using assms(1) by (simp add: read_slice_def split: if_splits)
  have "min (block_elems c - ps_slot s * entry_elems c) (entry_elems c) = entry_elems c"
    using slot_in_block [OF s] by simp
  then show ?thesis
    by (simp add: xs plane_entry_def slot_offset_def drop_take add.commute min.commute)
qed

lemma plane_copy:
  assumes "length buf = plane_len c" "l < num_layers c" "index x < num_blocks c" "index y < num_blocks c"
  obtains buf' where
    "copy_within (block_offset c l x) (block_elems c) (block_offset c l y) buf = Some buf'"
    "length buf' = plane_len c"
    "\<forall>m r. in_pool c m r \<longrightarrow> plane_entry c buf' m r =
       plane_entry c buf m (if m = l \<and> ps_block r = y then new_slot x (ps_slot r) else r)"
proof -
  from read_slice_fits block_fits [OF assms(2,3)] assms(1) obtain xs where
    xs: "read_slice (block_offset c l x) (block_elems c) buf = Some xs" by metis
  note lx = read_sliceD(2) [OF xs]
  from write_slice_fits block_fits [OF assms(2,4)] assms(1) lx obtain buf' where
    w: "write_slice (block_offset c l y) xs buf = Some buf'" by metis
  have "plane_entry c buf' m r =
      plane_entry c buf m (if m = l \<and> ps_block r = y then new_slot x (ps_slot r) else r)"
    if "in_pool c m r" for m r
    using plane_block_write [OF w lx assms(1,4) that] block_entry [OF xs _ assms(3,1), of r] that by auto
  with that [of buf'] xs w write_sliceD(2) [OF w] assms(1) show thesis
    by (simp add: copy_within_def)
qed

lemma copy_layer_ok:
  assumes "cpu_inv b" "l < num_layers (cpu_config b)" "index x < num_blocks (cpu_config b)"
    "index y < num_blocks (cpu_config b)"
  obtains b' where "copy_layer x y l b = Ok () b'" "cpu_inv b'" "cpu_config b' = cpu_config b"
    "\<forall>m r. in_pool (cpu_config b) m r \<longrightarrow> cpu_entry b' m r =
       cpu_entry b m (if m = l \<and> ps_block r = y then new_slot x (ps_slot r) else r)"
proof -
  from assms(1) have len: "length (cpu_k b) = plane_len (cpu_config b)"
    "length (cpu_v b) = plane_len (cpu_config b)" by (auto simp: cpu_inv_def)
  from plane_copy [OF len(1) assms(2-4)] obtain k' where k: "copy_within (block_offset (cpu_config b) l x)
      (block_elems (cpu_config b)) (block_offset (cpu_config b) l y) (cpu_k b) = Some k'"
    "length k' = plane_len (cpu_config b)"
    "\<forall>m r. in_pool (cpu_config b) m r \<longrightarrow> plane_entry (cpu_config b) k' m r =
       plane_entry (cpu_config b) (cpu_k b) m (if m = l \<and> ps_block r = y then new_slot x (ps_slot r) else r)" .
  from plane_copy [OF len(2) assms(2-4)] obtain v' where v: "copy_within (block_offset (cpu_config b) l x)
      (block_elems (cpu_config b)) (block_offset (cpu_config b) l y) (cpu_v b) = Some v'"
    "length v' = plane_len (cpu_config b)"
    "\<forall>m r. in_pool (cpu_config b) m r \<longrightarrow> plane_entry (cpu_config b) v' m r =
       plane_entry (cpu_config b) (cpu_v b) m (if m = l \<and> ps_block r = y then new_slot x (ps_slot r) else r)" .
  show thesis
    by (rule that [of "b\<lparr>cpu_k := k', cpu_v := v'\<rparr>"])
      (use k v in \<open>simp_all add: copy_layer_def Let_def cpu_inv_def cpu_entry_def\<close>)
qed

lemma copy_layers_ok:
  assumes "cpu_inv b" "\<forall>l \<in> set ls. l < num_layers (cpu_config b)" "distinct ls" "x \<noteq> y"
    and "index x < num_blocks (cpu_config b)" "index y < num_blocks (cpu_config b)"
  shows "\<exists>b'. for_each (copy_layer x y) ls b = Ok () b' \<and> cpu_inv b' \<and> cpu_config b' = cpu_config b \<and>
    (\<forall>m r. in_pool (cpu_config b) m r \<longrightarrow> cpu_entry b' m r =
       cpu_entry b m (if m \<in> set ls \<and> ps_block r = y then new_slot x (ps_slot r) else r))"
  using assms
proof (induction ls arbitrary: b)
  case Nil
  then show ?case by simp
next
  case (Cons l ls)
  from Cons.prems(2) have "l < num_layers (cpu_config b)" by simp
  from copy_layer_ok [OF Cons.prems(1) this Cons.prems(5,6)] obtain b1 where
    b1: "copy_layer x y l b = Ok () b1" "cpu_inv b1" "cpu_config b1 = cpu_config b"
    "\<forall>m r. in_pool (cpu_config b) m r \<longrightarrow> cpu_entry b1 m r =
       cpu_entry b m (if m = l \<and> ps_block r = y then new_slot x (ps_slot r) else r)" .
  from Cons.IH [OF b1(2)] Cons.prems b1(3) obtain b2 where
    b2: "for_each (copy_layer x y) ls b1 = Ok () b2" "cpu_inv b2" "cpu_config b2 = cpu_config b"
    "\<forall>m r. in_pool (cpu_config b) m r \<longrightarrow> cpu_entry b2 m r =
       cpu_entry b1 m (if m \<in> set ls \<and> ps_block r = y then new_slot x (ps_slot r) else r)" by auto
  have "cpu_entry b2 m r =
      cpu_entry b m (if m \<in> set (l # ls) \<and> ps_block r = y then new_slot x (ps_slot r) else r)"
    if "in_pool (cpu_config b) m r" for m r
  proof -
    have p: "in_pool (cpu_config b) m (if m \<in> set ls \<and> ps_block r = y then new_slot x (ps_slot r) else r)"
      using that Cons.prems(5) by (auto simp: in_pool_def)
    show ?thesis
      using b2(4) [rule_format, OF that] b1(4) [rule_format, OF p] Cons.prems(3,4) by auto
  qed
  with b1(1) b2(1-3) show ?case by auto
qed

lemma cpu_copy_ok:
  assumes "cpu_inv b" "index x < num_blocks (cpu_config b)" "index y < num_blocks (cpu_config b)"
  shows "\<exists>b'. cpu_copy_block x y b = Ok () b' \<and> cpu_inv b' \<and> cpu_config b' = cpu_config b \<and>
    (\<forall>l s. in_pool (cpu_config b) l s \<longrightarrow>
       cpu_entry b' l s = cpu_entry b l (if ps_block s = y then new_slot x (ps_slot s) else s))"
proof (cases "x = y")
  case True
  with assms show ?thesis by (auto simp: cpu_copy_block_def validate_block_eq)
next
  case False
  from copy_layers_ok [OF assms(1) _ _ False assms(2,3), of "[0..<num_layers (cpu_config b)]"] obtain b' where
    b': "for_each (copy_layer x y) [0..<num_layers (cpu_config b)] b = Ok () b'" "cpu_inv b'"
    "cpu_config b' = cpu_config b"
    "\<forall>m r. in_pool (cpu_config b) m r \<longrightarrow> cpu_entry b' m r = cpu_entry b m
       (if m \<in> set [0..<num_layers (cpu_config b)] \<and> ps_block r = y then new_slot x (ps_slot r) else r)"
    by auto
  have "in_pool (cpu_config b) l s \<Longrightarrow> l \<in> set [0..<num_layers (cpu_config b)]" for l s
    by (simp add: in_pool_def)
  with b' assms False show ?thesis by (auto simp: cpu_copy_block_def validate_block_eq)
qed

lemma zero_layers_ok:
  assumes "cpu_inv b" "\<forall>l \<in> set ls. l < num_layers (cpu_config b)" "index x < num_blocks (cpu_config b)"
  shows "\<exists>b'. for_each (zero_layer z x) ls b = Ok () b' \<and> cpu_inv b' \<and> cpu_config b' = cpu_config b \<and>
    (\<forall>m r. in_pool (cpu_config b) m r \<longrightarrow> cpu_entry b' m r =
       (if m \<in> set ls \<and> ps_block r = x
        then (replicate (entry_elems (cpu_config b)) z, replicate (entry_elems (cpu_config b)) z)
        else cpu_entry b m r))"
  using assms
proof (induction ls arbitrary: b)
  case Nil
  then show ?case by simp
next
  case (Cons l ls)
  let ?c = "cpu_config b" and ?z = "replicate (block_elems (cpu_config b)) z"
  let ?off = "block_offset ?c l x"
  from Cons.prems(1) have len: "length (cpu_k b) = plane_len ?c" "length (cpu_v b) = plane_len ?c"
    by (auto simp: cpu_inv_def)
  have "?off + length ?z \<le> length (cpu_k b)" "?off + length ?z \<le> length (cpu_v b)"
    using block_fits [of l ?c x] Cons.prems(2,3) len by simp_all
  then obtain k' v' where w: "write_slice ?off ?z (cpu_k b) = Some k'" "write_slice ?off ?z (cpu_v b) = Some v'"
    using write_slice_fits by metis
  let ?b = "b\<lparr>cpu_k := k', cpu_v := v'\<rparr>"
  have inv: "cpu_inv ?b" using len w [THEN write_sliceD(2)] by (simp add: cpu_inv_def)
  have zs: "take (entry_elems ?c) (drop (ps_slot r * entry_elems ?c) ?z) = replicate (entry_elems ?c) z"
    if "in_pool ?c m r" for m r
    using slot_in_block [of "ps_slot r" ?c] that by (simp add: in_pool_def min_def)
  have e: "cpu_entry ?b m r = (if m = l \<and> ps_block r = x
      then (replicate (entry_elems ?c) z, replicate (entry_elems ?c) z) else cpu_entry b m r)"
    if "in_pool ?c m r" for m r
    using plane_block_write [OF w(1) _ len(1) Cons.prems(3) that]
      plane_block_write [OF w(2) _ len(2) Cons.prems(3) that] zs [OF that] by (simp add: cpu_entry_def)
  from Cons.IH [OF inv] Cons.prems(2,3) obtain b2 where
    b2: "for_each (zero_layer z x) ls ?b = Ok () b2" "cpu_inv b2" "cpu_config b2 = ?c"
    "\<forall>m r. in_pool ?c m r \<longrightarrow> cpu_entry b2 m r = (if m \<in> set ls \<and> ps_block r = x
       then (replicate (entry_elems ?c) z, replicate (entry_elems ?c) z) else cpu_entry ?b m r)" by auto
  have "for_each (zero_layer z x) (l # ls) b = Ok () b2"
    using w b2(1) by (simp add: zero_layer_def Let_def)
  with b2(2-4) e show ?case by auto
qed

lemma cpu_zero_ok:
  assumes "cpu_inv b" "index x < num_blocks (cpu_config b)"
  shows "\<exists>b'. cpu_zero_block z x b = Ok () b' \<and> cpu_inv b' \<and> cpu_config b' = cpu_config b \<and>
    (\<forall>l s. in_pool (cpu_config b) l s \<longrightarrow> cpu_entry b' l s = (if ps_block s = x
       then (replicate (entry_elems (cpu_config b)) z, replicate (entry_elems (cpu_config b)) z)
       else cpu_entry b l s))"
proof -
  from zero_layers_ok [OF assms(1) _ assms(2), of "[0..<num_layers (cpu_config b)]" z] obtain b' where
    b': "for_each (zero_layer z x) [0..<num_layers (cpu_config b)] b = Ok () b'" "cpu_inv b'"
    "cpu_config b' = cpu_config b"
    "\<forall>m r. in_pool (cpu_config b) m r \<longrightarrow> cpu_entry b' m r =
      (if m \<in> set [0..<num_layers (cpu_config b)] \<and> ps_block r = x
       then (replicate (entry_elems (cpu_config b)) z, replicate (entry_elems (cpu_config b)) z)
       else cpu_entry b m r)" by auto
  have "in_pool (cpu_config b) l s \<Longrightarrow> l \<in> set [0..<num_layers (cpu_config b)]" for l s
    by (simp add: in_pool_def)
  with b' assms(2) show ?thesis by (auto simp: cpu_zero_block_def validate_block_eq)
qed

interpretation cpu: kv_store cpu_inv cpu_config cpu_entry cpu_write_kv cpu_read_kv cpu_copy_block
  "cpu_zero_block z" z for z
proof (unfold_locales, goal_cases)
  case 1
  then show ?case by (rule cpu_write_ok)
next
  case 2
  then show ?case by (intro cpu_write_err)
next
  case 3
  then show ?case using cpu_read_ok by blast
next
  case 4
  then show ?case by (rule cpu_copy_ok)
next
  case 5
  then show ?case by (rule cpu_zero_ok)
qed

end
