(* ===== verification/Cuda.thy ===== *)
theory Cuda
  imports Cpu "HOL-Library.Multiset" "HOL-Library.Signed_Division"
begin

text \<open>
  The CUDA backend: the host code of \<open>paged-kv-cuda/src/backend.rs\<close> and the three kernels of
  \<open>kernels.cu\<close> that move K/V. The driver (cudarc) is a parameter carried in the state: for every
  driver call whether it fails, and for every launch the order in which its element steps run,
  since the thread blocks of a grid run in any order. Casts to \<open>i32\<close> and \<open>i64\<close> arithmetic wrap
  as they do on the device; an access outside device memory is \<open>Panic\<close>.
\<close>

section \<open>Device integers and memory\<close>

definition as_i32 :: "nat \<Rightarrow> int" where
  "as_i32 n = signed_take_bit 31 (int n)"

definition i64 :: "int \<Rightarrow> int" where
  "i64 x = signed_take_bit 63 x"

definition as_u32 :: "nat \<Rightarrow> nat" where
  "as_u32 n = n mod 2 ^ 32"

lemma as_i32_exact [simp]: "n < 2 ^ 31 \<Longrightarrow> as_i32 n = int n"
  by (simp add: as_i32_def signed_take_bit_int_eq_self)

lemma i64_exact [simp]: "n < 2 ^ 63 \<Longrightarrow> i64 (int n) = int n"
  by (simp add: i64_def signed_take_bit_int_eq_self)

lemma as_u32_exact [simp]: "n < 2 ^ 32 \<Longrightarrow> as_u32 n = n"
  by (simp add: as_u32_def)

definition dev_load :: "int \<Rightarrow> 'f list \<Rightarrow> 'f option" where
  "dev_load a buf = (if 0 \<le> a \<and> nat a < length buf then Some (buf ! nat a) else None)"

definition dev_store :: "int \<Rightarrow> 'f \<Rightarrow> 'f list \<Rightarrow> 'f list option" where
  "dev_store a x buf = (if 0 \<le> a \<and> nat a < length buf then Some (buf[nat a := x]) else None)"

lemma dev_load_int [simp]: "n < length buf \<Longrightarrow> dev_load (int n) buf = Some (buf ! n)"
  by (simp add: dev_load_def)

lemma dev_store_int [simp]: "n < length buf \<Longrightarrow> dev_store (int n) x buf = Some (buf[n := x])"
  by (simp add: dev_store_def)

fun run_jobs :: "('j \<Rightarrow> 's \<Rightarrow> 's option) \<Rightarrow> 'j list \<Rightarrow> 's \<Rightarrow> 's option" where
  "run_jobs f [] s = Some s"
| "run_jobs f (j # js) s = (case f j s of None \<Rightarrow> None | Some s \<Rightarrow> run_jobs f js s)"

section \<open>Kernels\<close>

text \<open>
  One step of a kernel is one iteration of a thread's loop: thread block and element index. The
  step reads and writes both planes at the same address.
\<close>

definition reshape_elem :: "'f list \<Rightarrow> 'f list \<Rightarrow> int list \<Rightarrow> int \<Rightarrow> int \<Rightarrow> int \<Rightarrow> int \<Rightarrow> nat \<times> nat \<Rightarrow>
    'f list \<times> 'f list \<Rightarrow> ('f list \<times> 'f list) option" where
  "reshape_elem key value slots layer nb bs ee job planes =
     (case job of (token, i) \<Rightarrow> case planes of (kc, vc) \<Rightarrow> do {
        slot \<leftarrow> dev_load (int token) slots;
        let block = slot sdiv bs;
        let local_slot = slot smod bs;
        let base = i64 (i64 (i64 (i64 (layer * nb) + block) * bs + local_slot) * ee);
        let src_base = i64 (int token * ee);
        x \<leftarrow> dev_load (i64 (src_base + int i)) key;
        kc \<leftarrow> dev_store (i64 (base + int i)) x kc;
        y \<leftarrow> dev_load (i64 (src_base + int i)) value;
        vc \<leftarrow> dev_store (i64 (base + int i)) y vc;
        Some (kc, vc) })"

definition copy_elem :: "int list \<Rightarrow> int \<Rightarrow> int \<Rightarrow> int \<Rightarrow> int \<Rightarrow> nat \<times> nat \<Rightarrow>
    'f list \<times> 'f list \<Rightarrow> ('f list \<times> 'f list) option" where
  "copy_elem block_pairs np nl nb be job planes =
     (case job of (idx, i) \<Rightarrow> case planes of (kc, vc) \<Rightarrow>
        let pair = int idx sdiv nl; layer = int idx smod nl in
        if np \<le> pair then Some (kc, vc)
        else do {
          src \<leftarrow> dev_load (pair * 2) block_pairs;
          dst \<leftarrow> dev_load (pair * 2 + 1) block_pairs;
          let src_base = i64 (i64 (i64 (layer * nb) + src) * be);
          let dst_base = i64 (i64 (i64 (layer * nb) + dst) * be);
          x \<leftarrow> dev_load (i64 (src_base + int i)) kc;
          kc \<leftarrow> dev_store (i64 (dst_base + int i)) x kc;
          y \<leftarrow> dev_load (i64 (src_base + int i)) vc;
          vc \<leftarrow> dev_store (i64 (dst_base + int i)) y vc;
          Some (kc, vc) })"

definition zero_elem :: "'f \<Rightarrow> int \<Rightarrow> int \<Rightarrow> int \<Rightarrow> nat \<times> nat \<Rightarrow>
    'f list \<times> 'f list \<Rightarrow> ('f list \<times> 'f list) option" where
  "zero_elem z block nb be job planes =
     (case job of (layer, i) \<Rightarrow> case planes of (kc, vc) \<Rightarrow> do {
        let base = i64 (i64 (i64 (int layer * nb) + block) * be);
        kc \<leftarrow> dev_store (i64 (base + int i)) z kc;
        vc \<leftarrow> dev_store (i64 (base + int i)) z vc;
        Some (kc, vc) })"

text \<open>The steps of a grid: every thread block runs its loop over the elements.\<close>

definition grid_jobs :: "nat \<Rightarrow> int \<Rightarrow> (nat \<times> nat) list" where
  "grid_jobs grid elems = List.product [0..<grid] [0..<nat elems]"

section \<open>The host code\<close>

record 'f CudaBackend =
  cu_config :: CacheConfig
  cu_k :: "'f list"
  cu_v :: "'f list"
  cu_driver :: "nat \<Rightarrow> string option"
  cu_calls :: nat
  cu_order :: "nat \<Rightarrow> (nat \<times> nat) list \<Rightarrow> (nat \<times> nat) list"

text \<open>The \<open>n\<close>-th driver call fails with a message or succeeds.\<close>

definition driver_call :: "'f CudaBackend \<Rightarrow> ('f CudaBackend, unit) cache_res" where
  "driver_call b =
     (let b' = b\<lparr>cu_calls := cu_calls b + 1\<rparr> in
      case cu_driver b (cu_calls b) of None \<Rightarrow> Ok () b' | Some e \<Rightarrow> Err (Device e) b')"

fun driver_calls :: "nat \<Rightarrow> 'f CudaBackend \<Rightarrow> ('f CudaBackend, unit) cache_res" where
  "driver_calls 0 b = Ok () b"
| "driver_calls (Suc n) b = bind_res (driver_call b) (\<lambda>_ b. driver_calls n b)"

text \<open>A launch that the driver accepts runs all element steps, in the order of this launch.\<close>

definition launch :: "(nat \<times> nat \<Rightarrow> 'f list \<times> 'f list \<Rightarrow> ('f list \<times> 'f list) option) \<Rightarrow>
    (nat \<times> nat) list \<Rightarrow> 'f CudaBackend \<Rightarrow> ('f CudaBackend, unit) cache_res" where
  "launch krn jobs b =
     bind_res (driver_call b) (\<lambda>_ b.
       unwrap_res (run_jobs krn (cu_order b (cu_calls b) jobs) (cu_k b, cu_v b)) (\<lambda>(kc, vc).
         Ok () (b\<lparr>cu_k := kc, cu_v := vc\<rparr>)))"

text \<open>
  Opening the device: context, PTX, module, the four kernels by name and the two planes are nine
  driver calls.
\<close>

definition cuda_new :: "(nat \<Rightarrow> string option) \<Rightarrow> (nat \<Rightarrow> (nat \<times> nat) list \<Rightarrow> (nat \<times> nat) list) \<Rightarrow>
    'f \<Rightarrow> CacheConfig \<Rightarrow> (unit, 'f CudaBackend) cache_res" where
  "cuda_new driver order z config =
     (case find (\<lambda>i. driver i \<noteq> None) [0..<9] of
        Some i \<Rightarrow> Err (Device (the (driver i))) ()
      | None \<Rightarrow>
          (let plane_len = num_layers config * layer_elems config in
           Ok \<lparr>cu_config = config, cu_k = replicate plane_len z, cu_v = replicate plane_len z,
             cu_driver = driver, cu_calls = 9, cu_order = order\<rparr> ()))"

definition cuda_offset :: "CacheConfig \<Rightarrow> nat \<Rightarrow> PhysicalSlot \<Rightarrow> nat" where
  "cuda_offset c layer at =
     (layer * num_blocks c + index (ps_block at)) * block_elems c + ps_slot at * entry_elems c"

definition cuda_validate_block :: "CacheConfig \<Rightarrow> BlockId \<Rightarrow> (unit, unit) cache_res" where
  "cuda_validate_block c block =
     (if num_blocks c \<le> index block then Err (InvalidBlock block (num_blocks c)) () else Ok () ())"

definition cuda_validate :: "CacheConfig \<Rightarrow> nat \<Rightarrow> PhysicalSlot \<Rightarrow> (unit, unit) cache_res" where
  "cuda_validate c layer at =
     (if num_layers c \<le> layer then Err (InvalidLayer layer (num_layers c)) ()
      else
        bind_res (cuda_validate_block c (ps_block at)) (\<lambda>_ _.
          if block_size c \<le> ps_slot at then Err (SlotOutOfRange (ps_slot at) (block_size c)) ()
          else Ok () ()))"

definition slot_mapping :: "CacheConfig \<Rightarrow> PhysicalSlot list \<Rightarrow> int list" where
  "slot_mapping c dsts =
     map (\<lambda>s. i64 (i64 (int (index (ps_block s)) * i64 (int (block_size c))) + i64 (int (ps_slot s)))) dsts"

definition cuda_write_kv_batch :: "nat \<Rightarrow> PhysicalSlot list \<Rightarrow> 'f list \<Rightarrow> 'f list \<Rightarrow> 'f CudaBackend \<Rightarrow>
    ('f CudaBackend, unit) cache_res" where
  "cuda_write_kv_batch layer dsts k v b =
     (let c = cu_config b; n = entry_elems c; expected = length dsts * n in
      if length k \<noteq> expected then Err (ShapeMismatch expected (length k)) b
      else if length v \<noteq> expected then Err (ShapeMismatch expected (length v)) b
      else if dsts = [] then Ok () b
      else
        read_res (for_each (\<lambda>dst _. cuda_validate c layer dst) dsts ()) b (\<lambda>_.
          bind_res (driver_calls 3 b) (\<lambda>_ b.
            launch (reshape_elem k v (slot_mapping c dsts) (as_i32 layer) (as_i32 (num_blocks c))
                (as_i32 (block_size c)) (as_i32 n))
              (grid_jobs (as_u32 (length dsts)) (as_i32 n)) b)))"

definition cuda_write_kv :: "('f CudaBackend, 'f) kv_write" where
  "cuda_write_kv layer dst k v = cuda_write_kv_batch layer [dst] k v"

definition cuda_read_kv :: "nat \<Rightarrow> PhysicalSlot \<Rightarrow> nat \<Rightarrow> nat \<Rightarrow> 'f CudaBackend \<Rightarrow>
    ('f CudaBackend, 'f list \<times> 'f list) cache_res" where
  "cuda_read_kv layer src k_len v_len b =
     (let c = cu_config b; n = entry_elems c in
      read_res (cuda_validate c layer src) b (\<lambda>_.
        if k_len \<noteq> n then Err (ShapeMismatch n k_len) b
        else if v_len \<noteq> n then Err (ShapeMismatch n v_len) b
        else
          bind_res (driver_calls 2 b) (\<lambda>_ b.
            unwrap_res (read_slice (cuda_offset c layer src) n (cu_k b)) (\<lambda>k.
            unwrap_res (read_slice (cuda_offset c layer src) n (cu_v b)) (\<lambda>v. Ok (k, v) b)))))"

definition cuda_copy_blocks :: "(BlockId \<times> BlockId) list \<Rightarrow> 'f CudaBackend \<Rightarrow> ('f CudaBackend, unit) cache_res" where
  "cuda_copy_blocks pairs b =
     (if pairs = [] then Ok () b
      else
        (let c = cu_config b in
         read_res (for_each (\<lambda>(src, dst) _. bind_res (cuda_validate_block c src) (\<lambda>_ _.
             cuda_validate_block c dst)) pairs ()) b (\<lambda>_.
           (let flat = concat (map (\<lambda>(s, d). [int (index s), int (index d)]) pairs) in
            bind_res (driver_call b) (\<lambda>_ b.
              launch (copy_elem flat (as_i32 (length pairs)) (as_i32 (num_layers c))
                  (as_i32 (num_blocks c)) (as_i32 (block_elems c)))
                (grid_jobs (as_u32 (length pairs * num_layers c)) (as_i32 (block_elems c))) b)))))"

definition cuda_copy_block :: "BlockId \<Rightarrow> BlockId \<Rightarrow> 'f CudaBackend \<Rightarrow> ('f CudaBackend, unit) cache_res" where
  "cuda_copy_block src dst b = (if src = dst then Ok () b else cuda_copy_blocks [(src, dst)] b)"

definition cuda_zero_block :: "'f \<Rightarrow> BlockId \<Rightarrow> 'f CudaBackend \<Rightarrow> ('f CudaBackend, unit) cache_res" where
  "cuda_zero_block z block b =
     (let c = cu_config b in
      read_res (cuda_validate_block c block) b (\<lambda>_.
        launch (zero_elem z (as_i32 (index block)) (as_i32 (num_blocks c)) (as_i32 (block_elems c)))
          (grid_jobs (as_u32 (num_layers c)) (as_i32 (block_elems c))) b))"

section \<open>Element steps in any order\<close>

text \<open>
  If every step of a job list stores to its own address of both planes, and what it stores
  does not depend on the addresses stored to, then the order of the steps is irrelevant.
\<close>

lemma run_stores:
  assumes step: "\<And>j kc vc. j \<in> set js \<Longrightarrow> length kc = n \<Longrightarrow> length vc = n \<Longrightarrow>
      f j (kc, vc) = Some (kc[d j := gk j kc], vc[d j := gv j vc])"
    and dist: "distinct (map d js)" and range: "\<forall>j \<in> set js. d j < n"
    and gk: "\<And>j buf buf'. j \<in> set js \<Longrightarrow> length buf = n \<Longrightarrow> length buf' = n \<Longrightarrow>
      \<forall>x < n. x \<notin> D \<longrightarrow> buf ! x = buf' ! x \<Longrightarrow> gk j buf = gk j buf'"
    and gv: "\<And>j buf buf'. j \<in> set js \<Longrightarrow> length buf = n \<Longrightarrow> length buf' = n \<Longrightarrow>
      \<forall>x < n. x \<notin> D \<longrightarrow> buf ! x = buf' ! x \<Longrightarrow> gv j buf = gv j buf'"
    and D: "d ` set js \<subseteq> D" and len: "length kc = n" "length vc = n"
  shows "\<exists>kc' vc'. run_jobs f js (kc, vc) = Some (kc', vc') \<and> length kc' = n \<and> length vc' = n \<and>
    (\<forall>j \<in> set js. kc' ! d j = gk j kc \<and> vc' ! d j = gv j vc) \<and>
    (\<forall>x < n. x \<notin> d ` set js \<longrightarrow> kc' ! x = kc ! x \<and> vc' ! x = vc ! x)"
  using assms
proof (induction js arbitrary: kc vc)
  case Nil
  show ?case using Nil.prems(7,8) by simp
next
  case (Cons j js)
  let ?k = "kc[d j := gk j kc]" and ?v = "vc[d j := gv j vc]"
  have dj: "d j < n" "d j \<in> D" "d j \<notin> d ` set js" using Cons.prems(2,3,6) by simp_all
  have f: "f j (kc, vc) = Some (?k, ?v)" using Cons.prems(1) [of j] Cons.prems(7,8) by simp
  have len': "length ?k = n" "length ?v = n" using Cons.prems(7,8) by simp_all
  have stepj: "f i (k', v') = Some (k'[d i := gk i k'], v'[d i := gv i v'])"
    if "i \<in> set js" "length k' = n" "length v' = n" for i k' v' using Cons.prems(1) [of i] that by simp
  have gkj: "gk i buf = gk i buf'" if "i \<in> set js" "length buf = n" "length buf' = n"
    "\<forall>x < n. x \<notin> D \<longrightarrow> buf ! x = buf' ! x" for i buf buf'
    by (rule Cons.prems(4)) (use that in auto)
  have gvj: "gv i buf = gv i buf'" if "i \<in> set js" "length buf = n" "length buf' = n"
    "\<forall>x < n. x \<notin> D \<longrightarrow> buf ! x = buf' ! x" for i buf buf'
    by (rule Cons.prems(5)) (use that in auto)
  have "distinct (map d js)" "\<forall>i \<in> set js. d i < n" "d ` set js \<subseteq> D" using Cons.prems(2,3,6) by simp_all
  from Cons.IH [OF stepj this(1,2) gkj gvj this(3) len'] obtain kc' vc' where
    r: "run_jobs f js (?k, ?v) = Some (kc', vc')" "length kc' = n" "length vc' = n"
    "\<forall>i \<in> set js. kc' ! d i = gk i ?k \<and> vc' ! d i = gv i ?v"
    "\<forall>x < n. x \<notin> d ` set js \<longrightarrow> kc' ! x = ?k ! x \<and> vc' ! x = ?v ! x" by blast
  have off: "\<forall>x < n. x \<notin> D \<longrightarrow> ?k ! x = kc ! x" "\<forall>x < n. x \<notin> D \<longrightarrow> ?v ! x = vc ! x"
    using dj(2) by (metis nth_list_update_neq)+
  have same: "gk i ?k = gk i kc" "gv i ?v = gv i vc" if "i \<in> set js" for i
    using gkj [OF that len'(1) Cons.prems(7) off(1)] gvj [OF that len'(2) Cons.prems(8) off(2)] .
  have "kc' ! d j = gk j kc \<and> vc' ! d j = gv j vc" using r(5) dj Cons.prems(7,8) by simp
  moreover have "\<forall>x < n. x \<notin> d ` set (j # js) \<longrightarrow> kc' ! x = kc ! x \<and> vc' ! x = vc ! x"
    using r(5) by auto
  ultimately show ?case using f r(1-4) same by auto
qed

section \<open>Device addresses\<close>

text \<open>The sizes for which no cast and no product of the device code wraps.\<close>

definition cuda_dims :: "CacheConfig \<Rightarrow> bool" where
  "cuda_dims c \<longleftrightarrow> num_layers c < 2 ^ 31 \<and> num_blocks c < 2 ^ 31 \<and> block_size c < 2 ^ 31 \<and>
     entry_elems c < 2 ^ 31 \<and> block_elems c < 2 ^ 31 \<and> plane_len c < 2 ^ 63"

lemma cuda_offset_eq: "cuda_offset = slot_offset"
  by (simp add: fun_eq_iff cuda_offset_def slot_offset_def block_offset_def)

lemma sdiv_nat [simp]: "int a sdiv int b = int (a div b)"
  by (cases "a = 0"; cases "b = 0") (simp_all add: signed_divide_int_def zdiv_int)

lemma smod_nat [simp]: "int a smod int b = int (a mod b)"
  by (cases "a = 0"; cases "b = 0") (simp_all add: signed_modulo_int_def zmod_int)

lemma element_bound:
  assumes "in_pool c l s" "i < entry_elems c"
  shows "slot_offset c l s + i < plane_len c"
  using slot_fits [OF assms(1)] assms(2) by simp

lemma slot_number:
  assumes "cuda_dims c" "in_pool c l s" "0 < entry_elems c"
  shows "index (ps_block s) * block_size c + ps_slot s < 2 ^ 63"
proof -
  have "index (ps_block s) * block_size c + ps_slot s \<le>
      block_cell c l (ps_block s) * block_size c + ps_slot s"
    by (simp add: block_cell_def)
  also have "\<dots> \<le> slot_offset c l s"
    using assms(3) by (simp add: slot_offset_cell)
  also have "\<dots> < 2 ^ 63" using element_bound [OF assms(2,3)] assms(1) by (simp add: cuda_dims_def)
  finally show ?thesis .
qed

lemma slot_mapping_nth:
  assumes "cuda_dims c" "in_pool c l (dsts ! t)" "0 < entry_elems c" "t < length dsts"
  shows "slot_mapping c dsts ! t =
    int (index (ps_block (dsts ! t)) * block_size c + ps_slot (dsts ! t))"
proof -
  let ?s = "dsts ! t"
  have n: "index (ps_block ?s) * block_size c + ps_slot ?s < 2 ^ 63"
    by (rule slot_number [OF assms(1-3)])
  have bs: "i64 (int (block_size c)) = int (block_size c)"
    using assms(1) by (intro i64_exact) (simp add: cuda_dims_def)
  have sl: "i64 (int (ps_slot ?s)) = int (ps_slot ?s)" using n by (intro i64_exact) simp
  have "i64 (int (index (ps_block ?s) * block_size c)) = int (index (ps_block ?s) * block_size c)"
    using n by (intro i64_exact) simp
  moreover have "i64 (int (index (ps_block ?s) * block_size c + ps_slot ?s)) =
      int (index (ps_block ?s) * block_size c + ps_slot ?s)" using n by (rule i64_exact)
  ultimately show ?thesis using assms(4) by (simp add: slot_mapping_def bs sl)
qed

lemma slot_address:
  assumes "cuda_dims c" "in_pool c l s" "i < entry_elems c"
  shows "i64 (i64 (i64 (i64 (i64 (int l * int (num_blocks c)) + int (index (ps_block s))) * int (block_size c) +
      int (ps_slot s)) * int (entry_elems c)) + int i) = int (slot_offset c l s + i)"
proof -
  let ?A = "block_cell c l (ps_block s)"
  let ?C = "?A * block_size c + ps_slot s"
  have bs: "0 < block_size c" using assms(2) by (auto simp: in_pool_def)
  have lim: "?C * entry_elems c + i < 2 ^ 63"
    using element_bound [OF assms(2,3)] assms(1) by (simp add: cuda_dims_def slot_offset_cell)
  have "?C \<le> ?C * entry_elems c" using assms(3) by simp
  with lim have C: "?C * entry_elems c < 2 ^ 63" "?C < 2 ^ 63" by linarith+
  have "?A \<le> ?A * block_size c" using bs by simp
  with C(2) have A1: "?A < 2 ^ 63" by linarith
  then have A: "?A < 2 ^ 63" "l * num_blocks c < 2 ^ 63" by (simp_all add: block_cell_def)
  have 1: "i64 (int l * int (num_blocks c)) = int (l * num_blocks c)"
    using i64_exact [OF A(2)] by simp
  have 2: "int (l * num_blocks c) + int (index (ps_block s)) = int ?A"
    by (simp add: block_cell_def)
  have 3: "i64 (int ?A) = int ?A" using A(1) by (rule i64_exact)
  have 4: "int ?A * int (block_size c) + int (ps_slot s) = int ?C" by simp
  have 5: "i64 (int ?C) = int ?C" using C(2) by (rule i64_exact)
  have 6: "i64 (int ?C * int (entry_elems c)) = int (?C * entry_elems c)"
    using i64_exact [OF C(1)] by simp
  have 7: "int (?C * entry_elems c) + int i = int (?C * entry_elems c + i)" by simp
  show ?thesis unfolding 1 2 3 4 5 6 7 slot_offset_cell using lim by (rule i64_exact)
qed

lemma block_address:
  assumes "cuda_dims c" "l < num_layers c" "index x < num_blocks c" "i < block_elems c"
  shows "i64 (i64 (i64 (i64 (int l * int (num_blocks c)) + int (index x)) * int (block_elems c)) + int i) =
    int (block_offset c l x + i)" "block_offset c l x + i < plane_len c"
proof -
  let ?A = "block_cell c l x"
  show fit: "block_offset c l x + i < plane_len c" using block_fits [OF assms(2,3)] assms(4) by simp
  then have lim: "?A * block_elems c + i < 2 ^ 63"
    using assms(1) by (simp add: cuda_dims_def block_offset_cell)
  have "?A \<le> ?A * block_elems c" using assms(4) by simp
  with lim have A: "?A * block_elems c < 2 ^ 63" "?A < 2 ^ 63" by linarith+
  then have A': "l * num_blocks c < 2 ^ 63" by (simp add: block_cell_def)
  have 1: "i64 (int l * int (num_blocks c)) = int (l * num_blocks c)" using i64_exact [OF A'] by simp
  have 2: "int (l * num_blocks c) + int (index x) = int ?A" by (simp add: block_cell_def)
  have 3: "i64 (int ?A) = int ?A" using A(2) by (rule i64_exact)
  have 4: "i64 (int ?A * int (block_elems c)) = int (?A * block_elems c)" using i64_exact [OF A(1)] by simp
  have 5: "int (?A * block_elems c) + int i = int (?A * block_elems c + i)" by simp
  show "i64 (i64 (i64 (i64 (int l * int (num_blocks c)) + int (index x)) * int (block_elems c)) + int i) =
    int (block_offset c l x + i)"
    unfolding 1 2 3 4 5 block_offset_cell using lim by (rule i64_exact)
qed

text \<open>Addresses of distinct entries, and of distinct elements, differ.\<close>

lemma slot_offset_inject:
  assumes "in_pool c l s" "in_pool c m r" "i < entry_elems c" "j < entry_elems c"
  shows "slot_offset c l s + i = slot_offset c m r + j \<longleftrightarrow> l = m \<and> s = r \<and> i = j"
proof -
  have b: "index (ps_block s) < num_blocks c" "index (ps_block r) < num_blocks c"
    "ps_slot s < block_size c" "ps_slot r < block_size c" using assms(1,2) by (auto simp: in_pool_def)
  have "s = r \<longleftrightarrow> ps_block s = ps_block r \<and> ps_slot s = ps_slot r"
    by (metis new_slot_self)
  then show ?thesis
    using mult_add_inject [OF assms(3,4)] mult_add_inject [OF b(3,4)] block_cell_inject [OF b(1,2)]
    unfolding slot_offset_cell by auto
qed

lemma block_offset_inject:
  assumes "index x < num_blocks c" "index y < num_blocks c" "i < block_elems c" "j < block_elems c"
  shows "block_offset c l x + i = block_offset c m y + j \<longleftrightarrow> l = m \<and> x = y \<and> i = j"
  using mult_add_inject [OF assms(3,4)] block_cell_inject [OF assms(1,2)]
  unfolding block_offset_cell by auto

section \<open>Launches\<close>

text \<open>
  A device that works: the planes have their length, the sizes fit, no driver call fails, and
  every launch runs each of its steps once.
\<close>

definition cuda_inv :: "'f CudaBackend \<Rightarrow> bool" where
  "cuda_inv b \<longleftrightarrow> length (cu_k b) = plane_len (cu_config b) \<and> length (cu_v b) = plane_len (cu_config b) \<and>
     cuda_dims (cu_config b) \<and> (\<forall>n. cu_driver b n = None) \<and>
     (\<forall>n js. mset (cu_order b n js) = mset js)"

definition cuda_entry :: "'f CudaBackend \<Rightarrow> nat \<Rightarrow> PhysicalSlot \<Rightarrow> 'f list \<times> 'f list" where
  "cuda_entry b l s = (plane_entry (cu_config b) (cu_k b) l s, plane_entry (cu_config b) (cu_v b) l s)"

lemma cuda_invD:
  assumes "cuda_inv b"
  shows "length (cu_k b) = plane_len (cu_config b)" "length (cu_v b) = plane_len (cu_config b)"
    "cuda_dims (cu_config b)" "cu_driver b n = None" "mset (cu_order b n js) = mset js"
  using assms by (simp_all add: cuda_inv_def)

lemma cuda_inv_calls [simp]: "cuda_inv (b\<lparr>cu_calls := n\<rparr>) = cuda_inv b"
  by (simp add: cuda_inv_def)

lemma driver_calls_ok:
  "cuda_inv b \<Longrightarrow> driver_calls n b = Ok () (b\<lparr>cu_calls := cu_calls b + n\<rparr>)"
proof (induction n arbitrary: b)
  case (Suc n)
  from Suc.IH [of "b\<lparr>cu_calls := cu_calls b + 1\<rparr>"] Suc.prems show ?case
    by (simp add: driver_call_def cuda_invD(4) [OF Suc.prems] Let_def)
qed simp

lemma launch_ok:
  assumes inv: "cuda_inv b"
    and step: "\<And>j kc vc. j \<in> set js \<Longrightarrow> length kc = plane_len (cu_config b) \<Longrightarrow>
      length vc = plane_len (cu_config b) \<Longrightarrow> f j (kc, vc) = Some (kc[d j := gk j kc], vc[d j := gv j vc])"
    and dist: "distinct (map d js)" and range: "\<forall>j \<in> set js. d j < plane_len (cu_config b)"
    and gk: "\<And>j buf buf'. j \<in> set js \<Longrightarrow> length buf = plane_len (cu_config b) \<Longrightarrow>
      length buf' = plane_len (cu_config b) \<Longrightarrow>
      \<forall>x < plane_len (cu_config b). x \<notin> d ` set js \<longrightarrow> buf ! x = buf' ! x \<Longrightarrow> gk j buf = gk j buf'"
    and gv: "\<And>j buf buf'. j \<in> set js \<Longrightarrow> length buf = plane_len (cu_config b) \<Longrightarrow>
      length buf' = plane_len (cu_config b) \<Longrightarrow>
      \<forall>x < plane_len (cu_config b). x \<notin> d ` set js \<longrightarrow> buf ! x = buf' ! x \<Longrightarrow> gv j buf = gv j buf'"
  shows "\<exists>b'. launch f js b = Ok () b' \<and> cuda_inv b' \<and> cu_config b' = cu_config b \<and>
    (\<forall>j \<in> set js. cu_k b' ! d j = gk j (cu_k b) \<and> cu_v b' ! d j = gv j (cu_v b)) \<and>
    (\<forall>x < plane_len (cu_config b). x \<notin> d ` set js \<longrightarrow> cu_k b' ! x = cu_k b ! x \<and> cu_v b' ! x = cu_v b ! x)"
proof -
  let ?js = "cu_order b (cu_calls b + 1) js" and ?n = "plane_len (cu_config b)"
  note I = cuda_invD [OF inv]
  have m: "mset ?js = mset js" by (rule I(5))
  then have set: "set ?js = set js" by (rule mset_eq_setD)
  have "mset (map d ?js) = mset (map d js)" using m by simp
  then have dist': "distinct (map d ?js)" using dist mset_eq_imp_distinct_iff by blast
  have "\<exists>kc' vc'. run_jobs f ?js (cu_k b, cu_v b) = Some (kc', vc') \<and> length kc' = ?n \<and> length vc' = ?n \<and>
    (\<forall>j \<in> set ?js. kc' ! d j = gk j (cu_k b) \<and> vc' ! d j = gv j (cu_v b)) \<and>
    (\<forall>x < ?n. x \<notin> d ` set ?js \<longrightarrow> kc' ! x = cu_k b ! x \<and> vc' ! x = cu_v b ! x)"
  proof (rule run_stores [where D = "d ` set js"])
    show "distinct (map d ?js)" by (rule dist')
    show "\<forall>j \<in> set ?js. d j < ?n" unfolding set by (rule range)
    show "d ` set ?js \<subseteq> d ` set js" unfolding set by (rule order_refl)
    show "length (cu_k b) = ?n" "length (cu_v b) = ?n" by (rule I)+
  qed (use step gk gv in \<open>simp_all only: set\<close>)
  then obtain kc' vc' where r: "run_jobs f ?js (cu_k b, cu_v b) = Some (kc', vc')" "length kc' = ?n" "length vc' = ?n"
    "\<forall>j \<in> set js. kc' ! d j = gk j (cu_k b) \<and> vc' ! d j = gv j (cu_v b)"
    "\<forall>x < ?n. x \<notin> d ` set js \<longrightarrow> kc' ! x = cu_k b ! x \<and> vc' ! x = cu_v b ! x" unfolding set by blast
  have "launch f js b = Ok () (b\<lparr>cu_calls := cu_calls b + 1, cu_k := kc', cu_v := vc'\<rparr>)"
    using r(1) by (simp add: launch_def driver_call_def I(4) Let_def)
  moreover have "cuda_inv (b\<lparr>cu_calls := cu_calls b + 1, cu_k := kc', cu_v := vc'\<rparr>)"
    using inv r(2,3) by (simp add: cuda_inv_def)
  ultimately show ?thesis using r(4,5)
    by (intro exI [of _ "b\<lparr>cu_calls := cu_calls b + 1, cu_k := kc', cu_v := vc'\<rparr>"]) simp
qed

lemma set_grid_jobs: "set (grid_jobs g (int n)) = {..<g} \<times> {..<n}"
  by (auto simp: grid_jobs_def)

lemma distinct_grid_jobs: "distinct (grid_jobs g n)"
  by (simp add: grid_jobs_def distinct_product)

lemma distinct_addresses:
  assumes "\<And>t i t' i'. t < g \<Longrightarrow> i < n \<Longrightarrow> t' < g \<Longrightarrow> i' < n \<Longrightarrow> d (t, i) = d (t', i') \<Longrightarrow> t = t' \<and> i = i'"
  shows "distinct (map d (grid_jobs g (int n)))"
  unfolding distinct_map using assms by (auto simp: distinct_grid_jobs set_grid_jobs intro!: inj_onI)

section \<open>Batched writes\<close>

lemma validate_all:
  "\<forall>s \<in> set dsts. in_pool c l s \<Longrightarrow> for_each (\<lambda>dst _. cuda_validate c l dst) dsts () = Ok () ()"
  by (induction dsts) (auto simp: cuda_validate_def cuda_validate_block_def in_pool_def)

lemma reshape_step:
  assumes dims: "cuda_dims c" and p: "in_pool c layer (dsts ! t)" and t: "t < length dsts"
    and i: "i < entry_elems c" and len: "length k = length dsts * entry_elems c"
      "length v = length dsts * entry_elems c" "length dsts * entry_elems c < 2 ^ 63"
    and buf: "length kc = plane_len c" "length vc = plane_len c"
  shows "reshape_elem k v (slot_mapping c dsts) (as_i32 layer) (as_i32 (num_blocks c)) (as_i32 (block_size c))
      (as_i32 (entry_elems c)) (t, i) (kc, vc) =
    Some (kc[slot_offset c layer (dsts ! t) + i := k ! (t * entry_elems c + i)],
      vc[slot_offset c layer (dsts ! t) + i := v ! (t * entry_elems c + i)])"
proof -
  let ?s = "dsts ! t" and ?n = "entry_elems c"
  have n: "0 < ?n" using i by simp
  have s: "ps_slot ?s < block_size c" "0 < block_size c" using p by (auto simp: in_pool_def)
  have l: "layer < 2 ^ 31" using p dims by (simp add: in_pool_def cuda_dims_def)
  have c: "as_i32 layer = int layer" "as_i32 (num_blocks c) = int (num_blocks c)"
    "as_i32 (block_size c) = int (block_size c)" "as_i32 ?n = int ?n"
    using dims l by (simp_all add: cuda_dims_def)
  have slots: "dev_load (int t) (slot_mapping c dsts) =
      Some (int (index (ps_block ?s) * block_size c + ps_slot ?s))"
    using t slot_mapping_nth [OF dims p n t] by (simp add: slot_mapping_def)
  have dm: "(index (ps_block ?s) * block_size c + ps_slot ?s) div block_size c = index (ps_block ?s)"
    "(index (ps_block ?s) * block_size c + ps_slot ?s) mod block_size c = ps_slot ?s"
    using s by simp_all
  have src: "t * ?n + i < length dsts * ?n" by (rule mult_add_less [OF t i])
  have "t * ?n < 2 ^ 63" using src len(3) by linarith
  then have 1: "i64 (int t * int ?n) = int (t * ?n)" using i64_exact [of "t * ?n"] by simp
  have 2: "i64 (int (t * ?n) + int i) = int (t * ?n + i)"
    using i64_exact [of "t * ?n + i"] src len(3) by simp
  note addr = slot_address [OF dims p i]
  have b: "slot_offset c layer ?s + i < plane_len c" by (rule element_bound [OF p i])
  have ld: "dev_load (int (t * ?n + i)) k = Some (k ! (t * ?n + i))"
    "dev_load (int (t * ?n + i)) v = Some (v ! (t * ?n + i))"
    using src len(1,2) by (simp_all only: dev_load_int)
  have st: "dev_store (int (slot_offset c layer ?s + i)) x kc = Some (kc[slot_offset c layer ?s + i := x])"
    "dev_store (int (slot_offset c layer ?s + i)) x vc = Some (vc[slot_offset c layer ?s + i := x])" for x
    using b buf by (simp_all only: dev_store_int)
  show ?thesis
    unfolding reshape_elem_def prod.case c slots bind.bind_lunit Let_def sdiv_nat smod_nat dm 1 2 addr ld st ..
qed

lemma nth_piece: "t < m \<Longrightarrow> j < n \<Longrightarrow> length k = m * n \<Longrightarrow> take n (drop (t * n) k) ! j = k ! (t * n + j)"
  using mult_add_less [of t m j n] by simp

lemma length_piece: "t < m \<Longrightarrow> length k = m * n \<Longrightarrow> length (take n (drop (t * n) k)) = n"
proof -
  assume "t < m" "length k = m * n"
  moreover from this have "Suc t * n \<le> m * n" by (intro mult_le_mono1) simp
  ultimately show ?thesis by simp
qed

lemma cuda_batch_ok:
  assumes inv: "cuda_inv b" and p: "\<forall>d \<in> set dsts. in_pool (cu_config b) layer d" and dist: "distinct dsts"
    and len: "length k = length dsts * entry_elems (cu_config b)"
      "length v = length dsts * entry_elems (cu_config b)"
      "length dsts * entry_elems (cu_config b) < 2 ^ 63" "length dsts < 2 ^ 32"
  shows "\<exists>b'. cuda_write_kv_batch layer dsts k v b = Ok () b' \<and> cuda_inv b' \<and>
    cu_config b' = cu_config b \<and>
    (\<forall>l s. in_pool (cu_config b) l s \<longrightarrow> (l, s) \<notin> {layer} \<times> set dsts \<longrightarrow> cuda_entry b' l s = cuda_entry b l s) \<and>
    (\<forall>j < length dsts. cuda_entry b' layer (dsts ! j) =
       (take (entry_elems (cu_config b)) (drop (j * entry_elems (cu_config b)) k),
        take (entry_elems (cu_config b)) (drop (j * entry_elems (cu_config b)) v)))"
proof (cases "dsts = []")
  case True
  with inv len show ?thesis by (simp add: cuda_write_kv_batch_def)
next
  case False
  let ?c = "cu_config b" and ?n = "entry_elems (cu_config b)"
  note I = cuda_invD [OF inv]
  let ?b = "b\<lparr>cu_calls := cu_calls b + 3\<rparr>"
  let ?js = "grid_jobs (as_u32 (length dsts)) (as_i32 ?n)"
  let ?f = "reshape_elem k v (slot_mapping ?c dsts) (as_i32 layer) (as_i32 (num_blocks ?c))
    (as_i32 (block_size ?c)) (as_i32 ?n)"
  let ?d = "\<lambda>(t, i). slot_offset ?c layer (dsts ! t) + i"
  have js: "?js = grid_jobs (length dsts) (int ?n)" using I(3) len(4) by (simp add: cuda_dims_def)
  have mem: "j \<in> set ?js \<longleftrightarrow> fst j < length dsts \<and> snd j < ?n" for j
    unfolding js set_grid_jobs by (cases j) simp
  have pool: "in_pool ?c layer (dsts ! t)" if "t < length dsts" for t using p that by simp
  have "\<exists>b'. launch ?f ?js ?b = Ok () b' \<and> cuda_inv b' \<and> cu_config b' = cu_config ?b \<and>
    (\<forall>j \<in> set ?js. cu_k b' ! ?d j = (\<lambda>(t, i) _. k ! (t * ?n + i)) j (cu_k ?b) \<and>
       cu_v b' ! ?d j = (\<lambda>(t, i) _. v ! (t * ?n + i)) j (cu_v ?b)) \<and>
    (\<forall>x < plane_len (cu_config ?b). x \<notin> ?d ` set ?js \<longrightarrow> cu_k b' ! x = cu_k ?b ! x \<and> cu_v b' ! x = cu_v ?b ! x)"
  proof (rule launch_ok)
    show "cuda_inv ?b" using inv by simp
    show "distinct (map ?d ?js)"
      unfolding js
    proof (rule distinct_addresses, clarsimp)
      fix t i t' i'
      assume "t < length dsts" "i < ?n" "t' < length dsts" "i' < ?n"
        "slot_offset ?c layer (dsts ! t) + i = slot_offset ?c layer (dsts ! t') + i'"
      with slot_offset_inject [OF pool pool] dist show "t = t' \<and> i = i'" by (auto simp: nth_eq_iff_index_eq)
    qed
    show "\<forall>j \<in> set ?js. ?d j < plane_len (cu_config ?b)"
      using mem pool element_bound by auto
    show "?f j (kc, vc) = Some (kc[?d j := (\<lambda>(t, i) _. k ! (t * ?n + i)) j kc],
        vc[?d j := (\<lambda>(t, i) _. v ! (t * ?n + i)) j vc])"
      if "j \<in> set ?js" "length kc = plane_len (cu_config ?b)" "length vc = plane_len (cu_config ?b)" for j kc vc
    proof -
      obtain t i where ti: "j = (t, i)" by force
      with that(1) mem [of j] have j: "j = (t, i)" "t < length dsts" "i < ?n" by simp_all
      from reshape_step [OF I(3) pool [OF j(2)] j(2,3) len(1-3), of kc vc] that(2,3)
      show ?thesis by (simp add: j(1))
    qed
  qed auto
  then obtain b' where b': "launch ?f ?js ?b = Ok () b'" "cuda_inv b'" "cu_config b' = ?c"
    "\<And>t i. t < length dsts \<Longrightarrow> i < ?n \<Longrightarrow>
       cu_k b' ! (slot_offset ?c layer (dsts ! t) + i) = k ! (t * ?n + i) \<and>
       cu_v b' ! (slot_offset ?c layer (dsts ! t) + i) = v ! (t * ?n + i)"
    "\<And>x. x < plane_len ?c \<Longrightarrow> x \<notin> ?d ` set ?js \<Longrightarrow> cu_k b' ! x = cu_k b ! x \<and> cu_v b' ! x = cu_v b ! x"
    using mem by fastforce
  have plen: "length (cu_k b') = plane_len ?c" "length (cu_v b') = plane_len ?c"
    using cuda_invD(1,2) [OF b'(2)] b'(3) by simp_all
  have op: "cuda_write_kv_batch layer dsts k v b = Ok () b'"
    using False len(1,2) validate_all [OF p] driver_calls_ok [OF inv, of 3] b'(1)
    by (simp add: cuda_write_kv_batch_def Let_def)
  have hit: "cuda_entry b' layer (dsts ! t) = (take ?n (drop (t * ?n) k), take ?n (drop (t * ?n) v))"
    if t: "t < length dsts" for t
  proof -
    note pl = pool [OF t]
    have "plane_entry ?c (cu_k b') layer (dsts ! t) = take ?n (drop (t * ?n) k)"
      using plen length_piece [OF t len(1)] b'(4) [OF t]
      by (intro nth_equalityI) (simp_all add: pl plane_entry_nth nth_piece [OF t _ len(1)])
    moreover have "plane_entry ?c (cu_v b') layer (dsts ! t) = take ?n (drop (t * ?n) v)"
      using plen length_piece [OF t len(2)] b'(4) [OF t]
      by (intro nth_equalityI) (simp_all add: pl plane_entry_nth nth_piece [OF t _ len(2)])
    ultimately show ?thesis by (simp add: cuda_entry_def b'(3))
  qed
  have miss: "cuda_entry b' l s = cuda_entry b l s"
    if s: "in_pool ?c l s" "(l, s) \<notin> {layer} \<times> set dsts" for l s
  proof -
    have off: "slot_offset ?c l s + j < plane_len ?c \<and> slot_offset ?c l s + j \<notin> ?d ` set ?js" if j: "j < ?n" for j
    proof
      show "slot_offset ?c l s + j < plane_len ?c" by (rule element_bound [OF s(1) j])
      show "slot_offset ?c l s + j \<notin> ?d ` set ?js"
      proof
        assume "slot_offset ?c l s + j \<in> ?d ` set ?js"
        then obtain t i where e: "t < length dsts" "i < ?n"
          "slot_offset ?c l s + j = slot_offset ?c layer (dsts ! t) + i" using mem by auto
        with slot_offset_inject [OF s(1) pool [OF e(1)] j e(2)] have "l = layer \<and> s = dsts ! t" by simp
        with s(2) e(1) show False by auto
      qed
    qed
    have "plane_entry ?c (cu_k b') l s = plane_entry ?c (cu_k b) l s"
      "plane_entry ?c (cu_v b') l s = plane_entry ?c (cu_v b) l s"
      using plen I(1,2) b'(5) off by (auto intro!: nth_equalityI simp: s(1) plane_entry_nth)
    then show ?thesis by (simp add: cuda_entry_def b'(3))
  qed
  show ?thesis using op b'(2,3) hit miss by blast
qed

section \<open>Block copies and resets\<close>

lemma elem_in_block:
  assumes "in_pool c m r" "j < entry_elems c"
  shows "ps_slot r * entry_elems c + j < block_elems c"
proof -
  have "ps_slot r < block_size c" using assms(1) by (simp add: in_pool_def)
  from slot_in_block [OF this] assms(2) show ?thesis by simp
qed

lemma plane_block_nth:
  assumes "in_pool c m r" "length buf = plane_len c" "j < entry_elems c"
  shows "plane_entry c buf m r ! j = buf ! (block_offset c m (ps_block r) + (ps_slot r * entry_elems c + j))"
  using plane_entry_nth [OF assms] by (simp add: slot_offset_def add.assoc)

lemma flat_pairs:
  "p < length pairs \<Longrightarrow>
   concat (map (\<lambda>(s, d). [int (index s), int (index d)]) pairs) ! (p * 2) = int (index (fst (pairs ! p))) \<and>
   concat (map (\<lambda>(s, d). [int (index s), int (index d)]) pairs) ! (p * 2 + 1) = int (index (snd (pairs ! p)))"
proof (induction pairs arbitrary: p)
  case (Cons x pairs)
  then show ?case by (cases p; cases x) auto
qed simp

lemma length_flat_pairs:
  "length (concat (map (\<lambda>(s, d). [int (index s), int (index d)]) pairs)) = 2 * length pairs"
  by (induction pairs) auto

lemma validate_pairs:
  "\<forall>(s, d) \<in> set pairs. index s < num_blocks c \<and> index d < num_blocks c \<Longrightarrow>
   for_each (\<lambda>(src, dst) _. bind_res (cuda_validate_block c src) (\<lambda>_ _. cuda_validate_block c dst)) pairs () = Ok () ()"
  by (induction pairs) (auto simp: cuda_validate_block_def)

lemma copy_step:
  fixes pairs :: "(BlockId \<times> BlockId) list"
  defines "flat \<equiv> concat (map (\<lambda>(s, d). [int (index s), int (index d)]) pairs)"
  assumes dims: "cuda_dims c" and p: "p < length pairs" "length pairs < 2 ^ 31" and m: "m < num_layers c"
    and x: "index (fst (pairs ! p)) < num_blocks c" "index (snd (pairs ! p)) < num_blocks c"
    and i: "i < block_elems c" and buf: "length kc = plane_len c" "length vc = plane_len c"
  shows "copy_elem flat (as_i32 (length pairs)) (as_i32 (num_layers c)) (as_i32 (num_blocks c))
      (as_i32 (block_elems c)) (p * num_layers c + m, i) (kc, vc) =
    Some (kc[block_offset c m (snd (pairs ! p)) + i := kc ! (block_offset c m (fst (pairs ! p)) + i)],
      vc[block_offset c m (snd (pairs ! p)) + i := vc ! (block_offset c m (fst (pairs ! p)) + i)])"
proof -
  have c: "as_i32 (length pairs) = int (length pairs)" "as_i32 (num_layers c) = int (num_layers c)"
    "as_i32 (num_blocks c) = int (num_blocks c)" "as_i32 (block_elems c) = int (block_elems c)"
    using dims p(2) by (simp_all add: cuda_dims_def)
  have dm: "(p * num_layers c + m) div num_layers c = p" "(p * num_layers c + m) mod num_layers c = m"
    using m by simp_all
  have go: "(int (length pairs) \<le> int p) = False" using p(1) by simp
  have fl: "dev_load (int p * 2) flat = Some (int (index (fst (pairs ! p))))"
    "dev_load (int p * 2 + 1) flat = Some (int (index (snd (pairs ! p))))"
  proof -
    have i: "int p * 2 = int (p * 2)" "int (p * 2) + 1 = int (p * 2 + 1)" by simp_all
    have "p * 2 < length flat" "p * 2 + 1 < length flat"
      using length_flat_pairs [of pairs] p(1) unfolding flat_def by linarith+
    then show "dev_load (int p * 2) flat = Some (int (index (fst (pairs ! p))))"
      "dev_load (int p * 2 + 1) flat = Some (int (index (snd (pairs ! p))))"
      unfolding i using flat_pairs [OF p(1)] by (simp_all only: dev_load_int flat_def)
  qed
  note S = block_address [OF dims m x(1) i] and D = block_address [OF dims m x(2) i]
  have ld: "dev_load (int (block_offset c m (fst (pairs ! p)) + i)) kc =
      Some (kc ! (block_offset c m (fst (pairs ! p)) + i))"
    "dev_load (int (block_offset c m (fst (pairs ! p)) + i)) vc =
      Some (vc ! (block_offset c m (fst (pairs ! p)) + i))"
    using S(2) buf by (simp_all only: dev_load_int)
  have st: "dev_store (int (block_offset c m (snd (pairs ! p)) + i)) y kc =
      Some (kc[block_offset c m (snd (pairs ! p)) + i := y])"
    "dev_store (int (block_offset c m (snd (pairs ! p)) + i)) y vc =
      Some (vc[block_offset c m (snd (pairs ! p)) + i := y])" for y
    using D(2) buf by (simp_all only: dev_store_int)
  show ?thesis
    unfolding copy_elem_def prod.case c Let_def sdiv_nat smod_nat dm go if_False fl bind.bind_lunit S(1) D(1) ld st ..
qed

text \<open>
  The copies of a launch run in any order. When no block is written twice and none is both
  source and destination, the result is that of the copies made one after the other.
\<close>

lemma copy_origin_at:
  assumes "distinct (map snd pairs)" "set (map fst pairs) \<inter> set (map snd pairs) = {}" "p < length pairs"
  shows "copy_origin pairs (snd (pairs ! p)) = fst (pairs ! p)"
  using assms
proof (induction pairs arbitrary: p)
  case (Cons q pairs)
  obtain s d where q: "q = (s, d)" by force
  have d: "d \<notin> snd ` set pairs" "s \<notin> snd ` set pairs" using Cons.prems(1,2) q by auto
  show ?case
  proof (cases p)
    case 0
    with q d copy_origin_fresh [OF d(1)] show ?thesis by (simp add: Let_def)
  next
    case (Suc p')
    with Cons.prems have p': "p' < length pairs" by simp
    from Cons.IH [OF _ _ p'] Cons.prems(1,2) have "copy_origin pairs (snd (pairs ! p')) = fst (pairs ! p')"
      by auto
    moreover have "fst (pairs ! p') \<in> fst ` set pairs" using p' by simp
    with Cons.prems(2) q have "fst (pairs ! p') \<noteq> d" by auto
    ultimately show ?thesis using Suc q by (simp add: Let_def)
  qed
qed simp

lemma cuda_copies_ok:
  assumes inv: "cuda_inv b"
    and pairs: "\<forall>(s, d) \<in> set pairs. index s < num_blocks (cu_config b) \<and> index d < num_blocks (cu_config b)"
    and dist: "distinct (map snd pairs)" "set (map fst pairs) \<inter> set (map snd pairs) = {}"
    and size: "length pairs * num_layers (cu_config b) < 2 ^ 32" "length pairs < 2 ^ 31"
  shows "\<exists>b'. cuda_copy_blocks pairs b = Ok () b' \<and> cuda_inv b' \<and> cu_config b' = cu_config b \<and>
    (\<forall>l s. in_pool (cu_config b) l s \<longrightarrow>
       cuda_entry b' l s = cuda_entry b l (new_slot (copy_origin pairs (ps_block s)) (ps_slot s)))"
proof (cases "pairs = []")
  case True
  with inv show ?thesis by (simp add: cuda_copy_blocks_def)
next
  case False
  let ?c = "cu_config b" and ?L = "num_layers (cu_config b)" and ?be = "block_elems (cu_config b)"
  let ?flat = "concat (map (\<lambda>(s, d). [int (index s), int (index d)]) pairs)"
  let ?f = "copy_elem ?flat (as_i32 (length pairs)) (as_i32 ?L) (as_i32 (num_blocks ?c)) (as_i32 ?be)"
  note I = cuda_invD [OF inv]
  let ?b = "b\<lparr>cu_calls := cu_calls b + 1\<rparr>"
  let ?js = "grid_jobs (as_u32 (length pairs * ?L)) (as_i32 ?be)"
  let ?src = "\<lambda>(g, i). block_offset ?c (g mod ?L) (fst (pairs ! (g div ?L))) + i"
  let ?dst = "\<lambda>(g, i). block_offset ?c (g mod ?L) (snd (pairs ! (g div ?L))) + i"
  have js: "?js = grid_jobs (length pairs * ?L) (int ?be)" using I(3) size(1) by (simp add: cuda_dims_def)
  have mem: "j \<in> set ?js \<longleftrightarrow> fst j < length pairs * ?L \<and> snd j < ?be" for j
    unfolding js set_grid_jobs by (cases j) simp
  have rng: "index (fst (pairs ! p)) < num_blocks ?c" "index (snd (pairs ! p)) < num_blocks ?c"
    if "p < length pairs" for p using pairs that by (auto simp: case_prod_beta)
  have split: "g div ?L < length pairs" "g mod ?L < ?L" "g = (g div ?L) * ?L + g mod ?L"
    if "g < length pairs * ?L" for g
    using that by (simp_all add: less_mult_imp_div_less) (metis gr_zeroI mod_less_divisor mult_0_right not_less_zero)
  have src_free: "?src j \<notin> ?dst ` set ?js" if "j \<in> set ?js" for j
  proof
    assume "?src j \<in> ?dst ` set ?js"
    then obtain j' where j': "j' \<in> set ?js" "?src j = ?dst j'" by blast
    obtain g i g' i' where e: "j = (g, i)" "j' = (g', i')" by force
    with that j'(1) mem have g: "g < length pairs * ?L" "i < ?be" "g' < length pairs * ?L" "i' < ?be" by auto
    from j'(2) e block_offset_inject [OF rng(1) [OF split(1) [OF g(1)]] rng(2) [OF split(1) [OF g(3)]] g(2,4)]
    have "fst (pairs ! (g div ?L)) = snd (pairs ! (g' div ?L))" by simp
    moreover have "fst (pairs ! (g div ?L)) \<in> set (map fst pairs)" "snd (pairs ! (g' div ?L)) \<in> set (map snd pairs)"
      using split(1) [OF g(1)] split(1) [OF g(3)] by simp_all
    ultimately show False using dist(2) by (metis IntI emptyE)
  qed
  have "\<exists>b'. launch ?f ?js ?b = Ok () b' \<and> cuda_inv b' \<and> cu_config b' = cu_config ?b \<and>
    (\<forall>j \<in> set ?js. cu_k b' ! ?dst j = (\<lambda>j buf. buf ! ?src j) j (cu_k ?b) \<and>
       cu_v b' ! ?dst j = (\<lambda>j buf. buf ! ?src j) j (cu_v ?b)) \<and>
    (\<forall>x < plane_len (cu_config ?b). x \<notin> ?dst ` set ?js \<longrightarrow> cu_k b' ! x = cu_k ?b ! x \<and> cu_v b' ! x = cu_v ?b ! x)"
  proof (rule launch_ok)
    show "cuda_inv ?b" using inv by simp
    show "distinct (map ?dst ?js)"
      unfolding js
    proof (rule distinct_addresses, clarsimp)
      fix g i g' i'
      assume g: "g < length pairs * ?L" "i < ?be" "g' < length pairs * ?L" "i' < ?be" and
        e: "block_offset ?c (g mod ?L) (snd (pairs ! (g div ?L))) + i =
            block_offset ?c (g' mod ?L) (snd (pairs ! (g' div ?L))) + i'"
      from e block_offset_inject [OF rng(2) [OF split(1) [OF g(1)]] rng(2) [OF split(1) [OF g(3)]] g(2,4)]
      have "g mod ?L = g' mod ?L" "snd (pairs ! (g div ?L)) = snd (pairs ! (g' div ?L))" "i = i'" by simp_all
      moreover from this(2) have "g div ?L = g' div ?L"
        using dist(1) split(1) [OF g(1)] split(1) [OF g(3)] by (simp add: distinct_conv_nth) (metis nth_map length_map)
      ultimately show "g = g' \<and> i = i'" by (metis div_mult_mod_eq)
    qed
    show "\<forall>j \<in> set ?js. ?dst j < plane_len (cu_config ?b)"
    proof
      fix j assume j: "j \<in> set ?js"
      obtain g i where e: "j = (g, i)" by force
      with j mem [of j] have g: "g < length pairs * ?L" "i < ?be" by simp_all
      from block_address(2) [OF I(3) split(2) [OF g(1)] rng(2) [OF split(1) [OF g(1)]] g(2)] e
      show "?dst j < plane_len (cu_config ?b)" by simp
    qed
    show "?f j (kc, vc) = Some (kc[?dst j := (\<lambda>j buf. buf ! ?src j) j kc], vc[?dst j := (\<lambda>j buf. buf ! ?src j) j vc])"
      if "j \<in> set ?js" "length kc = plane_len (cu_config ?b)" "length vc = plane_len (cu_config ?b)" for j kc vc
    proof -
      obtain g i where e: "j = (g, i)" by force
      with that(1) mem [of j] have g: "g < length pairs * ?L" "i < ?be" by simp_all
      note sp = split [OF g(1)]
      from copy_step [OF I(3) sp(1) size(2) sp(2) rng [OF sp(1)] g(2), of kc vc] that(2,3) sp(3)
      show ?thesis by (simp add: e)
    qed
    show "(\<lambda>j buf. buf ! ?src j) j buf = (\<lambda>j buf. buf ! ?src j) j buf'"
      if "j \<in> set ?js" "\<forall>x < plane_len (cu_config ?b). x \<notin> ?dst ` set ?js \<longrightarrow> buf ! x = buf' ! x" for j buf buf'
    proof -
      obtain g i where e: "j = (g, i)" by force
      with that(1) mem [of j] have g: "g < length pairs * ?L" "i < ?be" by simp_all
      from block_address(2) [OF I(3) split(2) [OF g(1)] rng(1) [OF split(1) [OF g(1)]] g(2)] e
      have "?src j < plane_len (cu_config ?b)" by simp
      with that(2) src_free [OF that(1)] show ?thesis by simp
    qed
    then show "(\<lambda>j buf. buf ! ?src j) j buf = (\<lambda>j buf. buf ! ?src j) j buf'"
      if "j \<in> set ?js" "\<forall>x < plane_len (cu_config ?b). x \<notin> ?dst ` set ?js \<longrightarrow> buf ! x = buf' ! x" for j buf buf'
      using that by blast
  qed
  then obtain b' where l0: "launch ?f ?js ?b = Ok () b'" "cuda_inv b'" "cu_config b' = cu_config ?b"
    "\<forall>j \<in> set ?js. cu_k b' ! ?dst j = cu_k ?b ! ?src j \<and> cu_v b' ! ?dst j = cu_v ?b ! ?src j"
    "\<forall>x < plane_len (cu_config ?b). x \<notin> ?dst ` set ?js \<longrightarrow> cu_k b' ! x = cu_k ?b ! x \<and> cu_v b' ! x = cu_v ?b ! x"
    by (elim exE conjE) (rule that)
  have b': "launch ?f ?js ?b = Ok () b'" "cuda_inv b'" "cu_config b' = ?c"
    "\<And>j. j \<in> set ?js \<Longrightarrow> cu_k b' ! ?dst j = cu_k b ! ?src j \<and> cu_v b' ! ?dst j = cu_v b ! ?src j"
    "\<And>x. x < plane_len ?c \<Longrightarrow> x \<notin> ?dst ` set ?js \<Longrightarrow> cu_k b' ! x = cu_k b ! x \<and> cu_v b' ! x = cu_v b ! x"
    using l0 by simp_all
  have plen: "length (cu_k b') = plane_len ?c" "length (cu_v b') = plane_len ?c"
    using cuda_invD(1,2) [OF b'(2)] b'(3) by simp_all
  have op: "cuda_copy_blocks pairs b = Ok () b'"
    using False validate_pairs [OF pairs] b'(1)
    by (simp add: cuda_copy_blocks_def driver_call_def I(4) Let_def)
  have "cuda_entry b' l s = cuda_entry b l (new_slot (copy_origin pairs (ps_block s)) (ps_slot s))"
    if s: "in_pool ?c l s" for l s
  proof (cases "ps_block s \<in> set (map snd pairs)")
    case True
    then obtain p where p: "p < length pairs" "snd (pairs ! p) = ps_block s" by (auto simp: in_set_conv_nth)
    have o: "copy_origin pairs (ps_block s) = fst (pairs ! p)"
      using copy_origin_at [OF dist p(1)] p(2) by simp
    have s': "in_pool ?c l (new_slot (fst (pairs ! p)) (ps_slot s))" using s rng(1) [OF p(1)] by (simp add: in_pool_def)
    have l: "l < ?L" using s by (simp add: in_pool_def)
    have el: "cu_k b' ! (block_offset ?c l (ps_block s) + i) = cu_k b ! (block_offset ?c l (fst (pairs ! p)) + i) \<and>
        cu_v b' ! (block_offset ?c l (ps_block s) + i) = cu_v b ! (block_offset ?c l (fst (pairs ! p)) + i)"
      if "i < ?be" for i
    proof -
      have "(p * ?L + l, i) \<in> set ?js" using mem mult_add_less [OF p(1) l] that by simp
      from b'(4) [OF this] l p(2) show ?thesis by simp
    qed
    have "plane_entry ?c (cu_k b') l s = plane_entry ?c (cu_k b) l (new_slot (fst (pairs ! p)) (ps_slot s))"
      "plane_entry ?c (cu_v b') l s = plane_entry ?c (cu_v b) l (new_slot (fst (pairs ! p)) (ps_slot s))"
      using plen I(1,2) s s' el elem_in_block [OF s]
      by (auto intro!: nth_equalityI simp: plane_block_nth)
    then show ?thesis by (simp add: cuda_entry_def b'(3) o)
  next
    case False
    then have o: "copy_origin pairs (ps_block s) = ps_block s" by (intro copy_origin_fresh) auto
    have inb: "l < ?L" "index (ps_block s) < num_blocks ?c" using s by (simp_all add: in_pool_def)
    have off: "block_offset ?c l (ps_block s) + i \<notin> ?dst ` set ?js" if i: "i < ?be" for i
    proof
      assume "block_offset ?c l (ps_block s) + i \<in> ?dst ` set ?js"
      then obtain j' where j': "j' \<in> set ?js" "block_offset ?c l (ps_block s) + i = ?dst j'" by blast
      obtain g i' where e: "j' = (g, i')" by force
      with j' mem [of j'] have g: "g < length pairs * ?L" "i' < ?be" by simp_all
      have sb: "index (ps_block s) < num_blocks ?c" using s by (simp add: in_pool_def)
      from j'(2) e block_offset_inject [OF sb rng(2) [OF split(1) [OF g(1)]] i g(2)]
      have "ps_block s = snd (pairs ! (g div ?L))" by simp
      with False split(1) [OF g(1)] show False by simp
    qed
    have "plane_entry ?c (cu_k b') l s = plane_entry ?c (cu_k b) l s"
      "plane_entry ?c (cu_v b') l s = plane_entry ?c (cu_v b) l s"
      using plen I(1,2) s b'(5) off block_address(2) [OF I(3)] elem_in_block [OF s] inb
      by (auto intro!: nth_equalityI simp: plane_block_nth)
    then show ?thesis by (simp add: cuda_entry_def b'(3) o)
  qed
  with op b'(2,3) show ?thesis by blast
qed

lemma zero_step:
  assumes dims: "cuda_dims c" and l: "l < num_layers c" and x: "index x < num_blocks c"
    and i: "i < block_elems c" and buf: "length kc = plane_len c" "length vc = plane_len c"
  shows "zero_elem z (as_i32 (index x)) (as_i32 (num_blocks c)) (as_i32 (block_elems c)) (l, i) (kc, vc) =
    Some (kc[block_offset c l x + i := z], vc[block_offset c l x + i := z])"
proof -
  have "index x < 2 ^ 31" using dims x by (simp add: cuda_dims_def)
  then have c: "as_i32 (index x) = int (index x)" "as_i32 (num_blocks c) = int (num_blocks c)"
    "as_i32 (block_elems c) = int (block_elems c)"
    using dims by (simp_all add: cuda_dims_def)
  note A = block_address [OF dims l x i]
  have st: "dev_store (int (block_offset c l x + i)) z kc = Some (kc[block_offset c l x + i := z])"
    "dev_store (int (block_offset c l x + i)) z vc = Some (vc[block_offset c l x + i := z])"
    using A(2) buf by (simp_all only: dev_store_int)
  show ?thesis unfolding zero_elem_def prod.case c Let_def A(1) st bind.bind_lunit ..
qed

lemma cuda_zero_ok:
  assumes inv: "cuda_inv b" and x: "index x < num_blocks (cu_config b)"
  shows "\<exists>b'. cuda_zero_block z x b = Ok () b' \<and> cuda_inv b' \<and> cu_config b' = cu_config b \<and>
    (\<forall>l s. in_pool (cu_config b) l s \<longrightarrow> cuda_entry b' l s = (if ps_block s = x
       then (replicate (entry_elems (cu_config b)) z, replicate (entry_elems (cu_config b)) z)
       else cuda_entry b l s))"
proof -
  let ?c = "cu_config b" and ?L = "num_layers (cu_config b)" and ?be = "block_elems (cu_config b)"
  let ?f = "zero_elem z (as_i32 (index x)) (as_i32 (num_blocks ?c)) (as_i32 ?be)"
  let ?js = "grid_jobs (as_u32 ?L) (as_i32 ?be)" and ?dst = "\<lambda>(l, i). block_offset ?c l x + i"
  note I = cuda_invD [OF inv]
  have js: "?js = grid_jobs ?L (int ?be)" using I(3) by (simp add: cuda_dims_def)
  have mem: "j \<in> set ?js \<longleftrightarrow> fst j < ?L \<and> snd j < ?be" for j
    unfolding js set_grid_jobs by (cases j) simp
  have "\<exists>b'. launch ?f ?js b = Ok () b' \<and> cuda_inv b' \<and> cu_config b' = ?c \<and>
    (\<forall>j \<in> set ?js. cu_k b' ! ?dst j = (\<lambda>j buf. z) j (cu_k b) \<and> cu_v b' ! ?dst j = (\<lambda>j buf. z) j (cu_v b)) \<and>
    (\<forall>y < plane_len ?c. y \<notin> ?dst ` set ?js \<longrightarrow> cu_k b' ! y = cu_k b ! y \<and> cu_v b' ! y = cu_v b ! y)"
  proof (rule launch_ok [OF inv])
    show "distinct (map ?dst ?js)"
      unfolding js by (rule distinct_addresses) (use block_offset_inject [OF x x] in auto)
    show "\<forall>j \<in> set ?js. ?dst j < plane_len ?c"
      using mem block_address(2) [OF I(3) _ x] by auto
    show "?f j (kc, vc) = Some (kc[?dst j := (\<lambda>j buf. z) j kc], vc[?dst j := (\<lambda>j buf. z) j vc])"
      if "j \<in> set ?js" "length kc = plane_len ?c" "length vc = plane_len ?c" for j kc vc
    proof -
      obtain l i where e: "j = (l, i)" by force
      with that(1) mem [of j] have g: "l < ?L" "i < ?be" by simp_all
      from zero_step [OF I(3) g(1) x g(2) that(2,3)] show ?thesis by (simp add: e)
    qed
  qed simp_all
  then obtain b' where b': "launch ?f ?js b = Ok () b'" "cuda_inv b'" "cu_config b' = ?c"
    "\<forall>j \<in> set ?js. cu_k b' ! ?dst j = z \<and> cu_v b' ! ?dst j = z"
    "\<forall>y < plane_len ?c. y \<notin> ?dst ` set ?js \<longrightarrow> cu_k b' ! y = cu_k b ! y \<and> cu_v b' ! y = cu_v b ! y"
    by (elim exE conjE) (rule that)
  have plen: "length (cu_k b') = plane_len ?c" "length (cu_v b') = plane_len ?c"
    using cuda_invD(1,2) [OF b'(2)] b'(3) by simp_all
  have "cuda_entry b' l s = (if ps_block s = x
      then (replicate (entry_elems ?c) z, replicate (entry_elems ?c) z) else cuda_entry b l s)"
    if s: "in_pool ?c l s" for l s
  proof -
    have inb: "l < ?L" "index (ps_block s) < num_blocks ?c" using s by (simp_all add: in_pool_def)
    note el = elem_in_block [OF s]
    show ?thesis
    proof (cases "ps_block s = x")
      case True
      have "cu_k b' ! (block_offset ?c l x + i) = z \<and> cu_v b' ! (block_offset ?c l x + i) = z" if "i < ?be" for i
        using bspec [OF b'(4), of "(l, i)"] mem inb(1) that by simp
      then have "plane_entry ?c (cu_k b') l s = replicate (entry_elems ?c) z"
        "plane_entry ?c (cu_v b') l s = replicate (entry_elems ?c) z"
        using plen s el True by (auto intro!: nth_equalityI simp: plane_block_nth)
      with True show ?thesis by (simp add: cuda_entry_def b'(3))
    next
      case False
      have "block_offset ?c l (ps_block s) + i \<notin> ?dst ` set ?js" if i: "i < ?be" for i
      proof
        assume "block_offset ?c l (ps_block s) + i \<in> ?dst ` set ?js"
        then obtain j' where j': "j' \<in> set ?js" "block_offset ?c l (ps_block s) + i = ?dst j'" by blast
        obtain m i' where e: "j' = (m, i')" by force
        with j' mem [of j'] have "i' < ?be" by simp
        from j'(2) e block_offset_inject [OF inb(2) x i this] False show False by simp
      qed
      then have "plane_entry ?c (cu_k b') l s = plane_entry ?c (cu_k b) l s"
        "plane_entry ?c (cu_v b') l s = plane_entry ?c (cu_v b) l s"
        using plen I(1,2) s b'(5) block_address(2) [OF I(3)] el inb
        by (auto intro!: nth_equalityI simp: plane_block_nth)
      with False show ?thesis by (simp add: cuda_entry_def b'(3))
    qed
  qed
  moreover have "cuda_zero_block z x b = Ok () b'"
    using b'(1) x by (simp add: cuda_zero_block_def cuda_validate_block_def Let_def)
  ultimately show ?thesis using b'(2,3) by blast
qed

section \<open>The backend keeps the interface\<close>

lemma cuda_validate_eq: "cuda_validate = validate_slot" "cuda_validate_block = validate_block"
  by (simp_all add: fun_eq_iff cuda_validate_def validate_slot_def cuda_validate_block_def validate_block_def)

lemma cuda_write_ok:
  assumes "cuda_inv b" "in_pool (cu_config b) layer dst" "length k = entry_elems (cu_config b)"
    "length v = entry_elems (cu_config b)"
  shows "\<exists>b'. cuda_write_kv layer dst k v b = Ok () b' \<and> cuda_inv b' \<and> cu_config b' = cu_config b \<and>
    (\<forall>l s. in_pool (cu_config b) l s \<longrightarrow>
       cuda_entry b' l s = (if l = layer \<and> s = dst then (k, v) else cuda_entry b l s))"
proof -
  have p: "\<forall>d \<in> set [dst]. in_pool (cu_config b) layer d" "distinct [dst]" using assms(2) by simp_all
  have n: "length k = length [dst] * entry_elems (cu_config b)" "length v = length [dst] * entry_elems (cu_config b)"
    "length [dst] * entry_elems (cu_config b) < 2 ^ 63" "length [dst] < (2 :: nat) ^ 32"
    using assms(3,4) cuda_invD(3) [OF assms(1)] by (simp_all add: cuda_dims_def)
  from cuda_batch_ok [OF assms(1) p n] obtain b' where
    b': "cuda_write_kv_batch layer [dst] k v b = Ok () b'" "cuda_inv b'" "cu_config b' = cu_config b"
    "\<forall>l s. in_pool (cu_config b) l s \<longrightarrow> (l, s) \<notin> {layer} \<times> set [dst] \<longrightarrow> cuda_entry b' l s = cuda_entry b l s"
    "cuda_entry b' layer dst = (k, v)" using assms(3,4) by auto
  then show ?thesis by (auto simp: cuda_write_kv_def)
qed

lemma cuda_write_err:
  assumes "\<not> (in_pool (cu_config b) layer dst \<and> length k = entry_elems (cu_config b) \<and>
    length v = entry_elems (cu_config b))"
  shows "\<exists>e. cuda_write_kv layer dst k v b = Err e b"
proof (cases "in_pool (cu_config b) layer dst")
  case True
  with assms show ?thesis by (auto simp: cuda_write_kv_def cuda_write_kv_batch_def Let_def)
next
  case False
  then obtain e where "validate_slot (cu_config b) layer dst = Err e ()" by (rule validate_slot_err)
  then show ?thesis by (simp add: cuda_write_kv_def cuda_write_kv_batch_def Let_def cuda_validate_eq)
qed

lemma cuda_read_ok:
  assumes "cuda_inv b" "in_pool (cu_config b) layer src" "nk = entry_elems (cu_config b)"
    "nv = entry_elems (cu_config b)"
  shows "cuda_read_kv layer src nk nv b = Ok (cuda_entry b layer src) (b\<lparr>cu_calls := cu_calls b + 2\<rparr>)"
  using assms validate_slot_ok [OF assms(2)] read_slice_entry [OF assms(2), of "cu_k b"]
    read_slice_entry [OF assms(2), of "cu_v b"] driver_calls_ok [OF assms(1), of 2] cuda_invD(1,2) [OF assms(1)]
  by (simp add: cuda_read_kv_def Let_def cuda_entry_def cuda_validate_eq cuda_offset_eq)

lemma cuda_copy_ok:
  assumes "cuda_inv b" "index x < num_blocks (cu_config b)" "index y < num_blocks (cu_config b)"
  shows "\<exists>b'. cuda_copy_block x y b = Ok () b' \<and> cuda_inv b' \<and> cu_config b' = cu_config b \<and>
    (\<forall>l s. in_pool (cu_config b) l s \<longrightarrow>
       cuda_entry b' l s = cuda_entry b l (if ps_block s = y then new_slot x (ps_slot s) else s))"
proof (cases "x = y")
  case True
  with assms show ?thesis by (auto simp: cuda_copy_block_def)
next
  case False
  have p: "\<forall>(s, d) \<in> set [(x, y)]. index s < num_blocks (cu_config b) \<and> index d < num_blocks (cu_config b)"
    "distinct (map snd [(x, y)])" "set (map fst [(x, y)]) \<inter> set (map snd [(x, y)]) = {}"
    "length [(x, y)] * num_layers (cu_config b) < 2 ^ 32" "length [(x, y)] < (2 :: nat) ^ 31"
    using assms(2,3) False cuda_invD(3) [OF assms(1)] by (simp_all add: cuda_dims_def)
  from cuda_copies_ok [OF assms(1) p] obtain b' where
    b': "cuda_copy_blocks [(x, y)] b = Ok () b'" "cuda_inv b'" "cu_config b' = cu_config b"
    "\<forall>l s. in_pool (cu_config b) l s \<longrightarrow>
       cuda_entry b' l s = cuda_entry b l (new_slot (copy_origin [(x, y)] (ps_block s)) (ps_slot s))" by blast
  have e: "new_slot (copy_origin [(x, y)] (ps_block s)) (ps_slot s) =
      (if ps_block s = y then new_slot x (ps_slot s) else s)" for s :: PhysicalSlot
    by (simp add: Let_def)
  from b'(4) have "\<forall>l s. in_pool (cu_config b) l s \<longrightarrow>
      cuda_entry b' l s = cuda_entry b l (if ps_block s = y then new_slot x (ps_slot s) else s)"
    unfolding e .
  moreover have "cuda_copy_block x y b = Ok () b'" using False b'(1) by (simp add: cuda_copy_block_def)
  ultimately show ?thesis using b'(2,3) by blast
qed

interpretation cuda: kv_store cuda_inv cu_config cuda_entry cuda_write_kv cuda_read_kv cuda_copy_block
  "cuda_zero_block z" z for z
proof (unfold_locales, goal_cases)
  case 1
  then show ?case by (rule cuda_write_ok)
next
  case 2
  then show ?case by (intro cuda_write_err)
next
  case 3
  note r = cuda_read_ok [OF 3]
  show ?case by (rule exI, intro conjI, rule r) (use 3(1) in \<open>simp_all add: cuda_entry_def fun_eq_iff\<close>)
next
  case 4
  then show ?case by (rule cuda_copy_ok)
next
  case 5
  then show ?case by (rule cuda_zero_ok)
qed

end
