(* ===== verification/Thread_Block.thy ===== *)
theory Thread_Block
  imports Cuda
begin

text \<open>
  A CUDA thread block between barriers: 128 threads run one phase each, in an arbitrary order, and
  \<open>block_reduce\<close> of \<open>kernels.cu\<close> combines one value per thread in a tree. Nothing is assumed of the
  operation, a rounded addition say: the tree is the same one in every order of the threads
  (\<open>tree_fold\<close>), and it takes in every value once (\<open>combines\<close>).
\<close>

section \<open>Phases\<close>

definition ATTN_THREADS :: nat where
  "ATTN_THREADS = 128"

text \<open>
  \<open>for (t = start; t < stop; t += ATTN_THREADS)\<close>: the positions one thread visits.
\<close>

function strided :: "nat \<Rightarrow> nat \<Rightarrow> nat list" where
  "strided t stop = (if t < stop then t # strided (t + ATTN_THREADS) stop else [])"
  by pat_completeness auto
termination
  by (relation "measure (\<lambda>(t, stop). stop - t)") (auto simp: ATTN_THREADS_def)

declare strided.simps [simp del]

text \<open>One round of the reduction: the lower half of the live threads takes in the upper half.\<close>

definition reduce_step :: "('f \<Rightarrow> 'f \<Rightarrow> 'f) \<Rightarrow> nat \<Rightarrow> nat \<Rightarrow> 'f list \<Rightarrow> 'f list option" where
  "reduce_step f stride tid buf =
     (if tid < stride then do {
        other \<leftarrow> nth_at buf (tid + stride);
        x \<leftarrow> nth_at buf tid;
        set_at buf tid (f x other) }
      else Some buf)"

text \<open>
  \<open>sched p\<close> is the order in which phase \<open>p\<close>, the code between two barriers, runs the threads.
\<close>

fun reduce_rounds :: "('f \<Rightarrow> 'f \<Rightarrow> 'f) \<Rightarrow> (nat \<Rightarrow> nat list \<Rightarrow> nat list) \<Rightarrow> nat \<Rightarrow> nat \<Rightarrow> 'f list \<Rightarrow>
    'f list option" where
  "reduce_rounds f sched phase stride buf =
     (if stride = 0 then Some buf
      else do {
        buf \<leftarrow> run_jobs (reduce_step f stride) (sched phase [0..<ATTN_THREADS]) buf;
        reduce_rounds f sched (Suc phase) (stride div 2) buf })"

declare reduce_rounds.simps [simp del]

text \<open>
  \<open>block_reduce\<close> after every thread stored its value: the result, which all threads read, and
  the shared buffer.
\<close>

definition block_reduce :: "('f \<Rightarrow> 'f \<Rightarrow> 'f) \<Rightarrow> (nat \<Rightarrow> nat list \<Rightarrow> nat list) \<Rightarrow> nat \<Rightarrow> 'f list \<Rightarrow>
    ('f \<times> 'f list) option" where
  "block_reduce f sched phase buf = do {
     buf \<leftarrow> reduce_rounds f sched phase (ATTN_THREADS div 2) buf;
     x \<leftarrow> nth_at buf 0;
     Some (x, buf) }"

section \<open>What the threads visit\<close>

lemma set_strided: "set (strided t n) = {x. t \<le> x \<and> x < n \<and> x mod ATTN_THREADS = t mod ATTN_THREADS}"
proof (induction t n rule: strided.induct)
  case (1 t n)
  show ?case
  proof (cases "t < n")
    case True
    have gap: "t + ATTN_THREADS \<le> x" if "t \<le> x" "x \<noteq> t" "x mod ATTN_THREADS = t mod ATTN_THREADS" for x
    proof -
      from that(1,3) have "ATTN_THREADS dvd x - t" by (metis mod_eq_dvd_iff_nat)
      moreover from that have "0 < x - t" by simp
      ultimately have "ATTN_THREADS \<le> x - t" by (rule dvd_imp_le)
      then show ?thesis using that(1) by simp
    qed
    have "set (strided t n) = insert t {x. t + ATTN_THREADS \<le> x \<and> x < n \<and>
        x mod ATTN_THREADS = t mod ATTN_THREADS}"
      using 1 True by (subst strided.simps) simp
    with True gap show ?thesis by auto
  qed (simp add: strided.simps)
qed

lemma distinct_strided: "distinct (strided t n)"
proof (induction t n rule: strided.induct)
  case (1 t n)
  have "t \<notin> set (strided (t + ATTN_THREADS) n)" by (simp add: set_strided ATTN_THREADS_def)
  with 1 show ?case by (subst strided.simps) simp
qed

lemma set_strided_thread: "tid < ATTN_THREADS \<Longrightarrow> set (strided tid n) = {x. x < n \<and> x mod ATTN_THREADS = tid}"
  by (auto simp: set_strided dest: mod_less_eq_dividend [THEN order_trans, rotated])

lemma distinct_strides:
  "distinct js \<Longrightarrow> set js \<subseteq> {0..<ATTN_THREADS} \<Longrightarrow> distinct (concat (map (\<lambda>tid. strided tid n) js))"
  by (induction js) (auto simp: distinct_strided set_strided_thread)

text \<open>The threads of a block in some order visit every position once.\<close>

definition all_threads :: "nat list \<Rightarrow> bool" where
  "all_threads js \<longleftrightarrow> mset js = mset [0..<ATTN_THREADS]"

lemma all_threadsD:
  assumes "all_threads js"
  shows "distinct js" "set js = {0..<ATTN_THREADS}"
  using mset_eq_imp_distinct_iff [of js "[0..<ATTN_THREADS]"] mset_eq_setD [of js "[0..<ATTN_THREADS]"]
    assms by (simp_all add: all_threads_def)

lemma set_strides:
  assumes "all_threads js"
  shows "set (concat (map (\<lambda>tid. strided tid n) js)) = {0..<n}"
proof -
  have "x mod ATTN_THREADS < ATTN_THREADS" for x by (simp add: ATTN_THREADS_def)
  with all_threadsD(2) [OF assms] show ?thesis by (auto simp: set_strided_thread)
qed

lemma mset_strides:
  assumes "all_threads js"
  shows "mset (concat (map (\<lambda>tid. strided tid n) js)) = mset [0..<n]"
proof -
  have "distinct (concat (map (\<lambda>tid. strided tid n) js))"
    using distinct_strides [of js n] all_threadsD [OF assms] by simp
  moreover have "set (concat (map (\<lambda>tid. strided tid n) js)) = set [0..<n]"
    using set_strides [OF assms, of n] by (simp only: set_upt)
  ultimately show ?thesis using set_eq_iff_mset_eq_distinct distinct_upt by blast
qed

lemma all_threads_upt [simp]: "all_threads [0..<ATTN_THREADS]"
  by (simp add: all_threads_def)

section \<open>Stores of a phase\<close>

text \<open>Memory after stores at the addresses of a list, each of the value that belongs there.\<close>

definition store_all :: "(nat \<Rightarrow> 'f) \<Rightarrow> nat list \<Rightarrow> 'f list \<Rightarrow> 'f list" where
  "store_all new addrs mem = foldl (\<lambda>mem i. mem[i := new i]) mem addrs"

lemma store_all_simps [simp]:
  "store_all new [] mem = mem"
  "store_all new (i # is) mem = store_all new is (mem[i := new i])"
  "store_all new (is @ js) mem = store_all new js (store_all new is mem)"
  by (simp_all add: store_all_def)

lemma length_store_all [simp]: "length (store_all new is mem) = length mem"
  by (induction "is" arbitrary: mem) simp_all

lemma nth_store_all:
  "j < length mem \<Longrightarrow> store_all new is mem ! j = (if j \<in> set is then new j else mem ! j)"
  by (induction "is" arbitrary: mem) (auto simp: nth_list_update)

text \<open>
  A phase whose threads store to disjoint addresses, and whose stores depend on nothing another
  thread stores, gives the same memory in every order.
\<close>

lemma run_phase:
  assumes step: "\<And>tid mem x. tid \<in> set js \<Longrightarrow> length mem = m \<Longrightarrow> P x \<Longrightarrow>
      \<forall>i \<in> set (ws tid). mem ! i = old ! i \<Longrightarrow>
      f tid (mem, x) = Some (store_all new (ws tid) mem, h tid x) \<and> P (h tid x)"
    and "distinct js" "\<And>i j. i \<in> set js \<Longrightarrow> j \<in> set js \<Longrightarrow> i \<noteq> j \<Longrightarrow> set (ws i) \<inter> set (ws j) = {}"
    and "length mem = m" "P x" "\<forall>tid \<in> set js. \<forall>i \<in> set (ws tid). i < m \<and> mem ! i = old ! i"
  shows "run_jobs f js (mem, x) =
    Some (store_all new (concat (map ws js)) mem, foldl (\<lambda>x tid. h tid x) x js)"
  using assms
proof (induction js arbitrary: mem x)
  case (Cons tid js)
  from Cons.prems(1) [of tid mem x] Cons.prems(4-6)
  have f: "f tid (mem, x) = Some (store_all new (ws tid) mem, h tid x)" "P (h tid x)" by auto
  have "\<forall>j \<in> set js. \<forall>i \<in> set (ws j). i < m \<and> store_all new (ws tid) mem ! i = old ! i"
  proof (intro ballI)
    fix j i assume a: "j \<in> set js" "i \<in> set (ws j)"
    then have "set (ws tid) \<inter> set (ws j) = {}" using Cons.prems(2,3) by auto
    with a Cons.prems(4,6) show "i < m \<and> store_all new (ws tid) mem ! i = old ! i"
      by (auto simp: nth_store_all)
  qed
  then have "run_jobs f js (store_all new (ws tid) mem, h tid x) = Some (store_all new (concat (map ws js))
      (store_all new (ws tid) mem), foldl (\<lambda>x tid. h tid x) (h tid x) js)"
    using Cons.prems f(2) by (intro Cons.IH) auto
  with f(1) show ?case by simp
qed simp

section \<open>The reduction\<close>

lemma run_reduce_step:
  assumes "distinct js" "2 * s \<le> length buf"
  shows "run_jobs (reduce_step f s) js buf = Some (map (\<lambda>i. if i < s \<and> i \<in> set js
    then f (buf ! i) (buf ! (i + s)) else buf ! i) [0..<length buf])"
  using assms
proof (induction js arbitrary: buf)
  case Nil
  then show ?case by (simp add: map_nth)
next
  case (Cons j js)
  show ?case
  proof (cases "j < s")
    case True
    let ?b = "buf[j := f (buf ! j) (buf ! (j + s))]"
    have "reduce_step f s j buf = Some ?b" using True Cons.prems by (simp add: reduce_step_def)
    moreover have "map (\<lambda>i. if i < s \<and> i \<in> set js then f (?b ! i) (?b ! (i + s)) else ?b ! i) [0..<length ?b] =
      map (\<lambda>i. if i < s \<and> i \<in> set (j # js) then f (buf ! i) (buf ! (i + s)) else buf ! i) [0..<length buf]"
      using True Cons.prems by (intro nth_equalityI) (auto simp: nth_list_update)
    ultimately show ?thesis using Cons.IH [of ?b] Cons.prems by simp
  next
    case False
    then have "reduce_step f s j buf = Some buf" by (simp add: reduce_step_def)
    with Cons.IH [of buf] Cons.prems False show ?thesis by (auto intro!: nth_equalityI)
  qed
qed

text \<open>Every phase runs every thread once.\<close>

definition full_sched :: "(nat \<Rightarrow> nat list \<Rightarrow> nat list) \<Rightarrow> bool" where
  "full_sched sched \<longleftrightarrow> (\<forall>p. all_threads (sched p [0..<ATTN_THREADS]))"

lemma full_schedD: "full_sched sched \<Longrightarrow> all_threads (sched p [0..<ATTN_THREADS])"
  by (simp add: full_sched_def)

text \<open>
  The tree of the reduction: a list of \<open>2 ^ k\<close> values is folded in half \<open>k\<close> times.
\<close>

primrec tree_fold :: "('f \<Rightarrow> 'f \<Rightarrow> 'f) \<Rightarrow> nat \<Rightarrow> 'f list \<Rightarrow> 'f" where
  "tree_fold f 0 xs = hd xs"
| "tree_fold f (Suc k) xs = tree_fold f k (map2 f (take (2 ^ k) xs) (drop (2 ^ k) xs))"

text \<open>
  What the threads of a block make of a list: each folds its strided share from \<open>e\<close>, then the tree
  combines the 128 results.
\<close>

definition block_fold :: "('f \<Rightarrow> 'f \<Rightarrow> 'f) \<Rightarrow> 'f \<Rightarrow> 'f list \<Rightarrow> 'f" where
  "block_fold f e xs = tree_fold f 7
     (map (\<lambda>tid. foldl f e (map ((!) xs) (strided tid (length xs)))) [0..<ATTN_THREADS])"

lemma reduce_round:
  assumes "all_threads js" "2 * s \<le> length buf" "s \<le> ATTN_THREADS"
  shows "\<exists>buf'. run_jobs (reduce_step f s) js buf = Some buf' \<and> length buf' = length buf \<and>
    take s buf' = map2 f (take s buf) (take s (drop s buf))"
proof -
  note js = all_threadsD [OF assms(1)]
  let ?b = "map (\<lambda>i. if i < s \<and> i \<in> set js then f (buf ! i) (buf ! (i + s)) else buf ! i) [0..<length buf]"
  have "take s ?b = map2 f (take s buf) (take s (drop s buf))"
    using assms(2,3) js(2) by (intro nth_equalityI) (auto simp: add.commute)
  with run_reduce_step [OF js(1) assms(2)] show ?thesis by (intro exI [of _ ?b]) simp
qed

lemma reduce_rounds_tree:
  assumes "full_sched sched" "2 * 2 ^ k \<le> length buf" "2 ^ k \<le> ATTN_THREADS"
  shows "\<exists>buf'. reduce_rounds f sched phase (2 ^ k) buf = Some buf' \<and> length buf' = length buf \<and>
    buf' ! 0 = tree_fold f (Suc k) (take (2 * 2 ^ k) buf)"
  using assms(2,3)
proof (induction k arbitrary: buf phase)
  case 0
  from reduce_round [OF full_schedD [OF assms(1), of phase] _ "0.prems"(2)] 0 obtain b where
    b: "run_jobs (reduce_step f 1) (sched phase [0..<ATTN_THREADS]) buf = Some b" "length b = length buf"
    "take 1 b = map2 f (take 1 buf) (take 1 (drop 1 buf))" by auto
  with 0 have "take 1 b = [b ! 0]" by (cases b) simp_all
  moreover from 0 have "take 2 buf = [buf ! 0, buf ! 1]" "take 1 buf = [buf ! 0]" "take 1 (drop 1 buf) = [buf ! 1]"
    by (cases buf; cases "tl buf"; simp)+
  ultimately have "b ! 0 = tree_fold f (Suc 0) (take 2 buf)" using b(3) by simp
  with b(1,2) show ?case by (subst reduce_rounds.simps) (simp add: reduce_rounds.simps [of _ _ _ 0])
next
  case (Suc k)
  let ?s = "2 ^ Suc k"
  from reduce_round [OF full_schedD [OF assms(1), of phase] Suc.prems] obtain b where
    b: "run_jobs (reduce_step f ?s) (sched phase [0..<ATTN_THREADS]) buf = Some b" "length b = length buf"
    "take ?s b = map2 f (take ?s buf) (take ?s (drop ?s buf))" by blast
  from Suc.IH [of b "Suc phase"] Suc.prems b(2) obtain b' where
    b': "reduce_rounds f sched (Suc phase) (2 ^ k) b = Some b'" "length b' = length b"
    "b' ! 0 = tree_fold f (Suc k) (take ?s b)" by auto
  have "take ?s (take (2 * ?s) buf) = take ?s buf" "drop ?s (take (2 * ?s) buf) = take ?s (drop ?s buf)"
    by (simp_all add: drop_take)
  with b(3) have "tree_fold f (Suc (Suc k)) (take (2 * ?s) buf) = tree_fold f (Suc k) (take ?s b)"
    by (simp only: tree_fold.simps)
  with b(1,2) b' show ?case by (subst reduce_rounds.simps) simp
qed

lemma block_reduce_tree:
  assumes "full_sched sched" "length buf = ATTN_THREADS"
  shows "\<exists>buf'. block_reduce f sched phase buf = Some (tree_fold f 7 buf, buf') \<and> length buf' = ATTN_THREADS"
proof -
  have "2 * 2 ^ 6 \<le> length buf" "2 ^ 6 \<le> ATTN_THREADS" "take (2 * 2 ^ 6) buf = buf"
    "ATTN_THREADS div 2 = 2 ^ 6" "Suc 6 = 7" "0 < length buf"
    using assms(2) by (simp_all add: ATTN_THREADS_def)
  with reduce_rounds_tree [OF assms(1), of 6 buf f phase] assms(2) show ?thesis
    by (auto simp: block_reduce_def simp del: tree_fold.simps)
qed

section \<open>Every value once\<close>

text \<open>
  \<open>combines f xs v\<close>: the value \<open>v\<close> is what \<open>f\<close> makes of the members of \<open>xs\<close>, each used once, in some
  order and some bracketing.
\<close>

inductive combines :: "('f \<Rightarrow> 'f \<Rightarrow> 'f) \<Rightarrow> 'f multiset \<Rightarrow> 'f \<Rightarrow> bool" for f where
  one: "combines f {#x#} x"
| two: "combines f xs a \<Longrightarrow> combines f ys b \<Longrightarrow> combines f (xs + ys) (f a b)"

lemma combines_foldl: "combines f (add_mset e (mset xs)) (foldl f e xs)"
proof (induction xs rule: rev_induct)
  case (snoc x xs)
  from combines.two [OF snoc combines.one [of f x]] show ?case by (simp add: add_mset_commute)
qed (simp add: combines.one)

text \<open>A tree over combined values combines what its leaves combine.\<close>

lemma sum_list_halves:
  fixes As :: "'f multiset list"
  assumes "length As = n + n"
  shows "sum_list (map2 (+) (take n As) (drop n As)) = sum_list As"
proof -
  have "sum_list (map2 (+) Bs Cs) = sum_list Bs + sum_list Cs" if "length Bs = length Cs"
    for Bs Cs :: "'f multiset list"
    using that by (induction Bs Cs rule: list_induct2) simp_all
  from this [of "take n As" "drop n As"] assms show ?thesis
    by (simp add: sum_list_append [symmetric] del: sum_list_append)
qed

lemma combines_tree:
  "length xs = 2 ^ k \<Longrightarrow> list_all2 (combines f) As xs \<Longrightarrow> combines f (sum_list As) (tree_fold f k xs)"
proof (induction k arbitrary: xs As)
  case 0
  then show ?case by (cases xs) (auto simp: list_all2_Cons2)
next
  case (Suc k)
  let ?n = "(2 :: nat) ^ k"
  have len: "length As = ?n + ?n" "length xs = ?n + ?n" using Suc.prems list_all2_lengthD by fastforce+
  have "list_all2 (combines f) (map2 (+) (take ?n As) (drop ?n As)) (map2 f (take ?n xs) (drop ?n xs))"
    using Suc.prems(2) len by (auto simp: list_all2_conv_all_nth intro!: combines.two)
  from Suc.IH [OF _ this] len show ?case by (simp add: sum_list_halves)
qed

lemma combines_block_fold:
  "combines f (replicate_mset ATTN_THREADS e + mset xs) (block_fold f e xs)"
proof -
  let ?g = "\<lambda>tid. map ((!) xs) (strided tid (length xs))" and ?js = "[0..<ATTN_THREADS]"
  let ?As = "map (\<lambda>tid. add_mset e (mset (?g tid))) ?js"
  have "list_all2 (combines f) ?As (map (\<lambda>tid. foldl f e (?g tid)) ?js)"
    by (simp add: list_all2_conv_all_nth combines_foldl del: mset_map)
  then have "combines f (sum_list ?As) (block_fold f e xs)"
    unfolding block_fold_def by (rule combines_tree [rotated]) (simp add: ATTN_THREADS_def)
  moreover have "sum_list (map (\<lambda>tid. add_mset e (mset (?g tid))) js) =
      replicate_mset (length js) e + mset (concat (map ?g js))" for js
    by (induction js) simp_all
  moreover have "mset (concat (map ?g ?js)) = mset xs"
  proof -
    have "concat (map ?g ?js) = map ((!) xs) (concat (map (\<lambda>tid. strided tid (length xs)) ?js))"
      by (simp add: map_concat comp_def)
    then have "mset (concat (map ?g ?js)) = image_mset ((!) xs) (mset [0..<length xs])"
      by (simp only: mset_map mset_strides [OF all_threads_upt])
    also have "\<dots> = mset xs" by (simp only: mset_map [symmetric] map_nth)
    finally show ?thesis .
  qed
  ultimately show ?thesis by simp
qed

section \<open>The reduction of a context\<close>

text \<open>
  C28: Each of the 128 threads of a block folds the positions of its stride and \<open>block_reduce\<close> combines
  what they leave in shared memory: in whatever order the threads run between two barriers, every
  thread reads the same result, in which every position of the context is taken in exactly once
  (and the start value once per thread). This holds for any operation, be it a rounded addition.
\<close>

theorem block_reduce_takes_every_position:
  assumes "full_sched sched"
  shows "\<exists>buf. block_reduce f sched phase
      (map (\<lambda>tid. foldl f e (map ((!) xs) (strided tid (length xs)))) [0..<ATTN_THREADS]) =
        Some (block_fold f e xs, buf) \<and> length buf = ATTN_THREADS \<and>
    combines f (replicate_mset ATTN_THREADS e + mset xs) (block_fold f e xs)"
proof -
  have "length (map (\<lambda>tid. foldl f e (map ((!) xs) (strided tid (length xs)))) [0..<ATTN_THREADS]) = ATTN_THREADS"
    by simp
  from block_reduce_tree [OF assms this] combines_block_fold [of f e xs] show ?thesis
    unfolding block_fold_def by blast
qed

theorem block_reduce_takes_every_position_witness:
  "\<exists>buf. block_reduce (+) (\<lambda>_. rev) 1
      (map (\<lambda>tid. foldl (+) 0 (map ((!) [4, 5, 6 :: nat]) (strided tid 3))) [0..<ATTN_THREADS]) =
    Some (block_fold (+) 0 [4, 5, 6], buf)"
proof -
  have "full_sched (\<lambda>_. rev)" by (simp add: full_sched_def all_threads_def)
  note R = block_reduce_takes_every_position [OF this, of "(+)" 1 0 "[4, 5, 6 :: nat]"]
  have "length [4, 5, 6 :: nat] = 3" by simp
  with R show ?thesis by metis
qed

end
