(* ===== verification/Attention.thy ===== *)
theory Attention
  imports Cpu
begin

text \<open>
  Causal attention through block tables in the host-memory backend, \<open>paged_attention\<close> of
  \<open>cpu.rs\<close>. Float operations are a record of functions; nothing is assumed of them. The
  specification \<open>dense_attention\<close> knows no blocks: it works on the list of K/V entries of each
  context. The main lemma shows the two equal for every batch the validation accepts.
\<close>

section \<open>The code\<close>

record 'f arith =
  f_zero :: 'f
  f_one :: 'f
  f_neg_inf :: 'f
  f_of_nat :: "nat \<Rightarrow> 'f"
  f_add :: "'f \<Rightarrow> 'f \<Rightarrow> 'f"
  f_sub :: "'f \<Rightarrow> 'f \<Rightarrow> 'f"
  f_mul :: "'f \<Rightarrow> 'f \<Rightarrow> 'f"
  f_div :: "'f \<Rightarrow> 'f \<Rightarrow> 'f"
  f_max :: "'f \<Rightarrow> 'f \<Rightarrow> 'f"
  f_exp :: "'f \<Rightarrow> 'f"
  f_sqrt :: "'f \<Rightarrow> 'f"
  f_sum :: "'f list \<Rightarrow> 'f"

definition attn_scale :: "'f arith \<Rightarrow> nat \<Rightarrow> 'f" where
  "attn_scale fp d = f_div fp (f_one fp) (f_sqrt fp (f_of_nat fp d))"

text \<open>\<open>entry(t)\<close>: where position \<open>t\<close> of the context has its head's share of an entry.\<close>

definition head_offset :: "CacheConfig \<Rightarrow> nat \<Rightarrow> BlockId list \<Rightarrow> nat \<Rightarrow> nat \<Rightarrow> nat option" where
  "head_offset c layer table hk t = do {
     block \<leftarrow> nth_at table (t div block_size c);
     Some (slot_offset c layer (new_slot block (t mod block_size c)) + hk * head_dim c) }"

definition head_score :: "'f arith \<Rightarrow> 'f CpuBackend \<Rightarrow> nat \<Rightarrow> BlockId list \<Rightarrow> nat \<Rightarrow> 'f list \<Rightarrow> nat \<Rightarrow>
    'f option" where
  "head_score fp b layer table hk qh t = do {
     off \<leftarrow> head_offset (cpu_config b) layer table hk t;
     k \<leftarrow> read_slice off (head_dim (cpu_config b)) (cpu_k b);
     Some (f_mul fp (f_sum fp (map2 (f_mul fp) qh k)) (attn_scale fp (head_dim (cpu_config b)))) }"

text \<open>The weighted sum of the value rows, in the order of the positions.\<close>

fun accumulate :: "'f arith \<Rightarrow> 'f CpuBackend \<Rightarrow> nat \<Rightarrow> BlockId list \<Rightarrow> nat \<Rightarrow> (nat \<times> 'f) list \<Rightarrow>
    'f list \<Rightarrow> 'f list option" where
  "accumulate fp b layer table hk [] oh = Some oh"
| "accumulate fp b layer table hk ((t, w) # ws) oh = do {
     off \<leftarrow> head_offset (cpu_config b) layer table hk t;
     v \<leftarrow> read_slice off (head_dim (cpu_config b)) (cpu_v b);
     accumulate fp b layer table hk ws (map2 (\<lambda>o' x. f_add fp o' (f_mul fp w x)) oh v) }"

definition attn_head :: "'f arith \<Rightarrow> 'f CpuBackend \<Rightarrow> nat \<Rightarrow> BlockId list \<Rightarrow> nat \<Rightarrow> nat \<Rightarrow> 'f list \<Rightarrow>
    'f list option" where
  "attn_head fp b layer table hk pos qh = do {
     scores \<leftarrow> those (map (head_score fp b layer table hk qh) [0..<pos + 1]);
     let mx = foldl (f_max fp) (f_neg_inf fp) scores;
     let weights = map (\<lambda>w. f_exp fp (f_sub fp w mx)) scores;
     let total = foldl (f_add fp) (f_zero fp) weights;
     oh \<leftarrow> accumulate fp b layer table hk (enumerate 0 weights)
       (replicate (head_dim (cpu_config b)) (f_zero fp));
     Some (map (\<lambda>o'. f_div fp o' total) oh) }"

text \<open>The rows of the batch, each with its block table and its position in the context.\<close>

definition query_list :: "AttentionSeq list \<Rightarrow> (BlockId list \<times> nat) list" where
  "query_list seqs = concat (map (\<lambda>s. map (\<lambda>i.
     (as_block_table s, as_context_len s - as_num_queries s + i)) [0..<as_num_queries s]) seqs)"

fun attn_rows :: "'f arith \<Rightarrow> 'f CpuBackend \<Rightarrow> nat \<Rightarrow> nat \<Rightarrow> 'f list \<Rightarrow>
    ((nat \<times> BlockId list \<times> nat) \<times> nat) list \<Rightarrow> 'f list \<Rightarrow> 'f list option" where
  "attn_rows fp b layer heads q [] out = Some out"
| "attn_rows fp b layer heads q (((row, table, pos), h) # jobs) out =
     (let d = head_dim (cpu_config b); share = heads div num_kv_heads (cpu_config b);
          at = (row * heads + h) * d in do {
      qh \<leftarrow> read_slice at d q;
      oh \<leftarrow> attn_head fp b layer table (h div share) pos qh;
      out \<leftarrow> write_slice at oh out;
      attn_rows fp b layer heads q jobs out })"

definition cpu_paged_attention :: "'f arith \<Rightarrow> nat \<Rightarrow> AttentionSeq list \<Rightarrow> 'f list \<Rightarrow> 'f list \<Rightarrow>
    'f CpuBackend \<Rightarrow> (unit, 'f list) cache_res" where
  "cpu_paged_attention fp layer seqs q out b =
     bind_res (check_attention (cpu_config b) layer seqs (length q) (length out)) (\<lambda>heads _.
       if num_kv_heads (cpu_config b) = 0 then Panic
       else unwrap_res (attn_rows fp b layer heads q
              (List.product (enumerate 0 (query_list seqs)) [0..<heads]) out) (\<lambda>out. Ok out ()))"

section \<open>Attention over a contiguous context\<close>

text \<open>The same float operations, on a list with the K and V entry of every position.\<close>

definition head_part :: "nat \<Rightarrow> nat \<Rightarrow> 'f list \<Rightarrow> 'f list" where
  "head_part d hk xs = take d (drop (hk * d) xs)"

definition dense_head :: "'f arith \<Rightarrow> nat \<Rightarrow> nat \<Rightarrow> ('f list \<times> 'f list) list \<Rightarrow> 'f list \<Rightarrow> 'f list" where
  "dense_head fp d hk kvs qh =
     (let scores = map (\<lambda>(k, v). f_mul fp (f_sum fp (map2 (f_mul fp) qh (head_part d hk k)))
            (attn_scale fp d)) kvs;
          mx = foldl (f_max fp) (f_neg_inf fp) scores;
          weights = map (\<lambda>w. f_exp fp (f_sub fp w mx)) scores;
          total = foldl (f_add fp) (f_zero fp) weights;
          oh = foldl (\<lambda>oh (w, k, v). map2 (\<lambda>o' x. f_add fp o' (f_mul fp w x)) oh (head_part d hk v))
            (replicate d (f_zero fp)) (zip weights kvs) in
      map (\<lambda>o'. f_div fp o' total) oh)"

text \<open>
  The \<open>j\<close>-th vector of the output belongs to query row \<open>j div heads\<close> and head \<open>j mod heads\<close>;
  \<open>share\<close> query heads read the same K/V head.
\<close>

definition dense_attention :: "'f arith \<Rightarrow> nat \<Rightarrow> nat \<Rightarrow> nat \<Rightarrow> ('f list \<times> 'f list) list list \<Rightarrow> 'f list \<Rightarrow>
    'f list" where
  "dense_attention fp d heads share contexts q =
     concat (map (\<lambda>j. dense_head fp d (j mod heads div share) (contexts ! (j div heads))
       (take d (drop (j * d) q))) [0..<length contexts * heads])"

section \<open>Reading through a block table\<close>

lemma those_map_Some: "\<forall>x \<in> set xs. f x = Some (g x) \<Longrightarrow> those (map f xs) = Some (map g xs)"
  by (induction xs) auto

text \<open>All positions up to \<open>n\<close> of a table lie in the pool.\<close>

definition table_in_pool :: "CacheConfig \<Rightarrow> BlockId list \<Rightarrow> nat \<Rightarrow> bool" where
  "table_in_pool c table n \<longleftrightarrow> 0 < block_size c \<and>
     (\<forall>t < n. t div block_size c < length table \<and> index (table ! (t div block_size c)) < num_blocks c)"

lemma head_read:
  assumes "table_in_pool c table n" "t < n" "layer < num_layers c" "hk < num_kv_heads c"
    and "length buf = plane_len c"
  shows "\<exists>off. head_offset c layer table hk t = Some off \<and> read_slice off (head_dim c) buf =
    Some (head_part (head_dim c) hk
      (plane_entry c buf layer (new_slot (table ! (t div block_size c)) (t mod block_size c))))"
proof -
  let ?s = "new_slot (table ! (t div block_size c)) (t mod block_size c)"
  from assms(1-3) have p: "in_pool c layer ?s" "t div block_size c < length table"
    by (simp_all add: table_in_pool_def in_pool_def)
  have "Suc hk * head_dim c \<le> num_kv_heads c * head_dim c" using assms(4) by (intro mult_le_mono1) simp
  then have w: "hk * head_dim c + head_dim c \<le> entry_elems c"
    by (simp add: entry_elems_def add.commute)
  have fit: "slot_offset c layer ?s + entry_elems c \<le> length buf"
    using slot_fits [OF p(1)] assms(5) by simp
  have "min (entry_elems c - hk * head_dim c) (head_dim c) = head_dim c" using w by simp
  then have "read_slice (slot_offset c layer ?s + hk * head_dim c) (head_dim c) buf =
      Some (head_part (head_dim c) hk (plane_entry c buf layer ?s))"
    using fit w by (simp add: read_slice_def head_part_def plane_entry_def drop_take add.commute min.commute)
  with p(2) show ?thesis by (simp add: head_offset_def nth_at_def)
qed

lemma accumulate_eq:
  assumes "table_in_pool (cpu_config b) table n" "layer < num_layers (cpu_config b)"
    "hk < num_kv_heads (cpu_config b)" "cpu_inv b" "i + length ws \<le> n"
  shows "accumulate fp b layer table hk (enumerate i ws) oh = Some (foldl (\<lambda>oh (w, k, v).
    map2 (\<lambda>o' x. f_add fp o' (f_mul fp w x)) oh (head_part (head_dim (cpu_config b)) hk v)) oh
      (zip ws (drop i (gather (cpu_entry b layer) (block_size (cpu_config b)) table n))))"
  using assms(5)
proof (induction ws arbitrary: i oh)
  case Nil
  then show ?case by simp
next
  case (Cons w ws)
  let ?c = "cpu_config b"
  let ?s = "new_slot (table ! (i div block_size ?c)) (i mod block_size ?c)"
  have len: "length (cpu_v b) = plane_len ?c" using assms(4) by (simp add: cpu_inv_def)
  from Cons.prems have i: "i < n" by simp
  obtain k v where e: "cpu_entry b layer ?s = (k, v)" by force
  with head_read [OF assms(1) i assms(2,3) len] obtain off where
    off: "head_offset ?c layer table hk i = Some off"
      "read_slice off (head_dim ?c) (cpu_v b) = Some (head_part (head_dim ?c) hk v)"
    by (auto simp: cpu_entry_def)
  have g: "drop i (gather (cpu_entry b layer) (block_size ?c) table n) =
      (k, v) # drop (Suc i) (gather (cpu_entry b layer) (block_size ?c) table n)"
    using i e by (simp add: Cons_nth_drop_Suc [symmetric])
  have "Suc i + length ws \<le> n" using Cons.prems by simp
  from Cons.IH [OF this] show ?case by (simp add: off g)
qed

lemma attn_head_eq:
  assumes "table_in_pool (cpu_config b) table (pos + 1)" "layer < num_layers (cpu_config b)"
    "hk < num_kv_heads (cpu_config b)" "cpu_inv b"
  shows "attn_head fp b layer table hk pos qh = Some (dense_head fp (head_dim (cpu_config b)) hk
    (gather (cpu_entry b layer) (block_size (cpu_config b)) table (pos + 1)) qh)"
proof -
  let ?c = "cpu_config b"
  have len: "length (cpu_k b) = plane_len ?c" using assms(4) by (simp add: cpu_inv_def)
  let ?g = "gather (cpu_entry b layer) (block_size ?c) table (pos + 1)"
  let ?score = "\<lambda>(k, v). f_mul fp (f_sum fp (map2 (f_mul fp) qh (head_part (head_dim ?c) hk k)))
    (attn_scale fp (head_dim ?c))"
  have "\<forall>t \<in> set [0..<pos + 1]. head_score fp b layer table hk qh t = Some (?score (?g ! t))"
  proof
    fix t assume "t \<in> set [0..<pos + 1]"
    then have t: "t < pos + 1" by auto
    from head_read [OF assms(1) t assms(2,3) len] obtain off where
      "head_offset ?c layer table hk t = Some off" "read_slice off (head_dim ?c) (cpu_k b) =
        Some (head_part (head_dim ?c) hk (plane_entry ?c (cpu_k b) layer
          (new_slot (table ! (t div block_size ?c)) (t mod block_size ?c))))" by blast
    with t show "head_score fp b layer table hk qh t = Some (?score (?g ! t))"
      by (simp add: head_score_def cpu_entry_def del: upt_Suc)
  qed
  from those_map_Some [OF this] have "those (map (head_score fp b layer table hk qh) [0..<pos + 1]) =
      Some (map (\<lambda>t. ?score (?g ! t)) [0..<pos + 1])" .
  also have "map (\<lambda>t. ?score (?g ! t)) [0..<pos + 1] = map ?score ?g"
    by (rule nth_equalityI) (simp_all del: upt_Suc)
  finally have sc: "those (map (head_score fp b layer table hk qh) [0..<pos + 1]) = Some (map ?score ?g)" .
  let ?ws = "map (\<lambda>w. f_exp fp (f_sub fp w (foldl (f_max fp) (f_neg_inf fp) (map ?score ?g)))) (map ?score ?g)"
  have "0 + length ?ws \<le> pos + 1" by simp
  note acc = accumulate_eq [OF assms(1-4) this]
  show ?thesis
    unfolding attn_head_def dense_head_def Let_def sc bind.bind_lunit acc by simp
qed

section \<open>A whole batch\<close>

lemma length_weighted_sum:
  "\<forall>(w, k, v) \<in> set wkvs. hk * d + d \<le> length v \<Longrightarrow> length oh = d \<Longrightarrow>
   length (foldl (\<lambda>oh (w, k, v). map2 (\<lambda>o' x. f_add fp o' (f_mul fp w x)) oh (head_part d hk v)) oh wkvs) = d"
proof (induction wkvs arbitrary: oh)
  case (Cons x wkvs)
  then show ?case by (cases x) (auto simp: head_part_def)
qed simp

lemma length_dense_head:
  assumes "\<forall>(k, v) \<in> set kvs. hk * d + d \<le> length v"
  shows "length (dense_head fp d hk kvs qh) = d"
proof -
  have "\<forall>(w, k, v) \<in> set (zip ws kvs). hk * d + d \<le> length v" for ws :: "'a list"
    using assms by (auto dest: set_zip_rightD)
  from length_weighted_sum [OF this, of "replicate d (f_zero fp)" fp] show ?thesis
    by (simp add: dense_head_def Let_def)
qed

definition job_result :: "'f arith \<Rightarrow> 'f CpuBackend \<Rightarrow> nat \<Rightarrow> nat \<Rightarrow> 'f list \<Rightarrow>
    (nat \<times> BlockId list \<times> nat) \<times> nat \<Rightarrow> 'f list" where
  "job_result fp b layer heads q job =
     (case job of ((row, table, pos), h) \<Rightarrow>
        dense_head fp (head_dim (cpu_config b)) (h div (heads div num_kv_heads (cpu_config b)))
          (gather (cpu_entry b layer) (block_size (cpu_config b)) table (pos + 1))
          (take (head_dim (cpu_config b)) (drop ((row * heads + h) * head_dim (cpu_config b)) q)))"

definition job_ok :: "'f CpuBackend \<Rightarrow> nat \<Rightarrow> nat \<Rightarrow> (nat \<times> BlockId list \<times> nat) \<times> nat \<Rightarrow> bool" where
  "job_ok b heads cell job =
     (case job of ((row, table, pos), h) \<Rightarrow> row * heads + h = cell \<and> h < heads \<and>
        table_in_pool (cpu_config b) table (pos + 1))"

lemma entry_lengths:
  assumes "cpu_inv b" "in_pool (cpu_config b) l s"
  shows "length (fst (cpu_entry b l s)) = entry_elems (cpu_config b)"
    "length (snd (cpu_entry b l s)) = entry_elems (cpu_config b)"
  using assms by (simp_all add: cpu_entry_def cpu_inv_def)

lemma gather_lengths:
  assumes "cpu_inv b" "layer < num_layers (cpu_config b)" "table_in_pool (cpu_config b) table n"
    and "(k, v) \<in> set (gather (cpu_entry b layer) (block_size (cpu_config b)) table n)"
  shows "length v = entry_elems (cpu_config b)"
proof -
  from assms(4) obtain t where t: "t < n"
    "(k, v) = cpu_entry b layer (new_slot (table ! (t div block_size (cpu_config b)))
      (t mod block_size (cpu_config b)))" by (auto simp: in_set_conv_nth)
  then have p: "in_pool (cpu_config b) layer (new_slot (table ! (t div block_size (cpu_config b)))
      (t mod block_size (cpu_config b)))"
    using assms(2,3) by (simp add: table_in_pool_def in_pool_def)
  from entry_lengths(2) [OF assms(1) p] t(2) show ?thesis by (metis snd_conv)
qed

lemma head_index:
  fixes kv heads h :: nat
  assumes "kv dvd heads" "0 < kv" "0 < heads" "h < heads"
  shows "h div (heads div kv) < kv"
proof -
  from assms(1) obtain g where g: "heads = kv * g" by (elim dvdE)
  with assms(3) have "0 < g" by simp
  with g assms show ?thesis by (simp add: less_mult_imp_div_less)
qed

lemma attn_rows_ok:
  assumes "cpu_inv b" "layer < num_layers (cpu_config b)" "num_kv_heads (cpu_config b) dvd heads"
    "0 < num_kv_heads (cpu_config b)" "0 < heads"
    and "\<forall>i < length js. job_ok b heads (m + i) (js ! i)"
    and "(m + length js) * head_dim (cpu_config b) \<le> length q" "length out = length q"
  shows "attn_rows fp b layer heads q js out = Some (take (m * head_dim (cpu_config b)) out @
    concat (map (job_result fp b layer heads q) js) @ drop ((m + length js) * head_dim (cpu_config b)) out)"
  using assms(6-8)
proof (induction js arbitrary: m out)
  case Nil
  then show ?case by simp
next
  case (Cons job js)
  let ?c = "cpu_config b" and ?d = "head_dim (cpu_config b)"
  obtain row table pos h where job: "job = ((row, table, pos), h)" by (metis prod.exhaust)
  from Cons.prems(1) job have ok: "row * heads + h = m" "h < heads" "table_in_pool ?c table (pos + 1)"
    by (fastforce simp: job_ok_def)+
  let ?hk = "h div (heads div num_kv_heads ?c)"
  have hk: "?hk < num_kv_heads ?c" by (rule head_index [OF assms(3-5) ok(2)])
  note head = attn_head_eq [OF ok(3) assms(2) hk assms(1)]
  have fit: "m * ?d + ?d \<le> length q"
  proof -
    have "Suc m * ?d \<le> (m + length (job # js)) * ?d" by (intro mult_le_mono1) simp
    also note Cons.prems(2)
    finally show ?thesis by (simp add: add.commute)
  qed
  let ?r = "job_result fp b layer heads q job"
  have "Suc ?hk * ?d \<le> num_kv_heads ?c * ?d" using hk by (intro mult_le_mono1) simp
  then have w: "?hk * ?d + ?d \<le> entry_elems ?c" by (simp add: entry_elems_def add.commute)
  have len: "length ?r = ?d"
    using gather_lengths [OF assms(1,2) ok(3)] w
    by (auto simp: job job_result_def intro!: length_dense_head)
  let ?out = "take (m * ?d) out @ ?r @ drop (m * ?d + ?d) out"
  have "attn_rows fp b layer heads q (job # js) out = attn_rows fp b layer heads q js ?out"
    using fit Cons.prems(3) head len
    by (simp add: job Let_def ok(1) read_slice_def write_slice_def job_result_def)
  also have "\<dots> = Some (take ((m + 1) * ?d) ?out @ concat (map (job_result fp b layer heads q) js) @
      drop ((m + 1 + length js) * ?d) ?out)"
  proof (rule Cons.IH)
    show "\<forall>i < length js. job_ok b heads (m + 1 + i) (js ! i)"
      using Cons.prems(1) by (auto dest: spec [of _ "Suc _"])
    show "(m + 1 + length js) * ?d \<le> length q" using Cons.prems(2) by simp
    show "length ?out = length q" using fit len Cons.prems(3) by simp
  qed
  also have "take ((m + 1) * ?d) ?out = take (m * ?d) out @ ?r"
    using fit len Cons.prems(3) by simp
  also have "drop ((m + 1 + length js) * ?d) ?out = drop ((m + length (job # js)) * ?d) out"
    using fit len Cons.prems(3) by (simp add: algebra_simps)
  finally show ?case by simp
qed

lemma query_list_ok:
  assumes "0 < block_size c" "\<forall>s \<in> set seqs. seq_in_pool c s" "(table, pos) \<in> set (query_list seqs)"
  shows "table_in_pool c table (pos + 1)"
proof -
  from assms(3) obtain s i where s: "s \<in> set seqs" "i < as_num_queries s" "table = as_block_table s"
    "pos = as_context_len s - as_num_queries s + i" by (auto simp: query_list_def)
  with assms(2) have ok: "seq_in_pool c s" by blast
  with s have "pos + 1 \<le> as_context_len s" by (auto simp: seq_in_pool_def)
  with ok assms(1) s(3) show ?thesis by (auto simp: seq_in_pool_def table_in_pool_def)
qed

lemma length_query_list: "length (query_list seqs) = query_rows seqs"
  by (simp add: query_list_def query_rows_def length_concat comp_def)

text \<open>The contexts of the batch's query rows, read through the block tables.\<close>

definition row_contexts :: "'f CpuBackend \<Rightarrow> nat \<Rightarrow> AttentionSeq list \<Rightarrow> ('f list \<times> 'f list) list list" where
  "row_contexts b layer seqs = map (\<lambda>(table, pos).
     gather (cpu_entry b layer) (block_size (cpu_config b)) table (pos + 1)) (query_list seqs)"

lemma paged_attention_ok:
  assumes "cpu_inv b" "0 < block_size (cpu_config b)" "0 < num_kv_heads (cpu_config b)"
    and "check_attention (cpu_config b) layer seqs (length q) (length out) = Ok heads ()"
  shows "cpu_paged_attention fp layer seqs q out b = Ok (dense_attention fp (head_dim (cpu_config b))
    heads (heads div num_kv_heads (cpu_config b)) (row_contexts b layer seqs) q) ()"
proof -
  let ?c = "cpu_config b" and ?d = "head_dim (cpu_config b)"
  note A = check_attention_ok [OF assms(2,4)]
  let ?js = "List.product (enumerate 0 (query_list seqs)) [0..<heads]"
  have len: "length ?js = query_rows seqs * heads" by (simp add: length_query_list)
  have nth: "?js ! j = ((j div heads, query_list seqs ! (j div heads)), j mod heads)"
    and in_range: "j div heads < query_rows seqs" "j mod heads < heads"
    if "j < query_rows seqs * heads" for j
  proof -
    from that show r: "j div heads < query_rows seqs" by (simp add: less_mult_imp_div_less)
    from that show h: "j mod heads < heads" by (cases heads) simp_all
    from that r h show "?js ! j = ((j div heads, query_list seqs ! (j div heads)), j mod heads)"
      by (simp add: product_nth length_query_list nth_enumerate_eq)
  qed
  show ?thesis
  proof (cases "query_rows seqs = 0")
    case True
    with A(4) have "length q = 0" by simp
    moreover from len have "?js = []" unfolding True mult_0 length_0_conv .
    ultimately show ?thesis using A(3) True assms(3,4)
      by (simp add: cpu_paged_attention_def dense_attention_def row_contexts_def length_query_list)
  next
    case False
    with A(5) have H: "num_kv_heads ?c dvd heads" "0 < heads"
      "length q = query_rows seqs * heads * ?d" by simp_all
    have jobs: "\<forall>j < length ?js. job_ok b heads (0 + j) (?js ! j)"
    proof (intro allI impI)
      fix j assume "j < length ?js"
      with length_query_list [of seqs] have j: "j < query_rows seqs * heads" by simp
      obtain table pos where q: "query_list seqs ! (j div heads) = (table, pos)" by force
      have "(table, pos) \<in> set (query_list seqs)"
        using in_range(1) [OF j] length_query_list [of seqs] q by (metis nth_mem)
      from query_list_ok [OF assms(2) A(2) this] nth [OF j] in_range [OF j] q
      show "job_ok b heads (0 + j) (?js ! j)" by (simp add: job_ok_def)
    qed
    have "attn_rows fp b layer heads q ?js out = Some (concat (map (job_result fp b layer heads q) ?js))"
      using attn_rows_ok [OF assms(1) A(1) H(1) assms(3) H(2) jobs, of q out fp] A(3) H(3)
      by (simp add: length_query_list)
    also have "map (job_result fp b layer heads q) ?js = map (\<lambda>j. dense_head fp ?d
        (j mod heads div (heads div num_kv_heads ?c)) (row_contexts b layer seqs ! (j div heads))
        (take ?d (drop (j * ?d) q))) [0..<length (row_contexts b layer seqs) * heads]"
    proof (rule nth_equalityI)
      fix j assume "j < length (map (job_result fp b layer heads q) ?js)"
      with length_query_list [of seqs] have j: "j < query_rows seqs * heads" by simp
      obtain table pos where q: "query_list seqs ! (j div heads) = (table, pos)" by force
      with j in_range [OF j] nth [OF j] len
      show "map (job_result fp b layer heads q) ?js ! j = map (\<lambda>j. dense_head fp ?d
        (j mod heads div (heads div num_kv_heads ?c)) (row_contexts b layer seqs ! (j div heads))
        (take ?d (drop (j * ?d) q))) [0..<length (row_contexts b layer seqs) * heads] ! j"
        by (simp add: job_result_def row_contexts_def length_query_list)
    qed (simp add: len row_contexts_def length_query_list)
    finally show ?thesis
      using assms(3,4) A(3) by (simp add: cpu_paged_attention_def dense_attention_def)
  qed
qed

end
