(* ===== verification/Kv_Contexts.thy ===== *)
theory Kv_Contexts
  imports Attention Sched_Props
begin

text \<open>
  Block tables over a K/V store: what a sequence reads back through its table when the
  allocator, the scheduler's copy requests and the backend work together. Everything is
  proved inside the interface \<open>kv_store\<close> and holds for each of its instances.
\<close>

lemma gather_cong:
  assumes "\<And>t. t < n \<Longrightarrow> st (new_slot (xs ! (t div bs)) (t mod bs)) = st' (new_slot (ys ! (t div bs)) (t mod bs))"
  shows "gather st bs xs n = gather st' bs ys n"
  using assms by (simp add: gather_def)

lemma gather_Suc:
  "gather st bs xs (Suc n) = gather st bs xs n @ [st (new_slot (xs ! (n div bs)) (n mod bs))]"
  by (simp add: gather_def)

lemma position_block:
  assumes "table_ok bs t" "p < bt_tokens t"
  shows "p div bs < length (bt_blocks t)" "p mod bs < bs"
  using resolve_ok(2) [OF assms] table_okD(1) [OF assms(1)] by simp_all

context kv_store
begin

text \<open>After the copies a step asked for, a context reads as it did before the step.\<close>

lemma restored_gather:
  assumes inv: "inv b" and cfg: "bs = block_size (config_of b)" and l: "l < num_layers (config_of b)"
    and pairs: "\<forall>(s, d) \<in> set cs. index s < num_blocks (config_of b) \<and> index d < num_blocks (config_of b)"
    and ok: "table_ok bs t" "\<forall>x \<in> set xs. index x < num_blocks (config_of b)"
    and pre: "prefix (bt_blocks t) (map (copy_origin cs) xs)"
    and op: "copy_blocks copy_block cs b = Ok () b'"
  shows "gather (entry_at b' l) bs xs (bt_tokens t) = gather (entry_at b l) bs (bt_blocks t) (bt_tokens t)"
proof (rule gather_cong)
  fix p assume p: "p < bt_tokens t"
  note P = position_block [OF ok(1) p]
  from pre have le: "length (bt_blocks t) \<le> length xs" by (metis length_map prefix_length_le)
  with P(1) have i: "p div bs < length xs" by simp
  with ok(2) P(2) l cfg have in1: "in_pool (config_of b) l (new_slot (xs ! (p div bs)) (p mod bs))"
    by (simp add: in_pool_def)
  from copies_ok [OF inv pairs] op have
    "entry_at b' l (new_slot (xs ! (p div bs)) (p mod bs)) =
     entry_at b l (new_slot (copy_origin cs (xs ! (p div bs))) (p mod bs))"
    using in1 by force
  also have "copy_origin cs (xs ! (p div bs)) = bt_blocks t ! (p div bs)"
    using prefix_nth [OF pre P(1)] i by simp
  finally show "entry_at b' l (new_slot (xs ! (p div bs)) (p mod bs)) =
    entry_at b l (new_slot (bt_blocks t ! (p div bs)) (p mod bs))" .
qed

text \<open>
  One token: the copy an append asks for, then the write at its slot. The table reads as its
  old context with the new entry, every other table of the pool as before.
\<close>

lemma append_write:
  assumes inv: "inv b" and cfg: "bs = block_size (config_of b)" "al_num_blocks a = num_blocks (config_of b)"
    and l: "l < num_layers (config_of b)"
    and a: "alloc_inv a" "cnt a = owned (t # ts)" "\<forall>u \<in> set (t # ts). table_ok bs u"
    and op: "append_token (t, a) = Ok (slot, cow) (t', a')"
    and len: "length k = entry_elems (config_of b)" "length v = entry_elems (config_of b)"
  shows "\<exists>b1 b2. copy_blocks copy_block (cow_list cow) b = Ok () b1 \<and>
    write_kv l slot k v b1 = Ok () b2 \<and> inv b2 \<and> config_of b2 = config_of b \<and>
    gather (entry_at b2 l) bs (bt_blocks t') (bt_tokens t') =
      gather (entry_at b l) bs (bt_blocks t) (bt_tokens t) @ [(k, v)] \<and>
    (\<forall>u \<in> set ts. \<forall>m < num_layers (config_of b).
       gather (entry_at b2 m) bs (bt_blocks u) (bt_tokens u) =
       gather (entry_at b m) bs (bt_blocks u) (bt_tokens u))"
proof -
  let ?c = "config_of b"
  have ok: "table_ok bs t" and h: "holds a t" using a(2,3) owned_holds [OF a(2)] by simp_all
  have "takes_block t a \<Longrightarrow> 0 < num_free a" using append_out_of_blocks [OF a(1) ok h] op by force
  from append_ok [OF a(1) ok h this] op have ap: "appended bs t a slot cow t' a'" by auto
  note A = appendedD [OF ap] and L = appended_last [OF ap]
  have own: "cnt a' x = count_list (bt_blocks t') x + owned ts x" for x
    using A(12) [of x] a(2) by simp
  have slot: "ps_block slot = bt_blocks t' ! (bt_tokens t div bs)" using A(7) by simp
  have slot_in: "ps_block slot \<in> set (bt_blocks t')" unfolding slot by (simp add: L(3))
  then have "0 < count_list (bt_blocks t') (ps_block slot)" by (simp add: count_list_0_iff neq0_conv [symmetric])
  with own [of "ps_block slot"] A(9) have lone: "owned ts (ps_block slot) = 0" by simp
  have other: "ps_block slot \<notin> set (bt_blocks u)" if u: "u \<in> set ts" for u
  proof -
    have "count_list (bt_blocks u) (ps_block slot) \<le> owned ts (ps_block slot)"
      using u by (auto simp: owned_def intro: member_le_sum_list)
    with lone show ?thesis by (simp add: count_list_0_iff)
  qed
  have held: "index x < num_blocks ?c" if "0 < cnt a x" for x using cnt_range [OF that] cfg(2) by simp
  have held': "index x < num_blocks ?c" if "0 < cnt a' x" for x
    using cnt_range [OF that] cfg(2) A(2) by (simp add: same_pool_def)
  have in_t': "index x < num_blocks ?c" if "x \<in> set (bt_blocks t')" for x
  proof -
    have "0 < count_list (bt_blocks t') x" using that by (simp add: count_list_0_iff neq0_conv [symmetric])
    then have "0 < cnt a' x" unfolding own by simp
    then show ?thesis by (rule held')
  qed
  have in_u: "index x < num_blocks ?c" "0 < cnt a x" if "u \<in> set (t # ts)" "x \<in> set (bt_blocks u)" for u x
    using owned_holds [OF a(2) that(1)] that(2) held by (auto simp: holds_def)
  have sp: "in_pool ?c l slot"
    using in_t' [OF slot_in] A(7) l table_okD(1) [OF ok] cfg(1) by (simp add: in_pool_def)
  have pairs: "\<forall>(x, y) \<in> set (cow_list cow). index x < num_blocks ?c \<and> index y < num_blocks ?c"
  proof (cases "unshared bs t a")
    case False
    then have "bt_tokens t mod bs \<noteq> 0" by (simp add: unshared_def)
    then have "last (bt_blocks t) \<in> set (bt_blocks t)" using room_tail(1) [OF ok] by simp
    with False A(8) in_u(1) [of t] in_t' [OF slot_in] show ?thesis by (simp add: cow_list_def)
  qed (use A(8) in \<open>simp add: cow_list_def\<close>)
  from copies_ok [OF inv pairs] obtain b1 where
    b1: "copy_blocks copy_block (cow_list cow) b = Ok () b1" "inv b1" "config_of b1 = ?c" by blast
  from write_ok [OF b1(2), of l slot k v] sp len b1(3) obtain b2 where
    b2: "write_kv l slot k v b1 = Ok () b2" "inv b2" "config_of b2 = ?c"
      "\<And>m s. in_pool ?c m s \<Longrightarrow> entry_at b2 m s = (if m = l \<and> s = slot then (k, v) else entry_at b1 m s)"
    by auto
  have away: "gather (entry_at b2 m) bs xs n = gather (entry_at b1 m) bs xs n"
    if "m < num_layers ?c" "\<And>p. p < n \<Longrightarrow> p div bs < length xs \<and> index (xs ! (p div bs)) < num_blocks ?c \<and>
      new_slot (xs ! (p div bs)) (p mod bs) \<noteq> slot" for m xs n
  proof (rule gather_cong)
    fix p assume "p < n"
    with that(1) that(2) [of p] have "in_pool ?c m (new_slot (xs ! (p div bs)) (p mod bs))"
      "new_slot (xs ! (p div bs)) (p mod bs) \<noteq> slot"
      using table_okD(1) [OF ok] cfg(1) by (simp_all add: in_pool_def)
    with b2(4) show "entry_at b2 m (new_slot (xs ! (p div bs)) (p mod bs)) =
      entry_at b1 m (new_slot (xs ! (p div bs)) (p mod bs))" by simp
  qed
  have "gather (entry_at b2 m) bs (bt_blocks u) (bt_tokens u) =
      gather (entry_at b m) bs (bt_blocks u) (bt_tokens u)"
    if u: "u \<in> set ts" and m: "m < num_layers ?c" for u m
  proof -
    have oku: "table_ok bs u" using a(3) u by simp
    have "prefix (bt_blocks u) (map (copy_origin (cow_list cow)) (bt_blocks u))"
      using appended_copy_fresh [OF ap] in_u(2) [of u] u by (simp add: map_idI)
    then have "gather (entry_at b1 m) bs (bt_blocks u) (bt_tokens u) =
        gather (entry_at b m) bs (bt_blocks u) (bt_tokens u)"
      using in_u(1) [of u] u by (intro restored_gather [OF inv cfg(1) m pairs oku _ _ b1(1)]) auto
    moreover have "gather (entry_at b2 m) bs (bt_blocks u) (bt_tokens u) =
        gather (entry_at b1 m) bs (bt_blocks u) (bt_tokens u)"
    proof (rule away [OF m])
      fix p assume "p < bt_tokens u"
      note P = position_block [OF oku this]
      then have "bt_blocks u ! (p div bs) \<in> set (bt_blocks u)" by simp
      with P other [OF u] in_u(1) [of u] u show "p div bs < length (bt_blocks u) \<and>
        index (bt_blocks u ! (p div bs)) < num_blocks ?c \<and> new_slot (bt_blocks u ! (p div bs)) (p mod bs) \<noteq> slot"
        by auto
    qed
    ultimately show ?thesis by simp
  qed
  moreover have "gather (entry_at b2 l) bs (bt_blocks t') (bt_tokens t') =
      gather (entry_at b l) bs (bt_blocks t) (bt_tokens t) @ [(k, v)]"
  proof -
    have "gather (entry_at b2 l) bs (bt_blocks t') (bt_tokens t) =
        gather (entry_at b1 l) bs (bt_blocks t') (bt_tokens t)"
    proof (rule away [OF l])
      fix p assume p: "p < bt_tokens t"
      then have P: "p div bs < length (bt_blocks t')"
        using position_block(1) [OF A(4), of p] A(5) by simp
      have "new_slot (bt_blocks t' ! (p div bs)) (p mod bs) \<noteq> slot"
      proof
        assume e: "new_slot (bt_blocks t' ! (p div bs)) (p mod bs) = slot"
        then have s: "bt_blocks t' ! (p div bs) = bt_blocks t' ! (bt_tokens t div bs)"
          "p mod bs = bt_tokens t mod bs" using A(7) by (auto simp: new_slot_def)
        with table_okD(3) [OF A(4)] P L(3) have "p div bs = bt_tokens t div bs"
          by (simp add: nth_eq_iff_index_eq)
        with s(2) p show False by (metis div_mult_mod_eq less_irrefl)
      qed
      with P in_t' show "p div bs < length (bt_blocks t') \<and> index (bt_blocks t' ! (p div bs)) < num_blocks ?c \<and>
        new_slot (bt_blocks t' ! (p div bs)) (p mod bs) \<noteq> slot" by simp
    qed
    also have "\<dots> = gather (entry_at b l) bs (bt_blocks t) (bt_tokens t)"
      using in_t' by (intro restored_gather [OF inv cfg(1) l pairs ok _ appended_restores [OF ok h ap] b1(1)]) auto
    finally have "gather (entry_at b2 l) bs (bt_blocks t') (bt_tokens t) = \<dots>" .
    moreover have "entry_at b2 l slot = (k, v)" using b2(4) [OF sp] by simp
    ultimately show ?thesis using A(5,7) by (simp add: gather_Suc)
  qed
  ultimately show ?thesis using b1 b2 by blast
qed

end

end
