(* ===== verification/Kv_Props.thy ===== *)
theory Kv_Props
  imports Kv_Contexts
begin

text \<open>
  What the host-memory backend promises to the cache's user: written entries read back and
  nothing else changes, copy-on-write keeps every context, a step's copies keep the contexts of
  the sequences it runs, and paged attention equals attention over the contiguous contexts.
\<close>

section \<open>Entries\<close>

definition demo_cpu :: "nat CpuBackend" where
  "demo_cpu = cpu_new 0 \<lparr>num_blocks = 4, block_size = 2, num_kv_heads = 1, head_dim = 1,
     num_layers = 1, dtype_bytes = 2\<rparr>"

lemma demo_cpu_simps [simp]:
  "cpu_inv demo_cpu" "cpu_config demo_cpu = \<lparr>num_blocks = 4, block_size = 2, num_kv_heads = 1,
     head_dim = 1, num_layers = 1, dtype_bytes = 2\<rparr>"
  by (simp_all add: demo_cpu_def cpu_inv_new) (simp add: cpu_new_def Let_def)

text \<open>
  C31: A batched write of the host backend stores the \<open>i\<close>-th piece of both buffers at the \<open>i\<close>-th
  destination and changes no other entry of any layer: reading back returns exactly what was
  written. The destinations must be distinct and in the pool.
\<close>

theorem cpu_batch_reads_back:
  assumes "cpu_inv b" "distinct dsts" "\<forall>d \<in> set dsts. in_pool (cpu_config b) layer d"
    and "length k = length dsts * entry_elems (cpu_config b)"
    and "length v = length dsts * entry_elems (cpu_config b)"
  shows "\<exists>b'. write_kv_batch (cpu_config b) cpu_write_kv layer dsts k v b = Ok () b' \<and> cpu_inv b' \<and>
    (\<forall>j < length dsts. cpu_read_kv layer (dsts ! j) (entry_elems (cpu_config b)) (entry_elems (cpu_config b)) b' =
       Ok (take (entry_elems (cpu_config b)) (drop (j * entry_elems (cpu_config b)) k),
           take (entry_elems (cpu_config b)) (drop (j * entry_elems (cpu_config b)) v)) b') \<and>
    (\<forall>l s. in_pool (cpu_config b) l s \<longrightarrow> l \<noteq> layer \<or> s \<notin> set dsts \<longrightarrow>
       cpu_entry b' l s = cpu_entry b l s)"
proof -
  from cpu.write_batch_ok [OF assms(1,3,2,4,5)] obtain b' where
    b': "write_kv_batch (cpu_config b) cpu_write_kv layer dsts k v b = Ok () b'" "cpu_inv b'"
    "cpu_config b' = cpu_config b"
    "\<forall>l s. in_pool (cpu_config b) l s \<longrightarrow> (l, s) \<notin> {layer} \<times> set dsts \<longrightarrow> cpu_entry b' l s = cpu_entry b l s"
    "\<forall>j < length dsts. cpu_entry b' layer (dsts ! j) =
       (take (entry_elems (cpu_config b)) (drop (j * entry_elems (cpu_config b)) k),
        take (entry_elems (cpu_config b)) (drop (j * entry_elems (cpu_config b)) v))" by blast
  have "cpu_read_kv layer (dsts ! j) (entry_elems (cpu_config b)) (entry_elems (cpu_config b)) b' =
      Ok (cpu_entry b' layer (dsts ! j)) b'" if "j < length dsts" for j
    using that assms(3) b'(2,3) by (intro cpu_read_ok) simp_all
  with b' show ?thesis by auto
qed

theorem cpu_batch_reads_back_witness:
  "\<exists>b'. write_kv_batch (cpu_config demo_cpu) cpu_write_kv 0
      [new_slot (BlockId 1) 0, new_slot (BlockId 3) 1] [7, 8] [9, 5] demo_cpu = Ok () b' \<and>
    cpu_read_kv 0 (new_slot (BlockId 3) 1) 1 1 b' = Ok ([8], [5]) b'"
proof -
  have d: "distinct [new_slot (BlockId 1) 0, new_slot (BlockId 3) 1]" by (simp add: new_slot_def)
  have p: "\<forall>d \<in> set [new_slot (BlockId 1) 0, new_slot (BlockId 3) 1]. in_pool (cpu_config demo_cpu) 0 d"
    by (simp add: in_pool_def)
  from cpu_batch_reads_back [OF demo_cpu_simps(1) d p, of "[7, 8]" "[9, 5]"] show ?thesis
    by (auto simp: entry_elems_def dest: spec [of _ 1])
qed

section \<open>Contexts\<close>

text \<open>
  C30: Copy-on-write works end to end: after an append, the copy it asks for and the write of
  the new token's entry at its slot, the table reads as its old context followed by that entry
  in the written layer, and every other table of the pool reads as before in all layers.
\<close>

theorem append_write_isolated:
  assumes "cpu_inv b" "al_num_blocks a = num_blocks (cpu_config b)" "l < num_layers (cpu_config b)"
    and "alloc_inv a" "cnt a = owned (t # ts)" "\<forall>u \<in> set (t # ts). table_ok (block_size (cpu_config b)) u"
    and "append_token (t, a) = Ok (slot, cow) (t', a')"
    and "length k = entry_elems (cpu_config b)" "length v = entry_elems (cpu_config b)"
  shows "\<exists>b1 b2. copy_blocks cpu_copy_block (cow_list cow) b = Ok () b1 \<and>
    cpu_write_kv l slot k v b1 = Ok () b2 \<and>
    gather (cpu_entry b2 l) (block_size (cpu_config b)) (bt_blocks t') (bt_tokens t') =
      gather (cpu_entry b l) (block_size (cpu_config b)) (bt_blocks t) (bt_tokens t) @ [(k, v)] \<and>
    (\<forall>u \<in> set ts. \<forall>m < num_layers (cpu_config b).
       gather (cpu_entry b2 m) (block_size (cpu_config b)) (bt_blocks u) (bt_tokens u) =
       gather (cpu_entry b m) (block_size (cpu_config b)) (bt_blocks u) (bt_tokens u))"
  using cpu.append_write [OF assms(1) refl assms(2-9)] by blast

text \<open>A table with one token, forked, and the append that makes the parent copy its tail.\<close>

definition demo_forked :: "BlockTable \<times> BlockAllocator" where
  "demo_forked = (case append_token (table_new 2, alloc_new 4) of
     Ok _ (t, a) \<Rightarrow> (case fork_table t a of Ok _ a' \<Rightarrow> (t, a')))"

lemma demo_forked_inv: "alloc_inv (snd demo_forked)"
  "cnt (snd demo_forked) = owned [fst demo_forked, fst demo_forked]" "table_ok 2 (fst demo_forked)"
proof -
  have inv: "alloc_inv (alloc_new 4)" by (rule alloc_inv_new) simp
  have h: "holds (alloc_new 4) (table_new 2)" by (simp add: holds_def table_new_def)
  from append_ok [OF inv table_ok_new h] obtain slot cow t a where
    op: "append_token (table_new 2, alloc_new 4) = Ok (slot, cow) (t, a)" and
    ap: "appended 2 (table_new 2) (alloc_new 4) slot cow t a" by (auto simp: num_free_def alloc_new_def)
  note A = appendedD [OF ap]
  have c: "cnt a b = count_list (bt_blocks t) b" for b
    using A(12) [of b] by (simp add: table_new_def cnt_def alloc_new_def)
  have h': "holds a t" using c by (simp add: holds_def count_list_0_iff neq0_conv [symmetric])
  have "\<forall>b \<in> set (bt_blocks t). cnt a b < 65535"
    using c count_list_distinct [OF table_okD(3) [OF A(4)]] by simp
  from fork_table_ok [OF A(1) table_okD(3) [OF A(4)] h' this] obtain a' where
    f: "fork_table t a = Ok t a'" "alloc_inv a'" "cnt a' = (\<lambda>b. cnt a b + count_list (bt_blocks t) b)" by blast
  from op f(1) have d: "demo_forked = (t, a')" by (simp add: demo_forked_def)
  show "alloc_inv (snd demo_forked)" "cnt (snd demo_forked) = owned [fst demo_forked, fst demo_forked]"
    "table_ok 2 (fst demo_forked)"
    unfolding d using f(2,3) A(4) c by (simp_all add: fun_eq_iff)
qed

theorem append_write_isolated_witness:
  "\<exists>slot cow t' a' b1 b2. append_token demo_forked = Ok (slot, Some cow) (t', a') \<and>
    copy_blocks cpu_copy_block [(cow_src cow, cow_dst cow)] demo_cpu = Ok () b1 \<and>
    cpu_write_kv 0 slot [7] [9] b1 = Ok () b2 \<and>
    gather (cpu_entry b2 0) 2 (bt_blocks t') 2 = [([0], [0]), ([7], [9])] \<and>
    gather (cpu_entry b2 0) 2 (bt_blocks (fst demo_forked)) 1 = [([0], [0])]"
proof -
  have n: "al_num_blocks (snd demo_forked) = 4" "bt_tokens (fst demo_forked) = 1"
    "gather (cpu_entry demo_cpu 0) 2 (bt_blocks (fst demo_forked)) 1 = [([0], [0])]" by code_simp+
  have "case append_token demo_forked of Ok (slot, cow) (t', a') \<Rightarrow> cow \<noteq> None \<and> bt_tokens t' = 2 | _ \<Rightarrow> False"
    by code_simp
  then obtain slot cow t' a' where op: "append_token demo_forked = Ok (slot, Some cow) (t', a')" "bt_tokens t' = 2"
    by (auto split: res.splits)
  have op': "append_token (fst demo_forked, snd demo_forked) = Ok (slot, Some cow) (t', a')" using op(1) by simp
  have ok: "\<forall>u \<in> set (fst demo_forked # [fst demo_forked]). table_ok (block_size (cpu_config demo_cpu)) u"
    using demo_forked_inv(3) by simp
  have len: "length [x] = entry_elems (cpu_config demo_cpu)" for x :: nat by (simp add: entry_elems_def)
  have nb: "al_num_blocks (snd demo_forked) = num_blocks (cpu_config demo_cpu)"
    "0 < num_layers (cpu_config demo_cpu)" using n(1) by simp_all
  from append_write_isolated [OF demo_cpu_simps(1) nb demo_forked_inv(1,2) ok op' len len, of 7 9]
  show ?thesis using op n(2,3) by (auto simp: cow_list_def)
qed

text \<open>
  C11: The copies a scheduler step asks for, made in their order, keep every context: each
  sequence that ran before the step and still runs after it reads, through its new table and in
  every layer, the entries it read through its old one, whatever was preempted and whichever
  freed block was handed out again in between.
\<close>

theorem step_copies_keep_contexts:
  assumes "geometry_ok config max_batch" "sched_reach config max_batch s" "step s = Ok out s'"
    and "cpu_inv b" "num_blocks (cpu_config b) = al_num_blocks (sc_alloc s)"
    and "block_size (cpu_config b) = sc_block_size s"
  shows "\<exists>b'. copy_blocks cpu_copy_block (cow_pairs (decoded out)) b = Ok () b' \<and>
    (\<forall>q \<in> set (running s). \<forall>q' \<in> set (running s'). rn_id q' = rn_id q \<longrightarrow>
       (\<forall>l < num_layers (cpu_config b).
          gather (cpu_entry b' l) (sc_block_size s) (bt_blocks (rn_table q')) (bt_tokens (rn_table q)) =
          gather (cpu_entry b l) (sc_block_size s) (bt_blocks (rn_table q)) (bt_tokens (rn_table q))))"
proof -
  from reach_step [OF assms(1-3)] obtain k qs keep keep' vs E E' where
    st: "stepped s k qs keep keep' vs out s'" and inv: "sched_inv E s" "sched_inv E' s'"
    and cfg: "same_config s s'" by metis
  let ?cs = "cow_pairs (decoded out)" and ?bs = "sc_block_size s"
  from st have S: "running s @ qs = keep @ vs" "list_all2 advanced keep keep'"
    "running s' = filter (\<lambda>q. \<not> spent q) keep'" "list_all2 (restored ?cs) keep keep'"
    "in_blocks (al_num_blocks (sc_alloc s)) ?cs" by (simp_all add: stepped_def)
  have core: "core_inv E s" "core_inv E' s'" using inv by (simp_all add: sched_inv_def)
  have ids: "distinct (map rn_id keep' @ map rn_id vs)"
    using core_invD(10) [OF core(1)] unfolding stepped_ids(1) [OF st] by auto
  have same_ids: "map rn_id keep' = map rn_id keep"
    using S(2) by (induction rule: list_all2_induct) (simp_all add: advanced_def)
  have pairs: "\<forall>(x, y) \<in> set ?cs. index x < num_blocks (cpu_config b) \<and> index y < num_blocks (cpu_config b)"
    using S(5) assms(5) by (simp add: in_blocks_def)
  from cpu.copies_ok [OF assms(4) pairs] obtain b' where
    b': "copy_blocks cpu_copy_block ?cs b = Ok () b'" by blast
  have "gather (cpu_entry b' l) ?bs (bt_blocks (rn_table q')) (bt_tokens (rn_table q)) =
      gather (cpu_entry b l) ?bs (bt_blocks (rn_table q)) (bt_tokens (rn_table q))"
    if q: "q \<in> set (running s)" and q': "q' \<in> set (running s')" and id': "rn_id q' = rn_id q"
      and l: "l < num_layers (cpu_config b)" for q q' l
  proof -
    from q' S(3) obtain i where i: "i < length keep'" "keep' ! i = q'" by (auto simp: in_set_conv_nth)
    have len: "length keep = length keep'" using S(2) list_all2_lengthD by blast
    have qk: "q \<in> set (keep @ vs)" using q S(1) by (metis Un_iff set_append)
    have "distinct (map rn_id (keep @ vs))" using ids same_ids by simp
    then have inj: "inj_on rn_id (set (keep @ vs))" by (simp only: distinct_map)
    have "rn_id (keep ! i) = rn_id q" using same_ids i len id' by (metis nth_map)
    with inj qk i(1) len have eq: "keep ! i = q" by (metis UnI1 inj_onD nth_mem set_append)
    with S(4) i len have r: "restored ?cs q q'" by (metis list_all2_conv_all_nth)
    note Q = core_distinct [OF core(1) q] and Q' = core_distinct [OF core(2) q']
    have "index x < num_blocks (cpu_config b)" if "x \<in> set (bt_blocks (rn_table q'))" for x
      using cnt_range [of "sc_alloc s'" x] Q'(2) that assms(5) cfg
      by (simp add: holds_def same_config_def same_pool_def)
    with r show ?thesis
      by (intro cpu.restored_gather [OF assms(4) assms(6) [symmetric] l pairs Q(1) _ _ b'])
        (auto simp: restored_def)
  qed
  with b' show ?thesis by blast
qed

text \<open>Two sequences that share a partly filled tail: one has to copy it when both go on.\<close>

definition demo_start :: Scheduler where
  "demo_start = the (res_state (add_request (SeqId 1) 2 5 (sched_new demo_config 2)))"

definition demo_parent :: Scheduler where
  "demo_parent = the (res_state (step demo_start))"

definition demo_family :: Scheduler where
  "demo_family = the (res_state (fork_sequence (SeqId 1) (SeqId 2) 5 demo_parent))"

lemma demo_family_reach: "sched_reach demo_config 2 demo_family"
proof (rule sched_reach.fork [where parent = "SeqId 1" and child = "SeqId 2" and max_new = 5])
  show "sched_reach demo_config 2 demo_parent"
  proof (rule sched_reach.step)
    show "sched_reach demo_config 2 demo_start"
      by (rule sched_reach.request [OF sched_reach.new, where i = "SeqId 1" and prompt_len = 2
            and max_new = 5]) code_simp+
    show "res_state (step demo_start) = Some demo_parent" by code_simp
  qed
  show "SeqId 2 \<notin> set (seq_ids demo_parent)" by code_simp
  show "res_state (fork_sequence (SeqId 1) (SeqId 2) 5 demo_parent) = Some demo_family" by code_simp
qed

theorem step_copies_keep_contexts_witness:
  "\<exists>out s' b'. step demo_family = Ok out s' \<and> length (cow_pairs (decoded out)) = 1 \<and>
    copy_blocks cpu_copy_block (cow_pairs (decoded out)) demo_cpu = Ok () b' \<and>
    (\<exists>q \<in> set (running demo_family). \<exists>q' \<in> set (running s'). rn_id q' = rn_id q \<and>
       bt_blocks (rn_table q') \<noteq> bt_blocks (rn_table q) \<and>
       gather (cpu_entry b' 0) 2 (bt_blocks (rn_table q')) (bt_tokens (rn_table q)) =
       gather (cpu_entry demo_cpu 0) 2 (bt_blocks (rn_table q)) (bt_tokens (rn_table q)))"
proof -
  have "case step demo_family of Ok out s' \<Rightarrow> length (cow_pairs (decoded out)) = 1 \<and>
      (\<exists>q \<in> set (running demo_family). \<exists>q' \<in> set (running s'). rn_id q' = rn_id q \<and>
         bt_blocks (rn_table q') \<noteq> bt_blocks (rn_table q)) | _ \<Rightarrow> False" by code_simp
  then obtain out s' q q' where st: "step demo_family = Ok out s'" "length (cow_pairs (decoded out)) = 1"
    "q \<in> set (running demo_family)" "q' \<in> set (running s')" "rn_id q' = rn_id q"
    "bt_blocks (rn_table q') \<noteq> bt_blocks (rn_table q)" by (auto split: res.splits)
  have c: "num_blocks (cpu_config demo_cpu) = al_num_blocks (sc_alloc demo_family)"
    "block_size (cpu_config demo_cpu) = sc_block_size demo_family" by code_simp+
  from step_copies_keep_contexts [OF demo_geometry demo_family_reach st(1) demo_cpu_simps(1) c] obtain b' where
    b': "copy_blocks cpu_copy_block (cow_pairs (decoded out)) demo_cpu = Ok () b'"
    "gather (cpu_entry b' 0) (sc_block_size demo_family) (bt_blocks (rn_table q')) (bt_tokens (rn_table q)) =
     gather (cpu_entry demo_cpu 0) (sc_block_size demo_family) (bt_blocks (rn_table q)) (bt_tokens (rn_table q))"
    using st(3-5) by force
  have "sc_block_size demo_family = 2" using c(2) by simp
  with st b' show ?thesis by metis
qed

section \<open>Attention\<close>

text \<open>
  C10: Paged attention is attention: on every batch that \<open>check_attention\<close> accepts, the host
  backend neither fails nor panics, all of its reads are in range, and its output is the one of
  the same float operations over the contiguous contexts, independent of how the contexts lie
  in blocks and of what the output buffer held.
\<close>

theorem paged_attention_is_dense:
  assumes "cpu_inv b" "0 < block_size (cpu_config b)" "0 < num_kv_heads (cpu_config b)"
    and "check_attention (cpu_config b) layer seqs (length q) (length out) = Ok heads ()"
  shows "cpu_paged_attention fp layer seqs q out b = Ok (dense_attention fp (head_dim (cpu_config b))
    heads (heads div num_kv_heads (cpu_config b)) (row_contexts b layer seqs) q) ()"
  by (rule paged_attention_ok [OF assms])

text \<open>Integers with truncating division stand for the floats of a small batch.\<close>

definition demo_arith :: "nat arith" where
  "demo_arith = \<lparr>f_zero = 0, f_one = 1, f_neg_inf = 0, f_of_nat = \<lambda>n. n, f_add = (+), f_sub = (-),
     f_mul = (*), f_div = (div), f_max = max, f_exp = Suc, f_sqrt = \<lambda>n. n, f_sum = sum_list\<rparr>"

definition demo_filled_cpu :: "nat CpuBackend" where
  "demo_filled_cpu = the (res_state (write_kv_batch (cpu_config demo_cpu) cpu_write_kv 0
     [new_slot (BlockId 2) 0, new_slot (BlockId 2) 1, new_slot (BlockId 0) 0] [1, 2, 3] [10, 20, 30] demo_cpu))"

theorem paged_attention_is_dense_witness:
  "cpu_paged_attention demo_arith 0
      [\<lparr>as_block_table = [BlockId 2, BlockId 0], as_context_len = 3, as_num_queries = 1\<rparr>] [5] [99] demo_filled_cpu =
    Ok (dense_attention demo_arith 1 1 1 [[([1], [10]), ([2], [20]), ([3], [30])]] [5]) ()"
proof -
  let ?seqs = "[\<lparr>as_block_table = [BlockId 2, BlockId 0], as_context_len = 3, as_num_queries = 1\<rparr>]"
  have inv: "cpu_inv demo_filled_cpu" "0 < block_size (cpu_config demo_filled_cpu)"
    "0 < num_kv_heads (cpu_config demo_filled_cpu)" by code_simp+
  have chk: "check_attention (cpu_config demo_filled_cpu) 0 ?seqs (length [5 :: nat]) (length [99 :: nat]) = Ok 1 ()"
    by code_simp
  have ctx: "head_dim (cpu_config demo_filled_cpu) = 1" "num_kv_heads (cpu_config demo_filled_cpu) = 1"
    "row_contexts demo_filled_cpu 0 ?seqs = [[([1], [10]), ([2], [20]), ([3], [30])]]" by code_simp+
  from paged_attention_is_dense [OF inv chk, of demo_arith] show ?thesis unfolding ctx by simp
qed

text \<open>
  The validation is exact about addresses: a batch it accepts names only blocks of the pool
  and asks no sequence for more queries than its context has, and its query buffer holds one
  vector per query row and head, with the K/V heads dividing the query heads.
\<close>

theorem check_attention_sound:
  assumes "0 < block_size c" "check_attention c layer seqs q_len out_len = Ok heads ()"
  shows "layer < num_layers c \<and> out_len = q_len \<and>
    (\<forall>s \<in> set seqs. as_num_queries s \<le> as_context_len s \<and>
       (\<forall>t < as_context_len s. t div block_size c < length (as_block_table s) \<and>
          in_pool c layer (new_slot (as_block_table s ! (t div block_size c)) (t mod block_size c)))) \<and>
    (0 < query_rows seqs \<longrightarrow> q_len = query_rows seqs * heads * head_dim c \<and>
       num_kv_heads c dvd heads \<and> 0 < heads)"
  using check_attention_ok [OF assms] assms(1) by (auto simp: seq_in_pool_def in_pool_def)

theorem check_attention_sound_witness:
  "in_pool (tiny 8) 1 (new_slot (BlockId 3) 0)"
proof -
  let ?seqs = "[\<lparr>as_block_table = [BlockId 5, BlockId 3], as_context_len = 5, as_num_queries = 2\<rparr>]"
  have chk: "check_attention (tiny 8) 1 ?seqs 32 32 = Ok 4 ()" by code_simp
  have bs: "0 < block_size (tiny 8)" "block_size (tiny 8) = 4" by (simp_all add: tiny_def)
  from check_attention_sound [OF bs(1) chk] bs(2) show ?thesis
    by (auto dest: spec [of _ 4])
qed

end
