(* ===== verification/Cuda_Props.thy ===== *)
theory Cuda_Props
  imports Cuda Kv_Props
begin

text \<open>
  The CUDA backend against its oracle, the host backend: equal planes after valid batched writes
  and non-overlapping copies in every order the device may run them, nothing written by a call
  that fails, and the two points where the backends differ.
\<close>

definition host_view :: "'f CudaBackend \<Rightarrow> 'f CpuBackend" where
  "host_view b = \<lparr>cpu_config = cu_config b, cpu_k = cu_k b, cpu_v = cu_v b\<rparr>"

lemma host_view_simps [simp]:
  "cpu_config (host_view b) = cu_config b" "cpu_entry (host_view b) = cuda_entry b"
  "cpu_k (host_view b) = cu_k b" "cpu_v (host_view b) = cu_v b"
  by (simp_all add: host_view_def cpu_entry_def cuda_entry_def fun_eq_iff)

lemma cuda_inv_host: "cuda_inv b \<Longrightarrow> cpu_inv (host_view b)"
  by (simp add: cuda_inv_def cpu_inv_def)

text \<open>Every element of a plane belongs to an entry, so the entries determine the plane.\<close>

lemma plane_ext:
  assumes "length xs = plane_len c" "length ys = plane_len c" "num_blocks c \<le> 2 ^ 32"
    and "\<And>l s. in_pool c l s \<Longrightarrow> plane_entry c xs l s = plane_entry c ys l s"
  shows "xs = ys"
proof (rule nth_equalityI)
  fix i assume "i < length xs"
  with assms(1) have i: "i < num_layers c * num_blocks c * block_size c * entry_elems c"
    by (simp add: plane_len_def layer_elems_def block_elems_def mult.assoc)
  let ?cell = "i div entry_elems c"
  let ?B = "?cell div block_size c"
  from i have c1: "?cell < num_layers c * num_blocks c * block_size c" by (simp add: less_mult_imp_div_less)
  then have c2: "?B < num_layers c * num_blocks c" by (simp add: less_mult_imp_div_less)
  then have l: "?B div num_blocks c < num_layers c" by (simp add: less_mult_imp_div_less)
  from i have pos: "0 < entry_elems c" "0 < block_size c" "0 < num_blocks c" by (auto intro: Nat.gr0I)
  then have m: "?B mod num_blocks c < num_blocks c" "?cell mod block_size c < block_size c"
    "i mod entry_elems c < entry_elems c" by simp_all
  let ?s = "new_slot (block_of (?B mod num_blocks c)) (?cell mod block_size c)"
  have ix: "index (block_of (?B mod num_blocks c)) = ?B mod num_blocks c"
    using m(1) assms(3) by (intro index_block_of) linarith
  have p: "in_pool c (?B div num_blocks c) ?s" using l m ix by (simp add: in_pool_def)
  have "slot_offset c (?B div num_blocks c) ?s = ?cell * entry_elems c"
    by (simp add: slot_offset_cell block_cell_def ix)
  then have "slot_offset c (?B div num_blocks c) ?s + i mod entry_elems c = i" by simp
  then show "xs ! i = ys ! i"
    using plane_entry_nth [OF p assms(1) m(3)] plane_entry_nth [OF p assms(2) m(3)] assms(4) [OF p] by simp
qed (use assms in simp)

lemma host_ext:
  assumes "cpu_inv b" "cuda_inv b'" "cpu_config b = cu_config b'"
    and "\<And>l s. in_pool (cu_config b') l s \<Longrightarrow> cpu_entry b l s = cuda_entry b' l s"
  shows "b = host_view b'"
proof -
  have n: "num_blocks (cu_config b') \<le> 2 ^ 32" using cuda_invD(3) [OF assms(2)] by (simp add: cuda_dims_def)
  have len: "length (cpu_k b) = plane_len (cu_config b')" "length (cpu_v b) = plane_len (cu_config b')"
    using assms(1,3) by (simp_all add: cpu_inv_def)
  have "cpu_k b = cu_k b'"
    by (rule plane_ext [OF len(1) cuda_invD(1) [OF assms(2)] n])
      (use assms(3,4) in \<open>simp add: cpu_entry_def cuda_entry_def\<close>)
  moreover have "cpu_v b = cu_v b'"
    by (rule plane_ext [OF len(2) cuda_invD(2) [OF assms(2)] n])
      (use assms(3,4) in \<open>simp add: cpu_entry_def cuda_entry_def\<close>)
  ultimately show ?thesis using assms(3) by (simp add: host_view_def)
qed

section \<open>Agreement\<close>

text \<open>
  C12: A batched write on the device, run in whatever order its threads take, leaves the planes
  the host backend's one-by-one writes leave, for distinct slots of the pool.
\<close>

theorem cuda_batch_matches_cpu:
  assumes "cuda_inv b" "\<forall>d \<in> set dsts. in_pool (cu_config b) layer d" "distinct dsts"
    and "length k = length dsts * entry_elems (cu_config b)"
    and "length v = length dsts * entry_elems (cu_config b)"
    and "length dsts * entry_elems (cu_config b) < 2 ^ 63" "length dsts < 2 ^ 32"
  shows "\<exists>b'. cuda_write_kv_batch layer dsts k v b = Ok () b' \<and> cuda_inv b' \<and>
    write_kv_batch (cu_config b) cpu_write_kv layer dsts k v (host_view b) = Ok () (host_view b')"
proof -
  from cuda_batch_ok [OF assms] obtain b' where
    b': "cuda_write_kv_batch layer dsts k v b = Ok () b'" "cuda_inv b'" "cu_config b' = cu_config b"
    "\<And>l s. in_pool (cu_config b) l s \<Longrightarrow> (l, s) \<notin> {layer} \<times> set dsts \<Longrightarrow> cuda_entry b' l s = cuda_entry b l s"
    "\<And>j. j < length dsts \<Longrightarrow> cuda_entry b' layer (dsts ! j) =
       (take (entry_elems (cu_config b)) (drop (j * entry_elems (cu_config b)) k),
        take (entry_elems (cu_config b)) (drop (j * entry_elems (cu_config b)) v))" by blast
  from cpu.write_batch_ok [OF cuda_inv_host [OF assms(1)], of dsts layer k v] assms obtain h where
    h: "write_kv_batch (cu_config b) cpu_write_kv layer dsts k v (host_view b) = Ok () h" "cpu_inv h"
    "cpu_config h = cu_config b"
    "\<And>l s. in_pool (cu_config b) l s \<Longrightarrow> (l, s) \<notin> {layer} \<times> set dsts \<Longrightarrow> cpu_entry h l s = cuda_entry b l s"
    "\<And>j. j < length dsts \<Longrightarrow> cpu_entry h layer (dsts ! j) =
       (take (entry_elems (cu_config b)) (drop (j * entry_elems (cu_config b)) k),
        take (entry_elems (cu_config b)) (drop (j * entry_elems (cu_config b)) v))" by auto
  have "cpu_entry h l s = cuda_entry b' l s" if "in_pool (cu_config b') l s" for l s
  proof (cases "l = layer \<and> s \<in> set dsts")
    case True
    then obtain j where "j < length dsts" "s = dsts ! j" by (auto simp: in_set_conv_nth)
    with True b'(5) h(5) show ?thesis by simp
  next
    case False
    with b'(3,4) h(4) that show ?thesis by simp
  qed
  with host_ext [OF h(2) b'(2)] h(3) b'(3) have "h = host_view b'" by simp
  with b'(1,2) h(1) show ?thesis by blast
qed

text \<open>A device that runs the steps of a launch backwards.\<close>

definition demo_device :: "nat CudaBackend" where
  "demo_device = \<lparr>cu_config = \<lparr>num_blocks = 4, block_size = 2, num_kv_heads = 1, head_dim = 1,
      num_layers = 1, dtype_bytes = 2\<rparr>, cu_k = [10, 11, 12, 13, 14, 15, 16, 17],
    cu_v = [20, 21, 22, 23, 24, 25, 26, 27], cu_driver = \<lambda>_. None, cu_calls = 9, cu_order = \<lambda>_. rev\<rparr>"

lemma demo_device_inv: "cuda_inv demo_device"
  by (simp add: cuda_inv_def demo_device_def plane_len_def layer_elems_def block_elems_def entry_elems_def
      cuda_dims_def)

theorem cuda_batch_matches_cpu_witness:
  "\<exists>b'. cuda_write_kv_batch 0 [new_slot (BlockId 3) 1, new_slot (BlockId 0) 0] [5, 6] [7, 8] demo_device =
      Ok () b' \<and>
    write_kv_batch (cu_config demo_device) cpu_write_kv 0 [new_slot (BlockId 3) 1, new_slot (BlockId 0) 0]
      [5, 6] [7, 8] (host_view demo_device) = Ok () (host_view b')"
proof -
  let ?ds = "[new_slot (BlockId 3) 1, new_slot (BlockId 0) 0]"
  have p: "\<forall>d \<in> set ?ds. in_pool (cu_config demo_device) 0 d" "distinct ?ds"
    by (simp_all add: in_pool_def demo_device_def new_slot_def)
  have n: "length [5, 6 :: nat] = length ?ds * entry_elems (cu_config demo_device)"
    "length [7, 8 :: nat] = length ?ds * entry_elems (cu_config demo_device)"
    "length ?ds * entry_elems (cu_config demo_device) < 2 ^ 63" "length ?ds < (2 :: nat) ^ 32"
    by (simp_all add: demo_device_def entry_elems_def)
  from cuda_batch_matches_cpu [OF demo_device_inv p n] show ?thesis by blast
qed

text \<open>
  C32: The one-launch block copy of the device agrees with the host's copies one after the other
  whenever no block is a destination twice and none is both source and destination.
\<close>

theorem cuda_copies_match_cpu:
  assumes "cuda_inv b"
    and "\<forall>(s, d) \<in> set pairs. index s < num_blocks (cu_config b) \<and> index d < num_blocks (cu_config b)"
    and "distinct (map snd pairs)" "set (map fst pairs) \<inter> set (map snd pairs) = {}"
    and "length pairs * num_layers (cu_config b) < 2 ^ 32" "length pairs < 2 ^ 31"
  shows "\<exists>b'. cuda_copy_blocks pairs b = Ok () b' \<and> cuda_inv b' \<and>
    copy_blocks cpu_copy_block pairs (host_view b) = Ok () (host_view b')"
proof -
  from cuda_copies_ok [OF assms] obtain b' where
    b': "cuda_copy_blocks pairs b = Ok () b'" "cuda_inv b'" "cu_config b' = cu_config b"
    "\<And>l s. in_pool (cu_config b) l s \<Longrightarrow>
       cuda_entry b' l s = cuda_entry b l (new_slot (copy_origin pairs (ps_block s)) (ps_slot s))" by blast
  from cpu.copies_ok [OF cuda_inv_host [OF assms(1)], of pairs] assms(2) obtain h where
    h: "copy_blocks cpu_copy_block pairs (host_view b) = Ok () h" "cpu_inv h" "cpu_config h = cu_config b"
    "\<And>l s. in_pool (cu_config b) l s \<Longrightarrow>
       cpu_entry h l s = cuda_entry b l (new_slot (copy_origin pairs (ps_block s)) (ps_slot s))" by auto
  with host_ext [OF h(2) b'(2)] b' have "h = host_view b'" by simp
  with b'(1,2) h(1) show ?thesis by blast
qed

theorem cuda_copies_match_cpu_witness:
  "\<exists>b'. cuda_copy_blocks [(BlockId 0, BlockId 2), (BlockId 0, BlockId 3)] demo_device = Ok () b' \<and>
    copy_blocks cpu_copy_block [(BlockId 0, BlockId 2), (BlockId 0, BlockId 3)] (host_view demo_device) =
      Ok () (host_view b')"
proof -
  let ?ps = "[(BlockId 0, BlockId 2), (BlockId 0, BlockId 3)]"
  have p: "\<forall>(s, d) \<in> set ?ps. index s < num_blocks (cu_config demo_device) \<and>
      index d < num_blocks (cu_config demo_device)" "distinct (map snd ?ps)"
    "set (map fst ?ps) \<inter> set (map snd ?ps) = {}" by (simp_all add: demo_device_def)
  have n: "length ?ps * num_layers (cu_config demo_device) < 2 ^ 32" "length ?ps < (2 :: nat) ^ 31"
    by (simp_all add: demo_device_def)
  from cuda_copies_match_cpu [OF demo_device_inv p n] show ?thesis by blast
qed

lemma driver_call_view:
  "driver_call b = Ok u b' \<or> driver_call b = Err e b' \<Longrightarrow> host_view b' = host_view b"
  by (cases "cu_driver b (cu_calls b)") (auto simp: driver_call_def Let_def host_view_def)

lemma driver_calls_view:
  "driver_calls n b = Ok u b' \<or> driver_calls n b = Err e b' \<Longrightarrow> host_view b' = host_view b"
proof (induction n arbitrary: b)
  case (Suc n)
  show ?case
  proof (cases "driver_call b")
    case (Ok x c)
    with Suc.prems have "host_view b' = host_view c" by (intro Suc.IH) simp
    with driver_call_view [of b x c] Ok show ?thesis by simp
  next
    case (Err e' c)
    with Suc.prems driver_call_view [of b _ c e'] show ?thesis by auto
  next
    case Panic
    with Suc.prems show ?thesis by simp
  qed
qed auto

lemma launch_err_view: "launch f js b = Err e b' \<Longrightarrow> host_view b' = host_view b"
proof (cases "driver_call b")
  case (Ok u c)
  moreover assume "launch f js b = Err e b'"
  ultimately show ?thesis
    by (cases "run_jobs f (cu_order c (cu_calls c) js) (cu_k c, cu_v c)") (auto simp: launch_def)
next
  case (Err e' c)
  moreover assume "launch f js b = Err e b'"
  ultimately show ?thesis using driver_call_view [of b _ c e'] by (auto simp: launch_def)
next
  case Panic
  moreover assume "launch f js b = Err e b'"
  ultimately show ?thesis by (simp add: launch_def)
qed

lemma calls_launch_err_view:
  assumes "bind_res (driver_calls n b) (\<lambda>_ b. launch f js b) = Err e b'"
  shows "host_view b' = host_view b"
proof (cases "driver_calls n b")
  case (Ok u c)
  with assms launch_err_view [of f js c e b'] driver_calls_view [of n b u c] show ?thesis by simp
next
  case (Err e' c)
  with assms driver_calls_view [of n b _ c e'] show ?thesis by auto
next
  case Panic
  with assms show ?thesis by simp
qed

lemma checked_launch_err_view:
  assumes "read_res m b (\<lambda>_. bind_res (driver_calls n b) (\<lambda>_ b. launch f js b)) = Err e b'"
  shows "host_view b' = host_view b"
  using assms calls_launch_err_view by (cases m) auto

lemma driver_calls_1: "driver_calls 1 b = driver_call b"
  by (cases "driver_call b") simp_all

text \<open>
  C33: A device call that reports an error has written nothing, whichever driver call failed and
  whichever argument was refused: batched writes, copies and resets are all or nothing.
\<close>

theorem cuda_errors_write_nothing:
  assumes "cuda_write_kv_batch layer dsts k v b = Err e b' \<or> cuda_copy_blocks pairs b = Err e b' \<or>
    cuda_zero_block z x b = Err e b'"
  shows "host_view b' = host_view b"
  using assms
proof (elim disjE)
  assume "cuda_write_kv_batch layer dsts k v b = Err e b'"
  then show ?thesis
    unfolding cuda_write_kv_batch_def Let_def
    by (simp split: if_splits del: driver_calls.simps) (erule checked_launch_err_view)
next
  assume "cuda_copy_blocks pairs b = Err e b'"
  then show ?thesis
    unfolding cuda_copy_blocks_def Let_def driver_calls_1 [symmetric]
    by (simp split: if_splits del: driver_calls.simps) (erule checked_launch_err_view)
next
  assume "cuda_zero_block z x b = Err e b'"
  then show ?thesis
    unfolding cuda_zero_block_def Let_def
    by (cases "cuda_validate_block (cu_config b) x") (auto dest: launch_err_view)
qed

text \<open>A device whose driver runs out of memory in the middle of a write.\<close>

theorem cuda_errors_write_nothing_witness:
  "\<exists>b'. cuda_write_kv_batch 0 [new_slot (BlockId 1) 0] [5] [6]
      (demo_device\<lparr>cu_driver := (\<lambda>_. None)(10 := Some ''out of memory'')\<rparr>) =
      Err (Device ''out of memory'') b' \<and> host_view b' = host_view demo_device"
proof -
  let ?b = "demo_device\<lparr>cu_driver := (\<lambda>_. None)(10 := Some ''out of memory'')\<rparr>"
  have "\<exists>b'. cuda_write_kv_batch 0 [new_slot (BlockId 1) 0] [5] [6] ?b = Err (Device ''out of memory'') b'"
    by (simp add: cuda_write_kv_batch_def demo_device_def Let_def entry_elems_def cuda_validate_def
        cuda_validate_block_def driver_call_def numeral_3_eq_3)
  then obtain b' where b': "cuda_write_kv_batch 0 [new_slot (BlockId 1) 0] [5] [6] ?b =
    Err (Device ''out of memory'') b'" ..
  from cuda_errors_write_nothing [OF disjI1 [OF b']] have "host_view b' = host_view ?b" .
  also have "\<dots> = host_view demo_device" by (simp add: host_view_def)
  finally show ?thesis using b' by blast
qed

section \<open>Divergence\<close>

text \<open>
  Four sequences in a pool of five blocks: the parent of the last one copies its tail, the last
  one is preempted to make room for the second one's copy, and its freed tail block becomes the
  destination of that copy. The step therefore asks for two copies, and the source of the first
  is the destination of the second.
\<close>

definition race_config :: CacheConfig where
  "race_config = \<lparr>num_blocks = 5, block_size = 2, num_kv_heads = 1, head_dim = 1, num_layers = 1,
     dtype_bytes = 4\<rparr>"

definition race_sched :: "nat \<Rightarrow> Scheduler" where
  "race_sched n =
     (let s0 = sched_new race_config 4;
          s1 = the (res_state (add_request (SeqId 1) 2 5 s0));
          s2 = the (res_state (add_request (SeqId 2) 2 5 s1));
          s3 = the (res_state (step s2));
          s4 = the (res_state (fork_sequence (SeqId 2) (SeqId 3) 5 s3));
          s5 = the (res_state (fork_sequence (SeqId 1) (SeqId 4) 5 s4)) in
      [s0, s1, s2, s3, s4, s5] ! n)"

lemma race_reach: "sched_reach race_config 4 (race_sched 5)"
proof -
  have "sched_reach race_config 4 (race_sched 0)"
    using sched_reach.new [of race_config 4] by (simp add: race_sched_def Let_def)
  then have "sched_reach race_config 4 (race_sched 1)"
    by (rule sched_reach.request [where i = "SeqId 1" and prompt_len = 2 and max_new = 5]) code_simp+
  then have "sched_reach race_config 4 (race_sched 2)"
    by (rule sched_reach.request [where i = "SeqId 2" and prompt_len = 2 and max_new = 5]) code_simp+
  then have "sched_reach race_config 4 (race_sched 3)"
    by (rule sched_reach.step) code_simp
  then have "sched_reach race_config 4 (race_sched 4)"
    by (rule sched_reach.fork [where parent = "SeqId 2" and child = "SeqId 3" and max_new = 5]) code_simp+
  then show ?thesis
    by (rule sched_reach.fork [where parent = "SeqId 1" and child = "SeqId 4" and max_new = 5]) code_simp+
qed

text \<open>A device of that geometry that runs the steps of every launch backwards.\<close>

definition race_device :: "nat CudaBackend" where
  "race_device = \<lparr>cu_config = race_config, cu_k = [0..<10], cu_v = [10..<20], cu_driver = (\<lambda>_. None),
     cu_calls = 9, cu_order = (\<lambda>_. rev)\<rparr>"

lemma race_device_inv: "cuda_inv race_device"
  by (simp add: cuda_inv_def race_device_def race_config_def plane_len_def layer_elems_def
      block_elems_def entry_elems_def cuda_dims_def)

text \<open>
  C34: A scheduler step can ask for two copies of which the first reads the block the second
  overwrites. The host backend runs them one after the other; the device runs both in one launch,
  reports success, and in an order its threads may take the first copy's destination ends up with
  the contents of the wrong sequence: the two backends disagree on a reachable step.
\<close>

theorem cuda_overlapping_copies_race:
  "\<exists>s out s' b' h. sched_reach race_config 4 s \<and> step s = Ok out s' \<and>
     cow_pairs (decoded out) = [(BlockId 2, BlockId 4), (BlockId 3, BlockId 2)] \<and>
     cuda_inv race_device \<and> cuda_copy_blocks (cow_pairs (decoded out)) race_device = Ok () b' \<and>
     copy_blocks cpu_copy_block (cow_pairs (decoded out)) (host_view race_device) = Ok () h \<and>
     cpu_entry h 0 (new_slot (BlockId 4) 0) = cpu_entry (host_view race_device) 0 (new_slot (BlockId 2) 0) \<and>
     cuda_entry b' 0 (new_slot (BlockId 4) 0) = cuda_entry race_device 0 (new_slot (BlockId 3) 0) \<and>
     host_view b' \<noteq> h"
proof -
  let ?ps = "[(BlockId 2, BlockId 4), (BlockId 3, BlockId 2)]"
  have st: "(case step (race_sched 5) of Ok out s' \<Rightarrow> cow_pairs (decoded out) = ?ps | _ \<Rightarrow> False)"
    by code_simp
  then obtain out s' where out: "step (race_sched 5) = Ok out s'" "cow_pairs (decoded out) = ?ps"
    by (cases "step (race_sched 5)") auto
  have "(case cuda_copy_blocks ?ps race_device of
      Ok u b' \<Rightarrow> cu_config b' = race_config \<and> cu_k b' = [0, 1, 2, 3, 6, 7, 6, 7, 6, 7] \<and>
        cu_v b' = [10, 11, 12, 13, 16, 17, 16, 17, 16, 17] | _ \<Rightarrow> False)"
    by code_simp
  then obtain b' where b': "cuda_copy_blocks ?ps race_device = Ok () b'" "cu_config b' = race_config"
    "cu_k b' = [0, 1, 2, 3, 6, 7, 6, 7, 6, 7]" "cu_v b' = [10, 11, 12, 13, 16, 17, 16, 17, 16, 17]"
    by (cases "cuda_copy_blocks ?ps race_device") auto
  have "copy_blocks cpu_copy_block ?ps (host_view race_device) =
    Ok () \<lparr>cpu_config = race_config, cpu_k = [0, 1, 2, 3, 6, 7, 6, 7, 4, 5],
      cpu_v = [10, 11, 12, 13, 16, 17, 16, 17, 14, 15]\<rparr>" (is "_ = Ok () ?h")
    by code_simp
  moreover have "cpu_entry ?h 0 (new_slot (BlockId 4) 0) = cpu_entry (host_view race_device) 0 (new_slot (BlockId 2) 0)"
    by code_simp
  moreover have "cuda_entry b' 0 (new_slot (BlockId 4) 0) = cuda_entry race_device 0 (new_slot (BlockId 3) 0)"
    unfolding cuda_entry_def b' by code_simp
  moreover have "host_view b' \<noteq> ?h" by (simp add: host_view_def b')
  ultimately show ?thesis using race_reach out b'(1) race_device_inv by metis
qed

text \<open>
  The backends differ on the copy of a block onto itself: the host validates the block, the
  device returns at once, so a block outside the pool is an error on one and accepted by the other.
\<close>

theorem cuda_self_copy_unchecked:
  assumes "num_blocks (cu_config b) \<le> index x"
  shows "cuda_copy_block x x b = Ok () b \<and>
    cpu_copy_block x x (host_view b) = Err (InvalidBlock x (num_blocks (cu_config b))) (host_view b)"
  using assms by (simp add: cuda_copy_block_def cpu_copy_block_def validate_block_def)

theorem cuda_self_copy_unchecked_witness:
  "cuda_copy_block (BlockId 9) (BlockId 9) race_device = Ok () race_device \<and>
    cpu_copy_block (BlockId 9) (BlockId 9) (host_view race_device) =
      Err (InvalidBlock (BlockId 9) 5) (host_view race_device)"
  using cuda_self_copy_unchecked [of race_device "BlockId 9"]
  by (simp add: race_device_def race_config_def)

end
