(* ===== verification/Cuda_Attention.thy ===== *)
theory Cuda_Attention
  imports Complex_Main Thread_Block Attention Cuda_Props
begin

text \<open>
  \<open>paged_attention\<close> of the CUDA backend: the host code of \<open>backend.rs\<close>, which flattens the batch,
  and \<open>paged_attention_kernel\<close> of \<open>kernels.cu\<close>. Thread blocks run in the order of the launch,
  the threads of a block in an arbitrary order between two barriers.

  The kernel has arithmetic of its own and takes the maximum and the sum of a context in the tree
  of \<open>block_reduce\<close>, where the host backend folds from the left; the two agree up to rounding
  only. Nothing is assumed of either arithmetic. \<open>softmax_attention\<close> is attention with its operations
  as a parameter: both backends are shown to be instances of it on the same contexts, the device in
  every order of its threads.
\<close>

section \<open>The kernel\<close>

text \<open>
  The device's arithmetic. It is not the host's: \<open>expf\<close> and \<open>fmaxf\<close> are the device library's, and the
  compiler may contract the kernel's \<open>s += a * b\<close> to one rounded operation (\<open>dv_madd s a b\<close>).
  \<open>dv_lowest\<close> is the literal the maximum starts from.
\<close>

record 'f device_arith =
  dv_zero :: 'f
  dv_lowest :: 'f
  dv_add :: "'f \<Rightarrow> 'f \<Rightarrow> 'f"
  dv_sub :: "'f \<Rightarrow> 'f \<Rightarrow> 'f"
  dv_mul :: "'f \<Rightarrow> 'f \<Rightarrow> 'f"
  dv_madd :: "'f \<Rightarrow> 'f \<Rightarrow> 'f \<Rightarrow> 'f"
  dv_div :: "'f \<Rightarrow> 'f \<Rightarrow> 'f"
  dv_max :: "'f \<Rightarrow> 'f \<Rightarrow> 'f"
  dv_exp :: "'f \<Rightarrow> 'f"

text \<open>The arguments of a launch, in the order of the kernel's parameters.\<close>

record 'f attn_args =
  aa_q :: "'f list"
  aa_k :: "'f list"
  aa_v :: "'f list"
  aa_tables :: "int list"
  aa_seq :: "int list"
  aa_pos :: "int list"
  aa_max_blocks :: int
  aa_max_context :: int
  aa_layer :: int
  aa_num_blocks :: int
  aa_block_size :: int
  aa_kv_heads :: int
  aa_heads :: int
  aa_head_dim :: int
  aa_scale :: 'f

text \<open>
  How the device runs a thread block: the order of its threads in each phase, and what its shared
  memory holds at the start.
\<close>

record 'f block_run =
  br_sched :: "nat \<times> nat \<Rightarrow> nat \<Rightarrow> nat list \<Rightarrow> nat list"
  br_shared :: "nat \<times> nat \<Rightarrow> 'f list"

text \<open>Division by zero is undefined on the device.\<close>

definition dev_div :: "int \<Rightarrow> int \<Rightarrow> int option" where
  "dev_div a b = (if b = 0 then None else Some (a sdiv b))"

text \<open>Where the K and V of position \<open>t\<close> start.\<close>

definition attn_entry :: "'f attn_args \<Rightarrow> int \<Rightarrow> int \<Rightarrow> int \<Rightarrow> int \<Rightarrow> int \<Rightarrow> int option" where
  "attn_entry A table head_off layer_base ee t = do {
     j \<leftarrow> dev_div t (aa_block_size A);
     block \<leftarrow> dev_load (table + j) (aa_tables A);
     Some (head_off + i64 (i64 (i64 (layer_base + block) * aa_block_size A + t smod aa_block_size A) * ee)) }"

fun dot_loop :: "'f device_arith \<Rightarrow> 'f list \<Rightarrow> int \<Rightarrow> 'f list \<Rightarrow> int \<Rightarrow> nat list \<Rightarrow> 'f \<Rightarrow> 'f option" where
  "dot_loop dv q qh k ka [] s = Some s"
| "dot_loop dv q qh k ka (i # is) s = do {
     x \<leftarrow> dev_load (qh + int i) q;
     y \<leftarrow> dev_load (ka + int i) k;
     dot_loop dv q qh k ka is (dv_madd dv s x y) }"

fun score_loop :: "'f device_arith \<Rightarrow> 'f attn_args \<Rightarrow> (int \<Rightarrow> int option) \<Rightarrow> int \<Rightarrow> int \<Rightarrow> nat list \<Rightarrow>
    'f list \<Rightarrow> 'f \<Rightarrow> ('f list \<times> 'f) option" where
  "score_loop dv A entry qh sc [] scratch local_max = Some (scratch, local_max)"
| "score_loop dv A entry qh sc (t # ts) scratch local_max = do {
     k \<leftarrow> entry (int t);
     s \<leftarrow> dot_loop dv (aa_q A) qh (aa_k A) k [0..<nat (aa_head_dim A)] (dv_zero dv);
     let s = dv_mul dv s (aa_scale A);
     scratch \<leftarrow> dev_store (sc + int t) s scratch;
     score_loop dv A entry qh sc ts scratch (dv_max dv local_max s) }"

fun exp_loop :: "'f device_arith \<Rightarrow> 'f \<Rightarrow> int \<Rightarrow> nat list \<Rightarrow> 'f list \<Rightarrow> 'f \<Rightarrow> ('f list \<times> 'f) option" where
  "exp_loop dv max_score sc [] scratch local_sum = Some (scratch, local_sum)"
| "exp_loop dv max_score sc (t # ts) scratch local_sum = do {
     s \<leftarrow> dev_load (sc + int t) scratch;
     let p = dv_exp dv (dv_sub dv s max_score);
     scratch \<leftarrow> dev_store (sc + int t) p scratch;
     exp_loop dv max_score sc ts scratch (dv_add dv local_sum p) }"

fun value_loop :: "'f device_arith \<Rightarrow> 'f attn_args \<Rightarrow> (int \<Rightarrow> int option) \<Rightarrow> int \<Rightarrow> 'f list \<Rightarrow> nat \<Rightarrow> nat list \<Rightarrow>
    'f \<Rightarrow> 'f option" where
  "value_loop dv A entry sc scratch i [] acc = Some acc"
| "value_loop dv A entry sc scratch i (t # ts) acc = do {
     v \<leftarrow> entry (int t);
     s \<leftarrow> dev_load (sc + int t) scratch;
     x \<leftarrow> dev_load (v + int i) (aa_v A);
     value_loop dv A entry sc scratch i ts (dv_madd dv acc s x) }"

fun out_loop :: "'f device_arith \<Rightarrow> 'f attn_args \<Rightarrow> (int \<Rightarrow> int option) \<Rightarrow> int \<Rightarrow> int \<Rightarrow> nat \<Rightarrow> 'f list \<Rightarrow> 'f \<Rightarrow>
    nat list \<Rightarrow> 'f list \<Rightarrow> 'f list option" where
  "out_loop dv A entry qh sc n scratch denom [] out = Some out"
| "out_loop dv A entry qh sc n scratch denom (i # is) out = do {
     acc \<leftarrow> value_loop dv A entry sc scratch i [0..<n] (dv_zero dv);
     out \<leftarrow> dev_store (qh + int i) (dv_div dv acc denom) out;
     out_loop dv A entry qh sc n scratch denom is out }"

text \<open>
  The three phases of one thread: each ends at a barrier. A phase works on the array it writes
  and on the shared buffer, in which the thread leaves its value for the reduction.
\<close>

definition score_thread :: "'f device_arith \<Rightarrow> 'f attn_args \<Rightarrow> (int \<Rightarrow> int option) \<Rightarrow> int \<Rightarrow> int \<Rightarrow> nat \<Rightarrow>
    nat \<Rightarrow> 'f list \<times> 'f list \<Rightarrow> ('f list \<times> 'f list) option" where
  "score_thread dv A entry qh sc n tid st = (case st of (scratch, buf) \<Rightarrow> do {
     (scratch, local_max) \<leftarrow> score_loop dv A entry qh sc (strided tid n) scratch (dv_lowest dv);
     buf \<leftarrow> set_at buf tid local_max;
     Some (scratch, buf) })"

definition exp_thread :: "'f device_arith \<Rightarrow> 'f \<Rightarrow> int \<Rightarrow> nat \<Rightarrow>
    nat \<Rightarrow> 'f list \<times> 'f list \<Rightarrow> ('f list \<times> 'f list) option" where
  "exp_thread dv max_score sc n tid st = (case st of (scratch, buf) \<Rightarrow> do {
     (scratch, local_sum) \<leftarrow> exp_loop dv max_score sc (strided tid n) scratch (dv_zero dv);
     buf \<leftarrow> set_at buf tid local_sum;
     Some (scratch, buf) })"

definition out_thread :: "'f device_arith \<Rightarrow> 'f attn_args \<Rightarrow> (int \<Rightarrow> int option) \<Rightarrow> int \<Rightarrow> int \<Rightarrow> nat \<Rightarrow> 'f list \<Rightarrow>
    'f \<Rightarrow> nat \<Rightarrow> 'f list \<times> 'f list \<Rightarrow> ('f list \<times> 'f list) option" where
  "out_thread dv A entry qh sc n scratch denom tid st = (case st of (out, buf) \<Rightarrow> do {
     out \<leftarrow> out_loop dv A entry qh sc n scratch denom (strided tid (nat (aa_head_dim A))) out;
     Some (out, buf) })"

definition attn_phases :: "'f device_arith \<Rightarrow> 'f attn_args \<Rightarrow> (nat \<Rightarrow> nat list \<Rightarrow> nat list) \<Rightarrow> 'f list \<Rightarrow>
    (int \<Rightarrow> int option) \<Rightarrow> int \<Rightarrow> int \<Rightarrow> nat \<Rightarrow> 'f list \<times> 'f list \<Rightarrow> ('f list \<times> 'f list) option" where
  "attn_phases dv A sched buf entry qh sc n mem = (case mem of (scratch, out) \<Rightarrow> do {
     let threads = [0..<ATTN_THREADS];
     (scratch, buf) \<leftarrow> run_jobs (score_thread dv A entry qh sc n) (sched 0 threads) (scratch, buf);
     (max_score, buf) \<leftarrow> block_reduce (dv_max dv) sched 1 buf;
     (scratch, buf) \<leftarrow> run_jobs (exp_thread dv max_score sc n) (sched 8 threads) (scratch, buf);
     (denom, buf) \<leftarrow> block_reduce (dv_add dv) sched 9 buf;
     (out, buf) \<leftarrow> run_jobs (out_thread dv A entry qh sc n scratch denom) (sched 16 threads) (out, buf);
     Some (scratch, out) })"

text \<open>One thread block of the grid: a query row and a head, on the scratch and output arrays.\<close>

definition attn_block :: "'f device_arith \<Rightarrow> 'f attn_args \<Rightarrow> 'f block_run \<Rightarrow> nat \<times> nat \<Rightarrow>
    'f list \<times> 'f list \<Rightarrow> ('f list \<times> 'f list) option" where
  "attn_block dv A run job mem = (case job of (row, head) \<Rightarrow> do {
     pos \<leftarrow> dev_load (int row) (aa_pos A);
     seq \<leftarrow> dev_load (int row) (aa_seq A);
     let table = i64 (seq * aa_max_blocks A);
     let ee = i64 (aa_kv_heads A * aa_head_dim A);
     share \<leftarrow> dev_div (aa_heads A) (aa_kv_heads A);
     group \<leftarrow> dev_div (int head) share;
     let head_off = i64 (group * aa_head_dim A);
     let layer_base = i64 (aa_layer A * aa_num_blocks A);
     let cell = i64 (i64 (int row * aa_heads A) + int head);
     let qh = i64 (cell * aa_head_dim A);
     let sc = i64 (cell * aa_max_context A);
     attn_phases dv A (br_sched run job) (br_shared run job)
       (attn_entry A table head_off layer_base ee) qh sc (nat (pos + 1)) mem })"

section \<open>The host code\<close>

text \<open>
  The block tables of the batch as one array of rows; \<open>zip\<close> stops at the shorter side, and
  \<open>s.block_table[..used]\<close> panics when the table is shorter.
\<close>

fun fill_tables :: "CacheConfig \<Rightarrow> nat \<Rightarrow> (nat \<times> AttentionSeq) list \<Rightarrow> int list \<Rightarrow> int list option" where
  "fill_tables c max_blocks [] tables = Some tables"
| "fill_tables c max_blocks ((i, s) # seqs) tables = do {
     used \<leftarrow> blocks_for_tokens c (as_context_len s);
     row \<leftarrow> (if used \<le> length (as_block_table s) then Some (take used (as_block_table s)) else None);
     rest \<leftarrow> (if i * max_blocks \<le> length tables then Some (drop (i * max_blocks) tables) else None);
     let tables = take (i * max_blocks) tables @
       map (\<lambda>b. as_i32 (index b)) (take (length rest) row) @ drop (length row) rest;
     fill_tables c max_blocks seqs tables }"

definition query_seq :: "AttentionSeq list \<Rightarrow> int list" where
  "query_seq seqs = concat (map (\<lambda>(i, s). replicate (as_num_queries s) (as_i32 i)) (enumerate 0 seqs))"

definition query_pos :: "AttentionSeq list \<Rightarrow> int list" where
  "query_pos seqs = concat (map (\<lambda>s. map (\<lambda>j.
     as_i32 (usize_add (usize_sub (as_context_len s) (as_num_queries s)) j)) [0..<as_num_queries s]) seqs)"

definition attn_arguments :: "'f arith \<Rightarrow> 'f CudaBackend \<Rightarrow> nat \<Rightarrow> nat \<Rightarrow> nat \<Rightarrow> nat \<Rightarrow> AttentionSeq list \<Rightarrow>
    int list \<Rightarrow> 'f list \<Rightarrow> 'f attn_args" where
  "attn_arguments fp b layer heads max_blocks max_context seqs tables q =
     (let c = cu_config b in
      \<lparr>aa_q = q, aa_k = cu_k b, aa_v = cu_v b, aa_tables = tables, aa_seq = query_seq seqs,
       aa_pos = query_pos seqs, aa_max_blocks = as_i32 max_blocks, aa_max_context = as_i32 max_context,
       aa_layer = as_i32 layer, aa_num_blocks = as_i32 (num_blocks c), aa_block_size = as_i32 (block_size c),
       aa_kv_heads = as_i32 (num_kv_heads c), aa_heads = as_i32 heads, aa_head_dim = as_i32 (head_dim c),
       aa_scale = attn_scale fp (head_dim c)\<rparr>)"

text \<open>
  Four arrays go to the device, two are allocated there; then the launch and the copy back. \<open>out\<close>
  is written at the very end.
\<close>

definition cuda_paged_attention :: "'f arith \<Rightarrow> 'f device_arith \<Rightarrow> 'f block_run \<Rightarrow> nat \<Rightarrow> AttentionSeq list \<Rightarrow> 'f list \<Rightarrow>
    'f list \<Rightarrow> 'f CudaBackend \<Rightarrow> ('f CudaBackend, 'f list) cache_res" where
  "cuda_paged_attention fp dv run layer seqs q out b =
     (let c = cu_config b; rows = query_rows seqs in
      read_res (check_attention c layer seqs (length q) (length out)) b (\<lambda>heads.
        if rows = 0 then Ok out b
        else
          (let max_context = foldr max (map as_context_len seqs) 0 in
           unwrap_res (blocks_for_tokens c max_context) (\<lambda>max_blocks.
           unwrap_res (fill_tables c max_blocks (enumerate 0 seqs)
               (replicate (usize_mul (length seqs) max_blocks) 0)) (\<lambda>tables.
           bind_res (driver_calls 7 b) (\<lambda>_ b.
             (let A = attn_arguments fp b layer heads max_blocks max_context seqs tables q;
                  grid = List.product [0..<as_u32 rows] [0..<as_u32 heads];
                  scratch = replicate (usize_mul (usize_mul rows heads) max_context) (f_zero fp) in
              unwrap_res (run_jobs (attn_block dv A run) (cu_order b (cu_calls b) grid)
                  (scratch, replicate (length q) (f_zero fp))) (\<lambda>(_, d_out).
                bind_res (driver_call b) (\<lambda>_ b.
                  if length d_out = length out then Ok d_out b else Panic)))))))))"

section \<open>One thread block\<close>

lemma dev_load_add [simp]: "a + i < length buf \<Longrightarrow> dev_load (int a + int i) buf = Some (buf ! (a + i))"
  by (simp add: dev_load_def nat_add_distrib)

lemma dev_store_add [simp]: "a + i < length buf \<Longrightarrow> dev_store (int a + int i) x buf = Some (buf[a + i := x])"
  by (simp add: dev_store_def nat_add_distrib)

lemma dot_loop_ok:
  "\<forall>i \<in> set is. qh + i < length q \<and> ka + i < length k \<Longrightarrow> dot_loop dv q (int qh) k (int ka) is s =
    Some (foldl (\<lambda>s i. dv_madd dv s (q ! (qh + i)) (k ! (ka + i))) s is)"
  by (induction "is" arbitrary: s) simp_all

definition entry_ok :: "'f attn_args \<Rightarrow> (int \<Rightarrow> int option) \<Rightarrow> (nat \<Rightarrow> nat) \<Rightarrow> nat \<Rightarrow> bool" where
  "entry_ok A entry off n \<longleftrightarrow> 0 \<le> aa_head_dim A \<and> (\<forall>t < n. entry (int t) = Some (int (off t)) \<and>
     off t + nat (aa_head_dim A) \<le> length (aa_k A) \<and> off t + nat (aa_head_dim A) \<le> length (aa_v A))"

lemma entry_okD:
  assumes "entry_ok A entry off n" "t < n"
  shows "entry (int t) = Some (int (off t))"
    "i < nat (aa_head_dim A) \<Longrightarrow> off t + i < length (aa_k A)"
    "i < nat (aa_head_dim A) \<Longrightarrow> off t + i < length (aa_v A)"
  using assms by (auto simp: entry_ok_def)

definition kernel_score :: "'f device_arith \<Rightarrow> 'f attn_args \<Rightarrow> (nat \<Rightarrow> nat) \<Rightarrow> nat \<Rightarrow> nat \<Rightarrow> 'f" where
  "kernel_score dv A off qh t = dv_mul dv (foldl (\<lambda>s i. dv_madd dv s (aa_q A ! (qh + i)) (aa_k A ! (off t + i)))
     (dv_zero dv) [0..<nat (aa_head_dim A)]) (aa_scale A)"

lemma score_loop_ok:
  assumes "entry_ok A entry off n" "qh + nat (aa_head_dim A) \<le> length (aa_q A)"
    "\<forall>t \<in> set ts. t < n" "sc + n \<le> length mem"
  shows "score_loop dv A entry (int qh) (int sc) ts mem mx =
    Some (store_all (\<lambda>x. kernel_score dv A off qh (x - sc)) (map ((+) sc) ts) mem,
      foldl (dv_max dv) mx (map (kernel_score dv A off qh) ts))"
  using assms(3,4)
proof (induction ts arbitrary: mem mx)
  case (Cons t ts)
  from Cons.prems have t: "t < n" "sc + t < length mem" by simp_all
  have "dot_loop dv (aa_q A) (int qh) (aa_k A) (int (off t)) [0..<nat (aa_head_dim A)] (dv_zero dv) =
      Some (foldl (\<lambda>s i. dv_madd dv s (aa_q A ! (qh + i)) (aa_k A ! (off t + i))) (dv_zero dv)
        [0..<nat (aa_head_dim A)])"
    using assms(2) entry_okD(2) [OF assms(1) t(1)] by (intro dot_loop_ok) auto
  with entry_okD(1) [OF assms(1) t(1)] t Cons.IH [of "mem[sc + t := kernel_score dv A off qh t]"] Cons.prems
  show ?case by (simp add: kernel_score_def [symmetric] Let_def)
qed simp

lemma exp_loop_ok:
  assumes "distinct ts" "\<forall>t \<in> set ts. sc + t < length mem \<and> mem ! (sc + t) = s t"
  shows "exp_loop dv mx (int sc) ts mem local_sum =
    Some (store_all (\<lambda>x. dv_exp dv (dv_sub dv (s (x - sc)) mx)) (map ((+) sc) ts) mem,
      foldl (dv_add dv) local_sum (map (\<lambda>t. dv_exp dv (dv_sub dv (s t) mx)) ts))"
  using assms
proof (induction ts arbitrary: mem local_sum)
  case (Cons t ts)
  let ?m = "mem[sc + t := dv_exp dv (dv_sub dv (s t) mx)]"
  have "\<forall>u \<in> set ts. sc + u < length ?m \<and> ?m ! (sc + u) = s u"
    using Cons.prems by (auto simp: nth_list_update)
  with Cons.IH [of ?m] Cons.prems show ?case by (simp add: Let_def)
qed simp

lemma value_loop_ok:
  assumes "entry_ok A entry off n" "i < nat (aa_head_dim A)" "\<forall>t \<in> set ts. t < n"
    "\<forall>t < n. sc + t < length mem \<and> mem ! (sc + t) = w t"
  shows "value_loop dv A entry (int sc) mem i ts acc =
    Some (foldl (\<lambda>acc t. dv_madd dv acc (w t) (aa_v A ! (off t + i))) acc ts)"
  using assms(3)
  by (induction ts arbitrary: acc) (use assms in \<open>simp_all add: entry_okD(1,3) [OF assms(1)]\<close>)

definition kernel_value :: "'f device_arith \<Rightarrow> 'f attn_args \<Rightarrow> (nat \<Rightarrow> nat) \<Rightarrow> nat \<Rightarrow> (nat \<Rightarrow> 'f) \<Rightarrow> 'f \<Rightarrow> nat \<Rightarrow> 'f" where
  "kernel_value dv A off n w denom i = dv_div dv (foldl (\<lambda>acc t.
     dv_madd dv acc (w t) (aa_v A ! (off t + i))) (dv_zero dv) [0..<n]) denom"

lemma out_loop_ok:
  assumes "entry_ok A entry off n" "\<forall>t < n. sc + t < length mem \<and> mem ! (sc + t) = w t"
    "\<forall>i \<in> set is. i < nat (aa_head_dim A)" "qh + nat (aa_head_dim A) \<le> length out"
  shows "out_loop dv A entry (int qh) (int sc) n mem denom is out =
    Some (store_all (\<lambda>x. kernel_value dv A off n w denom (x - qh)) (map ((+) qh) is) out)"
  using assms(3,4)
proof (induction "is" arbitrary: out)
  case (Cons i "is")
  then have i: "i < nat (aa_head_dim A)" "qh + i < length out" by simp_all
  from value_loop_ok [OF assms(1) i(1) _ assms(2), of "[0..<n]" dv "dv_zero dv"] i
    Cons.IH [of "out[qh + i := kernel_value dv A off n w denom i]"] Cons.prems
  show ?case by (simp add: kernel_value_def)
qed simp

lemma set_strided_less: "t \<in> set (strided tid n) \<Longrightarrow> t < n"
  by (simp add: set_strided)

lemma strided_disjoint:
  "i < ATTN_THREADS \<Longrightarrow> j < ATTN_THREADS \<Longrightarrow> i \<noteq> j \<Longrightarrow>
   set (map ((+) a) (strided i n)) \<inter> set (map ((+) a) (strided j n)) = {}"
  by (auto simp: set_strided_thread)

lemma store_threads:
  "all_threads js \<Longrightarrow> length buf = ATTN_THREADS \<Longrightarrow> foldl (\<lambda>buf tid. buf[tid := g tid]) buf js =
    map g [0..<ATTN_THREADS]"
  using all_threadsD(2) [of js]
  by (intro nth_equalityI) (simp_all add: store_all_def [symmetric] nth_store_all)

text \<open>What all threads of a phase store, in whatever order they ran.\<close>

lemma store_strides:
  assumes "all_threads js" "a + n \<le> length mem"
  shows "store_all new (concat (map (\<lambda>tid. map ((+) a) (strided tid n)) js)) mem =
    take a mem @ map (\<lambda>t. new (a + t)) [0..<n] @ drop (a + n) mem"
proof (rule nth_equalityI)
  have "concat (map (\<lambda>tid. map ((+) a) (strided tid n)) js) =
      map ((+) a) (concat (map (\<lambda>tid. strided tid n) js))" by (simp add: map_concat comp_def)
  then have s: "set (concat (map (\<lambda>tid. map ((+) a) (strided tid n)) js)) = (+) a ` {0..<n}"
    by (simp only: set_map set_strides [OF assms(1)])
  fix i assume "i < length (store_all new (concat (map (\<lambda>tid. map ((+) a) (strided tid n)) js)) mem)"
  then have i: "i < length mem" by simp
  consider "i < a" | "a \<le> i" "i < a + n" | "a + n \<le> i" by linarith
  then show "store_all new (concat (map (\<lambda>tid. map ((+) a) (strided tid n)) js)) mem ! i =
      (take a mem @ map (\<lambda>t. new (a + t)) [0..<n] @ drop (a + n) mem) ! i"
  proof cases
    case 2
    then have "i \<in> (+) a ` {0..<n}" by (intro image_eqI [of _ _ "i - a"]) auto
    moreover from 2 have "i - a < n" by linarith
    ultimately show ?thesis using 2 i assms(2) unfolding nth_store_all [OF i] s by (simp add: nth_append)
  qed (use i assms(2) in \<open>auto simp: nth_store_all s nth_append simp del: set_concat set_map\<close>)
qed (use assms(2) in simp)

lemma store_strides_nth:
  assumes "all_threads js" "a + n \<le> length mem" "t < n"
  shows "store_all new (concat (map (\<lambda>tid. map ((+) a) (strided tid n)) js)) mem ! (a + t) = new (a + t)"
  unfolding store_strides [OF assms(1,2)] using assms(2,3) by (simp add: nth_append)

text \<open>
  The threads of a block share the positions of the context and the elements of the output, and
  two reductions; together they compute one head of one row.
\<close>

lemma score_phase:
  fixes dv :: "'f device_arith"
  assumes "entry_ok A entry off n" "qh + nat (aa_head_dim A) \<le> length (aa_q A)" "sc + n \<le> length mem"
    "all_threads js" "length buf = ATTN_THREADS"
  shows "run_jobs (score_thread dv A entry (int qh) (int sc) n) js (mem, buf) =
    Some (store_all (\<lambda>x. kernel_score dv A off qh (x - sc))
        (concat (map (\<lambda>tid. map ((+) sc) (strided tid n)) js)) mem,
      map (\<lambda>tid. foldl (dv_max dv) (dv_lowest dv) (map (kernel_score dv A off qh) (strided tid n))) [0..<ATTN_THREADS])"
proof -
  let ?g = "\<lambda>tid. foldl (dv_max dv) (dv_lowest dv) (map (kernel_score dv A off qh) (strided tid n))"
  note js = all_threadsD [OF assms(4)]
  have "run_jobs (score_thread dv A entry (int qh) (int sc) n) js (mem, buf) =
    Some (store_all (\<lambda>x. kernel_score dv A off qh (x - sc))
        (concat (map (\<lambda>tid. map ((+) sc) (strided tid n)) js)) mem, foldl (\<lambda>buf tid. buf[tid := ?g tid]) buf js)"
  proof (rule run_phase [where m = "length mem" and P = "\<lambda>buf. length buf = ATTN_THREADS" and old = mem])
    fix tid and m x :: "'f list" assume a: "tid \<in> set js" "length m = length mem" "length x = ATTN_THREADS"
    have "\<forall>t \<in> set (strided tid n). t < n" by (auto dest: set_strided_less)
    from score_loop_ok [OF assms(1,2) this, of sc m dv "dv_lowest dv"] a assms(3) js(2)
    show "score_thread dv A entry (int qh) (int sc) n tid (m, x) =
        Some (store_all (\<lambda>x. kernel_score dv A off qh (x - sc)) (map ((+) sc) (strided tid n)) m,
          x[tid := ?g tid]) \<and> length (x[tid := ?g tid]) = ATTN_THREADS"
      by (simp add: score_thread_def)
  qed (use js assms(3,5) strided_disjoint in \<open>auto dest: set_strided_less\<close>)
  with store_threads [OF assms(4,5)] show ?thesis by simp
qed

lemma exp_phase:
  fixes dv :: "'f device_arith"
  assumes "sc + n \<le> length mem" "\<forall>t < n. mem ! (sc + t) = s t"
    "all_threads js" "length buf = ATTN_THREADS"
  shows "run_jobs (exp_thread dv mx (int sc) n) js (mem, buf) =
    Some (store_all (\<lambda>x. dv_exp dv (dv_sub dv (s (x - sc)) mx))
        (concat (map (\<lambda>tid. map ((+) sc) (strided tid n)) js)) mem,
      map (\<lambda>tid. foldl (dv_add dv) (dv_zero dv) (map (\<lambda>t. dv_exp dv (dv_sub dv (s t) mx)) (strided tid n)))
        [0..<ATTN_THREADS])"
proof -
  let ?g = "\<lambda>tid. foldl (dv_add dv) (dv_zero dv) (map (\<lambda>t. dv_exp dv (dv_sub dv (s t) mx)) (strided tid n))"
  note js = all_threadsD [OF assms(3)]
  have "run_jobs (exp_thread dv mx (int sc) n) js (mem, buf) =
    Some (store_all (\<lambda>x. dv_exp dv (dv_sub dv (s (x - sc)) mx))
        (concat (map (\<lambda>tid. map ((+) sc) (strided tid n)) js)) mem, foldl (\<lambda>buf tid. buf[tid := ?g tid]) buf js)"
  proof (rule run_phase [where m = "length mem" and P = "\<lambda>buf. length buf = ATTN_THREADS" and old = mem])
    fix tid and m x :: "'f list" assume a: "tid \<in> set js" "length m = length mem" "length x = ATTN_THREADS"
      "\<forall>i \<in> set (map ((+) sc) (strided tid n)). m ! i = mem ! i"
    have "\<forall>t \<in> set (strided tid n). sc + t < length m \<and> m ! (sc + t) = s t"
      using a(2,4) assms(1,2) by (auto dest!: set_strided_less)
    from exp_loop_ok [OF distinct_strided this, of dv mx "dv_zero dv"] a js(2)
    show "exp_thread dv mx (int sc) n tid (m, x) =
        Some (store_all (\<lambda>x. dv_exp dv (dv_sub dv (s (x - sc)) mx)) (map ((+) sc) (strided tid n)) m,
          x[tid := ?g tid]) \<and> length (x[tid := ?g tid]) = ATTN_THREADS"
      by (simp add: exp_thread_def)
  qed (use js assms(1,4) strided_disjoint in \<open>auto dest: set_strided_less\<close>)
  with store_threads [OF assms(3,4)] show ?thesis by simp
qed

lemma out_phase:
  fixes dv :: "'f device_arith"
  assumes "entry_ok A entry off n" "\<forall>t < n. sc + t < length mem \<and> mem ! (sc + t) = w t"
    "qh + nat (aa_head_dim A) \<le> length out" "all_threads js"
  shows "run_jobs (out_thread dv A entry (int qh) (int sc) n mem denom) js (out, buf) =
    Some (take qh out @ map (kernel_value dv A off n w denom) [0..<nat (aa_head_dim A)] @
      drop (qh + nat (aa_head_dim A)) out, buf)"
proof -
  let ?d = "nat (aa_head_dim A)"
  note js = all_threadsD [OF assms(4)]
  have "run_jobs (out_thread dv A entry (int qh) (int sc) n mem denom) js (out, buf) =
    Some (store_all (\<lambda>x. kernel_value dv A off n w denom (x - qh))
        (concat (map (\<lambda>tid. map ((+) qh) (strided tid ?d)) js)) out, foldl (\<lambda>buf tid. buf) buf js)"
  proof (rule run_phase [where m = "length out" and P = "\<lambda>_. True" and old = out])
    fix tid and m x :: "'f list" assume a: "tid \<in> set js" "length m = length out"
    have "\<forall>i \<in> set (strided tid ?d). i < ?d" by (auto dest: set_strided_less)
    from out_loop_ok [OF assms(1,2) this, of qh m dv denom] a assms(3)
    show "out_thread dv A entry (int qh) (int sc) n mem denom tid (m, x) =
        Some (store_all (\<lambda>x. kernel_value dv A off n w denom (x - qh)) (map ((+) qh) (strided tid ?d)) m, x) \<and> True"
      by (simp add: out_thread_def)
  qed (use js assms(3) strided_disjoint in \<open>auto dest: set_strided_less\<close>)
  moreover have "foldl (\<lambda>buf tid. buf) buf js = buf" by (induction js) simp_all
  ultimately show ?thesis unfolding store_strides [OF assms(4,3)] by simp
qed

definition kernel_head :: "'f device_arith \<Rightarrow> 'f attn_args \<Rightarrow> (nat \<Rightarrow> nat) \<Rightarrow> nat \<Rightarrow> nat \<Rightarrow> 'f list" where
  "kernel_head dv A off qh n =
     (let mx = block_fold (dv_max dv) (dv_lowest dv) (map (kernel_score dv A off qh) [0..<n]);
          w = (\<lambda>t. dv_exp dv (dv_sub dv (kernel_score dv A off qh t) mx));
          denom = block_fold (dv_add dv) (dv_zero dv) (map w [0..<n]) in
      map (kernel_value dv A off n w denom) [0..<nat (aa_head_dim A)])"

lemma block_fold_map:
  "block_fold f e (map g [0..<n]) =
     tree_fold f 7 (map (\<lambda>tid. foldl f e (map g (strided tid n))) [0..<ATTN_THREADS])"
proof -
  have "map ((!) (map g [0..<n])) (strided tid n) = map g (strided tid n)" for tid
    by (auto dest: set_strided_less)
  then show ?thesis unfolding block_fold_def by (simp only: length_map length_upt diff_zero)
qed

lemma attn_phases_ok:
  assumes "full_sched sched" "length buf = ATTN_THREADS"
    and "entry_ok A entry off n" "qh + nat (aa_head_dim A) \<le> length (aa_q A)" "sc + n \<le> length mem"
    and "qh + nat (aa_head_dim A) \<le> length out"
  shows "\<exists>mem'. attn_phases dv A sched buf entry (int qh) (int sc) n (mem, out) = Some (mem',
      take qh out @ kernel_head dv A off qh n @ drop (qh + nat (aa_head_dim A)) out) \<and>
    length mem' = length mem"
proof -
  let ?s = "kernel_score dv A off qh" and ?threads = "[0..<ATTN_THREADS]"
  let ?mx = "block_fold (dv_max dv) (dv_lowest dv) (map ?s [0..<n])"
  let ?w = "\<lambda>t. dv_exp dv (dv_sub dv (?s t) ?mx)"
  let ?denom = "block_fold (dv_add dv) (dv_zero dv) (map ?w [0..<n])"
  have js: "all_threads (sched p ?threads)" for p by (rule full_schedD [OF assms(1)])
  let ?b1 = "map (\<lambda>tid. foldl (dv_max dv) (dv_lowest dv) (map ?s (strided tid n))) ?threads"
  obtain m1 where m1: "run_jobs (score_thread dv A entry (int qh) (int sc) n) (sched 0 ?threads) (mem, buf) =
      Some (m1, ?b1)" "length m1 = length mem" "\<forall>t < n. m1 ! (sc + t) = ?s t"
    using score_phase [OF assms(3-5) js assms(2), of dv 0] store_strides_nth [OF js assms(5)] by auto
  obtain b2 where b2: "block_reduce (dv_max dv) sched 1 ?b1 = Some (?mx, b2)" "length b2 = ATTN_THREADS"
    using block_reduce_tree [OF assms(1), of ?b1 "dv_max dv" 1] by (auto simp: block_fold_map)
  have fit: "sc + n \<le> length m1" using m1(2) assms(5) by simp
  let ?b3 = "map (\<lambda>tid. foldl (dv_add dv) (dv_zero dv) (map ?w (strided tid n))) ?threads"
  obtain m2 where m2: "run_jobs (exp_thread dv ?mx (int sc) n) (sched 8 ?threads) (m1, b2) = Some (m2, ?b3)"
    "length m2 = length mem" "\<forall>t < n. m2 ! (sc + t) = ?w t"
    using exp_phase [OF fit m1(3) js b2(2), of dv ?mx 8] store_strides_nth [OF js fit] m1(2) by auto
  obtain b4 where b4: "block_reduce (dv_add dv) sched 9 ?b3 = Some (?denom, b4)"
    using block_reduce_tree [OF assms(1), of ?b3 "dv_add dv" 9] by (auto simp: block_fold_map)
  have "\<forall>t < n. sc + t < length m2 \<and> m2 ! (sc + t) = ?w t" using m2(2,3) assms(5) by simp
  from out_phase [OF assms(3) this assms(6) js, of dv ?denom 16 b4] m1(1) b2(1) m2(1,2) b4
  show ?thesis by (simp add: attn_phases_def kernel_head_def Let_def)
qed

section \<open>Attention by given operations\<close>

text \<open>
  What attention does with its contexts, whatever the operations: a score per position, the
  maximum, a weight per position, their total, and per element the weighted values over the total.
\<close>

record 'f attn_ops =
  op_score :: "'f list \<Rightarrow> 'f list \<Rightarrow> 'f"
  op_max :: "'f list \<Rightarrow> 'f"
  op_weight :: "'f \<Rightarrow> 'f \<Rightarrow> 'f"
  op_total :: "'f list \<Rightarrow> 'f"
  op_mix :: "'f list \<Rightarrow> 'f list \<Rightarrow> 'f"
  op_div :: "'f \<Rightarrow> 'f \<Rightarrow> 'f"

definition softmax_head :: "'f attn_ops \<Rightarrow> nat \<Rightarrow> nat \<Rightarrow> ('f list \<times> 'f list) list \<Rightarrow> 'f list \<Rightarrow> 'f list" where
  "softmax_head ops d hk kvs qh =
     (let scores = map (\<lambda>(k, v). op_score ops qh (head_part d hk k)) kvs;
          mx = op_max ops scores;
          weights = map (\<lambda>s. op_weight ops s mx) scores;
          total = op_total ops weights in
      map (\<lambda>i. op_div ops (op_mix ops weights (map (\<lambda>(k, v). head_part d hk v ! i) kvs)) total) [0..<d])"

definition softmax_attention :: "'f attn_ops \<Rightarrow> nat \<Rightarrow> nat \<Rightarrow> nat \<Rightarrow> ('f list \<times> 'f list) list list \<Rightarrow> 'f list \<Rightarrow>
    'f list" where
  "softmax_attention ops d heads share contexts q =
     concat (map (\<lambda>j. softmax_head ops d (j mod heads div share) (contexts ! (j div heads))
       (take d (drop (j * d) q))) [0..<length contexts * heads])"

text \<open>A batch over a host backend: every query row attends to the entries its block table names.\<close>

definition batch_attention :: "'f attn_ops \<Rightarrow> 'f CpuBackend \<Rightarrow> nat \<Rightarrow> AttentionSeq list \<Rightarrow> nat \<Rightarrow> 'f list \<Rightarrow>
    'f list" where
  "batch_attention ops b layer seqs heads q = softmax_attention ops (head_dim (cpu_config b)) heads
     (heads div num_kv_heads (cpu_config b)) (row_contexts b layer seqs) q"

text \<open>The operations of the host backend: \<open>Iterator::sum\<close> and left-to-right folds.\<close>

definition host_ops :: "'f arith \<Rightarrow> nat \<Rightarrow> 'f attn_ops" where
  "host_ops fp d = \<lparr>
     op_score = \<lambda>q k. f_mul fp (f_sum fp (map2 (f_mul fp) q k)) (attn_scale fp d),
     op_max = foldl (f_max fp) (f_neg_inf fp),
     op_weight = \<lambda>s mx. f_exp fp (f_sub fp s mx),
     op_total = foldl (f_add fp) (f_zero fp),
     op_mix = \<lambda>ws xs. foldl (\<lambda>acc (w, x). f_add fp acc (f_mul fp w x)) (f_zero fp) (zip ws xs),
     op_div = f_div fp\<rparr>"

text \<open>
  Those of the kernel: the device's own arithmetic, and the maximum and the total in the tree of a
  thread block.
\<close>

definition device_ops :: "'f device_arith \<Rightarrow> 'f \<Rightarrow> 'f attn_ops" where
  "device_ops dv scale = \<lparr>
     op_score = \<lambda>q k. dv_mul dv (foldl (\<lambda>s (x, y). dv_madd dv s x y) (dv_zero dv) (zip q k)) scale,
     op_max = block_fold (dv_max dv) (dv_lowest dv),
     op_weight = \<lambda>s mx. dv_exp dv (dv_sub dv s mx),
     op_total = block_fold (dv_add dv) (dv_zero dv),
     op_mix = \<lambda>ws xs. foldl (\<lambda>acc (w, x). dv_madd dv acc w x) (dv_zero dv) (zip ws xs),
     op_div = dv_div dv\<rparr>"

lemma slice_of_read:
  assumes "read_slice a d buf = Some xs"
  shows "a + d \<le> length buf" "i < d \<Longrightarrow> xs ! i = buf ! (a + i)" "length xs = d"
  using assms by (auto simp: read_slice_def split: if_splits)

lemma weighted_sum_nth:
  assumes "\<forall>(w, k, v) \<in> set wkvs. length (head_part d hk v) = d" "length oh = d" "i < d"
  shows "foldl (\<lambda>oh (w, k, v). map2 (\<lambda>o' x. f_add fp o' (f_mul fp w x)) oh (head_part d hk v)) oh wkvs ! i =
    foldl (\<lambda>acc (w, k, v). f_add fp acc (f_mul fp w (head_part d hk v ! i))) (oh ! i) wkvs"
  using assms(1,2)
proof (induction wkvs arbitrary: oh)
  case (Cons x wkvs)
  then show ?case using assms(3) by (cases x) simp
qed simp

lemma weighted_sum_length:
  assumes "\<forall>(w, k, v) \<in> set wkvs. length (head_part d hk v) = d" "length oh = d"
  shows "length (foldl (\<lambda>oh (w, k, v). map2 (\<lambda>o' x. f_add fp o' (f_mul fp w x)) oh (head_part d hk v)) oh wkvs) = d"
  using assms
proof (induction wkvs arbitrary: oh)
  case (Cons x wkvs)
  then show ?case by (cases x) simp
qed simp

lemma dense_head_soft:
  assumes "\<forall>(k, v) \<in> set kvs. length (head_part d hk v) = d"
  shows "dense_head fp d hk kvs qh = softmax_head (host_ops fp d) d hk kvs qh"
proof -
  define ws where "ws = (let scores = map (\<lambda>(k, v). f_mul fp (f_sum fp (map2 (f_mul fp) qh (head_part d hk k)))
      (attn_scale fp d)) kvs in map (\<lambda>w. f_exp fp (f_sub fp w (foldl (f_max fp) (f_neg_inf fp) scores))) scores)"
  let ?oh = "foldl (\<lambda>oh (w, k, v). map2 (\<lambda>o' x. f_add fp o' (f_mul fp w x)) oh (head_part d hk v))
    (replicate d (f_zero fp)) (zip ws kvs)"
  have len: "\<forall>(w, k, v) \<in> set (zip ws kvs). length (head_part d hk v) = d"
    using assms by (auto dest: set_zip_rightD)
  have mix: "?oh ! i = foldl (\<lambda>acc (w, x). f_add fp acc (f_mul fp w x)) (f_zero fp)
      (zip ws (map (\<lambda>(k, v). head_part d hk v ! i) kvs))" if "i < d" for i
    using weighted_sum_nth [OF len _ that, of "replicate d (f_zero fp)" fp] that
    by (simp add: zip_map2 foldl_map case_prod_unfold)
  have "length ?oh = d" using len by (rule weighted_sum_length) simp
  with mix have "map (\<lambda>o'. f_div fp o' (foldl (f_add fp) (f_zero fp) ws)) ?oh =
      map (\<lambda>i. f_div fp (foldl (\<lambda>acc (w, x). f_add fp acc (f_mul fp w x)) (f_zero fp)
        (zip ws (map (\<lambda>(k, v). head_part d hk v ! i) kvs))) (foldl (f_add fp) (f_zero fp) ws)) [0..<d]"
    by (intro nth_equalityI) simp_all
  then show ?thesis
    by (simp add: dense_head_def softmax_head_def host_ops_def ws_def Let_def)
qed

lemma kernel_head_soft:
  assumes "nat (aa_head_dim A) = d" "length kvs = n" "qh + d \<le> length (aa_q A)"
    and reads: "\<forall>t < n. read_slice (off t) d (aa_k A) = Some (head_part d hk (fst (kvs ! t))) \<and>
      read_slice (off t) d (aa_v A) = Some (head_part d hk (snd (kvs ! t)))"
  shows "kernel_head dv A off qh n =
    softmax_head (device_ops dv (aa_scale A)) d hk kvs (take d (drop qh (aa_q A)))"
proof -
  let ?qh = "take d (drop qh (aa_q A))" and ?s = "kernel_score dv A off qh"
  let ?ops = "device_ops dv (aa_scale A)"
  have score: "op_score ?ops ?qh (head_part d hk (fst (kvs ! t))) = ?s t" if "t < n" for t
  proof -
    note k = slice_of_read [OF conjunct1 [OF mp [OF spec [OF reads] that]]]
    have "zip ?qh (head_part d hk (fst (kvs ! t))) =
        map (\<lambda>i. (aa_q A ! (qh + i), aa_k A ! (off t + i))) [0..<d]"
      using assms(3) k by (intro nth_equalityI) simp_all
    then show ?thesis using assms(1) by (simp add: device_ops_def kernel_score_def foldl_map)
  qed
  have scores: "map (\<lambda>(k, v). op_score ?ops ?qh (head_part d hk k)) kvs = map ?s [0..<n]"
    using score assms(2) by (intro nth_equalityI) (simp_all add: case_prod_beta)
  define M where "M = block_fold (dv_max dv) (dv_lowest dv) (map ?s [0..<n])"
  let ?w = "\<lambda>t. dv_exp dv (dv_sub dv (?s t) M)"
  have mix: "foldl (\<lambda>acc (w, x). dv_madd dv acc w x) (dv_zero dv)
      (zip (map ?w [0..<n]) (map (\<lambda>(k, v). head_part d hk v ! i) kvs)) =
    foldl (\<lambda>acc t. dv_madd dv acc (?w t) (aa_v A ! (off t + i))) (dv_zero dv) [0..<n]" if i: "i < d" for i
  proof -
    have "head_part d hk (snd (kvs ! t)) ! i = aa_v A ! (off t + i)" if "t < n" for t
      using slice_of_read(2) [OF conjunct2 [OF mp [OF spec [OF reads] that]] i] .
    then have "zip (map ?w [0..<n]) (map (\<lambda>(k, v). head_part d hk v ! i) kvs) =
        map (\<lambda>t. (?w t, aa_v A ! (off t + i))) [0..<n]"
      using assms(2) by (intro nth_equalityI) (simp_all add: case_prod_beta)
    then show ?thesis by (simp add: foldl_map)
  qed
  have ops: "op_max ?ops = block_fold (dv_max dv) (dv_lowest dv)" "op_total ?ops = block_fold (dv_add dv) (dv_zero dv)"
    "op_weight ?ops = (\<lambda>s mx. dv_exp dv (dv_sub dv s mx))" "op_div ?ops = dv_div dv"
    "op_mix ?ops = (\<lambda>ws xs. foldl (\<lambda>acc (w, x). dv_madd dv acc w x) (dv_zero dv) (zip ws xs))"
    by (simp_all add: device_ops_def)
  have ws: "map (\<lambda>s. dv_exp dv (dv_sub dv s M)) (map ?s [0..<n]) = map ?w [0..<n]" by simp
  show ?thesis
    unfolding softmax_head_def Let_def scores ops kernel_head_def M_def [symmetric] ws assms(1)
    by (intro map_cong refl) (simp add: kernel_value_def mix)
qed

section \<open>The arrays of the host code\<close>

text \<open>Sizes for which no cast and no product of a call wraps.\<close>

definition attn_fits :: "CacheConfig \<Rightarrow> AttentionSeq list \<Rightarrow> nat \<Rightarrow> 'f list \<Rightarrow> bool" where
  "attn_fits c seqs heads q \<longleftrightarrow>
     (let rows = query_rows seqs; mc = foldr max (map as_context_len seqs) 0; mb = ceil_div mc (block_size c) in
      mc < 2 ^ 31 \<and> heads < 2 ^ 31 \<and> rows < 2 ^ 31 \<and> length seqs < 2 ^ 31 \<and> head_dim c < 2 ^ 31 \<and>
      num_kv_heads c < 2 ^ 31 \<and> length q < 2 ^ 63 \<and>
      length seqs * mb < 2 ^ 63 \<and> rows * heads * mc < 2 ^ 63)"

lemma context_le_max: "s \<in> set seqs \<Longrightarrow> as_context_len s \<le> foldr max (map as_context_len seqs) 0"
  by (induction seqs) auto

lemma used_blocks_le:
  assumes "0 < block_size c" "seq_in_pool c s"
  shows "ceil_div (as_context_len s) (block_size c) \<le> length (as_block_table s)"
proof (cases "as_context_len s")
  case (Suc n)
  with assms(2) have "n div block_size c < length (as_block_table s)" by (simp add: seq_in_pool_def)
  then have "n < length (as_block_table s) * block_size c" using assms(1) by (simp add: div_less_iff_less_mult)
  with Suc assms(1) show ?thesis by (simp add: ceil_div_le_iff)
qed simp

lemma fill_tables_ok:
  assumes "0 < block_size c" "\<forall>s \<in> set seqs. seq_in_pool c s \<and> ceil_div (as_context_len s) (block_size c) \<le> mb"
    "(m + length seqs) * mb \<le> length tables"
  shows "\<exists>ts. fill_tables c mb (enumerate m seqs) tables = Some ts \<and> length ts = length tables \<and>
    (\<forall>x < m * mb. ts ! x = tables ! x) \<and>
    (\<forall>i < length seqs. \<forall>j < ceil_div (as_context_len (seqs ! i)) (block_size c).
       ts ! ((m + i) * mb + j) = as_i32 (index (as_block_table (seqs ! i) ! j)))"
  using assms(2,3)
proof (induction seqs arbitrary: m tables)
  case (Cons s seqs)
  let ?u = "ceil_div (as_context_len s) (block_size c)"
  have u: "?u \<le> length (as_block_table s)" "?u \<le> mb"
    using used_blocks_le [OF assms(1)] Cons.prems(1) by simp_all
  have fit: "m * mb + mb \<le> length tables"
  proof -
    have "m * mb + mb = Suc m * mb" by simp
    also have "\<dots> \<le> (m + length (s # seqs)) * mb" by (intro mult_le_mono1) simp
    finally show ?thesis using Cons.prems(2) by linarith
  qed
  let ?row = "map (\<lambda>b. as_i32 (index b)) (take ?u (as_block_table s))"
  let ?t = "take (m * mb) tables @ ?row @ drop (?u + m * mb) tables"
  have len: "length ?t = length tables" using u fit by simp
  have all: "take (length (drop (m * mb) tables)) (take ?u (as_block_table s)) = take ?u (as_block_table s)"
    by (rule take_all) (use u fit in simp)
  have step: "fill_tables c mb (enumerate m (s # seqs)) tables = fill_tables c mb (enumerate (Suc m) seqs) ?t"
    using assms(1) u fit all by (simp add: blocks_for_tokens_def Let_def add.commute del: take_take length_drop)
  have "(Suc m + length seqs) * mb \<le> length ?t" using Cons.prems(2) len by simp
  from Cons.IH [OF _ this] Cons.prems(1) obtain ts where
    ts: "fill_tables c mb (enumerate (Suc m) seqs) ?t = Some ts" "length ts = length ?t"
    "\<forall>x < Suc m * mb. ts ! x = ?t ! x"
    "\<forall>i < length seqs. \<forall>j < ceil_div (as_context_len (seqs ! i)) (block_size c).
       ts ! ((Suc m + i) * mb + j) = as_i32 (index (as_block_table (seqs ! i) ! j))" by auto
  have "ts ! x = tables ! x" if "x < m * mb" for x
    using that ts(3) fit by (simp add: nth_append)
  moreover have "ts ! ((m + i) * mb + j) = as_i32 (index (as_block_table ((s # seqs) ! i) ! j))"
    if a: "i < length (s # seqs)" "j < ceil_div (as_context_len ((s # seqs) ! i)) (block_size c)" for i j
  proof (cases i)
    case 0
    with a u(2) have j: "j < ?u" "m * mb + j < Suc m * mb" by simp_all
    then have "ts ! (m * mb + j) = ?t ! (m * mb + j)" using ts(3) by blast
    also have "\<dots> = as_i32 (index (as_block_table s ! j))"
      using j u fit by (simp add: nth_append)
    finally show ?thesis using 0 by simp
  next
    case (Suc i')
    with a ts(4) show ?thesis by simp
  qed
  ultimately show ?case using step ts(1,2) len by auto
qed simp

text \<open>Row \<open>r\<close> of the batch: its sequence, its block table and its position.\<close>

lemma query_row:
  assumes "\<forall>s \<in> set seqs. as_num_queries s \<le> as_context_len s \<and> as_context_len s < 2 ^ 64"
    and "r < query_rows seqs"
  shows "\<exists>i < length seqs. \<exists>p < as_context_len (seqs ! i).
    concat (map (\<lambda>(i, s). replicate (as_num_queries s) (as_i32 i)) (enumerate m seqs)) ! r = as_i32 (m + i) \<and>
    query_list seqs ! r = (as_block_table (seqs ! i), p) \<and> query_pos seqs ! r = as_i32 p"
  using assms
proof (induction seqs arbitrary: m r)
  case (Cons s seqs)
  show ?case
  proof (cases "r < as_num_queries s")
    case True
    with Cons.prems(1) show ?thesis
      by (intro exI [of _ 0]) (auto simp: query_list_def query_pos_def nth_append)
  next
    case False
    with Cons.prems(2) have "r - as_num_queries s < query_rows seqs" by (simp add: query_rows_def)
    from Cons.IH [OF _ this, of "Suc m"] Cons.prems(1) obtain i p where
      i: "i < length seqs" "p < as_context_len (seqs ! i)"
      "concat (map (\<lambda>(i, s). replicate (as_num_queries s) (as_i32 i)) (enumerate (Suc m) seqs)) !
        (r - as_num_queries s) = as_i32 (Suc m + i)"
      "query_list seqs ! (r - as_num_queries s) = (as_block_table (seqs ! i), p)"
      "query_pos seqs ! (r - as_num_queries s) = as_i32 p" by auto
    with False show ?thesis
      by (intro exI [of _ "Suc i"] conjI exI [of _ p]) (auto simp: query_list_def query_pos_def nth_append)
  qed
qed (simp add: query_rows_def)

lemma length_query_pos [simp]: "length (query_pos seqs) = query_rows seqs"
  by (simp add: query_pos_def query_rows_def length_concat comp_def)

lemma length_query_seq [simp]: "length (query_seq seqs) = query_rows seqs"
proof -
  have "map (length \<circ> (\<lambda>(i, s). replicate (as_num_queries s) (as_i32 i))) (enumerate 0 seqs) =
      map as_num_queries seqs"
    by (intro nth_equalityI) (simp_all add: nth_enumerate_eq)
  then show ?thesis by (simp add: query_seq_def query_rows_def length_concat del: enumerate_simps)
qed

section \<open>Addresses of a thread block\<close>

lemma i64_i64 [simp]: "i64 (i64 x) = i64 x"
  by (simp add: i64_def)

lemma i64_mult_exact: "a * b < 2 ^ 63 \<Longrightarrow> i64 (int a * int b) = int (a * b)"
  using i64_exact [of "a * b"] by simp

lemma i64_add_exact: "a + b < 2 ^ 63 \<Longrightarrow> i64 (int a + int b) = int (a + b)"
  using i64_exact [of "a + b"] by simp

lemma attn_entry_ok:
  assumes "cuda_dims c" "in_pool c l s" "0 < entry_elems c"
    and "aa_block_size A = int (block_size c)" "aa_tables A ! (tb + t div block_size c) = int (index (ps_block s))"
    "tb + t div block_size c < length (aa_tables A)" "ps_slot s = t mod block_size c"
  shows "attn_entry A (int tb) (int ho) (i64 (int l * int (num_blocks c))) (int (entry_elems c)) (int t) =
    Some (int (ho + slot_offset c l s))"
proof -
  have bs: "block_size c \<noteq> 0" using assms(2) by (auto simp: in_pool_def)
  have "i64 (i64 (i64 (i64 (int l * int (num_blocks c)) + int (index (ps_block s))) * int (block_size c) +
      int (t mod block_size c)) * int (entry_elems c)) = int (slot_offset c l s)"
    using slot_address [OF assms(1-3)] assms(7) by simp
  moreover have "dev_load (int tb + int (t div block_size c)) (aa_tables A) = Some (int (index (ps_block s)))"
    using assms(5,6) by simp
  ultimately show ?thesis using bs assms(4) by (simp add: attn_entry_def dev_div_def del: of_nat_add)
qed

text \<open>The thread block of row \<open>r\<close> and head \<open>h\<close> writes its vector of the attention.\<close>

definition head_vector :: "'f attn_ops \<Rightarrow> 'f CpuBackend \<Rightarrow> nat \<Rightarrow> AttentionSeq list \<Rightarrow> nat \<Rightarrow> 'f list \<Rightarrow> nat \<Rightarrow> 'f list" where
  "head_vector ops b layer seqs heads q j = softmax_head ops (head_dim (cpu_config b))
     (j mod heads div (heads div num_kv_heads (cpu_config b))) (row_contexts b layer seqs ! (j div heads))
     (take (head_dim (cpu_config b)) (drop (j * head_dim (cpu_config b)) q))"

lemma length_head_vector [simp]:
  "length (head_vector ops (host_view b) layer seqs heads q j) = head_dim (cu_config b)"
  by (simp add: head_vector_def softmax_head_def Let_def)

text \<open>
  A call that passed the check and fits: what its sizes are. \<open>mc\<close> is the longest context, \<open>mb\<close> the
  blocks it takes, \<open>ts\<close> the flattened block tables.
\<close>

definition attn_call :: "'f CudaBackend \<Rightarrow> nat \<Rightarrow> AttentionSeq list \<Rightarrow> 'f list \<Rightarrow> nat \<Rightarrow> nat \<Rightarrow> nat \<Rightarrow> int list \<Rightarrow> bool" where
  "attn_call b layer seqs q heads mc mb ts \<longleftrightarrow> cuda_inv b \<and> 0 < block_size (cu_config b) \<and>
     check_attention (cu_config b) layer seqs (length q) (length q) = Ok heads () \<and>
     attn_fits (cu_config b) seqs heads q \<and> 0 < query_rows seqs \<and>
     mc = foldr max (map as_context_len seqs) 0 \<and> mb = ceil_div mc (block_size (cu_config b)) \<and>
     fill_tables (cu_config b) mb (enumerate 0 seqs) (replicate (length seqs * mb) 0) = Some ts"

lemma attn_callD:
  assumes "attn_call b layer seqs q heads mc mb ts"
  shows "cuda_inv b" "0 < block_size (cu_config b)" "layer < num_layers (cu_config b)"
    "\<forall>s \<in> set seqs. seq_in_pool (cu_config b) s" "num_kv_heads (cu_config b) dvd heads" "0 < heads"
    "0 < num_kv_heads (cu_config b)" "0 < head_dim (cu_config b)"
    "length q = query_rows seqs * heads * head_dim (cu_config b)"
    and "\<And>s. s \<in> set seqs \<Longrightarrow> as_context_len s \<le> mc"
    and "\<And>s. s \<in> set seqs \<Longrightarrow> ceil_div (as_context_len s) (block_size (cu_config b)) \<le> mb"
proof -
  from assms show b: "cuda_inv b" "0 < block_size (cu_config b)" by (simp_all add: attn_call_def)
  from assms have chk: "check_attention (cu_config b) layer seqs (length q) (length q) = Ok heads ()"
    and rows: "0 < query_rows seqs" by (simp_all add: attn_call_def)
  note K = check_attention_ok [OF b(2) chk]
  from K(1,2,5) rows show "layer < num_layers (cu_config b)"
    "\<forall>s \<in> set seqs. seq_in_pool (cu_config b) s" "num_kv_heads (cu_config b) dvd heads" "0 < heads"
    "0 < num_kv_heads (cu_config b)" "0 < head_dim (cu_config b)"
    "length q = query_rows seqs * heads * head_dim (cu_config b)"
    by simp_all
  show "as_context_len s \<le> mc" if "s \<in> set seqs" for s
    using context_le_max [OF that] assms by (simp add: attn_call_def)
  then show "ceil_div (as_context_len s) (block_size (cu_config b)) \<le> mb" if "s \<in> set seqs" for s
    using ceil_div_mono [OF b(2)] that assms by (simp add: attn_call_def)
qed

lemma attn_call_limits:
  assumes "attn_call b layer seqs q heads mc mb ts"
  shows "mc < 2 ^ 31" "heads < 2 ^ 31" "head_dim (cu_config b) < 2 ^ 31" "num_kv_heads (cu_config b) < 2 ^ 31"
    "length q < 2 ^ 63" "length seqs * mb < 2 ^ 63" "query_rows seqs * heads * mc < 2 ^ 63"
    "length seqs < 2 ^ 31" "query_rows seqs < 2 ^ 31" "mb < 2 ^ 31"
    "num_blocks (cu_config b) < 2 ^ 31" "block_size (cu_config b) < 2 ^ 31" "layer < 2 ^ 31"
    "entry_elems (cu_config b) < 2 ^ 31"
proof -
  note C = attn_callD [OF assms]
  from assms show "mc < 2 ^ 31" "heads < 2 ^ 31" "head_dim (cu_config b) < 2 ^ 31"
    "num_kv_heads (cu_config b) < 2 ^ 31" "length q < 2 ^ 63" "length seqs * mb < 2 ^ 63"
    "query_rows seqs * heads * mc < 2 ^ 63" "length seqs < 2 ^ 31" "query_rows seqs < 2 ^ 31"
    by (simp_all add: attn_call_def attn_fits_def Let_def)
  moreover have "mb \<le> mc" using assms C(2) by (simp add: attn_call_def ceil_div_le_iff)
  ultimately show "mb < 2 ^ 31" by linarith
  from cuda_invD(3) [OF C(1)] C(3) show "num_blocks (cu_config b) < 2 ^ 31" "block_size (cu_config b) < 2 ^ 31"
    "layer < 2 ^ 31" "entry_elems (cu_config b) < 2 ^ 31" by (simp_all add: cuda_dims_def)
qed

text \<open>What the device arrays say of row \<open>r\<close>.\<close>

definition row_tables :: "'f CudaBackend \<Rightarrow> AttentionSeq list \<Rightarrow> nat \<Rightarrow> int list \<Rightarrow> nat \<Rightarrow> nat \<Rightarrow> BlockId list \<Rightarrow> nat \<Rightarrow> bool" where
  "row_tables b seqs mb ts r i table p \<longleftrightarrow> i * mb \<le> length seqs * mb \<and> i < length seqs \<and>
     query_seq seqs ! r = int i \<and> query_list seqs ! r = (table, p) \<and> query_pos seqs ! r = int p \<and>
     table_in_pool (cu_config b) table (p + 1) \<and>
     (\<forall>t \<le> p. i * mb + t div block_size (cu_config b) < length ts \<and>
        ts ! (i * mb + t div block_size (cu_config b)) = int (index (table ! (t div block_size (cu_config b)))))"

lemma row_tables_ok:
  assumes call: "attn_call b layer seqs q heads mc mb ts" and r: "r < query_rows seqs"
  shows "\<exists>i table p. row_tables b seqs mb ts r i table p \<and> p < mc"
proof -
  let ?bs = "block_size (cu_config b)"
  note C = attn_callD [OF call] and lim = attn_call_limits [OF call]
  have "\<forall>s \<in> set seqs. as_num_queries s \<le> as_context_len s \<and> as_context_len s < 2 ^ 64"
    using C(4,10) lim(1) by (force simp: seq_in_pool_def)
  from query_row [OF this r, of 0] obtain i p where
    i: "i < length seqs" "p < as_context_len (seqs ! i)" "query_seq seqs ! r = as_i32 i"
    "query_list seqs ! r = (as_block_table (seqs ! i), p)" "query_pos seqs ! r = as_i32 p"
    by (auto simp: query_seq_def)
  let ?s = "seqs ! i" and ?t = "as_block_table (seqs ! i)"
  have si: "?s \<in> set seqs" using i(1) by simp
  have p: "p < mc" using i(2) C(10) [OF si] by linarith
  have pool: "table_in_pool (cu_config b) ?t (p + 1)"
    using C(2,4) si i(2) by (auto simp: seq_in_pool_def table_in_pool_def)
  have "\<forall>s \<in> set seqs. seq_in_pool (cu_config b) s \<and> ceil_div (as_context_len s) ?bs \<le> mb"
    using C(4,11) by blast
  from fill_tables_ok [OF C(2) this, of 0 "replicate (length seqs * mb) 0"] call i(1) have
    T: "length ts = length seqs * mb" "\<forall>j < ceil_div (as_context_len ?s) ?bs.
      ts ! (i * mb + j) = as_i32 (index (?t ! j))" by (auto simp: attn_call_def)
  have row: "i * mb + mb \<le> length seqs * mb" using mult_le_mono1 [of "Suc i" "length seqs" mb] i(1) by simp
  have "i * mb + t div ?bs < length ts \<and> ts ! (i * mb + t div ?bs) = int (index (?t ! (t div ?bs)))"
    if t: "t \<le> p" for t
  proof -
    have "t div ?bs * ?bs \<le> t" by simp
    with t i(2) have j: "t div ?bs < ceil_div (as_context_len ?s) ?bs"
      by (subst less_ceil_div_iff [OF C(2)]) linarith
    moreover have "index (?t ! (t div ?bs)) < 2 ^ 31"
    proof -
      from pool t have "index (?t ! (t div ?bs)) < num_blocks (cu_config b)" by (simp add: table_in_pool_def)
      with lim(11) show ?thesis by linarith
    qed
    ultimately show ?thesis using T row C(11) [OF si] by simp
  qed
  with i p pool lim(1,8) row show ?thesis by (auto simp: row_tables_def)
qed

text \<open>The scalars of the thread block, none of which wraps.\<close>

lemma attn_block_eq:
  assumes call: "attn_call b layer seqs q heads mc mb ts" and row: "row_tables b seqs mb ts r i table p"
    and rh: "r < query_rows seqs" "h < heads"
  shows "attn_block dv (attn_arguments fp b layer heads mb mc seqs ts q) run (r, h) mem =
    attn_phases dv (attn_arguments fp b layer heads mb mc seqs ts q) (br_sched run (r, h)) (br_shared run (r, h))
      (attn_entry (attn_arguments fp b layer heads mb mc seqs ts q) (int (i * mb))
        (int (h div (heads div num_kv_heads (cu_config b)) * head_dim (cu_config b)))
        (i64 (int layer * int (num_blocks (cu_config b)))) (int (entry_elems (cu_config b))))
      (int ((r * heads + h) * head_dim (cu_config b))) (int ((r * heads + h) * mc)) (p + 1) mem"
proof -
  let ?c = "cu_config b" and ?A = "attn_arguments fp b layer heads mb mc seqs ts q"
  let ?d = "head_dim ?c" and ?cell = "r * heads + h" and ?hk = "h div (heads div num_kv_heads ?c)"
  note C = attn_callD [OF call] and lim = attn_call_limits [OF call]
  have args [simp]: "aa_pos ?A = query_pos seqs" "aa_seq ?A = query_seq seqs" "aa_max_blocks ?A = int mb"
    "aa_kv_heads ?A = int (num_kv_heads ?c)" "aa_head_dim ?A = int ?d" "aa_heads ?A = int heads"
    "aa_layer ?A = int layer" "aa_num_blocks ?A = int (num_blocks ?c)" "aa_max_context ?A = int mc"
    using lim by (simp_all add: attn_arguments_def Let_def)
  have cell: "?cell < query_rows seqs * heads" by (rule mult_add_less [OF rh])
  have "heads div num_kv_heads ?c \<noteq> 0" using C(5,6) by (auto elim!: dvdE)
  then have share: "dev_div (int heads) (int (num_kv_heads ?c)) = Some (int (heads div num_kv_heads ?c))"
    "dev_div (int h) (int (heads div num_kv_heads ?c)) = Some (int ?hk)"
    using C(7) by (simp_all add: dev_div_def del: of_nat_div)
  have hk: "?hk < num_kv_heads ?c" by (rule head_index [OF C(5,7,6) rh(2)])
  have ho: "?hk * ?d < 2 ^ 63"
  proof -
    have "?hk * ?d \<le> entry_elems ?c" using hk by (simp add: entry_elems_def)
    also have "entry_elems ?c < 2 ^ 63" using lim(14) by simp
    finally show ?thesis .
  qed
  have cd: "?cell * ?d < 2 ^ 63"
    using mult_le_mono1 [of ?cell "query_rows seqs * heads" ?d] cell C(9) lim(5) by linarith
  have cm: "?cell * mc < 2 ^ 63"
    using mult_le_mono1 [of ?cell "query_rows seqs * heads" mc] cell lim(7) by linarith
  have ct: "?cell < 2 ^ 63" "r * heads < 2 ^ 63"
  proof -
    have "?cell \<le> ?cell * ?d" using C(8) by simp
    with cd show "?cell < 2 ^ 63" "r * heads < 2 ^ 63" by linarith+
  qed
  have tb: "i * mb < 2 ^ 63"
    using row le_less_trans [OF _ lim(6)] unfolding row_tables_def by blast
  have ee: "i64 (int (num_kv_heads ?c) * int ?d) = int (entry_elems ?c)"
    using i64_mult_exact [of "num_kv_heads ?c" ?d] lim(14) by (simp add: entry_elems_def)
  have c1: "i64 (i64 (int r * int heads) + int h) = int ?cell"
    by (simp only: i64_mult_exact [OF ct(2)] i64_add_exact [OF ct(1)])
  have n: "nat (int p + 1) = Suc p" by simp
  show ?thesis using row rh
    by (simp add: attn_block_def Let_def row_tables_def share ee c1 n del: of_nat_mult of_nat_add of_nat_div)
      (simp only: i64_mult_exact [OF tb] i64_mult_exact [OF ho] i64_mult_exact [OF cd] i64_mult_exact [OF cm])
qed

lemma row_entries_ok:
  fixes fp :: "'f arith"
  assumes call: "attn_call b layer seqs q heads mc mb ts" and row: "row_tables b seqs mb ts r i table p"
    and hk: "hk < num_kv_heads (cu_config b)"
  defines "A \<equiv> attn_arguments fp b layer heads mb mc seqs ts q"
  defines "off \<equiv> \<lambda>t. hk * head_dim (cu_config b) + slot_offset (cu_config b) layer
    (new_slot (table ! (t div block_size (cu_config b))) (t mod block_size (cu_config b)))"
  shows "entry_ok A (attn_entry A (int (i * mb)) (int (hk * head_dim (cu_config b)))
      (i64 (int layer * int (num_blocks (cu_config b)))) (int (entry_elems (cu_config b)))) off (p + 1)"
    and "\<forall>t < p + 1. read_slice (off t) (head_dim (cu_config b)) (cu_k b) =
        Some (head_part (head_dim (cu_config b)) hk
          (fst (gather (cuda_entry b layer) (block_size (cu_config b)) table (p + 1) ! t))) \<and>
      read_slice (off t) (head_dim (cu_config b)) (cu_v b) = Some (head_part (head_dim (cu_config b)) hk
          (snd (gather (cuda_entry b layer) (block_size (cu_config b)) table (p + 1) ! t)))"
proof -
  let ?c = "cu_config b" and ?d = "head_dim (cu_config b)"
  let ?slot = "\<lambda>t. new_slot (table ! (t div block_size ?c)) (t mod block_size ?c)"
  note C = attn_callD [OF call] and lim = attn_call_limits [OF call]
  have pool: "table_in_pool ?c table (p + 1)" using row by (simp add: row_tables_def)
  have A: "aa_block_size A = int (block_size ?c)" "aa_head_dim A = int ?d" "aa_tables A = ts"
    "aa_k A = cu_k b" "aa_v A = cu_v b"
    using lim by (simp_all add: A_def attn_arguments_def Let_def)
  show reads: "\<forall>t < p + 1. read_slice (off t) ?d (cu_k b) = Some (head_part ?d hk
          (fst (gather (cuda_entry b layer) (block_size ?c) table (p + 1) ! t))) \<and>
      read_slice (off t) ?d (cu_v b) = Some (head_part ?d hk
          (snd (gather (cuda_entry b layer) (block_size ?c) table (p + 1) ! t)))"
  proof (intro allI impI)
    fix t assume t: "t < p + 1"
    have o: "head_offset ?c layer table hk t = Some (off t)"
      using pool t by (simp add: head_offset_def off_def table_in_pool_def add.commute)
    from head_read [OF pool t C(3) hk cuda_invD(1) [OF C(1)]] head_read [OF pool t C(3) hk cuda_invD(2) [OF C(1)]]
    show "read_slice (off t) ?d (cu_k b) = Some (head_part ?d hk
          (fst (gather (cuda_entry b layer) (block_size ?c) table (p + 1) ! t))) \<and>
      read_slice (off t) ?d (cu_v b) = Some (head_part ?d hk
          (snd (gather (cuda_entry b layer) (block_size ?c) table (p + 1) ! t)))"
      using t by (simp add: o cuda_entry_def gather_def del: upt_Suc)
  qed
  have ee: "0 < entry_elems ?c" using C(7,8) by (simp add: entry_elems_def)
  have "attn_entry A (int (i * mb)) (int (hk * ?d)) (i64 (int layer * int (num_blocks ?c))) (int (entry_elems ?c))
      (int t) = Some (int (off t))" if t: "t < p + 1" for t
  proof -
    have s: "in_pool ?c layer (?slot t)" using pool t C(3) by (simp add: table_in_pool_def in_pool_def)
    show ?thesis unfolding off_def
      by (rule attn_entry_ok [OF cuda_invD(3) [OF C(1)] s ee A(1)]) (use row t A(3) in \<open>simp_all add: row_tables_def\<close>)
  qed
  with reads slice_of_read(1) show "entry_ok A (attn_entry A (int (i * mb)) (int (hk * ?d))
      (i64 (int layer * int (num_blocks ?c))) (int (entry_elems ?c))) off (p + 1)"
    unfolding entry_ok_def A nat_int by (metis of_nat_0_le_iff)
qed

lemma attn_block_ok:
  fixes fp :: "'f arith"
  assumes call: "attn_call b layer seqs q heads mc mb ts"
    and run: "full_sched (br_sched run (r, h))" "length (br_shared run (r, h)) = ATTN_THREADS"
    and rh: "r < query_rows seqs" "h < heads"
    and mem: "length mem = query_rows seqs * heads * mc" and out: "length out = length q"
  shows "\<exists>mem'. attn_block dv (attn_arguments fp b layer heads mb mc seqs ts q) run (r, h) (mem, out) =
      Some (mem', take ((r * heads + h) * head_dim (cu_config b)) out @
        head_vector (device_ops dv (attn_scale fp (head_dim (cu_config b)))) (host_view b) layer seqs heads q
          (r * heads + h) @
        drop ((r * heads + h) * head_dim (cu_config b) + head_dim (cu_config b)) out) \<and>
    length mem' = length mem"
proof -
  let ?c = "cu_config b" and ?A = "attn_arguments fp b layer heads mb mc seqs ts q"
  let ?d = "head_dim ?c" and ?cell = "r * heads + h" and ?hk = "h div (heads div num_kv_heads (cu_config b))"
  note C = attn_callD [OF call] and lim = attn_call_limits [OF call]
  from row_tables_ok [OF call rh(1)] obtain i table p where
    row: "row_tables b seqs mb ts r i table p" and p: "p < mc" by blast
  have hk: "?hk < num_kv_heads ?c" by (rule head_index [OF C(5,7,6) rh(2)])
  have cell: "?cell < query_rows seqs * heads" by (rule mult_add_less [OF rh])
  have A: "aa_q ?A = q" "aa_head_dim ?A = int ?d" "aa_scale ?A = attn_scale fp ?d" "aa_k ?A = cu_k b" "aa_v ?A = cu_v b"
    using lim by (simp_all add: attn_arguments_def Let_def)
  have cd: "?cell * ?d + ?d \<le> length q"
    using mult_le_mono1 [of "Suc ?cell" "query_rows seqs * heads" ?d] cell C(9) by simp
  have cm: "?cell * mc + (p + 1) \<le> length mem"
    using mult_le_mono1 [of "Suc ?cell" "query_rows seqs * heads" mc] cell mem p by simp
  note E = row_entries_ok(1) [OF call row hk, where fp = fp] row_entries_ok(2) [OF call row hk]
  let ?kvs = "gather (cuda_entry b layer) (block_size ?c) table (p + 1)"
  have kvs: "row_contexts (host_view b) layer seqs ! r = ?kvs"
    using row rh(1) by (simp add: row_contexts_def row_tables_def length_query_list)
  have vec: "?cell * ?d + nat (aa_head_dim ?A) \<le> length (aa_q ?A)" "?cell * ?d + nat (aa_head_dim ?A) \<le> length out"
    using cd A(1,2) out by simp_all
  from kernel_head_soft [OF _ _ _ E(2) [unfolded A(4,5) [symmetric]], of "?cell * ?d" dv] cd A(1-3) have
    "kernel_head dv ?A (\<lambda>t. ?hk * ?d + slot_offset ?c layer (new_slot (table ! (t div block_size ?c))
      (t mod block_size ?c))) (?cell * ?d) (p + 1) =
     head_vector (device_ops dv (attn_scale fp ?d)) (host_view b) layer seqs heads q ?cell"
    using rh(2) by (simp add: head_vector_def kvs)
  with attn_phases_ok [OF run E(1) vec(1) cm vec(2), of dv]
  show ?thesis unfolding attn_block_eq [OF call row rh] A(2) nat_int by simp
qed

section \<open>The launch\<close>

lemma splice_nth:
  assumes "a + length xs \<le> length buf" "x < length buf"
  shows "(take a buf @ xs @ drop (a + length xs) buf) ! x =
    (if a \<le> x \<and> x < a + length xs then xs ! (x - a) else buf ! x)"
proof -
  consider "x < a" | "a \<le> x" "x - a < length xs" "x < a + length xs" | "a + length xs \<le> x" "\<not> x - a < length xs" by linarith
  then show ?thesis by cases (use assms in \<open>simp_all add: nth_append\<close>)
qed

lemma div_eq_cell:
  fixes d :: nat
  assumes "0 < d"
  shows "x div d = c \<longleftrightarrow> c * d \<le> x \<and> x < c * d + d"
proof -
  have "x div d = c \<longleftrightarrow> c \<le> x div d \<and> x div d < Suc c" by auto
  also have "\<dots> \<longleftrightarrow> c * d \<le> x \<and> x < Suc c * d"
    by (simp only: less_eq_div_iff_mult_less_eq [OF assms] div_less_iff_less_mult [OF assms])
  finally show ?thesis by (simp add: add.commute)
qed

text \<open>Thread blocks write disjoint vectors of the output, so their order does not matter.\<close>

lemma run_blocks:
  assumes step: "\<And>j mem out. j \<in> set js \<Longrightarrow> length mem = m \<Longrightarrow> length out = n \<Longrightarrow>
      \<exists>mem'. f j (mem, out) = Some (mem', take (c j * d) out @ R (c j) @ drop (c j * d + d) out) \<and>
        length mem' = length mem"
    and "\<And>j. j \<in> set js \<Longrightarrow> length (R (c j)) = d \<and> c j * d + d \<le> n"
    and "distinct (map c js)" "length mem = m" "length out = n"
  shows "\<exists>mem' out'. run_jobs f js (mem, out) = Some (mem', out') \<and> length out' = n \<and>
    (\<forall>x < n. 0 < d \<longrightarrow> out' ! x = (if x div d \<in> c ` set js then R (x div d) ! (x mod d) else out ! x))"
  using assms
proof (induction js arbitrary: mem out)
  case (Cons j js)
  let ?out = "take (c j * d) out @ R (c j) @ drop (c j * d + d) out"
  from Cons.prems(1) [of j mem out] Cons.prems(4,5) obtain mem1 where
    f: "f j (mem, out) = Some (mem1, ?out)" "length mem1 = m" by auto
  have R: "length (R (c j)) = d" "c j * d + d \<le> n" using Cons.prems(2) [of j] by simp_all
  then have len: "length ?out = n" using Cons.prems(5) by simp
  have "\<exists>mem' out'. run_jobs f js (mem1, ?out) = Some (mem', out') \<and> length out' = n \<and>
    (\<forall>x < n. 0 < d \<longrightarrow> out' ! x = (if x div d \<in> c ` set js then R (x div d) ! (x mod d) else ?out ! x))"
  proof (rule Cons.IH [OF _ _ _ f(2) len])
    show "distinct (map c js)" using Cons.prems(3) by simp
  qed (rule Cons.prems(1,2); simp)+
  then obtain mem' out' where
    r: "run_jobs f js (mem1, ?out) = Some (mem', out')" "length out' = n"
    "\<forall>x < n. 0 < d \<longrightarrow> out' ! x = (if x div d \<in> c ` set js then R (x div d) ! (x mod d) else ?out ! x)" by blast
  have out: "?out ! x = (if x div d = c j then R (x div d) ! (x mod d) else out ! x)" if x: "x < n" "0 < d" for x
  proof -
    have "x - c j * d = x mod d" if "x div d = c j" using that by (metis minus_div_mult_eq_mod)
    then show ?thesis
      using splice_nth [of "c j * d" "R (c j)" out x] R x Cons.prems(5) by (simp add: div_eq_cell [symmetric])
  qed
  have "out' ! x = (if x div d \<in> c ` set (j # js) then R (x div d) ! (x mod d) else out ! x)"
    if x: "x < n" "0 < d" for x
    using r(3) x out [OF x] by simp
  with r(1,2) f(1) show ?case by simp
qed simp

lemma length_concat_equal:
  "\<forall>j < m. length (f j) = d \<Longrightarrow> length (concat (map f [0..<m])) = m * d"
  by (induction m) simp_all

lemma nth_concat_equal:
  "\<forall>j < m. length (f j) = d \<Longrightarrow> x < m * d \<Longrightarrow> concat (map f [0..<m]) ! x = f (x div d) ! (x mod d)"
proof (induction m)
  case (Suc m)
  have len: "length (concat (map f [0..<m])) = m * d" using length_concat_equal [of m f d] Suc.prems(1) by simp
  show ?case
  proof (cases "x < m * d")
    case True
    with Suc len show ?thesis by (simp add: nth_append)
  next
    case False
    moreover from Suc.prems(2) have "0 < d" by (cases d) simp_all
    ultimately have "x div d = m" using Suc.prems(2) by (simp add: div_eq_cell)
    then have "x - m * d = x mod d" by (metis minus_div_mult_eq_mod)
    with False len \<open>x div d = m\<close> show ?thesis by (simp add: nth_append)
  qed
qed simp

lemma attention_vectors:
  "softmax_attention ops (head_dim (cu_config b)) heads (heads div num_kv_heads (cu_config b))
    (row_contexts (host_view b) layer seqs) q =
   concat (map (head_vector ops (host_view b) layer seqs heads q) [0..<query_rows seqs * heads])"
  by (simp add: softmax_attention_def head_vector_def [abs_def] row_contexts_def length_query_list)

text \<open>The dense attention of the host backend is attention by the host's operations.\<close>

lemma host_attention:
  assumes call: "attn_call b layer seqs q heads mc mb ts"
  shows "dense_attention fp (head_dim (cu_config b)) heads (heads div num_kv_heads (cu_config b))
      (row_contexts (host_view b) layer seqs) q =
    softmax_attention (host_ops fp (head_dim (cu_config b))) (head_dim (cu_config b)) heads
      (heads div num_kv_heads (cu_config b)) (row_contexts (host_view b) layer seqs) q"
proof -
  let ?c = "cu_config b" and ?ctx = "row_contexts (host_view b) layer seqs"
  note C = attn_callD [OF call]
  have "dense_head fp (head_dim ?c) (j mod heads div (heads div num_kv_heads ?c)) (?ctx ! (j div heads)) qh =
      softmax_head (host_ops fp (head_dim ?c)) (head_dim ?c) (j mod heads div (heads div num_kv_heads ?c))
        (?ctx ! (j div heads)) qh" if j: "j < query_rows seqs * heads" for j qh
  proof (rule dense_head_soft)
    let ?hk = "j mod heads div (heads div num_kv_heads ?c)"
    have r: "j div heads < query_rows seqs" "j mod heads < heads"
      using j C(6) by (simp_all add: less_mult_imp_div_less)
    from row_tables_ok [OF call r(1)] obtain i table p where
      row: "row_tables b seqs mb ts (j div heads) i table p" by blast
    have "?ctx ! (j div heads) = gather (cuda_entry b layer) (block_size ?c) table (p + 1)"
      using row r(1) by (simp add: row_contexts_def row_tables_def length_query_list)
    moreover have "?hk < num_kv_heads ?c" by (rule head_index [OF C(5,7,6) r(2)])
    then have "Suc ?hk * head_dim ?c \<le> num_kv_heads ?c * head_dim ?c" by (intro mult_le_mono1) simp
    then have w: "?hk * head_dim ?c + head_dim ?c \<le> entry_elems ?c" by (simp add: entry_elems_def add.commute)
    ultimately show "\<forall>(k, v) \<in> set (?ctx ! (j div heads)). length (head_part (head_dim ?c) ?hk v) = head_dim ?c"
      using gather_lengths [OF cuda_inv_host [OF C(1)], of layer table "p + 1"] C(3) row w
      by (auto simp: row_tables_def head_part_def)
  qed
  note heads_eq = this
  have len: "length ?ctx = query_rows seqs" by (simp add: row_contexts_def length_query_list)
  show ?thesis unfolding dense_attention_def softmax_attention_def len
    by (intro arg_cong [where f = concat] map_cong refl heads_eq) simp
qed

lemma launch_attention:
  fixes fp :: "'f arith"
  assumes call: "attn_call b layer seqs q heads mc mb ts"
    and run: "\<forall>j. full_sched (br_sched run j) \<and> length (br_shared run j) = ATTN_THREADS"
    and js: "mset js = mset (List.product [0..<query_rows seqs] [0..<heads])"
    and mem: "length mem = query_rows seqs * heads * mc" and out: "length out = length q"
  shows "\<exists>mem'. run_jobs (attn_block dv (attn_arguments fp b layer heads mb mc seqs ts q) run) js (mem, out) =
    Some (mem', softmax_attention (device_ops dv (attn_scale fp (head_dim (cu_config b)))) (head_dim (cu_config b)) heads (heads div num_kv_heads (cu_config b))
      (row_contexts (host_view b) layer seqs) q)"
proof -
  let ?c = "\<lambda>(r, h). r * heads + h" and ?d = "head_dim (cu_config b)" and ?cells = "query_rows seqs * heads"
  let ?R = "head_vector (device_ops dv (attn_scale fp (head_dim (cu_config b)))) (host_view b) layer seqs heads q"
  note C = attn_callD [OF call]
  have set_js: "set js = {0..<query_rows seqs} \<times> {0..<heads}" using mset_eq_setD [OF js] by simp
  have cells: "?c ` set js = {0..<?cells}"
  proof (intro equalityI subsetI)
    fix x assume "x \<in> {0..<?cells}"
    then have "(x div heads, x mod heads) \<in> set js" using C(6) by (simp add: set_js less_mult_imp_div_less)
    then show "x \<in> ?c ` set js" by (intro image_eqI [of _ _ "(x div heads, x mod heads)"]) simp_all
  qed (auto simp: set_js mult_add_less)
  have "distinct js" using mset_eq_imp_distinct_iff [OF js] by (simp add: distinct_product)
  moreover have "inj_on ?c (set js)" by (auto simp: inj_on_def set_js mult_add_inject)
  ultimately have dist: "distinct (map ?c js)" by (simp add: distinct_map)
  have "length (?R (?c j)) = ?d \<and> ?c j * ?d + ?d \<le> length q" if "j \<in> set js" for j
  proof -
    from that cells have "?c j < ?cells" by auto
    with mult_le_mono1 [of "Suc (?c j)" ?cells ?d] C(9) show ?thesis by simp
  qed
  moreover have "\<exists>mem'. attn_block dv (attn_arguments fp b layer heads mb mc seqs ts q) run j (mem, out) =
      Some (mem', take (?c j * ?d) out @ ?R (?c j) @ drop (?c j * ?d + ?d) out) \<and> length mem' = length mem"
    if "j \<in> set js" "length mem = query_rows seqs * heads * mc" "length out = length q" for j mem out
    using attn_block_ok [OF call _ _ _ _ that(2,3), of run "fst j" "snd j" dv fp] run that(1)
    by (cases j) (simp add: set_js)
  ultimately obtain mem' out' where
    r: "run_jobs (attn_block dv (attn_arguments fp b layer heads mb mc seqs ts q) run) js (mem, out) =
      Some (mem', out')" "length out' = length q"
    "\<forall>x < length q. 0 < ?d \<longrightarrow> out' ! x = (if x div ?d \<in> ?c ` set js then ?R (x div ?d) ! (x mod ?d) else out ! x)"
    using run_blocks [where R = ?R and c = ?c and js = js, OF _ _ dist mem out] by blast
  have "out' = concat (map ?R [0..<?cells])"
  proof (rule nth_equalityI)
    show "length out' = length (concat (map ?R [0..<?cells]))"
      using length_concat_equal [of ?cells ?R ?d] r(2) C(9) by simp
    fix x assume "x < length out'"
    with r(2) C(9) have x: "x < ?cells * ?d" "x < length q" by simp_all
    then have "x div ?d \<in> ?c ` set js" unfolding cells by (simp add: less_mult_imp_div_less)
    with r(3) x C(8) nth_concat_equal [of ?cells ?R ?d x]
    show "out' ! x = concat (map ?R [0..<?cells]) ! x" by simp
  qed
  with r(1) show ?thesis by (simp add: attention_vectors)
qed

section \<open>The same contexts as the host backend\<close>

text \<open>What the call returns, on the device and (as dense attention) on the host.\<close>

lemma cuda_attention_busy:
  fixes fp :: "'f arith"
  assumes inv: "cuda_inv b" and bs: "0 < block_size (cu_config b)" and rows: "0 < query_rows seqs"
    and chk: "check_attention (cu_config b) layer seqs (length q) (length out) = Ok heads ()"
    and fits: "attn_fits (cu_config b) seqs heads q"
    and orders: "\<forall>j. full_sched (br_sched run j) \<and> length (br_shared run j) = ATTN_THREADS"
  shows "cuda_paged_attention fp dv run layer seqs q out b =
    Ok (softmax_attention (device_ops dv (attn_scale fp (head_dim (cu_config b)))) (head_dim (cu_config b)) heads
      (heads div num_kv_heads (cu_config b)) (row_contexts (host_view b) layer seqs) q)
      (b\<lparr>cu_calls := cu_calls b + 8\<rparr>)" (is ?device)
    and "dense_attention fp (head_dim (cu_config b)) heads (heads div num_kv_heads (cu_config b))
      (row_contexts (host_view b) layer seqs) q =
    softmax_attention (host_ops fp (head_dim (cu_config b))) (head_dim (cu_config b)) heads
      (heads div num_kv_heads (cu_config b)) (row_contexts (host_view b) layer seqs) q" (is ?host)
proof -
  let ?d = "head_dim (cu_config b)" and ?ops = "device_ops dv (attn_scale fp (head_dim (cu_config b)))"
  let ?R = "softmax_attention ?ops ?d heads (heads div num_kv_heads (cu_config b))
    (row_contexts (host_view b) layer seqs) q"
  let ?mc = "foldr max (map as_context_len seqs) 0" and ?b = "b\<lparr>cu_calls := cu_calls b + 7\<rparr>"
  let ?mb = "ceil_div ?mc (block_size (cu_config b))"
  note K = check_attention_ok [OF bs chk]
  have "\<forall>s \<in> set seqs. seq_in_pool (cu_config b) s \<and> ceil_div (as_context_len s) (block_size (cu_config b)) \<le> ?mb"
    using K(2) ceil_div_mono [OF bs context_le_max] by blast
  from fill_tables_ok [OF bs this, of 0 "replicate (length seqs * ?mb) 0"] obtain ts where
    ts: "fill_tables (cu_config b) ?mb (enumerate 0 seqs) (replicate (length seqs * ?mb) 0) = Some ts" by auto
  have call: "attn_call ?b layer seqs q heads ?mc ?mb ts"
    using inv bs fits chk K(3) rows ts by (simp add: attn_call_def)
  note lim = attn_call_limits [OF call]
  have view: "host_view ?b = host_view b" by (simp add: host_view_def)
  from host_attention [OF call, of fp] show ?host by (simp add: view)
  from launch_attention [OF call orders cuda_invD(5) [OF inv], of
      "replicate (query_rows seqs * heads * ?mc) (f_zero fp)" "replicate (length q) (f_zero fp)" dv fp] obtain mem' where
    run: "run_jobs (attn_block dv (attn_arguments fp ?b layer heads ?mb ?mc seqs ts q) run)
      (cu_order b (cu_calls b + 7) (List.product [0..<query_rows seqs] [0..<heads]))
      (replicate (query_rows seqs * heads * ?mc) (f_zero fp), replicate (length q) (f_zero fp)) = Some (mem', ?R)"
    by (auto simp: view)
  have "length ?R = length out"
    using length_concat_equal [of "query_rows seqs * heads" "head_vector ?ops (host_view b) layer seqs heads q" ?d]
      attn_callD(9) [OF call] K(3)
    by (simp add: attention_vectors)
  moreover have "query_rows seqs * heads \<le> length q" using attn_callD(8,9) [OF call] by simp
  from this lim(5) have "query_rows seqs * heads < 2 ^ 63" by (rule le_less_trans)
  then have "usize_mul (usize_mul (query_rows seqs) heads) ?mc = query_rows seqs * heads * ?mc"
    using lim(7) by simp
  ultimately show ?device
    using rows chk bs ts lim driver_calls_ok [OF inv, of 7] run
    by (simp add: cuda_paged_attention_def Let_def blocks_for_tokens_def driver_call_def cuda_invD(4) [OF inv])
qed

text \<open>
  C13: A batch that passes the validation and whose sizes fit the kernel's integers, on a device whose
  driver calls succeed: whatever the order in which the launch runs its thread blocks and each block
  its 128 threads between two barriers, the device's \<open>paged_attention\<close> returns attention, by the
  device's operations, of exactly the K/V contexts that the host backend attends to, query by query
  and head by head, and leaves the planes alone; the host backend returns the same attention by its
  own operations. So the two differ by no more than their arithmetic: the device's library
  functions and contracted multiply-adds, and the fixed tree in which a thread block takes the
  maximum and the total that the host folds from the left.
\<close>

theorem cuda_attention_reads_host_contexts:
  fixes fp :: "'f arith"
  assumes "cuda_inv b" "0 < block_size (cu_config b)" "0 < num_kv_heads (cu_config b)"
    and chk: "check_attention (cu_config b) layer seqs (length q) (length out) = Ok heads ()"
    and "attn_fits (cu_config b) seqs heads q"
    and "\<forall>j. full_sched (br_sched run j) \<and> length (br_shared run j) = ATTN_THREADS"
  shows "(\<exists>b'. cuda_paged_attention fp dv run layer seqs q out b =
      Ok (batch_attention (device_ops dv (attn_scale fp (head_dim (cu_config b)))) (host_view b) layer seqs heads q) b' \<and>
      cuda_inv b' \<and> cu_k b' = cu_k b \<and> cu_v b' = cu_v b) \<and>
    cpu_paged_attention fp layer seqs q out (host_view b) =
      Ok (batch_attention (host_ops fp (head_dim (cu_config b))) (host_view b) layer seqs heads q) ()"
proof -
  let ?R = "dense_attention fp (head_dim (cu_config b)) heads (heads div num_kv_heads (cu_config b))
    (row_contexts (host_view b) layer seqs) q"
  have cpu: "cpu_paged_attention fp layer seqs q out (host_view b) = Ok ?R ()"
    using paged_attention_ok [OF cuda_inv_host [OF assms(1)], of layer seqs q out heads fp] assms(2,3) chk by simp
  show ?thesis
  proof (cases "query_rows seqs = 0")
    case True
    with check_attention_ok(3,4) [OF assms(2) chk] chk
    have "cuda_paged_attention fp dv run layer seqs q out b = Ok out b" "out = []"
      by (simp_all add: cuda_paged_attention_def Let_def)
    moreover have "?R = []" "batch_attention ops (host_view b) layer seqs heads q = []" for ops
      using True by (simp_all add: batch_attention_def dense_attention_def softmax_attention_def row_contexts_def
        length_query_list)
    ultimately show ?thesis using cpu assms(1) by auto
  next
    case False
    with cuda_attention_busy [OF assms(1,2) _ chk assms(5,6)] cpu assms(1)
    show ?thesis by (auto simp: batch_attention_def)
  qed
qed

text \<open>
  Real numbers stand in for floats, with a device that contracts its multiply-adds to a value of its
  own, and blocks that run their threads backwards over a shared buffer of ones.
\<close>

definition real_arith :: "real arith" where
  "real_arith = \<lparr>f_zero = 0, f_one = 1, f_neg_inf = -2000, f_of_nat = of_nat, f_add = (+), f_sub = (-),
    f_mul = (*), f_div = (/), f_max = max, f_exp = exp, f_sqrt = sqrt, f_sum = sum_list\<rparr>"

definition real_device_arith :: "real device_arith" where
  "real_device_arith = \<lparr>dv_zero = 0, dv_lowest = -1000, dv_add = (+), dv_sub = (-), dv_mul = (*),
    dv_madd = \<lambda>s x y. s + x * y + 1 / 1000, dv_div = (/), dv_max = max, dv_exp = exp\<rparr>"

definition backward_run :: "real block_run" where
  "backward_run = \<lparr>br_sched = \<lambda>_ _. rev, br_shared = \<lambda>_. replicate ATTN_THREADS 1\<rparr>"

definition real_device :: "real CudaBackend" where
  "real_device = \<lparr>cu_config = \<lparr>num_blocks = 4, block_size = 2, num_kv_heads = 1, head_dim = 1,
      num_layers = 1, dtype_bytes = 4\<rparr>, cu_k = [10, 11, 12, 13, 14, 15, 16, 17],
    cu_v = [20, 21, 22, 23, 24, 25, 26, 27], cu_driver = \<lambda>_. None, cu_calls = 9, cu_order = \<lambda>_. rev\<rparr>"

text \<open>Two queries, at positions 1 and 2 of a context in the blocks 3 and 0, and two heads.\<close>

theorem cuda_attention_reads_host_contexts_witness:
  "(\<exists>b'. cuda_paged_attention real_arith real_device_arith backward_run 0
      [\<lparr>as_block_table = [BlockId 3, BlockId 0], as_context_len = 3, as_num_queries = 2\<rparr>]
      [1, 2, 3, 4] [0, 0, 0, 0] real_device =
    Ok (softmax_attention (device_ops real_device_arith 1) 1 2 2
      [[([16], [26]), ([17], [27])], [([16], [26]), ([17], [27]), ([10], [20])]] [1, 2, 3, 4]) b') \<and>
    cpu_paged_attention real_arith 0
      [\<lparr>as_block_table = [BlockId 3, BlockId 0], as_context_len = 3, as_num_queries = 2\<rparr>]
      [1, 2, 3, 4] [0, 0, 0, 0] (host_view real_device) =
    Ok (softmax_attention (host_ops real_arith 1) 1 2 2
      [[([16], [26]), ([17], [27])], [([16], [26]), ([17], [27]), ([10], [20])]] [1, 2, 3, 4]) ()"
proof -
  let ?seqs = "[\<lparr>as_block_table = [BlockId 3, BlockId 0], as_context_len = 3, as_num_queries = 2\<rparr>]"
  let ?q = "[1, 2, 3, 4] :: real list" and ?out = "[0, 0, 0, 0] :: real list"
  have c: "cu_config real_device = \<lparr>num_blocks = 4, block_size = 2, num_kv_heads = 1, head_dim = 1,
      num_layers = 1, dtype_bytes = 4\<rparr>" by (simp add: real_device_def)
  have inv: "cuda_inv real_device"
    by (simp add: cuda_inv_def real_device_def plane_len_def layer_elems_def block_elems_def entry_elems_def cuda_dims_def)
  have pos: "0 < block_size (cu_config real_device)" "0 < num_kv_heads (cu_config real_device)" by (simp_all add: c)
  have chk: "check_attention (cu_config real_device) 0 ?seqs (length ?q) (length ?out) = Ok 2 ()"
    unfolding c by code_simp
  have fits: "attn_fits (cu_config real_device) ?seqs 2 ?q"
    by (simp add: c attn_fits_def query_rows_def ceil_div_def Let_def)
  have rows: "row_contexts (host_view real_device) 0 ?seqs =
      [[([16], [26]), ([17], [27])], [([16], [26]), ([17], [27]), ([10], [20])]]"
    by (simp add: row_contexts_def query_list_def gather_def cuda_entry_def plane_entry_def slot_offset_def
        block_offset_def block_elems_def entry_elems_def new_slot_def real_device_def upt_rec)
  have run: "\<forall>j. full_sched (br_sched backward_run j) \<and> length (br_shared backward_run j) = ATTN_THREADS"
    by (simp add: backward_run_def full_sched_def all_threads_def)
  have sc: "attn_scale real_arith (Suc 0) = 1" by (simp add: attn_scale_def real_arith_def)
  from cuda_attention_reads_host_contexts [OF inv pos chk fits run, of real_arith real_device_arith]
  show ?thesis unfolding batch_attention_def rows by (simp add: c sc) blast
qed

end
