(* ===== verification/Protocol.thy ===== *)
theory Protocol
  imports Types
begin

text \<open>
  The dashboard's wire protocol, \<open>protocol.rs\<close>: the messages of a session as data. Numbers are
  32-bit words, as the protocol sends them; the JSON text itself is produced by a library.
\<close>

section \<open>Views of the pool\<close>

datatype Origin = Traffic | User

record PoolConfig =
  pl_num_blocks :: u32
  pl_block_size :: u32
  pl_max_batch_size :: u32
  pl_max_waiting :: u32
  pl_tick_ms :: u32
  pl_system_prompts :: "u32 list"

record SequenceView =
  sv_id :: u32
  sv_parent :: "u32 option"
  sv_origin :: Origin
  sv_system_prompt :: "u32 option"
  sv_cached_tokens :: u32
  sv_tokens :: u32
  sv_generated :: u32
  sv_max_new_tokens :: u32
  sv_blocks :: "u32 list"

record WaitingView =
  wv_id :: u32
  wv_parent :: "u32 option"
  wv_origin :: Origin
  wv_system_prompt :: "u32 option"
  wv_context_len :: u32
  wv_max_new_tokens :: u32
  wv_preempted :: bool

record Metrics =
  mt_tick :: u32
  mt_used_blocks :: u32
  mt_shared_blocks :: u32
  mt_evictable_blocks :: u32
  mt_running :: u32
  mt_waiting :: u32

record Totals =
  tt_submitted :: u32
  tt_admitted :: u32
  tt_finished :: u32
  tt_preempted :: u32
  tt_forks :: u32
  tt_cow_copies :: u32
  tt_tokens_generated :: u32
  tt_prompt_tokens_cached :: u32
  tt_prompt_tokens_computed :: u32
  tt_cache_evictions :: u32

definition no_totals :: Totals where
  "no_totals = \<lparr>tt_submitted = 0, tt_admitted = 0, tt_finished = 0, tt_preempted = 0, tt_forks = 0,
     tt_cow_copies = 0, tt_tokens_generated = 0, tt_prompt_tokens_cached = 0,
     tt_prompt_tokens_computed = 0, tt_cache_evictions = 0\<rparr>"

record Snapshot =
  sn_tick :: u32
  sn_paused :: bool
  sn_traffic :: bool
  sn_prefix_caching :: bool
  sn_ref_counts :: "u32 list"
  sn_cached_blocks :: "u32 list"
  sn_running :: "SequenceView list"
  sn_waiting :: "WaitingView list"
  sn_metrics :: Metrics
  sn_totals :: Totals

section \<open>Events and messages\<close>

datatype EventKind =
    Submitted Origin "u32 option" u32 u32
  | Forked u32
  | Admitted u32 u32
  | Cow u32 u32
  | Preempted
  | Finished

record Event =
  ev_tick :: u32
  ev_seq_id :: u32
  ev_kind :: EventKind

datatype CommandResult = Done "u32 option" | Rejected string

datatype ServerMessage =
    Init PoolConfig Snapshot "Metrics list" "Event list"
  | Tick Snapshot "Event list"
  | State Snapshot "Event list"
  | Ack u32 CommandResult
  | Error string

datatype Command =
    AddRequest "u32 option" u32 u32
  | Fork u32
  | Pause
  | Resume
  | Step
  | Reset
  | SetTraffic bool
  | SetPrefixCaching bool

record ClientMessage =
  cm_id :: u32
  cm_command :: Command

end
