(* ===== verification/Sim.thy ===== *)
theory Sim
  imports Protocol Sched_Props
begin

text \<open>
  One dashboard session, \<open>sim.rs\<close>: a scheduler driven by generated traffic and client commands,
  and the message loop of \<open>ws.rs\<close> around it. The random number generator is the library's and
  so a record of functions; the session's clock and socket are the list of inputs.
\<close>

unbundle bit_operations_syntax

section \<open>State\<close>

text \<open>
  \<open>StdRng\<close>: seeding, a 64-bit draw, and \<open>gen_range(lo..hi)\<close> at the two integer types used.
\<close>

record 'r rng_ops =
  rg_seed :: "u64 \<Rightarrow> 'r"
  rg_u64 :: "'r \<Rightarrow> u64 \<times> 'r"
  rg_range_u32 :: "u32 \<Rightarrow> u32 \<Rightarrow> 'r \<Rightarrow> u32 \<times> 'r"
  rg_range_usize :: "nat \<Rightarrow> nat \<Rightarrow> 'r \<Rightarrow> nat \<times> 'r"

definition HISTORY_LEN :: nat where "HISTORY_LEN = 150"
definition EVENT_LOG_LEN :: nat where "EVENT_LOG_LEN = 200"
definition TRAFFIC_QUEUE_LIMIT :: nat where "TRAFFIC_QUEUE_LIMIT = 6"
definition TRAFFIC_SYSTEM_PROMPT_PERCENT :: u32 where "TRAFFIC_SYSTEM_PROMPT_PERCENT = 75"

text \<open>The tick is a \<open>Duration\<close>, in nanoseconds.\<close>

record SimConfig =
  sm_num_blocks :: nat
  sm_block_size :: nat
  sm_max_batch_size :: nat
  sm_max_waiting :: nat
  sm_tick :: nat
  sm_prefix_caching :: bool
  sm_system_prompts :: "nat list"

definition default_sim_config :: SimConfig where
  "default_sim_config = \<lparr>sm_num_blocks = 64, sm_block_size = 8, sm_max_batch_size = 6,
     sm_max_waiting = 24, sm_tick = 400 * 1000000, sm_prefix_caching = True,
     sm_system_prompts = [40, 56, 24]\<rparr>"

definition capacity_tokens :: "SimConfig \<Rightarrow> nat" where
  "capacity_tokens c = usize_mul (sm_num_blocks c) (sm_block_size c)"

record SeqMeta =
  me_parent :: "u32 option"
  me_origin :: Origin
  me_system_prompt :: "u32 option"
  me_preempted :: bool

record 'r Simulation =
  si_config :: SimConfig
  si_scheduler :: Scheduler
  si_rng :: 'r
  si_tick :: u32
  si_paused :: bool
  si_traffic :: bool
  si_next_id :: u32
  si_next_token :: u32
  si_system_prompts :: "u32 list list"
  si_meta :: "u32 \<Rightarrow> SeqMeta option"
  si_totals :: Totals
  si_history :: "Metrics list"
  si_events :: "Event list"

section \<open>Looking at a session\<close>

definition seq_u32 :: "SeqId \<Rightarrow> u32 option" where
  "seq_u32 i = (if seq_num i < 2 ^ 32 then Some (word_of_nat (seq_num i)) else None)"

definition seq_of :: "u32 \<Rightarrow> SeqId" where
  "seq_of w = SeqId (ucast w)"

definition count :: "nat \<Rightarrow> u32" where
  "count n = (if n < 2 ^ 32 then word_of_nat n else - 1)"

definition block_num :: "BlockId \<Rightarrow> u32" where
  "block_num b = (case b of BlockId w \<Rightarrow> w)"

definition no_meta :: SeqMeta where
  "no_meta = \<lparr>me_parent = None, me_origin = Traffic, me_system_prompt = None, me_preempted = False\<rparr>"

definition meta_of :: "'r Simulation \<Rightarrow> u32 \<Rightarrow> SeqMeta" where
  "meta_of m i = (case si_meta m i of Some x \<Rightarrow> x | None \<Rightarrow> no_meta)"

definition pool_config :: "'r Simulation \<Rightarrow> PoolConfig" where
  "pool_config m = (let c = si_config m in
     \<lparr>pl_num_blocks = count (sm_num_blocks c), pl_block_size = count (sm_block_size c),
      pl_max_batch_size = count (sm_max_batch_size c), pl_max_waiting = count (sm_max_waiting c),
      pl_tick_ms = count (sm_tick c div 1000000),
      pl_system_prompts = map (\<lambda>p. count (length p)) (si_system_prompts m)\<rparr>)"

definition metrics :: "'r Simulation \<Rightarrow> Metrics option" where
  "metrics m = do {
     blocks \<leftarrow> those (block_snapshot (si_scheduler m));
     Some \<lparr>mt_tick = si_tick m,
       mt_used_blocks = count (length (filter (\<lambda>b. 0 < bi_ref_count b) blocks)),
       mt_shared_blocks = count (length (filter (\<lambda>b. 1 < bi_ref_count b) blocks)),
       mt_evictable_blocks = count (evictable_blocks (cache_stats (sc_alloc (si_scheduler m)))),
       mt_running = count (length (running (si_scheduler m))),
       mt_waiting = count (length (waiting (si_scheduler m)))\<rparr> }"

definition sequence_view :: "'r Simulation \<Rightarrow> RunningInfo \<Rightarrow> SequenceView option" where
  "sequence_view m r = do {
     i \<leftarrow> seq_u32 (ri_id r);
     let meta = meta_of m i;
     Some \<lparr>sv_id = i, sv_parent = me_parent meta, sv_origin = me_origin meta,
       sv_system_prompt = me_system_prompt meta, sv_cached_tokens = count (ri_cached r),
       sv_tokens = count (ri_tokens r), sv_generated = count (ri_generated r),
       sv_max_new_tokens = count (ri_max_new r), sv_blocks = map block_num (ri_blocks r)\<rparr> }"

definition waiting_view :: "'r Simulation \<Rightarrow> WaitingInfo \<Rightarrow> WaitingView option" where
  "waiting_view m w = do {
     i \<leftarrow> seq_u32 (wi_id w);
     let meta = meta_of m i;
     Some \<lparr>wv_id = i, wv_parent = me_parent meta, wv_origin = me_origin meta,
       wv_system_prompt = me_system_prompt meta, wv_context_len = count (wi_context_len w),
       wv_max_new_tokens = count (wi_max_new w), wv_preempted = me_preempted meta\<rparr> }"

definition snapshot :: "'r Simulation \<Rightarrow> Snapshot option" where
  "snapshot m = do {
     run \<leftarrow> those (map (sequence_view m) (running_snapshot (si_scheduler m)));
     wait \<leftarrow> those (map (waiting_view m) (waiting_snapshot (si_scheduler m)));
     blocks \<leftarrow> those (block_snapshot (si_scheduler m));
     mt \<leftarrow> metrics m;
     Some \<lparr>sn_tick = si_tick m, sn_paused = si_paused m, sn_traffic = si_traffic m,
       sn_prefix_caching = prefix_caching (sc_alloc (si_scheduler m)),
       sn_ref_counts = map (\<lambda>b. word_of_nat (bi_ref_count b)) blocks,
       sn_cached_blocks = map (\<lambda>b. block_num (bi_id b)) (filter bi_cached blocks),
       sn_running = run, sn_waiting = wait, sn_metrics = mt, sn_totals = si_totals m\<rparr> }"

section \<open>Opening a session\<close>

definition sim_cache :: "SimConfig \<Rightarrow> CacheConfig" where
  "sim_cache c = \<lparr>num_blocks = sm_num_blocks c, block_size = sm_block_size c, num_kv_heads = 1,
     head_dim = 1, num_layers = 1, dtype_bytes = 4\<rparr>"

text \<open>The tokens of a system prompt carry its number, from 1, in their high byte.\<close>

definition system_prompt_tokens :: "nat list \<Rightarrow> u32 list list" where
  "system_prompt_tokens lens = map (\<lambda>(i, n). map (\<lambda>t. push_bit 24 (word_of_nat i + 1) OR word_of_nat t)
     [0..<unat (word_of_nat n :: u32)]) (enumerate 0 lens)"

definition sim_new :: "'r rng_ops \<Rightarrow> SimConfig \<Rightarrow> u64 \<Rightarrow> 'r Simulation option" where
  "sim_new R config seed =
     (let cache = sim_cache config;
          sch = (if sm_prefix_caching config
                 then sched_with_prefix_caching cache (sm_max_batch_size config)
                 else sched_new cache (sm_max_batch_size config));
          m = \<lparr>si_config = config, si_scheduler = sch, si_rng = rg_seed R seed, si_tick = 0,
               si_paused = False, si_traffic = True, si_next_id = 1, si_next_token = 1,
               si_system_prompts = system_prompt_tokens (sm_system_prompts config),
               si_meta = (\<lambda>_. None), si_totals = no_totals, si_history = [], si_events = []\<rparr> in do {
      mt \<leftarrow> metrics m;
      Some (m\<lparr>si_history := si_history m @ [mt]\<rparr>) })"

definition init_message :: "'r Simulation \<Rightarrow> ServerMessage option" where
  "init_message m = do {
     sn \<leftarrow> snapshot m;
     Some (Init (pool_config m) sn (si_history m) (si_events m)) }"

section \<open>Requests and forks\<close>

type_synonym ('r, 'a) sim_res = "(string, 'r Simulation, 'a) res"

definition show_u32 :: "u32 \<Rightarrow> string" where
  "show_u32 w = show_nat (unat w)"

definition prompt_tokens :: "u32 \<Rightarrow> u32 \<Rightarrow> u32 list" where
  "prompt_tokens first n = map (\<lambda>i. (first + word_of_nat i) AND 0x00FFFFFF) [0..<unat n]"

definition submit :: "Origin \<Rightarrow> u32 option \<Rightarrow> u32 \<Rightarrow> u32 \<Rightarrow> 'r Simulation \<Rightarrow> ('r, Event) sim_res" where
  "submit origin system_prompt prompt_len max_new m =
     (if prompt_len = 0 then Err ''The prompt needs at least 1 token.'' m
      else if max_new = 0 then Err ''Generate at least 1 new token.'' m
      else
        (case (case system_prompt of
             None \<Rightarrow> Some []
           | Some i \<Rightarrow> nth_at (si_system_prompts m) (unat i)) of
           None \<Rightarrow> Err (''There is no system prompt '' @ show_u32 (the system_prompt) @ ''.'') m
         | Some pre \<Rightarrow>
             (let needed = usize_add (usize_add (length pre) (unat prompt_len)) (unat max_new);
                  capacity = capacity_tokens (si_config m) in
              if capacity < needed
              then Err (''That request needs '' @ show_nat needed @ '' tokens, but the whole pool holds '' @
                show_nat capacity @ ''.'') m
              else if sm_max_waiting (si_config m) \<le> length (waiting (si_scheduler m))
              then Err (''The queue is full ('' @ show_nat (sm_max_waiting (si_config m)) @
                '' requests). Try again once some are admitted.'') m
              else
                (let i = si_next_id m; first = si_next_token m;
                     prompt = pre @ prompt_tokens first prompt_len in
                 case add_prompt (seq_of i) prompt (unat max_new) (si_scheduler m) of
                   Panic \<Rightarrow> Panic
                 | Err e sch \<Rightarrow> Err (show_error e) (m\<lparr>si_scheduler := sch\<rparr>)
                 | Ok _ sch \<Rightarrow>
                     Ok \<lparr>ev_tick = si_tick m, ev_seq_id = i,
                         ev_kind = Submitted origin system_prompt prompt_len max_new\<rparr>
                       (m\<lparr>si_scheduler := sch, si_next_token := first + prompt_len, si_next_id := i + 1,
                          si_meta := (si_meta m)(i \<mapsto> \<lparr>me_parent = None, me_origin = origin,
                            me_system_prompt = system_prompt, me_preempted = False\<rparr>),
                          si_totals := (si_totals m)\<lparr>tt_submitted := tt_submitted (si_totals m) + 1\<rparr>\<rparr>)))))"

definition sim_fork :: "u32 \<Rightarrow> Origin \<Rightarrow> 'r Simulation \<Rightarrow> ('r, Event) sim_res" where
  "sim_fork parent origin m =
     (case find (\<lambda>r. ri_id r = seq_of parent) (running_snapshot (si_scheduler m)) of
        None \<Rightarrow>
          Err (if \<exists>w \<in> set (waiting_snapshot (si_scheduler m)). wi_id w = seq_of parent
               then ''#'' @ show_u32 parent @ '' is waiting. Only running sequences can fork.''
               else ''#'' @ show_u32 parent @ '' isn't running.'') m
      | Some info \<Rightarrow>
          (let remaining = ri_max_new info - ri_generated info in
           if remaining = 0
           then Err (''#'' @ show_u32 parent @ '' has no tokens left to generate.'') m
           else
             (let child = si_next_id m in
              case fork_sequence (seq_of parent) (seq_of child) remaining (si_scheduler m) of
                Panic \<Rightarrow> Panic
              | Err e sch \<Rightarrow>
                  Err (case e of
                         BatchFull n \<Rightarrow> ''The batch is full ('' @ show_nat n @
                           '' running). Fork again once one finishes.''
                       | _ \<Rightarrow> show_error e) (m\<lparr>si_scheduler := sch\<rparr>)
              | Ok _ sch \<Rightarrow>
                  Ok \<lparr>ev_tick = si_tick m, ev_seq_id = child, ev_kind = Forked parent\<rparr>
                    (m\<lparr>si_scheduler := sch, si_next_id := child + 1,
                       si_meta := (si_meta m)(child \<mapsto> \<lparr>me_parent = Some parent, me_origin = origin,
                         me_system_prompt = me_system_prompt (meta_of m parent),
                         me_preempted = False\<rparr>),
                       si_totals := (si_totals m)\<lparr>tt_forks := tt_forks (si_totals m) + 1\<rparr>\<rparr>))))"

section \<open>Traffic\<close>

text \<open>Draws from the generator; the result and the session with the advanced generator.\<close>

definition draw_u32 :: "'r rng_ops \<Rightarrow> u32 \<Rightarrow> u32 \<Rightarrow> 'r Simulation \<Rightarrow> u32 \<times> 'r Simulation" where
  "draw_u32 R lo hi m = (let (x, g) = rg_range_u32 R lo hi (si_rng m) in (x, m\<lparr>si_rng := g\<rparr>))"

definition draw_usize :: "'r rng_ops \<Rightarrow> nat \<Rightarrow> nat \<Rightarrow> 'r Simulation \<Rightarrow> nat \<times> 'r Simulation" where
  "draw_usize R lo hi m = (let (x, g) = rg_range_usize R lo hi (si_rng m) in (x, m\<lparr>si_rng := g\<rparr>))"

text \<open>\<open>if let Ok(event) = r { events.push(event) }\<close>\<close>

fun push_ok :: "Event list \<Rightarrow> ('r, Event) sim_res \<Rightarrow> ('r Simulation \<times> Event list) option" where
  "push_ok events (Ok ev m) = Some (m, events @ [ev])"
| "push_ok events (Err e m) = Some (m, events)"
| "push_ok events Panic = None"

definition traffic_request :: "'r rng_ops \<Rightarrow> 'r Simulation \<Rightarrow> Event list \<Rightarrow>
    ('r Simulation \<times> Event list) option" where
  "traffic_request R m events =
     (let (with_prompt, m) =
            (if si_system_prompts m = [] then (False, m)
             else let (x, m) = draw_u32 R 0 100 m in (x < TRAFFIC_SYSTEM_PROMPT_PERCENT, m));
          (system_prompt, m) =
            (if with_prompt
             then let (x, m) = draw_usize R 0 (length (si_system_prompts m)) m in
               (Some (word_of_nat x), m)
             else (None, m));
          (prompt_len, m) = draw_u32 R 4 24 m;
          (max_new, m) = draw_u32 R 4 32 m in
      push_ok events (submit Traffic system_prompt prompt_len max_new m))"

definition traffic_fork :: "'r rng_ops \<Rightarrow> 'r Simulation \<Rightarrow> Event list \<Rightarrow>
    ('r Simulation \<times> Event list) option" where
  "traffic_fork R m events =
     (let run = running_snapshot (si_scheduler m) in
      if run = [] then Some (m, events)
      else
        (let (x, m) = draw_usize R 0 (length run) m in do {
           parent \<leftarrow> nth_at run x;
           i \<leftarrow> seq_u32 (ri_id parent);
           push_ok events (sim_fork i Traffic m) }))"

definition generate_traffic :: "'r rng_ops \<Rightarrow> 'r Simulation \<Rightarrow> Event list \<Rightarrow>
    ('r Simulation \<times> Event list) option" where
  "generate_traffic R m events = do {
     (m, events) \<leftarrow>
       (if si_tick m mod 3 = 0 \<and> length (waiting (si_scheduler m)) < TRAFFIC_QUEUE_LIMIT
        then traffic_request R m events else Some (m, events));
     if si_tick m mod 5 = 0 then traffic_fork R m events else Some (m, events) }"

section \<open>Recording a step\<close>

text \<open>A loop over values that may panic: \<open>for x in xs { .. }\<close> on session and event list.\<close>

fun for_opt :: "('a \<Rightarrow> 's \<Rightarrow> 's option) \<Rightarrow> 'a list \<Rightarrow> 's \<Rightarrow> 's option" where
  "for_opt f [] s = Some s"
| "for_opt f (x # xs) s = do { s \<leftarrow> f x s; for_opt f xs s }"

definition add_totals :: "(Totals \<Rightarrow> Totals) \<Rightarrow> 'r Simulation \<Rightarrow> 'r Simulation" where
  "add_totals f m = m\<lparr>si_totals := f (si_totals m)\<rparr>"

definition event_at :: "u32 \<Rightarrow> SeqId \<Rightarrow> EventKind \<Rightarrow> Event option" where
  "event_at tick i kind = do {
     w \<leftarrow> seq_u32 i;
     Some \<lparr>ev_tick = tick, ev_seq_id = w, ev_kind = kind\<rparr> }"

definition record_prefill :: "Prefill \<Rightarrow> 'r Simulation \<times> Event list \<Rightarrow> ('r Simulation \<times> Event list) option" where
  "record_prefill p me = (case me of (m, events) \<Rightarrow> do {
     ev \<leftarrow> event_at (si_tick m) (pf_id p) (Admitted (count (pf_cached p)) (count (pf_computed p)));
     Some (add_totals (\<lambda>t. t\<lparr>
         tt_prompt_tokens_cached := tt_prompt_tokens_cached t + count (pf_cached p),
         tt_prompt_tokens_computed := tt_prompt_tokens_computed t + count (pf_computed p)\<rparr>) m,
       events @ [ev]) })"

definition record_cow :: "DecodedToken \<Rightarrow> 'r Simulation \<times> Event list \<Rightarrow> ('r Simulation \<times> Event list) option" where
  "record_cow d me = (case me of (m, events) \<Rightarrow>
     (case dt_cow d of
        None \<Rightarrow> Some (m, events)
      | Some cow \<Rightarrow> do {
          ev \<leftarrow> event_at (si_tick m) (dt_id d) (Cow (block_num (cow_src cow)) (block_num (cow_dst cow)));
          Some (add_totals (\<lambda>t. t\<lparr>tt_cow_copies := tt_cow_copies t + 1\<rparr>) m, events @ [ev]) }))"

definition record_preempted :: "SeqId \<Rightarrow> 'r Simulation \<times> Event list \<Rightarrow> ('r Simulation \<times> Event list) option" where
  "record_preempted i me = (case me of (m, events) \<Rightarrow> do {
     w \<leftarrow> seq_u32 i;
     let m = (case si_meta m w of
                None \<Rightarrow> m
              | Some x \<Rightarrow> m\<lparr>si_meta := (si_meta m)(w \<mapsto> x\<lparr>me_preempted := True\<rparr>)\<rparr>);
     ev \<leftarrow> event_at (si_tick m) i Preempted;
     Some (m, events @ [ev]) })"

definition record_finished :: "SeqId \<Rightarrow> 'r Simulation \<times> Event list \<Rightarrow> ('r Simulation \<times> Event list) option" where
  "record_finished i me = (case me of (m, events) \<Rightarrow> do {
     w \<leftarrow> seq_u32 i;
     let m = m\<lparr>si_meta := (si_meta m)(w := None)\<rparr>;
     ev \<leftarrow> event_at (si_tick m) i Finished;
     Some (m, events @ [ev]) })"

definition record_step :: "StepOutcome \<Rightarrow> 'r Simulation \<times> Event list \<Rightarrow> ('r Simulation \<times> Event list) option" where
  "record_step out me = do {
     me \<leftarrow> for_opt record_prefill (prefills out) me;
     me \<leftarrow> for_opt record_cow (decoded out) me;
     me \<leftarrow> for_opt record_preempted (preempted out) me;
     (m, events) \<leftarrow> for_opt record_finished (finished out) me;
     Some (add_totals (\<lambda>t. t\<lparr>
         tt_admitted := tt_admitted t + count (length (admitted out)),
         tt_preempted := tt_preempted t + count (length (preempted out)),
         tt_finished := tt_finished t + count (length (finished out)),
         tt_tokens_generated := tt_tokens_generated t + count (length (decoded out)),
         tt_cache_evictions := count (evictions (cache_stats (sc_alloc (si_scheduler m))))\<rparr>) m, events) }"

section \<open>Ticks and commands\<close>

text \<open>Appending to a full ring buffer drops its oldest entry.\<close>

definition push_capped :: "nat \<Rightarrow> 'a list \<Rightarrow> 'a \<Rightarrow> 'a list" where
  "push_capped n xs x = (if length xs = n then tl xs else xs) @ [x]"

definition log :: "Event list \<Rightarrow> 'r Simulation \<Rightarrow> 'r Simulation" where
  "log events m = m\<lparr>si_events := foldl (push_capped EVENT_LOG_LEN) (si_events m) events\<rparr>"

definition state_message :: "Event list \<Rightarrow> 'r Simulation \<Rightarrow> (ServerMessage \<times> 'r Simulation) option" where
  "state_message events m = (let m = log events m in do {
     sn \<leftarrow> snapshot m;
     Some (State sn events, m) })"

definition advance :: "'r rng_ops \<Rightarrow> 'r Simulation \<Rightarrow> ('r Simulation, ServerMessage) cache_res" where
  "advance R m =
     (let m = m\<lparr>si_tick := (if si_tick m = - 1 then - 1 else si_tick m + 1)\<rparr> in
      unwrap_res (if si_traffic m then generate_traffic R m [] else Some (m, [])) (\<lambda>(m, events).
        bind_res (map_state (\<lambda>sch. m\<lparr>si_scheduler := sch\<rparr>) (step (si_scheduler m))) (\<lambda>out m.
          unwrap_res (record_step out (m, events)) (\<lambda>(m, events).
          unwrap_res (metrics m) (\<lambda>mt.
            let m = log events (m\<lparr>si_history := push_capped HISTORY_LEN (si_history m) mt\<rparr>) in
            unwrap_res (snapshot m) (\<lambda>sn. Ok (Tick sn events) m))))))"

definition restart :: "'r rng_ops \<Rightarrow> 'r Simulation \<Rightarrow> 'r Simulation option" where
  "restart R m = do {
     n \<leftarrow> sim_new R (si_config m) (fst (rg_u64 R (si_rng m)));
     Some (n\<lparr>si_paused := si_paused m, si_traffic := si_traffic m\<rparr>) }"

text \<open>The replies to one command, the acknowledgement first.\<close>

definition with_state :: "u32 \<Rightarrow> u32 option \<Rightarrow> Event list \<Rightarrow> 'r Simulation \<Rightarrow>
    (ServerMessage list \<times> 'r Simulation) option" where
  "with_state i seq_id events m = do {
     (msg, m) \<leftarrow> state_message events m;
     Some ([Ack i (Done seq_id), msg], m) }"

fun created :: "u32 \<Rightarrow> ('r, Event) sim_res \<Rightarrow> (ServerMessage list \<times> 'r Simulation) option" where
  "created i (Ok ev m) = with_state i (Some (ev_seq_id ev)) [ev] m"
| "created i (Err msg m) = Some ([Ack i (Rejected msg)], m)"
| "created i Panic = None"

definition with_init :: "u32 \<Rightarrow> 'r Simulation \<Rightarrow> (ServerMessage list \<times> 'r Simulation) option" where
  "with_init i m = do {
     msg \<leftarrow> init_message m;
     Some ([Ack i (Done None), msg], m) }"

definition handle :: "'r rng_ops \<Rightarrow> ClientMessage \<Rightarrow> 'r Simulation \<Rightarrow>
    (ServerMessage list \<times> 'r Simulation) option" where
  "handle R msg m =
     (let i = cm_id msg in
      case cm_command msg of
        AddRequest system_prompt prompt_len max_new \<Rightarrow>
          created i (submit User system_prompt prompt_len max_new m)
      | Fork seq_id \<Rightarrow> created i (sim_fork seq_id User m)
      | Pause \<Rightarrow> with_state i None [] (m\<lparr>si_paused := True\<rparr>)
      | Resume \<Rightarrow> with_state i None [] (m\<lparr>si_paused := False\<rparr>)
      | Step \<Rightarrow>
          if \<not> si_paused m
          then Some ([Ack i (Rejected ''Pause the simulation before stepping one tick at a time.'')], m)
          else
            (case advance R m of
               Ok tick m \<Rightarrow> Some ([Ack i (Done None), tick], m)
             | Err e m \<Rightarrow> Some ([Ack i (Rejected (''The scheduler failed: '' @ show_error e))], m)
             | Panic \<Rightarrow> None)
      | Reset \<Rightarrow> do { m \<leftarrow> restart R m; with_init i m }
      | SetTraffic enabled \<Rightarrow> with_state i None [] (m\<lparr>si_traffic := enabled\<rparr>)
      | SetPrefixCaching enabled \<Rightarrow> do {
          m \<leftarrow> restart R (m\<lparr>si_config := (si_config m)\<lparr>sm_prefix_caching := enabled\<rparr>\<rparr>);
          with_init i m })"

section \<open>The socket loop\<close>

text \<open>
  What wakes the loop of \<open>ws.rs\<close>: the ticker, a text frame (with what the parser makes of it),
  another kind of frame, the end of the connection, or the idle timer. A tick is only taken
  while the session is not paused.
\<close>

datatype WsInput = Ticker | TextFrame "string + ClientMessage" | OtherFrame | Disconnected | IdleTimer

datatype WsEnd = Gone | Closed nat string

definition CLOSE_INTERNAL_ERROR :: nat where "CLOSE_INTERNAL_ERROR = 1011"
definition CLOSE_TRY_AGAIN_LATER :: nat where "CLOSE_TRY_AGAIN_LATER = 1013"
definition CLOSE_IDLE :: nat where "CLOSE_IDLE = 4000"

text \<open>One turn: \<open>Inl\<close> ends the session, \<open>Inr\<close> goes on; both with the messages sent.\<close>

definition ws_turn :: "'r rng_ops \<Rightarrow> WsInput \<Rightarrow> 'r Simulation \<Rightarrow>
    (ServerMessage list \<times> (WsEnd + 'r Simulation)) option" where
  "ws_turn R input m =
     (case input of
        Ticker \<Rightarrow>
          if si_paused m then Some ([], Inr m)
          else
            (case advance R m of
               Ok msg m \<Rightarrow> Some ([msg], Inr m)
             | Err e m \<Rightarrow> Some ([], Inl (Closed CLOSE_INTERNAL_ERROR ''The scheduler hit an internal error.''))
             | Panic \<Rightarrow> None)
      | TextFrame (Inr msg) \<Rightarrow> do { (replies, m) \<leftarrow> handle R msg m; Some (replies, Inr m) }
      | TextFrame (Inl e) \<Rightarrow> Some ([Error (''Unreadable message: '' @ e)], Inr m)
      | OtherFrame \<Rightarrow> Some ([], Inr m)
      | Disconnected \<Rightarrow> Some ([], Inl Gone)
      | IdleTimer \<Rightarrow> Some ([], Inl (Closed CLOSE_IDLE ''Closed after 30 minutes without input.'')))"

fun ws_loop :: "'r rng_ops \<Rightarrow> WsInput list \<Rightarrow> 'r Simulation \<Rightarrow>
    (ServerMessage list \<times> (WsEnd + 'r Simulation)) option" where
  "ws_loop R [] m = Some ([], Inr m)"
| "ws_loop R (x # xs) m = do {
     (msgs, r) \<leftarrow> ws_turn R x m;
     case r of
       Inl e \<Rightarrow> Some (msgs, Inl e)
     | Inr m \<Rightarrow> do { (rest, r) \<leftarrow> ws_loop R xs m; Some (msgs @ rest, r) } }"

text \<open>\<open>interval\<close> of the runtime panics on a period of zero.\<close>

definition ws_run :: "'r rng_ops \<Rightarrow> SimConfig \<Rightarrow> u64 \<Rightarrow> WsInput list \<Rightarrow>
    (ServerMessage list \<times> (WsEnd + 'r Simulation)) option" where
  "ws_run R config seed inputs = do {
     m \<leftarrow> sim_new R config seed;
     first \<leftarrow> init_message m;
     if sm_tick (si_config m) = 0 then None
     else do {
       (msgs, r) \<leftarrow> ws_loop R inputs m;
       Some (first # msgs, r) } }"

text \<open>A connection gets a session if the semaphore has a permit left.\<close>

definition ws_upgrade :: "'r rng_ops \<Rightarrow> SimConfig \<Rightarrow> u64 \<Rightarrow> bool \<Rightarrow> WsInput list \<Rightarrow>
    (ServerMessage list \<times> (WsEnd + 'r Simulation)) option" where
  "ws_upgrade R config seed permit inputs =
     (if permit then ws_run R config seed inputs
      else Some ([], Inl (Closed CLOSE_TRY_AGAIN_LATER
        ''Too many sessions are open. Try again in a minute.'')))"

end
