(* ===== verification/Sim_Inv.thy ===== *)
theory Sim_Inv
  imports Sim
begin

text \<open>
  The invariant of a dashboard session, and that every operation of \<open>sim.rs\<close> keeps it without
  a panic: requests and forks either succeed or leave the session as it was, generated traffic
  and the recording of a step keep the books, and a tick never fails.
\<close>

section \<open>Ids and counters\<close>

lemma seq_num_seq_of [simp]: "seq_num (seq_of w) = unat w"
proof -
  have "unat w < 2 ^ LENGTH(32)" by (rule unsigned_less)
  then show ?thesis by (simp add: seq_of_def unsigned_ucast_eq take_bit_nat_eq_self)
qed

lemma seq_u32_seq_of [simp]: "seq_u32 (seq_of w) = Some w"
proof -
  have "unat w < 2 ^ LENGTH(32)" by (rule unsigned_less)
  then show ?thesis by (simp add: seq_u32_def)
qed

lemma seq_of_inject [simp]: "seq_of v = seq_of w \<longleftrightarrow> v = w"
  by (metis option.inject seq_u32_seq_of)

lemma count_exact: "n < 2 ^ 32 \<Longrightarrow> unat (count n) = n"
  by (simp add: count_def unsigned_of_nat take_bit_nat_eq_self)

lemma unat_Suc: "unat (w :: u32) + 1 < 2 ^ 32 \<Longrightarrow> unat (w + 1) = unat w + 1"
  by (subst unat_add_lem [THEN iffD1]) simp_all

lemma less_Suc_word: "unat (w :: u32) + 1 < 2 ^ 32 \<Longrightarrow> v < w + 1 \<longleftrightarrow> v < w \<or> v = w"
  by (auto simp: word_less_nat_alt unat_Suc word_unat_eq_iff)

section \<open>Looking never panics\<close>

lemma those_map_ok: "(\<And>x. x \<in> set xs \<Longrightarrow> f x \<noteq> None) \<Longrightarrow> those (map f xs) = Some (map (\<lambda>x. the (f x)) xs)"
  by (induction xs) (auto split: option.splits)

text \<open>What the snapshot of the pool holds, block by block.\<close>

definition block_view :: "BlockAllocator \<Rightarrow> nat \<Rightarrow> BlockInfo" where
  "block_view a i = \<lparr>bi_id = block_of i, bi_ref_count = cnt a (block_of i),
     bi_cached = (cached a (block_of i) \<noteq> None)\<rparr>"

lemma block_snapshot_eq:
  assumes "alloc_inv (sc_alloc s)"
  shows "those (block_snapshot s) = Some (map (block_view (sc_alloc s)) [0..<al_num_blocks (sc_alloc s)])"
proof -
  have "block_info (sc_alloc s) i = Some (block_view (sc_alloc s) i)" if "i < al_num_blocks (sc_alloc s)" for i
  proof -
    have "i < 2 ^ 32" using that alloc_invD(1) [OF assms] by simp
    then have "index (block_of i) < al_num_blocks (sc_alloc s)" using that by simp
    from is_shared_eq(1) [OF assms this] is_cached_eq [OF assms] show ?thesis
      by (simp add: block_info_def block_view_def Let_def)
  qed
  then show ?thesis unfolding block_snapshot_def by (subst those_map_ok) auto
qed

section \<open>The invariant\<close>

definition rng_ok :: "'r rng_ops \<Rightarrow> bool" where
  "rng_ok R \<longleftrightarrow> (\<forall>lo hi g. lo < hi \<longrightarrow> lo \<le> fst (rg_range_usize R lo hi g) \<and> fst (rg_range_usize R lo hi g) < hi) \<and>
     (\<forall>lo hi g. lo < hi \<longrightarrow> lo \<le> fst (rg_range_u32 R lo hi g) \<and> fst (rg_range_u32 R lo hi g) < hi)"

text \<open>
  The ids in the scheduler have all been issued, metadata is kept for exactly these, everything
  submitted or forked is either there or finished, and the buffers stay within their bounds.
\<close>

definition ids_known :: "u32 \<Rightarrow> Scheduler \<Rightarrow> bool" where
  "ids_known n sch \<longleftrightarrow> (\<forall>i \<in> set (seq_ids sch). \<exists>w < n. i = seq_of w)"

definition books :: "Scheduler \<Rightarrow> (u32 \<Rightarrow> SeqMeta option) \<Rightarrow> Totals \<Rightarrow> bool" where
  "books sch meta t \<longleftrightarrow> (\<forall>w. meta w \<noteq> None \<longleftrightarrow> seq_of w \<in> set (seq_ids sch)) \<and>
     tt_submitted t + tt_forks t = tt_finished t + word_of_nat (length (seq_ids sch))"

definition all_live :: "Scheduler \<Rightarrow> bool" where
  "all_live sch \<longleftrightarrow> (\<forall>q \<in> set (running sch). live_running (capacity sch) q) \<and>
     (\<forall>p \<in> set (waiting sch). live_pending (capacity sch) p)"

text \<open>
  The geometry the scheduler can work with, a batch that can hold somebody, and a ticker that runs.
\<close>

definition config_ok :: "SimConfig \<Rightarrow> bool" where
  "config_ok c \<longleftrightarrow> geometry_ok (sim_cache c) (sm_max_batch_size c) \<and> 0 < sm_max_batch_size c \<and> 0 < sm_tick c"

definition fits_config :: "SimConfig \<Rightarrow> Scheduler \<Rightarrow> bool" where
  "fits_config c sch \<longleftrightarrow> config_ok c \<and>
     al_num_blocks (sc_alloc sch) = sm_num_blocks c \<and> sc_block_size sch = sm_block_size c \<and>
     sc_max_batch sch = sm_max_batch_size c"

definition sim_inv :: "(PrefixEntry \<Rightarrow> u32 list) \<Rightarrow> 'r Simulation \<Rightarrow> bool" where
  "sim_inv E m \<longleftrightarrow> fits_config (si_config m) (si_scheduler m) \<and> sched_inv E (si_scheduler m) \<and>
     all_live (si_scheduler m) \<and>
     si_system_prompts m = system_prompt_tokens (sm_system_prompts (si_config m)) \<and>
     ids_known (si_next_id m) (si_scheduler m) \<and> 0 < si_next_id m \<and>
     books (si_scheduler m) (si_meta m) (si_totals m) \<and>
     length (si_history m) \<le> HISTORY_LEN \<and> length (si_events m) \<le> EVENT_LOG_LEN"

lemma sim_invD:
  assumes "sim_inv E m"
  shows "fits_config (si_config m) (si_scheduler m)" "sched_inv E (si_scheduler m)"
    "core_inv E (si_scheduler m)" "all_live (si_scheduler m)"
    "si_system_prompts m = system_prompt_tokens (sm_system_prompts (si_config m))"
    "ids_known (si_next_id m) (si_scheduler m)" "0 < si_next_id m"
    "books (si_scheduler m) (si_meta m) (si_totals m)"
    "length (si_history m) \<le> HISTORY_LEN" "length (si_events m) \<le> EVENT_LOG_LEN"
  using assms by (simp_all add: sim_inv_def sched_inv_def)

lemma sim_inv_controls [simp]:
  "sim_inv E (m\<lparr>si_rng := g\<rparr>) = sim_inv E m" "sim_inv E (m\<lparr>si_tick := t\<rparr>) = sim_inv E m"
  "sim_inv E (m\<lparr>si_paused := p\<rparr>) = sim_inv E m" "sim_inv E (m\<lparr>si_traffic := p\<rparr>) = sim_inv E m"
  by (simp_all add: sim_inv_def)

lemma metrics_ok:
  assumes "sim_inv E m"
  shows "metrics m \<noteq> None"
  using block_snapshot_eq [OF core_invD(1) [OF sim_invD(3) [OF assms]]] by (simp add: metrics_def)

lemma snapshot_ok:
  assumes "sim_inv E m"
  shows "snapshot m \<noteq> None"
proof -
  have known: "seq_u32 i \<noteq> None" if "i \<in> set (seq_ids (si_scheduler m))" for i
    using sim_invD(6) [OF assms] that by (auto simp: ids_known_def)
  have "sequence_view m r \<noteq> None" if "r \<in> set (running_snapshot (si_scheduler m))" for r
    using that known [of "ri_id r"]
    by (auto simp: sequence_view_def running_snapshot_def seq_ids_def Let_def)
  moreover have "waiting_view m r \<noteq> None" if "r \<in> set (waiting_snapshot (si_scheduler m))" for r
    using that known [of "wi_id r"]
    by (auto simp: waiting_view_def waiting_snapshot_def seq_ids_def Let_def)
  ultimately have "those (map (sequence_view m) (running_snapshot (si_scheduler m))) \<noteq> None"
    "those (map (waiting_view m) (waiting_snapshot (si_scheduler m))) \<noteq> None"
    by (simp_all add: those_map_ok)
  then show ?thesis
    using metrics_ok [OF assms] block_snapshot_eq [OF core_invD(1) [OF sim_invD(3) [OF assms]]]
    by (auto simp: snapshot_def)
qed

section \<open>Submitting\<close>

lemma length_system_prompt: "p \<in> set (system_prompt_tokens lens) \<Longrightarrow> length p < 2 ^ 32"
proof -
  have "unat w < 2 ^ LENGTH(32)" for w :: u32 by (rule unsigned_less)
  then show "p \<in> set (system_prompt_tokens lens) \<Longrightarrow> length p < 2 ^ 32"
    by (auto simp: system_prompt_tokens_def simp del: unsigned_of_nat)
qed

definition submit_prefix :: "'r Simulation \<Rightarrow> u32 option \<Rightarrow> u32 list option" where
  "submit_prefix m system_prompt = (case system_prompt of None \<Rightarrow> Some []
     | Some i \<Rightarrow> nth_at (si_system_prompts m) (unat i))"

definition submittable :: "'r Simulation \<Rightarrow> u32 option \<Rightarrow> u32 \<Rightarrow> u32 \<Rightarrow> bool" where
  "submittable m system_prompt prompt_len max_new \<longleftrightarrow> prompt_len \<noteq> 0 \<and> max_new \<noteq> 0 \<and>
     (\<exists>pre. submit_prefix m system_prompt = Some pre \<and>
        length pre + unat prompt_len + unat max_new \<le> sm_num_blocks (si_config m) * sm_block_size (si_config m)) \<and>
     length (waiting (si_scheduler m)) < sm_max_waiting (si_config m)"

definition submitted :: "Origin \<Rightarrow> u32 option \<Rightarrow> u32 \<Rightarrow> u32 \<Rightarrow> 'r Simulation \<Rightarrow> 'r Simulation" where
  "submitted origin system_prompt prompt_len max_new m =
     (let i = si_next_id m; sch = si_scheduler m;
          prompt = the (submit_prefix m system_prompt) @ prompt_tokens (si_next_token m) prompt_len in
      m\<lparr>si_scheduler := sch\<lparr>waiting := waiting sch @ [\<lparr>pd_id = seq_of i, pd_context_len = length prompt,
           pd_max_new = unat max_new, pd_prompt = prompt\<rparr>]\<rparr>,
        si_next_token := si_next_token m + prompt_len, si_next_id := i + 1,
        si_meta := (si_meta m)(i \<mapsto> \<lparr>me_parent = None, me_origin = origin,
          me_system_prompt = system_prompt, me_preempted = False\<rparr>),
        si_totals := (si_totals m)\<lparr>tt_submitted := tt_submitted (si_totals m) + 1\<rparr>\<rparr>)"

lemma length_prompt_tokens [simp]: "length (prompt_tokens first n) = unat n"
  by (simp add: prompt_tokens_def)

lemma submit_cases:
  assumes inv: "sim_inv E m"
  shows "if submittable m system_prompt prompt_len max_new
     then submit origin system_prompt prompt_len max_new m =
       Ok \<lparr>ev_tick = si_tick m, ev_seq_id = si_next_id m,
           ev_kind = Submitted origin system_prompt prompt_len max_new\<rparr>
         (submitted origin system_prompt prompt_len max_new m)
     else \<exists>msg. submit origin system_prompt prompt_len max_new m = Err msg m"
proof -
  note I = sim_invD [OF inv]
  let ?c = "si_config m"
  have cap: "capacity_tokens ?c = sm_num_blocks ?c * sm_block_size ?c"
    using I(1) by (simp add: capacity_tokens_def fits_config_def config_ok_def geometry_ok_def sim_cache_def)
  have pre: "length pre < 2 ^ 32" if "submit_prefix m system_prompt = Some pre" for pre
    using that length_system_prompt [OF nth_mem] I(5)
    by (auto simp: submit_prefix_def nth_at_Some_iff split: option.splits)
  have u: "unat w < 2 ^ 32" for w :: u32
  proof -
    have "unat w < 2 ^ LENGTH(32)" by (rule unsigned_less)
    then show ?thesis by simp
  qed
  have sum: "usize_add (usize_add (length pre) (unat prompt_len)) (unat max_new) =
      length pre + unat prompt_len + unat max_new" if "submit_prefix m system_prompt = Some pre" for pre
    using pre [OF that] u [of prompt_len] u [of max_new] by simp
  show ?thesis
  proof (cases "submittable m system_prompt prompt_len max_new")
    case True
    then obtain pre where P: "prompt_len \<noteq> 0" "max_new \<noteq> 0" "submit_prefix m system_prompt = Some pre"
      "length pre + unat prompt_len + unat max_new \<le> sm_num_blocks ?c * sm_block_size ?c"
      "\<not> sm_max_waiting ?c \<le> length (waiting (si_scheduler m))" by (auto simp: submittable_def)
    let ?prompt = "pre @ prompt_tokens (si_next_token m) prompt_len"
    have small: "length ?prompt + unat max_new < 2 ^ 64"
      using pre [OF P(3)] u [of prompt_len] u [of max_new] by simp
    have "length ?prompt + unat max_new \<le>
      al_num_blocks (sc_alloc (si_scheduler m)) * sc_block_size (si_scheduler m)"
      using P(4) I(1) by (simp add: fits_config_def)
    with enqueue_eq [OF I(2) small, of "seq_of (si_next_id m)" ?prompt]
    have "add_prompt (seq_of (si_next_id m)) ?prompt (unat max_new) (si_scheduler m) =
      Ok () ((si_scheduler m)\<lparr>waiting := waiting (si_scheduler m) @ [\<lparr>pd_id = seq_of (si_next_id m),
        pd_context_len = length ?prompt, pd_max_new = unat max_new, pd_prompt = ?prompt\<rparr>]\<rparr>)"
      unfolding add_prompt_def by simp
    with True P sum [OF P(3)] cap show ?thesis
      by (simp add: submit_def submit_prefix_def [symmetric] submitted_def Let_def)
  next
    case False
    then show ?thesis
      using sum cap
      by (auto simp: submit_def submit_prefix_def [symmetric] submittable_def Let_def split: option.splits)
  qed
qed

text \<open>A new id joins the scheduler: what submitting and forking have in common.\<close>

lemma fresh_id:
  assumes "ids_known n sch"
  shows "seq_of n \<notin> set (seq_ids sch)"
  using assms by (auto simp: ids_known_def)

lemma ids_known_new:
  assumes "ids_known n sch" "unat n + 1 < 2 ^ 32" "set (seq_ids sch') \<subseteq> insert (seq_of n) (set (seq_ids sch))"
  shows "ids_known (n + 1) sch'" "0 < n + 1"
proof -
  show "ids_known (n + 1) sch'"
    using assms(1,3) less_Suc_word [OF assms(2)] unfolding ids_known_def by (metis insert_iff subsetD)
  show "0 < n + 1" using unat_Suc [OF assms(2)] by (simp add: word_less_nat_alt)
qed

lemma books_new:
  assumes "books sch meta t" "seq_of n \<notin> set (seq_ids sch)"
    and "set (seq_ids sch') = insert (seq_of n) (set (seq_ids sch))"
    and "length (seq_ids sch') = length (seq_ids sch) + 1"
    and "tt_submitted t' + tt_forks t' = tt_submitted t + tt_forks t + 1" "tt_finished t' = tt_finished t"
  shows "books sch' (meta(n \<mapsto> x)) t'"
  using assms by (auto simp: books_def)

lemma live_pending_new:
  assumes "pd_max_new p \<noteq> 0" "pd_context_len p + pd_max_new p \<le> capacity sch" "all_live sch"
  shows "all_live (sch\<lparr>waiting := waiting sch @ [p]\<rparr>)"
  using assms by (auto simp: all_live_def live_pending_def capacity_def)

lemma submitted_inv:
  assumes inv: "sim_inv E m" and ok: "submittable m system_prompt prompt_len max_new"
    and room: "unat (si_next_id m) + 1 < 2 ^ 32"
  shows "sim_inv E (submitted origin system_prompt prompt_len max_new m)"
proof -
  note I = sim_invD [OF inv]
  let ?sch = "si_scheduler m" and ?n = "si_next_id m"
  let ?prompt = "the (submit_prefix m system_prompt) @ prompt_tokens (si_next_token m) prompt_len"
  let ?p = "\<lparr>pd_id = seq_of ?n, pd_context_len = length ?prompt, pd_max_new = unat max_new, pd_prompt = ?prompt\<rparr>"
  let ?s = "?sch\<lparr>waiting := waiting ?sch @ [?p]\<rparr>"
  have fit: "length ?prompt + unat max_new \<le> capacity ?sch" "unat max_new \<noteq> 0"
    using ok I(1) by (auto simp: submittable_def capacity_def fits_config_def unat_eq_0)
  have geo: "capacity ?sch < 2 ^ 64"
    using core_invD(4) [OF I(3)] by (simp add: capacity_def)
  then have small: "length ?prompt + unat max_new < 2 ^ 64" using fit(1) by linarith
  have "enqueue (seq_of ?n) (length ?prompt) ?prompt (unat max_new) ?sch = Ok () ?s"
    using enqueue_eq [OF I(2) small] fit(1) by (simp add: capacity_def)
  from enqueue_inv [OF I(2) small fresh_id [OF I(6)] order_refl this] have "sched_inv E ?s" .
  moreover have "all_live ?s" using fit I(4) by (intro live_pending_new) simp_all
  moreover have ids: "set (seq_ids ?s) = insert (seq_of ?n) (set (seq_ids ?sch))"
    "length (seq_ids ?s) = length (seq_ids ?sch) + 1" by (auto simp: seq_ids_def)
  moreover have "books ?s ((si_meta m)(?n \<mapsto> x)) ((si_totals m)\<lparr>tt_submitted := tt_submitted (si_totals m) + 1\<rparr>)" for x
    by (rule books_new [OF I(8) fresh_id [OF I(6)] ids]) simp_all
  moreover have "fits_config (si_config m) ?s" using I(1) by (simp add: fits_config_def)
  ultimately show ?thesis
    using ids_known_new [OF I(6) room, of ?s] I(5,9,10) by (simp add: sim_inv_def submitted_def Let_def)
qed

section \<open>Forking\<close>

lemma find_running:
  "find (\<lambda>r. ri_id r = i) (running_snapshot s) =
   (case position_of (\<lambda>r. rn_id r = i) (running s) of None \<Rightarrow> None
    | Some idx \<Rightarrow> Some (running_snapshot s ! idx))"
proof -
  have "find (\<lambda>r. ri_id r = i) (map f qs) =
      (case position_of (\<lambda>r. rn_id r = i) qs of None \<Rightarrow> None | Some idx \<Rightarrow> Some (map f qs ! idx))"
    if "\<And>q. ri_id (f q) = rn_id q" for f :: "RunningSeq \<Rightarrow> RunningInfo" and qs
    using that by (induction qs) (auto split: option.splits)
  then show ?thesis unfolding running_snapshot_def by simp
qed

lemma position_less: "position_of P xs = Some i \<Longrightarrow> i < length xs"
  using position_of_Some by blast

text \<open>A fork is made of a running sequence when the batch has room, and otherwise nothing changes.\<close>

lemma sim_fork_cases:
  assumes inv: "sim_inv E m" and room: "unat (si_next_id m) + 1 < 2 ^ 32"
  shows "if position_of (\<lambda>r. rn_id r = seq_of parent) (running (si_scheduler m)) \<noteq> None \<and>
       length (running (si_scheduler m)) < sm_max_batch_size (si_config m)
     then \<exists>m'. sim_fork parent origin m =
         Ok \<lparr>ev_tick = si_tick m, ev_seq_id = si_next_id m, ev_kind = Forked parent\<rparr> m' \<and>
       sim_inv E m' \<and> si_next_id m' = si_next_id m + 1
     else \<exists>msg. sim_fork parent origin m = Err msg m"
proof -
  note I = sim_invD [OF inv]
  let ?sch = "si_scheduler m" and ?n = "si_next_id m" and ?t = "si_totals m"
  have mb: "sc_max_batch ?sch = sm_max_batch_size (si_config m)" using I(1) by (simp add: fits_config_def)
  show ?thesis
  proof (cases "position_of (\<lambda>r. rn_id r = seq_of parent) (running ?sch)")
    case None
    then show ?thesis by (auto simp: sim_fork_def find_running)
  next
    case (Some idx)
    note len = position_less [OF Some]
    let ?q = "running ?sch ! idx"
    have "live_running (capacity ?sch) ?q" using I(4) len by (simp add: all_live_def)
    then have q: "rn_generated ?q < rn_max_new ?q"
      "bt_tokens (rn_table ?q) + (rn_max_new ?q - rn_generated ?q) \<le> capacity ?sch"
      unfolding live_running_def by blast+
    have info: "find (\<lambda>r. ri_id r = seq_of parent) (running_snapshot ?sch) = Some (running_snapshot ?sch ! idx)"
      "ri_max_new (running_snapshot ?sch ! idx) - ri_generated (running_snapshot ?sch ! idx) =
         rn_max_new ?q - rn_generated ?q"
      using Some len by (simp add: find_running) (use len in \<open>simp add: running_snapshot_def\<close>)
    show ?thesis
    proof (cases "length (running ?sch) < sc_max_batch ?sch")
      case False
      then have "fork_sequence (seq_of parent) (seq_of ?n) k ?sch = Err (BatchFull (sc_max_batch ?sch)) ?sch" for k
        using Some by (simp add: fork_sequence_def)
      with False Some mb info q(1) show ?thesis by (simp add: sim_fork_def Let_def)
    next
      case True
      from fork_ok [OF I(2) Some True fresh_id [OF I(6)], of "rn_max_new ?q - rn_generated ?q"] obtain s' c where
        f: "fork_sequence (seq_of parent) (seq_of ?n) (rn_max_new ?q - rn_generated ?q) ?sch = Ok () s'"
          "sched_inv E s'" "same_config ?sch s'" "running s' = running ?sch @ [c]" "waiting s' = waiting ?sch"
          "rn_id c = seq_of ?n" "rn_table c = rn_table ?q" "rn_generated c = 0"
          "rn_max_new c = rn_max_new ?q - rn_generated ?q" by blast
      let ?m = "m\<lparr>si_scheduler := s', si_next_id := ?n + 1,
        si_meta := (si_meta m)(?n \<mapsto> \<lparr>me_parent = Some parent, me_origin = origin,
          me_system_prompt = me_system_prompt (meta_of m parent), me_preempted = False\<rparr>),
        si_totals := ?t\<lparr>tt_forks := tt_forks ?t + 1\<rparr>\<rparr>"
      have cap: "capacity s' = capacity ?sch"
        using f(3) by (simp add: capacity_def same_config_def same_pool_def)
      have "all_live s'"
        using I(4) q f(4,5,7-9) by (auto simp: all_live_def cap live_running_def)
      moreover have ids: "set (seq_ids s') = insert (seq_of ?n) (set (seq_ids ?sch))"
        "length (seq_ids s') = length (seq_ids ?sch) + 1" using f(4-6) by (auto simp: seq_ids_def)
      moreover have "books s' (si_meta ?m) (si_totals ?m)"
        by (simp, rule books_new [OF I(8) fresh_id [OF I(6)] ids]) simp_all
      moreover have "fits_config (si_config m) s'"
        using I(1) f(3) by (simp add: fits_config_def same_config_def same_pool_def)
      ultimately have "sim_inv E ?m"
        using f(2) ids_known_new [OF I(6) room, of s'] I(5,9,10) by (simp add: sim_inv_def)
      moreover have "sim_fork parent origin m =
          Ok \<lparr>ev_tick = si_tick m, ev_seq_id = ?n, ev_kind = Forked parent\<rparr> ?m"
        using info q(1) f(1) by (simp add: sim_fork_def Let_def)
      ultimately show ?thesis using True Some mb by simp
    qed
  qed
qed

section \<open>Recording a step\<close>

text \<open>
  What the four loops may change: metadata values, totals other than the books', and the list of
  new events. Everything else of the session stays.
\<close>

definition same_books :: "Totals \<Rightarrow> Totals \<Rightarrow> bool" where
  "same_books t t' \<longleftrightarrow> tt_submitted t' = tt_submitted t \<and> tt_forks t' = tt_forks t \<and>
     tt_finished t' = tt_finished t"

lemma for_opt_inv:
  assumes "\<And>x s. x \<in> set xs \<Longrightarrow> P s \<Longrightarrow> \<exists>s'. f x s = Some s' \<and> P s'" and "P s"
  shows "\<exists>s'. for_opt f xs s = Some s' \<and> P s'"
  using assms
proof (induction xs arbitrary: s)
  case (Cons x xs)
  from Cons.prems(1) [of x s] Cons.prems(2) obtain s1 where s1: "f x s = Some s1" "P s1" by auto
  from Cons.IH [OF _ s1(2)] Cons.prems(1) s1(1) show ?case by simp
qed simp

definition recorded :: "'r Simulation \<Rightarrow> (u32 \<Rightarrow> bool) \<Rightarrow> 'r Simulation \<times> Event list \<Rightarrow> bool" where
  "recorded m D me \<longleftrightarrow> (\<exists>meta t events. me = (m\<lparr>si_meta := meta, si_totals := t\<rparr>, events) \<and>
     same_books (si_totals m) t \<and> (\<forall>w. meta w \<noteq> None \<longleftrightarrow> D w))"

lemma event_at_ok: "event_at tick (seq_of w) kind = Some \<lparr>ev_tick = tick, ev_seq_id = w, ev_kind = kind\<rparr>"
  by (simp add: event_at_def)

lemma recordedI:
  "same_books (si_totals m) t \<Longrightarrow> (\<forall>w. meta w \<noteq> None \<longleftrightarrow> D w) \<Longrightarrow>
   recorded m D (m\<lparr>si_meta := meta, si_totals := t\<rparr>, ev)"
  unfolding recorded_def by blast

lemma recordedI2:
  assumes "same_books (si_totals m) t" "\<forall>w. meta w \<noteq> None \<longleftrightarrow> D w"
  shows "recorded m D (m\<lparr>si_totals := t, si_meta := meta\<rparr>, ev)"
proof -
  have "m\<lparr>si_totals := t, si_meta := meta\<rparr> = m\<lparr>si_meta := meta, si_totals := t\<rparr>" by (cases m) simp
  with recordedI [OF assms] show ?thesis by metis
qed

lemma recordedE:
  assumes "recorded m D me"
  obtains meta t ev where "me = (m\<lparr>si_meta := meta, si_totals := t\<rparr>, ev)"
    "same_books (si_totals m) t" "\<forall>w. meta w \<noteq> None \<longleftrightarrow> D w"
  using assms unfolding recorded_def by blast

lemma record_prefill_ok:
  assumes "recorded m D me" "\<exists>w. pf_id p = seq_of w"
  shows "\<exists>me'. record_prefill p me = Some me' \<and> recorded m D me'"
proof -
  from assms(1) obtain meta t ev where r: "me = (m\<lparr>si_meta := meta, si_totals := t\<rparr>, ev)"
    "same_books (si_totals m) t" "\<forall>w. meta w \<noteq> None \<longleftrightarrow> D w" by (rule recordedE)
  let ?t = "t\<lparr>tt_prompt_tokens_cached := tt_prompt_tokens_cached t + count (pf_cached p),
    tt_prompt_tokens_computed := tt_prompt_tokens_computed t + count (pf_computed p)\<rparr>"
  have "same_books (si_totals m) ?t" using r(2) by (simp add: same_books_def)
  from recordedI [OF this r(3)] assms(2) show ?thesis
    by (auto simp: r(1) record_prefill_def event_at_ok add_totals_def)
qed

lemma record_cow_ok:
  assumes "recorded m D me" "\<exists>w. dt_id d = seq_of w"
  shows "\<exists>me'. record_cow d me = Some me' \<and> recorded m D me'"
proof (cases "dt_cow d")
  case None
  with assms(1) show ?thesis by (cases me) (simp add: record_cow_def)
next
  case (Some c)
  from assms(1) obtain meta t ev where r: "me = (m\<lparr>si_meta := meta, si_totals := t\<rparr>, ev)"
    "same_books (si_totals m) t" "\<forall>w. meta w \<noteq> None \<longleftrightarrow> D w" by (rule recordedE)
  have "same_books (si_totals m) (t\<lparr>tt_cow_copies := tt_cow_copies t + 1\<rparr>)"
    using r(2) by (simp add: same_books_def)
  from recordedI [OF this r(3)] assms(2) Some show ?thesis
    by (auto simp: r(1) record_cow_def event_at_ok add_totals_def)
qed

lemma record_preempted_ok:
  assumes "recorded m D me" "\<exists>w. i = seq_of w"
  shows "\<exists>me'. record_preempted i me = Some me' \<and> recorded m D me'"
proof -
  from assms(1) obtain meta t ev where r: "me = (m\<lparr>si_meta := meta, si_totals := t\<rparr>, ev)"
    "same_books (si_totals m) t" "\<forall>w. meta w \<noteq> None \<longleftrightarrow> D w" by (rule recordedE)
  from assms(2) obtain w where i: "i = seq_of w" by blast
  show ?thesis
  proof (cases "meta w")
    case None
    with recordedI [OF r(2,3)] i show ?thesis by (auto simp: r(1) record_preempted_def event_at_ok)
  next
    case (Some x)
    let ?meta = "meta(w \<mapsto> x\<lparr>me_preempted := True\<rparr>)"
    have "\<forall>v. ?meta v \<noteq> None \<longleftrightarrow> D v" using r(3) Some by auto
    note new = recordedI2 [OF r(2) this]
    show ?thesis
      unfolding r(1) record_preempted_def i by (simp add: Some event_at_ok) (rule new)
  qed
qed

lemma record_finished_ok:
  assumes "recorded m D me" "i = seq_of w"
  shows "\<exists>me'. record_finished i me = Some me' \<and> recorded m (\<lambda>v. D v \<and> v \<noteq> w) me'"
proof -
  from assms(1) obtain meta t ev where r: "me = (m\<lparr>si_meta := meta, si_totals := t\<rparr>, ev)"
    "same_books (si_totals m) t" "\<forall>w. meta w \<noteq> None \<longleftrightarrow> D w" by (rule recordedE)
  have "\<forall>v. (meta(w := None)) v \<noteq> None \<longleftrightarrow> D v \<and> v \<noteq> w" using r(3) by auto
  note new = recordedI2 [OF r(2) this]
  show ?thesis
    unfolding r(1) record_finished_def assms(2) by (simp add: event_at_ok) (rule new)
qed

lemma record_all_finished:
  assumes "recorded m D me" "\<forall>i \<in> set ids. \<exists>w. i = seq_of w"
  shows "\<exists>me'. for_opt record_finished ids me = Some me' \<and>
    recorded m (\<lambda>v. D v \<and> seq_of v \<notin> set ids) me'"
  using assms
proof (induction ids arbitrary: D me)
  case Nil
  then show ?case by simp
next
  case (Cons i ids)
  then obtain w where w: "i = seq_of w" by auto
  with record_finished_ok [OF Cons.prems(1), of i w] obtain me1 where
    me1: "record_finished i me = Some me1" "recorded m (\<lambda>v. D v \<and> v \<noteq> w) me1" by auto
  from Cons.IH [OF me1(2)] Cons.prems(2) obtain me' where
    "for_opt record_finished ids me1 = Some me'"
    "recorded m (\<lambda>v. (D v \<and> v \<noteq> w) \<and> seq_of v \<notin> set ids) me'" by auto
  with me1(1) w show ?case by (auto simp: recorded_def)
qed

lemma record_step_ok:
  assumes known: "\<forall>i \<in> set (map pf_id (prefills out)) \<union> set (map dt_id (decoded out)) \<union>
      set (preempted out) \<union> set (finished out). \<exists>w. i = seq_of w"
    and fin: "length (finished out) < 2 ^ 32"
  shows "\<exists>meta t ev'. record_step out (m, ev) = Some (m\<lparr>si_meta := meta, si_totals := t\<rparr>, ev') \<and>
    (\<forall>w. meta w \<noteq> None \<longleftrightarrow> si_meta m w \<noteq> None \<and> seq_of w \<notin> set (finished out)) \<and>
    tt_submitted t = tt_submitted (si_totals m) \<and> tt_forks t = tt_forks (si_totals m) \<and>
    tt_finished t = tt_finished (si_totals m) + word_of_nat (length (finished out))"
proof -
  let ?D = "\<lambda>w. si_meta m w \<noteq> None"
  have "m = m\<lparr>si_meta := si_meta m, si_totals := si_totals m\<rparr>" by simp
  then have "recorded m ?D (m, ev)" unfolding recorded_def same_books_def by blast
  from for_opt_inv [where P = "recorded m ?D" and f = record_prefill and xs = "prefills out", OF record_prefill_ok this]
  obtain me1 where 1: "for_opt record_prefill (prefills out) (m, ev) = Some me1" "recorded m ?D me1"
    using known by auto
  from for_opt_inv [where P = "recorded m ?D" and f = record_cow and xs = "decoded out", OF record_cow_ok 1(2)]
  obtain me2 where 2: "for_opt record_cow (decoded out) me1 = Some me2" "recorded m ?D me2"
    using known by auto
  from for_opt_inv [where P = "recorded m ?D" and f = record_preempted and xs = "preempted out",
      OF record_preempted_ok 2(2)]
  obtain me3 where 3: "for_opt record_preempted (preempted out) me2 = Some me3" "recorded m ?D me3"
    using known by auto
  from record_all_finished [OF 3(2), of "finished out"] known obtain me4 where
    4: "for_opt record_finished (finished out) me3 = Some me4"
      "recorded m (\<lambda>w. ?D w \<and> seq_of w \<notin> set (finished out)) me4" by auto
  from 4(2) obtain meta t ev' where r: "me4 = (m\<lparr>si_meta := meta, si_totals := t\<rparr>, ev')"
    "same_books (si_totals m) t" "\<forall>w. meta w \<noteq> None \<longleftrightarrow> ?D w \<and> seq_of w \<notin> set (finished out)"
    by (auto simp: recorded_def)
  have "count (length (finished out)) = word_of_nat (length (finished out))" using fin by (simp add: count_def)
  then have op: "record_step out (m, ev) = Some (m\<lparr>si_meta := meta, si_totals := t\<lparr>
      tt_admitted := tt_admitted t + count (length (admitted out)),
      tt_preempted := tt_preempted t + count (length (preempted out)),
      tt_finished := tt_finished t + word_of_nat (length (finished out)),
      tt_tokens_generated := tt_tokens_generated t + count (length (decoded out)),
      tt_cache_evictions := count (evictions (cache_stats (sc_alloc (si_scheduler m))))\<rparr>\<rparr>, ev')"
    using 1(1) 2(1) 3(1) 4(1) by (simp add: r(1) record_step_def add_totals_def)
  show ?thesis
    by (rule exI [of _ meta], rule exI, rule exI, rule conjI [OF op])
      (use r(2,3) in \<open>simp add: same_books_def\<close>)
qed

section \<open>Ring buffers\<close>

lemma foldl_push_capped:
  "length xs \<le> n \<Longrightarrow> 0 < n \<Longrightarrow>
   foldl (push_capped n) xs ys = drop (length xs + length ys - n) (xs @ ys) \<and>
   length (foldl (push_capped n) xs ys) \<le> n"
proof (induction ys arbitrary: xs)
  case (Cons y ys)
  show ?case
  proof (cases "length xs = n")
    case True
    then obtain x xs' where xs: "xs = x # xs'" using Cons.prems(2) by (cases xs) auto
    from Cons.IH [of "xs' @ [y]"] Cons.prems True xs show ?thesis
      by (auto simp: push_capped_def)
  next
    case False
    with Cons.IH [of "xs @ [y]"] Cons.prems show ?thesis by (simp add: push_capped_def)
  qed
qed simp

lemma log_inv: "sim_inv E m \<Longrightarrow> sim_inv E (log events m)"
  using foldl_push_capped [of "si_events m" EVENT_LOG_LEN events]
  by (simp add: sim_inv_def log_def EVENT_LOG_LEN_def)

lemma push_history_inv:
  "sim_inv E m \<Longrightarrow> sim_inv E (m\<lparr>si_history := push_capped HISTORY_LEN (si_history m) mt\<rparr>)"
  by (auto simp: sim_inv_def push_capped_def HISTORY_LEN_def)

section \<open>Traffic\<close>

text \<open>The number of ids a piece of code may issue, as a budget.\<close>

definition id_room :: "nat \<Rightarrow> 'r Simulation \<Rightarrow> bool" where
  "id_room n m \<longleftrightarrow> unat (si_next_id m) + n < 2 ^ 32"

lemma submit_keeps:
  assumes "sim_inv E m" "id_room (Suc n) m"
  shows "\<exists>m' events'. push_ok events (submit origin sp pl mn m) = Some (m', events') \<and> sim_inv E m' \<and> id_room n m'"
proof (cases "submittable m sp pl mn")
  case True
  have r: "unat (si_next_id m) + 1 < 2 ^ 32" using assms(2) by (simp add: id_room_def)
  from submit_cases [OF assms(1), of sp pl mn origin] True
  have "push_ok events (submit origin sp pl mn m) = Some (submitted origin sp pl mn m,
    events @ [\<lparr>ev_tick = si_tick m, ev_seq_id = si_next_id m, ev_kind = Submitted origin sp pl mn\<rparr>])" by simp
  moreover have "id_room n (submitted origin sp pl mn m)"
    using assms(2) unat_Suc [OF r] by (simp add: id_room_def submitted_def Let_def)
  ultimately show ?thesis using submitted_inv [OF assms(1) True r] by blast
next
  case False
  with submit_cases [OF assms(1), of sp pl mn origin] obtain msg where
    "submit origin sp pl mn m = Err msg m" by auto
  with assms show ?thesis by (auto simp: id_room_def)
qed

lemma sim_fork_keeps:
  assumes "sim_inv E m" "id_room (Suc n) m"
  shows "\<exists>m' events'. push_ok events (sim_fork parent origin m) = Some (m', events') \<and> sim_inv E m' \<and> id_room n m'"
proof -
  have r: "unat (si_next_id m) + 1 < 2 ^ 32" using assms(2) by (simp add: id_room_def)
  from sim_fork_cases [OF assms(1) r, of parent origin]
  consider (ok) ev m' where "sim_fork parent origin m = Ok ev m'" "sim_inv E m'" "si_next_id m' = si_next_id m + 1"
    | (refused) msg where "sim_fork parent origin m = Err msg m" by (auto split: if_splits)
  then show ?thesis
  proof cases
    case ok
    with assms(2) unat_Suc [OF r] show ?thesis by (auto simp: id_room_def)
  next
    case refused
    with assms show ?thesis by (auto simp: id_room_def)
  qed
qed

text \<open>Drawing random numbers changes the generator only.\<close>

definition same_session :: "'r Simulation \<Rightarrow> 'r Simulation \<Rightarrow> bool" where
  "same_session m m' \<longleftrightarrow> (\<exists>g. m' = m\<lparr>si_rng := g\<rparr>)"

lemma same_session_refl: "same_session m m"
  unfolding same_session_def by (rule exI [of _ "si_rng m"]) simp

lemma same_session_trans: "same_session m m1 \<Longrightarrow> same_session m1 m2 \<Longrightarrow> same_session m m2"
  by (auto simp: same_session_def)

lemma same_sessionD:
  assumes "same_session m m'"
  shows "sim_inv E m' = sim_inv E m" "id_room n m' = id_room n m" "si_scheduler m' = si_scheduler m"
  using assms by (auto simp: same_session_def id_room_def)

lemma draw_u32_session: "draw_u32 R lo hi m = (x, m') \<Longrightarrow> same_session m m'"
  by (auto simp: draw_u32_def same_session_def split: prod.splits)

lemma draw_usize_session: "draw_usize R i j m = (x, m') \<Longrightarrow> same_session m m'"
  by (auto simp: draw_usize_def same_session_def split: prod.splits)

lemma traffic_request_draws:
  "\<exists>sp pl mn m'. traffic_request R m events = push_ok events (submit Traffic sp pl mn m') \<and> same_session m m'"
proof -
  obtain wp m1 where 1: "(if si_system_prompts m = [] then (False, m)
      else let (x, m) = draw_u32 R 0 100 m in (x < TRAFFIC_SYSTEM_PROMPT_PERCENT, m)) = (wp, m1)"
    by (metis surj_pair)
  obtain sp m2 where 2: "(if wp then let (x, m) = draw_usize R 0 (length (si_system_prompts m1)) m1 in
      (Some (word_of_nat x :: u32), m) else (None, m1)) = (sp, m2)"
    by (metis surj_pair)
  obtain pl m3 where 3: "draw_u32 R 4 24 m2 = (pl, m3)" by (metis surj_pair)
  obtain mn m4 where 4: "draw_u32 R 4 32 m3 = (mn, m4)" by (metis surj_pair)
  have "same_session m m1"
    using 1 by (auto simp: same_session_refl split: if_splits prod.splits dest: draw_u32_session)
  moreover have "same_session m1 m2"
    using 2 by (auto simp: same_session_refl split: if_splits prod.splits dest: draw_usize_session)
  ultimately have "same_session m m4"
    using draw_u32_session [OF 3] draw_u32_session [OF 4] same_session_trans by blast
  moreover have "traffic_request R m events = push_ok events (submit Traffic sp pl mn m4)"
    unfolding traffic_request_def 1 Let_def [of "(wp, m1)"] prod.case 2 Let_def [of "(sp, m2)"] by (simp add: 3 4)
  ultimately show ?thesis by blast
qed

lemma traffic_request_ok:
  assumes "sim_inv E m" "id_room (Suc n) m"
  shows "\<exists>m' events'. traffic_request R m events = Some (m', events') \<and> sim_inv E m' \<and> id_room n m'"
proof -
  from traffic_request_draws [of R m events] obtain sp pl mn m1 where
    t: "traffic_request R m events = push_ok events (submit Traffic sp pl mn m1)" and
    s: "same_session m m1" by (elim exE conjE) (rule that)
  from assms have "sim_inv E m1" "id_room (Suc n) m1" unfolding same_sessionD [OF s] .
  from submit_keeps [OF this] show ?thesis unfolding t .
qed

lemma traffic_fork_ok:
  assumes "sim_inv E m" "id_room (Suc n) m" "rng_ok R"
  shows "\<exists>m' events'. traffic_fork R m events = Some (m', events') \<and> sim_inv E m' \<and> id_room n m'"
proof (cases "running_snapshot (si_scheduler m) = []")
  case True
  with assms show ?thesis by (auto simp: traffic_fork_def id_room_def)
next
  case False
  let ?run = "running_snapshot (si_scheduler m)"
  obtain x m1 where d: "draw_usize R 0 (length ?run) m = (x, m1)" by (cases "draw_usize R 0 (length ?run) m")
  have x: "x < length ?run"
    using assms(3) False d by (auto simp: draw_usize_def rng_ok_def split: prod.splits)
      (metis fst_conv length_greater_0_conv)
  from x have "ri_id (?run ! x) \<in> set (seq_ids (si_scheduler m))"
    by (simp add: running_snapshot_def seq_ids_def)
  with sim_invD(6) [OF assms(1)] obtain w where w: "ri_id (?run ! x) = seq_of w" by (auto simp: ids_known_def)
  have m1: "sim_inv E m1" "id_room (Suc n) m1"
    using assms(1,2) unfolding same_sessionD [OF draw_usize_session [OF d]] .
  have "traffic_fork R m events = push_ok events (sim_fork w Traffic m1)"
    using False d x w by (simp add: traffic_fork_def Let_def)
  with sim_fork_keeps [OF m1, of events w Traffic] show ?thesis by simp
qed

lemma generate_traffic_ok:
  assumes "sim_inv E m" "id_room (Suc (Suc n)) m" "rng_ok R"
  shows "\<exists>m' events'. generate_traffic R m events = Some (m', events') \<and> sim_inv E m' \<and> id_room n m'"
proof -
  have down: "id_room (Suc k) m' \<Longrightarrow> id_room k m'" for k and m' :: "'a Simulation" by (simp add: id_room_def)
  let ?c = "si_tick m mod 3 = 0 \<and> length (waiting (si_scheduler m)) < TRAFFIC_QUEUE_LIMIT"
  have "\<exists>m1 ev1. (if ?c then traffic_request R m events else Some (m, events)) = Some (m1, ev1) \<and>
    sim_inv E m1 \<and> id_room (Suc n) m1"
    using traffic_request_ok [OF assms(1,2), of R events] assms(1) down [OF assms(2)] by (cases ?c) simp_all
  then obtain m1 ev1 where 1: "(if ?c then traffic_request R m events else Some (m, events)) = Some (m1, ev1)"
    "sim_inv E m1" "id_room (Suc n) m1" by blast
  show ?thesis
    using 1 traffic_fork_ok [OF 1(2,3) assms(3), of ev1] down [OF 1(3)]
    unfolding generate_traffic_def 1(1) by simp
qed

section \<open>Ticks\<close>

text \<open>What a tick does to the session, between two states that satisfy the invariant.\<close>

lemma step_session:
  assumes inv: "sim_inv E m"
  shows "\<exists>out sch E' meta t ev'. step (si_scheduler m) = Ok out sch \<and>
    record_step out (m\<lparr>si_scheduler := sch\<rparr>, ev) =
      Some (m\<lparr>si_scheduler := sch, si_meta := meta, si_totals := t\<rparr>, ev') \<and>
    sim_inv E' (m\<lparr>si_scheduler := sch, si_meta := meta, si_totals := t\<rparr>)"
proof -
  note I = sim_invD [OF inv]
  let ?s = "si_scheduler m"
  from step_ok [OF I(2)] obtain k qs keep keep' vs out s' E' where
    S: "step ?s = Ok out s'" "stepped ?s k qs keep keep' vs out s'" "sched_inv E' s'" "same_config ?s s'"
    by (elim exE conjE) (rule that)
  note d = core_invD(10) [OF I(3)]
  note O = stepped_order [OF S(2) d]
  have lv: "live ?s" using I(1,4) by (simp add: live_def all_live_def fits_config_def config_ok_def)
  have "all_live s'" using stepped_work(2) [OF S(2) lv S(4)] by (simp add: live_def all_live_def)
  have fc: "fits_config (si_config m) s'"
    using I(1) S(4) by (simp add: fits_config_def same_config_def same_pool_def)
  have known: "\<exists>w < si_next_id m. i = seq_of w" if "i \<in> set (seq_ids ?s)" for i
    using I(6) that by (simp add: ids_known_def)
  have "length (seq_ids ?s) < 2 ^ 32"
  proof -
    have "inj_on (\<lambda>i. SOME w. i = seq_of w) (set (seq_ids ?s))"
      by (rule inj_on_inverseI [where g = seq_of]) (metis (mono_tags, lifting) known someI)
    then have "card (set (seq_ids ?s)) \<le> card ((\<lambda>i. SOME w. i = seq_of w) ` set (seq_ids ?s))"
      by (simp add: card_image)
    also have "(\<lambda>i. SOME w. i = seq_of w) ` set (seq_ids ?s) \<subseteq> {..<si_next_id m}"
    proof (rule image_subsetI)
      fix i assume "i \<in> set (seq_ids ?s)"
      with known obtain w where w: "w < si_next_id m" "i = seq_of w" by blast
      have "(SOME w. i = seq_of w) = w" using w(2) by (intro some_equality) auto
      with w(1) show "(SOME w. i = seq_of w) \<in> {..<si_next_id m}" by simp
    qed
    then have "card ((\<lambda>i. SOME w. i = seq_of w) ` set (seq_ids ?s)) \<le> card {..<si_next_id m}"
      by (intro card_mono) simp_all
    also have "card {..<si_next_id m} \<le> unat (si_next_id m)"
    proof -
      have "inj_on unat {..<si_next_id m}" by (auto simp: inj_on_def word_unat_eq_iff)
      then have "card {..<si_next_id m} = card (unat ` {..<si_next_id m})" by (simp add: card_image)
      also have "\<dots> \<le> card {..<unat (si_next_id m)}"
        by (intro card_mono) (auto simp: word_less_nat_alt)
      finally show ?thesis by simp
    qed
    finally have "card (set (seq_ids ?s)) \<le> unat (si_next_id m)" .
    moreover have "unat (si_next_id m) < 2 ^ LENGTH(32)" by (rule unsigned_less)
    ultimately show ?thesis using distinct_card [OF d] by simp
  qed
  then have fin: "length (finished out) < 2 ^ 32" using O(2) by linarith
  have "\<forall>i \<in> set (map pf_id (prefills out)) \<union> set (map dt_id (decoded out)) \<union>
      set (preempted out) \<union> set (finished out). \<exists>w. i = seq_of w"
    using O(3,4,6,7,8) known by (metis (no_types, lifting) UnE subsetD)
  from record_step_ok [OF this fin, of "m\<lparr>si_scheduler := s'\<rparr>" ev] obtain meta t ev' where
    r: "record_step out (m\<lparr>si_scheduler := s'\<rparr>, ev) =
        Some (m\<lparr>si_scheduler := s', si_meta := meta, si_totals := t\<rparr>, ev')"
      "\<forall>w. meta w \<noteq> None \<longleftrightarrow> si_meta m w \<noteq> None \<and> seq_of w \<notin> set (finished out)"
      "tt_submitted t = tt_submitted (si_totals m)" "tt_forks t = tt_forks (si_totals m)"
      "tt_finished t = tt_finished (si_totals m) + word_of_nat (length (finished out))" by auto
  have "books s' meta t"
    using I(8) r(2-5) O(1,2) by (auto simp: books_def)
  moreover have "ids_known (si_next_id m) s'" using I(6) O(1) by (auto simp: ids_known_def)
  ultimately have "sim_inv E' (m\<lparr>si_scheduler := s', si_meta := meta, si_totals := t\<rparr>)"
    using fc S(3) \<open>all_live s'\<close> I(5,7,9,10) by (simp add: sim_inv_def)
  with S(1) r(1) show ?thesis by blast
qed

lemma id_room_mono: "id_room n m \<Longrightarrow> k \<le> n \<Longrightarrow> id_room k m"
  by (simp add: id_room_def)

lemma advance_ok:
  assumes inv: "sim_inv E m" and room: "id_room (Suc (Suc n)) m" and R: "rng_ok R"
  shows "\<exists>sn ev m' E'. advance R m = Ok (Tick sn ev) m' \<and> sim_inv E' m' \<and> id_room n m'"
proof -
  let ?m0 = "m\<lparr>si_tick := (if si_tick m = - 1 then - 1 else si_tick m + 1)\<rparr>"
  have "sim_inv E ?m0" "id_room (Suc (Suc n)) ?m0" using inv room by (simp_all add: id_room_def)
  then obtain m1 ev1 where 1: "(if si_traffic ?m0 then generate_traffic R ?m0 [] else Some (?m0, [])) = Some (m1, ev1)"
    "sim_inv E m1" "id_room n m1"
    using generate_traffic_ok [of E ?m0 n R "[]"] R id_room_mono [of "Suc (Suc n)" ?m0 n]
    by (cases "si_traffic m") auto
  from step_session [OF 1(2), of ev1] obtain out sch E' meta t ev2 where
    2: "step (si_scheduler m1) = Ok out sch"
      "record_step out (m1\<lparr>si_scheduler := sch\<rparr>, ev1) =
        Some (m1\<lparr>si_scheduler := sch, si_meta := meta, si_totals := t\<rparr>, ev2)"
      "sim_inv E' (m1\<lparr>si_scheduler := sch, si_meta := meta, si_totals := t\<rparr>)" (is "sim_inv E' ?m2")
    by (elim exE conjE) (rule that)
  from metrics_ok [OF 2(3)] obtain mt where 3: "metrics ?m2 = Some mt" by blast
  let ?m3 = "log ev2 (?m2\<lparr>si_history := push_capped HISTORY_LEN (si_history ?m2) mt\<rparr>)"
  have 4: "sim_inv E' ?m3" by (rule log_inv [OF push_history_inv [OF 2(3)]])
  from snapshot_ok [OF this] obtain sn where 5: "snapshot ?m3 = Some sn" by blast
  have "advance R m = Ok (Tick sn ev2) ?m3"
    unfolding advance_def Let_def 1(1) by (simp add: 2(1,2) 3 5 [simplified])
  moreover have "id_room n ?m3" using 1(3) by (simp add: id_room_def log_def)
  ultimately show ?thesis using 4 by blast
qed

section \<open>Opening and restarting\<close>

lemma sim_new_ok:
  assumes "config_ok c"
  shows "\<exists>m. sim_new R c seed = Some m \<and> sim_inv (\<lambda>_. []) m \<and> si_next_id m = 1 \<and> si_config m = c"
proof -
  let ?sch = "if sm_prefix_caching c then sched_with_prefix_caching (sim_cache c) (sm_max_batch_size c)
    else sched_new (sim_cache c) (sm_max_batch_size c)"
  let ?m = "\<lparr>si_config = c, si_scheduler = ?sch, si_rng = rg_seed R seed, si_tick = 0, si_paused = False,
    si_traffic = True, si_next_id = 1, si_next_token = 1,
    si_system_prompts = system_prompt_tokens (sm_system_prompts c), si_meta = (\<lambda>_. None),
    si_totals = no_totals, si_history = [], si_events = []\<rparr>"
  have g: "geometry_ok (sim_cache c) (sm_max_batch_size c)" using assms by (simp add: config_ok_def)
  have sc: "sched_inv (\<lambda>_. []) ?sch" using sched_inv_new [OF g] by simp
  have e: "running ?sch = []" "waiting ?sch = []" "sc_block_size ?sch = sm_block_size c"
    "sc_max_batch ?sch = sm_max_batch_size c" "al_num_blocks (sc_alloc ?sch) = sm_num_blocks c"
    by (simp_all add: sched_new_def sched_with_prefix_caching_def with_allocator_def alloc_new_def
        alloc_with_prefix_caching_def sim_cache_def)
  have i: "sim_inv (\<lambda>_. []) ?m"
    using assms sc e
    by (simp add: sim_inv_def fits_config_def all_live_def ids_known_def books_def seq_ids_def no_totals_def
        HISTORY_LEN_def EVENT_LOG_LEN_def)
  from metrics_ok [OF this] obtain mt where mt: "metrics ?m = Some mt" by blast
  from push_history_inv [OF i, of mt] have "sim_inv (\<lambda>_. []) (?m\<lparr>si_history := [mt]\<rparr>)"
    by (simp add: push_capped_def HISTORY_LEN_def)
  with mt show ?thesis by (simp add: sim_new_def Let_def)
qed

lemma init_message_ok: "sim_inv E m \<Longrightarrow> \<exists>sn. init_message m = Some (Init (pool_config m) sn (si_history m) (si_events m))"
  using snapshot_ok [of E m] by (auto simp: init_message_def)

lemma restart_ok:
  assumes "config_ok (si_config m)"
  shows "\<exists>m'. restart R m = Some m' \<and> sim_inv (\<lambda>_. []) m' \<and> si_next_id m' = 1 \<and> si_config m' = si_config m"
  using sim_new_ok [OF assms, of R "fst (rg_u64 R (si_rng m))"] by (auto simp: restart_def)

section \<open>Commands\<close>

text \<open>
  How a command is answered: refused with the session unchanged, or acknowledged with one more
  message.
\<close>

definition answered :: "u32 \<Rightarrow> 'r Simulation \<Rightarrow> ServerMessage list \<Rightarrow> 'r Simulation \<Rightarrow> bool" where
  "answered i m replies m' \<longleftrightarrow>
     (\<exists>why. replies = [Ack i (Rejected why)] \<and> m' = m) \<or> (\<exists>q msg. replies = [Ack i (Done q), msg])"

lemma with_state_ok:
  assumes "sim_inv E m'" "id_room n m'"
  shows "\<exists>replies m2. with_state i q ev m' = Some (replies, m2) \<and> sim_inv E m2 \<and> id_room n m2 \<and> answered i m replies m2"
proof -
  from snapshot_ok [OF log_inv [OF assms(1)], of ev] obtain sn where "snapshot (log ev m') = Some sn" by blast
  with log_inv [OF assms(1), of ev] assms(2) show ?thesis
    by (auto simp: with_state_def state_message_def answered_def id_room_def log_def)
qed

lemma created_ok:
  assumes "sim_inv E m" "id_room n m"
    and "(\<exists>msg. r = Err msg m) \<or> (\<exists>ev m'. r = Ok ev m' \<and> sim_inv E m' \<and> id_room n m')"
  shows "\<exists>replies m2. created i r = Some (replies, m2) \<and> sim_inv E m2 \<and> id_room n m2 \<and> answered i m replies m2"
  using assms(3)
proof (elim disjE exE conjE)
  fix msg assume "r = Err msg m"
  with assms(1,2) show ?thesis by (simp add: answered_def)
next
  fix ev m' assume "r = Ok ev m'" "sim_inv E m'" "id_room n m'"
  with with_state_ok [of E m' n i "Some (ev_seq_id ev)" "[ev]" m] show ?thesis by simp
qed

lemma with_init_ok:
  assumes "sim_inv E m'" "id_room n m'"
  shows "\<exists>replies m2. with_init i m' = Some (replies, m2) \<and> sim_inv E m2 \<and> id_room n m2 \<and> answered i m replies m2"
  using init_message_ok [OF assms(1)] assms by (auto simp: with_init_def answered_def)

lemma handle_ok:
  assumes inv: "sim_inv E m" and room: "id_room (Suc (Suc n)) m" and R: "rng_ok R"
  shows "\<exists>replies m' E'. handle R msg m = Some (replies, m') \<and> sim_inv E' m' \<and> id_room n m' \<and>
    answered (cm_id msg) m replies m'"
proof -
  let ?i = "cm_id msg"
  have r1: "unat (si_next_id m) + 1 < 2 ^ 32" and r: "id_room n m" using room by (simp_all add: id_room_def)
  have step_id: "id_room n m'" if "si_next_id m' = si_next_id m + 1" for m' :: "'a Simulation"
    using that room unat_Suc [OF r1] by (simp add: id_room_def)
  have one: "id_room n m'" if "si_next_id m' = 1" for m' :: "'a Simulation"
    using that room sim_invD(7) [OF inv] by (simp add: id_room_def word_less_nat_alt)
  have cfg: "config_ok (si_config m)" using sim_invD(1) [OF inv] by (simp add: fits_config_def)
  show ?thesis
  proof (cases "cm_command msg")
    case (AddRequest sp pl mn)
    have "(\<exists>msg. submit User sp pl mn m = Err msg m) \<or>
      (\<exists>ev m'. submit User sp pl mn m = Ok ev m' \<and> sim_inv E m' \<and> id_room n m')"
    proof (cases "submittable m sp pl mn")
      case True
      have "si_next_id (submitted User sp pl mn m) = si_next_id m + 1" by (simp add: submitted_def Let_def)
      with submit_cases [OF inv, of sp pl mn User] submitted_inv [OF inv True r1] step_id True show ?thesis by auto
    next
      case False
      with submit_cases [OF inv, of sp pl mn User] show ?thesis by simp
    qed
    from created_ok [OF inv r this, of ?i] AddRequest show ?thesis by (auto simp: handle_def Let_def)
  next
    case (Fork parent)
    have "(\<exists>msg. sim_fork parent User m = Err msg m) \<or>
      (\<exists>ev m'. sim_fork parent User m = Ok ev m' \<and> sim_inv E m' \<and> id_room n m')"
      using sim_fork_cases [OF inv r1, of parent User] step_id by (auto split: if_splits)
    from created_ok [OF inv r this, of ?i] Fork show ?thesis by (auto simp: handle_def Let_def)
  next
    case Pause
    have "sim_inv E (m\<lparr>si_paused := True\<rparr>)" "id_room n (m\<lparr>si_paused := True\<rparr>)"
      using inv r by (simp_all add: id_room_def)
    from with_state_ok [OF this, of ?i None "[]" m] Pause show ?thesis by (auto simp: handle_def Let_def)
  next
    case Resume
    have "sim_inv E (m\<lparr>si_paused := False\<rparr>)" "id_room n (m\<lparr>si_paused := False\<rparr>)"
      using inv r by (simp_all add: id_room_def)
    from with_state_ok [OF this, of ?i None "[]" m] Resume show ?thesis by (auto simp: handle_def Let_def)
  next
    case Step
    show ?thesis
    proof (cases "si_paused m")
      case True
      from advance_ok [OF inv room R] True Step show ?thesis by (auto simp: handle_def Let_def answered_def)
    next
      case False
      with Step inv r show ?thesis by (auto simp: handle_def Let_def answered_def)
    qed
  next
    case Reset
    from restart_ok [OF cfg] obtain m1 where "restart R m = Some m1" "sim_inv (\<lambda>_. []) m1" "si_next_id m1 = 1"
      by blast
    with with_init_ok [OF this(2) one [OF this(3)], of ?i m] Reset show ?thesis by (auto simp: handle_def Let_def)
  next
    case (SetTraffic b)
    have "sim_inv E (m\<lparr>si_traffic := b\<rparr>)" "id_room n (m\<lparr>si_traffic := b\<rparr>)"
      using inv r by (simp_all add: id_room_def)
    from with_state_ok [OF this, of ?i None "[]" m] SetTraffic show ?thesis by (auto simp: handle_def Let_def)
  next
    case (SetPrefixCaching b)
    let ?m = "m\<lparr>si_config := (si_config m)\<lparr>sm_prefix_caching := b\<rparr>\<rparr>"
    have "config_ok (si_config ?m)" using cfg by (simp add: config_ok_def sim_cache_def)
    from restart_ok [OF this] obtain m1 where "restart R ?m = Some m1" "sim_inv (\<lambda>_. []) m1" "si_next_id m1 = 1"
      by blast
    with with_init_ok [OF this(2) one [OF this(3)], of ?i m] SetPrefixCaching show ?thesis
      by (auto simp: handle_def Let_def)
  qed
qed

section \<open>Sessions\<close>

lemma ws_turn_ok:
  assumes inv: "sim_inv E m" and room: "id_room (Suc (Suc n)) m" and R: "rng_ok R"
  shows "\<exists>msgs r. ws_turn R x m = Some (msgs, r) \<and>
    (case r of Inl e \<Rightarrow> \<forall>why. e \<noteq> Closed CLOSE_INTERNAL_ERROR why
     | Inr m' \<Rightarrow> \<exists>E'. sim_inv E' m' \<and> id_room n m')"
proof (cases x)
  case Ticker
  with advance_ok [OF inv room R] id_room_mono [OF room, of n] inv show ?thesis
    by (cases "si_paused m") (auto simp: ws_turn_def)
next
  case (TextFrame t)
  show ?thesis
  proof (cases t)
    case (Inl e)
    with TextFrame id_room_mono [OF room, of n] inv show ?thesis by (auto simp: ws_turn_def)
  next
    case (Inr msg)
    from handle_ok [OF inv room R, of msg] obtain replies m' E' where
      "handle R msg m = Some (replies, m')" "sim_inv E' m'" "id_room n m'" by blast
    with TextFrame Inr show ?thesis by (auto simp: ws_turn_def)
  qed
next
  case IdleTimer
  then show ?thesis by (simp add: ws_turn_def CLOSE_IDLE_def CLOSE_INTERNAL_ERROR_def)
qed (use inv room id_room_mono [OF room, of n] in \<open>auto simp: ws_turn_def\<close>)

lemma ws_loop_ok:
  assumes "sim_inv E m" "id_room (2 * length xs + k) m" "rng_ok R"
  shows "\<exists>msgs r. ws_loop R xs m = Some (msgs, r) \<and>
    (case r of Inl e \<Rightarrow> \<forall>why. e \<noteq> Closed CLOSE_INTERNAL_ERROR why | Inr m' \<Rightarrow> \<exists>E'. sim_inv E' m' \<and> id_room k m')"
  using assms(1,2)
proof (induction xs arbitrary: E m)
  case Nil
  then show ?case by auto
next
  case (Cons x xs)
  have "id_room (Suc (Suc (2 * length xs + k))) m" using Cons.prems(2) by simp
  from ws_turn_ok [OF Cons.prems(1) this assms(3), of x] obtain msgs r where
    t: "ws_turn R x m = Some (msgs, r)" "case r of Inl e \<Rightarrow> \<forall>why. e \<noteq> Closed CLOSE_INTERNAL_ERROR why
     | Inr m' \<Rightarrow> \<exists>E'. sim_inv E' m' \<and> id_room (2 * length xs + k) m'" by blast
  show ?case
  proof (cases r)
    case (Inl e)
    with t show ?thesis by simp
  next
    case (Inr m1)
    with t(2) obtain E1 where "sim_inv E1 m1" "id_room (2 * length xs + k) m1" by auto
    from Cons.IH [OF this] t(1) Inr show ?thesis by auto
  qed
qed

end
