(* ===== verification/Sim_Props.thy ===== *)
theory Sim_Props
  imports Sim_Inv
begin

text \<open>
  What a dashboard session promises over any sequence of ticks, frames and timers: it never hits
  an internal error, its books balance, commands are answered in order and refused ones change
  nothing, and without traffic it drains.
\<close>

text \<open>A generator that always draws the lower bound.\<close>

definition demo_rng :: "nat rng_ops" where
  "demo_rng = \<lparr>rg_seed = unat, rg_u64 = (\<lambda>g. (word_of_nat g, g + 1)),
     rg_range_u32 = (\<lambda>lo hi g. (lo, g + 1)), rg_range_usize = (\<lambda>lo hi g. (lo, g + 1))\<rparr>"

lemma demo_rng_ok: "rng_ok demo_rng"
  by (simp add: rng_ok_def demo_rng_def)

definition demo_sim :: SimConfig where
  "demo_sim = \<lparr>sm_num_blocks = 8, sm_block_size = 4, sm_max_batch_size = 3, sm_max_waiting = 4,
     sm_tick = 1000000, sm_prefix_caching = True, sm_system_prompts = [4]\<rparr>"

lemma demo_sim_ok: "config_ok demo_sim"
  by (simp add: config_ok_def demo_sim_def geometry_ok_def sim_cache_def)

text \<open>A request on a system prompt, a tick, a fork and a refused fork.\<close>

definition demo_inputs :: "WsInput list" where
  "demo_inputs = map (\<lambda>(i, c). if i = 0 then Ticker else TextFrame (Inr \<lparr>cm_id = i, cm_command = c\<rparr>))
     [(1, SetTraffic False), (2, AddRequest (Some 0) 3 4), (0, Pause), (3, Fork 1), (4, Fork 9)]"

lemma demo_session: "\<exists>msgs m. ws_run demo_rng demo_sim 7 demo_inputs = Some (msgs, Inr m) \<and>
    length (running (si_scheduler m)) = 2 \<and> \<not> si_traffic m \<and> \<not> si_paused m \<and> length msgs = 9 \<and>
    work (\<lambda>_. 1) (si_scheduler m) = 6"
proof -
  have *: "(case ws_run demo_rng demo_sim 7 demo_inputs of
      Some (msgs, Inr m) \<Rightarrow> length (running (si_scheduler m)) = 2 \<and> \<not> si_traffic m \<and> \<not> si_paused m \<and>
        length msgs = 9 \<and> work (\<lambda>_. 1) (si_scheduler m) = 6
    | _ \<Rightarrow> False)"
    by code_simp
  then obtain r where r: "ws_run demo_rng demo_sim 7 demo_inputs = Some r"
    by (cases "ws_run demo_rng demo_sim 7 demo_inputs") simp_all
  obtain msgs x where x: "r = (msgs, x)" by (cases r)
  from * r x obtain m where "x = Inr m" by (cases x) simp_all
  with * r x show ?thesis by simp
qed

lemma ws_run_ok:
  assumes "config_ok config" "rng_ok R" "2 * length inputs + k + 1 < 2 ^ 32"
  shows "\<exists>msgs r. ws_run R config seed inputs = Some (msgs, r) \<and>
    (case r of Inl e \<Rightarrow> \<forall>why. e \<noteq> Closed CLOSE_INTERNAL_ERROR why
     | Inr m \<Rightarrow> \<exists>E. sim_inv E m \<and> id_room k m)"
proof -
  from sim_new_ok [OF assms(1), of R seed] obtain m where
    m: "sim_new R config seed = Some m" "sim_inv (\<lambda>_. []) m" "si_next_id m = 1" by blast
  from init_message_ok [OF m(2)] obtain first where f: "init_message m = Some first" by blast
  have "id_room (2 * length inputs + k) m" using m(3) assms(3) by (simp add: id_room_def)
  from ws_loop_ok [OF m(2) this assms(2)] obtain msgs r where
    "ws_loop R inputs m = Some (msgs, r)"
    "case r of Inl e \<Rightarrow> \<forall>why. e \<noteq> Closed CLOSE_INTERNAL_ERROR why
     | Inr m \<Rightarrow> \<exists>E. sim_inv E m \<and> id_room k m" by blast
  moreover have "0 < sm_tick (si_config m)" using sim_invD(1) [OF m(2)] by (simp add: fits_config_def config_ok_def)
  ultimately show ?thesis using m(1) f by (simp add: ws_run_def)
qed

lemma ws_run_inv:
  assumes "config_ok config" "rng_ok R" "2 * length inputs + k + 1 < 2 ^ 32"
    and "ws_run R config seed inputs = Some (msgs, Inr m)"
  obtains E where "sim_inv E m" "id_room k m"
  using ws_run_ok [OF assms(1-3), of seed] assms(4) that by auto

text \<open>
  C14: Whatever a client sends and whenever the ticker (of a positive period) fires, a session neither panics nor is
  closed with the internal-error code, and the scheduler behind it passes its consistency check,
  for fewer than \<open>2 ^ 31\<close> inputs (an input issues at most two of the 32-bit ids).
\<close>

theorem session_never_breaks:
  assumes "config_ok config" "rng_ok R" "2 * length inputs + 1 < 2 ^ 32"
  shows "\<exists>msgs r. ws_run R config seed inputs = Some (msgs, r) \<and>
    (case r of Inl e \<Rightarrow> \<forall>why. e \<noteq> Closed CLOSE_INTERNAL_ERROR why
     | Inr m \<Rightarrow> sched_check (si_scheduler m) = Inr ())"
proof -
  from ws_run_ok [OF assms(1,2), of inputs 0 seed] assms(3) obtain msgs r where
    r: "ws_run R config seed inputs = Some (msgs, r)"
    "case r of Inl e \<Rightarrow> \<forall>why. e \<noteq> Closed CLOSE_INTERNAL_ERROR why
     | Inr m \<Rightarrow> \<exists>E. sim_inv E m \<and> id_room 0 m" by auto
  show ?thesis
  proof (cases r)
    case (Inl e)
    with r show ?thesis by simp
  next
    case (Inr m)
    with r(2) obtain E where "sim_inv E m" by auto
    from sched_check_ok [OF sim_invD(2) [OF this]] r(1) Inr show ?thesis by simp
  qed
qed

theorem session_never_breaks_witness:
  "\<exists>msgs m. ws_run demo_rng demo_sim 7 demo_inputs = Some (msgs, Inr m) \<and>
    sched_check (si_scheduler m) = Inr ()"
proof -
  have "2 * length demo_inputs + 1 < 2 ^ 32" by (simp add: demo_inputs_def)
  from session_never_breaks [OF demo_sim_ok demo_rng_ok this, of 7] demo_session show ?thesis by auto
qed

text \<open>
  C37: The books of a session balance: the metadata table holds exactly the sequences that are
  running or waiting, everything submitted or forked since the last restart is either one of them or
  finished, no two of them have the same id, the id to be issued next is not one of theirs, and the
  history and the event log stay within their limits.
\<close>

theorem session_books_balance:
  assumes "config_ok config" "rng_ok R" "2 * length inputs + 1 < 2 ^ 32"
    and "ws_run R config seed inputs = Some (msgs, Inr m)"
  shows "(\<forall>w. si_meta m w \<noteq> None \<longleftrightarrow> seq_of w \<in> set (seq_ids (si_scheduler m))) \<and>
    tt_submitted (si_totals m) + tt_forks (si_totals m) =
      tt_finished (si_totals m) + word_of_nat (length (seq_ids (si_scheduler m))) \<and>
    distinct (seq_ids (si_scheduler m)) \<and> seq_of (si_next_id m) \<notin> set (seq_ids (si_scheduler m)) \<and>
    length (si_history m) \<le> 150 \<and> length (si_events m) \<le> 200"
proof -
  from ws_run_inv [OF assms(1,2) _ assms(4), of 0] assms(3) obtain E where inv: "sim_inv E m" by auto
  note I = sim_invD [OF inv]
  from I(8-10) fresh_id [OF I(6)] core_invD(10) [OF I(3)] show ?thesis
    by (simp add: books_def HISTORY_LEN_def EVENT_LOG_LEN_def)
qed

theorem session_books_balance_witness:
  "\<exists>msgs m. ws_run demo_rng demo_sim 7 demo_inputs = Some (msgs, Inr m) \<and>
    tt_submitted (si_totals m) + tt_forks (si_totals m) = tt_finished (si_totals m) +
      word_of_nat (length (seq_ids (si_scheduler m)))"
proof -
  have "2 * length demo_inputs + 1 < 2 ^ 32" by (simp add: demo_inputs_def)
  from session_books_balance [OF demo_sim_ok demo_rng_ok this] demo_session show ?thesis by metis
qed

text \<open>
  C38: A command is answered by its acknowledgement first, with the client's message id. A refused
  one gets nothing else and leaves the session exactly as it was; an accepted one gets exactly one
  more message.
\<close>

theorem commands_acknowledged:
  assumes "config_ok config" "rng_ok R" "2 * length inputs + 3 < 2 ^ 32"
    and "ws_run R config seed inputs = Some (msgs, Inr m)"
  shows "\<exists>replies m'. handle R msg m = Some (replies, m') \<and>
    ((\<exists>why. replies = [Ack (cm_id msg) (Rejected why)] \<and> m' = m) \<or>
     (\<exists>q reply. replies = [Ack (cm_id msg) (Done q), reply]))"
proof -
  from ws_run_inv [OF assms(1,2) _ assms(4), of 2] assms(3) obtain E where
    inv: "sim_inv E m" and two: "id_room 2 m" by auto
  from two have room: "id_room (Suc (Suc 0)) m" by (simp add: numeral_2_eq_2)
  from handle_ok [OF inv room assms(2), of msg] show ?thesis unfolding answered_def by blast
qed

theorem commands_acknowledged_witness:
  "\<exists>msgs m replies m'. ws_run demo_rng demo_sim 7 demo_inputs = Some (msgs, Inr m) \<and>
    handle demo_rng \<lparr>cm_id = 9, cm_command = Step\<rparr> m = Some (replies, m') \<and>
    ((\<exists>why. replies = [Ack 9 (Rejected why)] \<and> m' = m) \<or> (\<exists>q reply. replies = [Ack 9 (Done q), reply]))"
proof -
  have "2 * length demo_inputs + 3 < 2 ^ 32" by (simp add: demo_inputs_def)
  note C = commands_acknowledged [OF demo_sim_ok demo_rng_ok this, of 7 _ _ "\<lparr>cm_id = 9, cm_command = Step\<rparr>"]
  from demo_session obtain msgs m where "ws_run demo_rng demo_sim 7 demo_inputs = Some (msgs, Inr m)" by blast
  with C [OF this] show ?thesis by fastforce
qed

section \<open>Draining\<close>

lemma step_idle:
  assumes inv: "sched_inv E s" and idle: "is_idle s" and st: "step s = Ok out s'"
  shows "is_idle s'"
proof -
  from step_ok [OF inv] st obtain k qs keep keep' vs where
    S: "stepped s k qs keep keep' vs out s'" by auto
  have "seq_ids s = []" using idle by (simp add: is_idle_def seq_ids_def)
  with stepped_order(1) [OF S] have "seq_ids s' = []" by simp
  then show ?thesis by (simp add: is_idle_def seq_ids_def)
qed

lemma advance_quiet:
  assumes inv: "sim_inv E m" and room: "id_room (Suc (Suc n)) m" and R: "rng_ok R"
    and q: "\<not> si_traffic m" "\<not> si_paused m"
  shows "\<exists>msg m' E'. advance R m = Ok msg m' \<and> sim_inv E' m' \<and> id_room (Suc (Suc n)) m' \<and>
    \<not> si_traffic m' \<and> \<not> si_paused m' \<and>
    (if is_idle (si_scheduler m) then is_idle (si_scheduler m')
     else work (\<lambda>_. 1) (si_scheduler m') < work (\<lambda>_. 1) (si_scheduler m))"
proof -
  let ?m0 = "m\<lparr>si_tick := (if si_tick m = - 1 then - 1 else si_tick m + 1)\<rparr>"
  have i0: "sim_inv E ?m0" using inv by simp
  from advance_ok [OF inv room R] obtain sn ev m' E' where
    a: "advance R m = Ok (Tick sn ev) m'" "sim_inv E' m'" by blast
  from step_session [OF i0, of "[]"] obtain out sch meta t ev2 where
    st: "step (si_scheduler m) = Ok out sch"
      "record_step out (?m0\<lparr>si_scheduler := sch\<rparr>, []) =
        Some (?m0\<lparr>si_scheduler := sch, si_meta := meta, si_totals := t\<rparr>, ev2)" by auto
  let ?m2 = "?m0\<lparr>si_scheduler := sch, si_meta := meta, si_totals := t\<rparr>"
  from a(1) have tick: "bind_res (map_state (\<lambda>sch. ?m0\<lparr>si_scheduler := sch\<rparr>) (step (si_scheduler m)))
      (\<lambda>out m. unwrap_res (record_step out (m, [])) (\<lambda>(m, events).
        unwrap_res (metrics m) (\<lambda>mt.
          let m = log events (m\<lparr>si_history := push_capped HISTORY_LEN (si_history m) mt\<rparr>) in
          unwrap_res (snapshot m) (\<lambda>sn. Ok (Tick sn events) m)))) = Ok (Tick sn ev) m'"
    using q(1) unfolding advance_def Let_def by simp
  obtain mt where mt: "metrics ?m2 = Some mt"
    using tick st by (cases "metrics ?m2") simp_all
  let ?m3 = "log ev2 (?m2\<lparr>si_history := push_capped HISTORY_LEN (si_history ?m2) mt\<rparr>)"
  have "m' = ?m3"
    using tick unfolding Let_def by (cases "snapshot ?m3") (auto simp add: st mt)
  then have m': "si_scheduler m' = sch" "si_traffic m' = si_traffic m" "si_paused m' = si_paused m"
    "si_next_id m' = si_next_id m" by (simp_all add: log_def)
  have lv: "live (si_scheduler m)"
    using sim_invD(1,4) [OF inv] by (simp add: live_def all_live_def fits_config_def config_ok_def)
  have "if is_idle (si_scheduler m) then is_idle sch
     else work (\<lambda>_. 1) sch < work (\<lambda>_. 1) (si_scheduler m)"
  proof (cases "is_idle (si_scheduler m)")
    case True
    with step_idle [OF sim_invD(2) [OF inv] _ st(1)] show ?thesis by simp
  next
    case False
    from step_progress [OF sim_invD(2) [OF inv] lv False] st(1) have
      "decoded out \<noteq> []" "work (\<lambda>_. 1) (si_scheduler m) = work (\<lambda>_. 1) sch + gained (\<lambda>_. 1) out" by auto
    with gained_pos [of out] False show ?thesis by simp
  qed
  with a q m' room show ?thesis by (auto simp: id_room_def)
qed

lemma ticks_drain:
  assumes "sim_inv E m" "id_room (Suc (Suc k)) m" "rng_ok R" "\<not> si_traffic m" "\<not> si_paused m"
    and "work (\<lambda>_. 1) (si_scheduler m) \<le> n"
  shows "\<exists>msgs m'. ws_loop R (replicate n Ticker) m = Some (msgs, Inr m') \<and> is_idle (si_scheduler m')"
  using assms(1,2,4-6)
proof (induction n arbitrary: E m)
  case 0
  have lv: "live (si_scheduler m)"
    using sim_invD(1,4) [OF 0(1)] by (simp add: live_def all_live_def fits_config_def config_ok_def)
  have "is_idle (si_scheduler m)"
  proof (rule ccontr)
    assume "\<not> is_idle (si_scheduler m)"
    from step_progress [OF sim_invD(2) [OF 0(1)] lv this] obtain out s' where
      "decoded out \<noteq> []" "work (\<lambda>_. 1) (si_scheduler m) = work (\<lambda>_. 1) s' + gained (\<lambda>_. 1) out" by blast
    with gained_pos [of out] 0(5) show False by simp
  qed
  then show ?case by simp
next
  case (Suc n)
  from advance_quiet [OF Suc.prems(1,2) assms(3) Suc.prems(3,4)] obtain msg m1 E1 where
    a: "advance R m = Ok msg m1" "sim_inv E1 m1" "id_room (Suc (Suc k)) m1" "\<not> si_traffic m1" "\<not> si_paused m1"
    and w: "if is_idle (si_scheduler m) then is_idle (si_scheduler m1)
     else work (\<lambda>_. 1) (si_scheduler m1) < work (\<lambda>_. 1) (si_scheduler m)" by blast
  have "work (\<lambda>_. 1) (si_scheduler m1) \<le> n"
  proof (cases "is_idle (si_scheduler m)")
    case True
    with w show ?thesis by (simp add: is_idle_def work_def)
  next
    case False
    with w Suc.prems(5) show ?thesis by simp
  qed
  from Suc.IH [OF a(2,3,4,5) this] obtain msgs m' where
    "ws_loop R (replicate n Ticker) m1 = Some (msgs, Inr m')" "is_idle (si_scheduler m')" by blast
  with a(1) Suc.prems(4) show ?case by (simp add: ws_turn_def)
qed

text \<open>
  C39: A session whose traffic is switched off and that is not paused drains: after as many ticks
  as tokens are due, nothing runs and nothing waits.
\<close>

theorem session_drains:
  assumes "config_ok config" "rng_ok R" "2 * length inputs + 3 < 2 ^ 32"
    and "ws_run R config seed inputs = Some (msgs, Inr m)" "\<not> si_traffic m" "\<not> si_paused m"
  shows "\<exists>more m'. ws_loop R (replicate (work (\<lambda>_. 1) (si_scheduler m)) Ticker) m = Some (more, Inr m') \<and>
    is_idle (si_scheduler m')"
proof -
  from ws_run_inv [OF assms(1,2) _ assms(4), of 2] assms(3) obtain E where
    inv: "sim_inv E m" and two: "id_room 2 m" by auto
  from two have room: "id_room (Suc (Suc 0)) m" by (simp add: numeral_2_eq_2)
  from ticks_drain [OF inv room assms(2,5,6) order_refl] show ?thesis .
qed

theorem session_drains_witness:
  "\<exists>msgs m more m'. ws_run demo_rng demo_sim 7 demo_inputs = Some (msgs, Inr m) \<and>
    ws_loop demo_rng (replicate 6 Ticker) m = Some (more, Inr m') \<and> is_idle (si_scheduler m')"
proof -
  have n: "2 * length demo_inputs + 3 < 2 ^ 32" by (simp add: demo_inputs_def)
  from demo_session obtain msgs m where
    m: "ws_run demo_rng demo_sim 7 demo_inputs = Some (msgs, Inr m)" "\<not> si_traffic m" "\<not> si_paused m"
      "work (\<lambda>_. 1) (si_scheduler m) = 6" by blast
  from session_drains [OF demo_sim_ok demo_rng_ok n m(1-3)] m(1,4) show ?thesis by auto
qed

end
