(* ===== verification/Model.thy ===== *)
theory Model
  imports Attention Scheduler
begin

text \<open>
  The paged transformer, \<open>model.rs\<close>: one batched forward pass that writes the new tokens' K/V
  through the slots of their block tables and reads the contexts back through paged attention.
  The tensor library is not part of the repository: its layers are the fields of the model, each
  a function on one row, and its own error texts are a field too. The storage is any backend: the
  three operations the pass calls are a record of functions.
\<close>

section \<open>The storage a pass works on\<close>

record ('b, 'f) backend =
  bk_config :: "'b \<Rightarrow> CacheConfig"
  bk_write_batch :: "nat \<Rightarrow> PhysicalSlot list \<Rightarrow> 'f list \<Rightarrow> 'f list \<Rightarrow> 'b \<Rightarrow> ('b, unit) cache_res"
  bk_copy_blocks :: "(BlockId \<times> BlockId) list \<Rightarrow> 'b \<Rightarrow> ('b, unit) cache_res"
  bk_attention :: "nat \<Rightarrow> AttentionSeq list \<Rightarrow> 'f list \<Rightarrow> 'f list \<Rightarrow> 'b \<Rightarrow> (unit, 'f list) cache_res"

definition cpu_store :: "'f arith \<Rightarrow> ('f CpuBackend, 'f) backend" where
  "cpu_store fp = \<lparr>bk_config = cpu_config,
     bk_write_batch = (\<lambda>layer dsts k v b. write_kv_batch (cpu_config b) cpu_write_kv layer dsts k v b),
     bk_copy_blocks = copy_blocks cpu_copy_block,
     bk_attention = cpu_paged_attention fp\<rparr>"

section \<open>The model\<close>

type_synonym 'f row = "'f list"

record 'f Layer =
  ly_q_proj :: "'f row \<Rightarrow> 'f row"
  ly_k_proj :: "'f row \<Rightarrow> 'f row"
  ly_v_proj :: "'f row \<Rightarrow> 'f row"
  ly_o_proj :: "'f row \<Rightarrow> 'f row"
  ly_gate_proj :: "'f row \<Rightarrow> 'f row"
  ly_up_proj :: "'f row \<Rightarrow> 'f row"
  ly_down_proj :: "'f row \<Rightarrow> 'f row"
  ly_act :: "'f row \<Rightarrow> 'f row"
  ly_input_norm :: "'f row \<Rightarrow> 'f row"
  ly_post_norm :: "'f row \<Rightarrow> 'f row"

text \<open>
  \<open>md_vocab\<close> and \<open>md_positions\<close> are the heights of the embedding and of the rotary tables, beyond
  which the library's row lookup fails; \<open>md_rope\<close> rotates every head of a row by a position.
\<close>

record 'f PagedQwen2 =
  md_embed :: "u32 \<Rightarrow> 'f row"
  md_layers :: "'f Layer list"
  md_norm :: "'f row \<Rightarrow> 'f row"
  md_lm_head :: "'f row \<Rightarrow> 'f row"
  md_rope :: "nat \<Rightarrow> 'f row \<Rightarrow> 'f row"
  md_add :: "'f row \<Rightarrow> 'f row \<Rightarrow> 'f row"
  md_mul :: "'f row \<Rightarrow> 'f row \<Rightarrow> 'f row"
  md_argmax :: "'f row \<Rightarrow> u32"
  md_vocab :: nat
  md_positions :: nat
  md_num_heads :: nat
  md_num_kv_heads :: nat
  md_head_dim :: nat
  md_zero :: 'f
  md_lookup_error :: "nat \<Rightarrow> string"
  md_shape_error :: string

definition cache_config :: "'f PagedQwen2 \<Rightarrow> nat \<Rightarrow> nat \<Rightarrow> CacheConfig" where
  "cache_config md n bs = \<lparr>num_blocks = n, block_size = bs, num_kv_heads = md_num_kv_heads md,
     head_dim = md_head_dim md, num_layers = length (md_layers md), dtype_bytes = 4\<rparr>"

record SeqInput =
  in_tokens :: "u32 list"
  in_start :: nat
  in_table :: "BlockId list"

section \<open>Laying out a batch\<close>

type_synonym ('s, 'a) model_res = "(string, 's, 'a) res"

definition cache_err :: "CacheError \<Rightarrow> string" where
  "cache_err e = ''paged cache: '' @ show_error e"

fun map_err :: "('e \<Rightarrow> 'd) \<Rightarrow> ('e, 's, 'a) res \<Rightarrow> ('d, 's, 'a) res" where
  "map_err f (Ok x s) = Ok x s"
| "map_err f (Err e s) = Err (f e) s"
| "map_err f Panic = Panic"

text \<open>A row of the batch: the token, its position cast to \<open>u32\<close>, and the slot its K/V goes to.\<close>

record BatchRow =
  br_token :: u32
  br_pos :: nat
  br_slot :: PhysicalSlot

fun seq_rows :: "nat \<Rightarrow> BlockId list \<Rightarrow> nat \<Rightarrow> u32 list \<Rightarrow> (unit, BatchRow list) model_res" where
  "seq_rows bs table pos [] = Ok [] ()"
| "seq_rows bs table pos (t # ts) =
     (if bs = 0 then Panic
      else
        (case nth_at table (pos div bs) of
           None \<Rightarrow> Err (''block table has no block for position '' @ show_nat pos) ()
         | Some block \<Rightarrow>
             bind_res (seq_rows bs table (pos + 1) ts) (\<lambda>rows _.
               Ok (\<lparr>br_token = t, br_pos = pos mod 2 ^ 32, br_slot = new_slot block (pos mod bs)\<rparr> # rows) ())))"

text \<open>The rows of all sequences with, for each sequence, the number of its last row.\<close>

fun batch_rows :: "nat \<Rightarrow> nat \<Rightarrow> SeqInput list \<Rightarrow> (unit, BatchRow list \<times> nat list) model_res" where
  "batch_rows bs n [] = Ok ([], []) ()"
| "batch_rows bs n (s # seqs) =
     (if in_tokens s = [] then Err ''every sequence in a batch needs at least one new token'' ()
      else
        bind_res (seq_rows bs (in_table s) (in_start s) (in_tokens s)) (\<lambda>rows _.
          bind_res (batch_rows bs (n + length rows) seqs) (\<lambda>(rest, lasts) _.
            Ok (rows @ rest, (n + length rows - 1) # lasts) ())))"

definition attention_seqs :: "SeqInput list \<Rightarrow> AttentionSeq list" where
  "attention_seqs seqs = map (\<lambda>s. \<lparr>as_block_table = in_table s,
     as_context_len = in_start s + length (in_tokens s), as_num_queries = length (in_tokens s)\<rparr>) seqs"

section \<open>The forward pass\<close>

text \<open>The first index a table of the given height does not have, if any.\<close>

definition lookup_rows :: "'f PagedQwen2 \<Rightarrow> nat \<Rightarrow> nat list \<Rightarrow> (unit, unit) model_res" where
  "lookup_rows md height ixs =
     (case find (\<lambda>i. height \<le> i) ixs of
        None \<Rightarrow> Ok () ()
      | Some i \<Rightarrow> Err (md_lookup_error md i) ())"

fun into_rows :: "nat \<Rightarrow> nat \<Rightarrow> 'a list \<Rightarrow> 'a list list" where
  "into_rows w 0 xs = []"
| "into_rows w (Suc n) xs = take w xs # into_rows w n (drop w xs)"

text \<open>\<open>Tensor::from_vec\<close> into \<open>n\<close> rows of width \<open>w\<close>.\<close>

definition from_vec :: "'f PagedQwen2 \<Rightarrow> 'a list \<Rightarrow> nat \<Rightarrow> nat \<Rightarrow> (unit, 'a list list) model_res" where
  "from_vec md xs n w = (if length xs = n * w then Ok (into_rows w n xs) () else Err (md_shape_error md) ())"

definition mlp :: "'f PagedQwen2 \<Rightarrow> 'f Layer \<Rightarrow> 'f row \<Rightarrow> 'f row" where
  "mlp md layer x =
     (let h = ly_post_norm layer x; gate = ly_act layer (ly_gate_proj layer h) in
      md_add md x (ly_down_proj layer (md_mul md gate (ly_up_proj layer h))))"

definition layer_q :: "'f PagedQwen2 \<Rightarrow> 'f Layer \<Rightarrow> nat \<Rightarrow> 'f row \<Rightarrow> 'f row" where
  "layer_q md layer pos x = md_rope md pos (ly_q_proj layer (ly_input_norm layer x))"

definition layer_k :: "'f PagedQwen2 \<Rightarrow> 'f Layer \<Rightarrow> nat \<Rightarrow> 'f row \<Rightarrow> 'f row" where
  "layer_k md layer pos x = md_rope md pos (ly_k_proj layer (ly_input_norm layer x))"

definition layer_v :: "'f Layer \<Rightarrow> 'f row \<Rightarrow> 'f row" where
  "layer_v layer x = ly_v_proj layer (ly_input_norm layer x)"

definition layer_out :: "'f PagedQwen2 \<Rightarrow> 'f Layer \<Rightarrow> 'f row \<Rightarrow> 'f row \<Rightarrow> 'f row" where
  "layer_out md layer attn x = mlp md layer (md_add md (ly_o_proj layer attn) x)"

definition run_layer :: "('b, 'f) backend \<Rightarrow> 'f PagedQwen2 \<Rightarrow> BatchRow list \<Rightarrow> AttentionSeq list \<Rightarrow>
    nat \<Rightarrow> 'f Layer \<Rightarrow> 'f row list \<Rightarrow> 'b \<Rightarrow> ('b, 'f row list) model_res" where
  "run_layer B md rows attention l layer xs b =
     (let k = concat (map2 (\<lambda>r x. layer_k md layer (br_pos r) x) rows xs);
          v = concat (map (layer_v layer) xs);
          q = concat (map2 (\<lambda>r x. layer_q md layer (br_pos r) x) rows xs) in
      bind_res (map_err cache_err (bk_write_batch B l (map br_slot rows) k v b)) (\<lambda>_ b.
      read_res (map_err cache_err (bk_attention B l attention q (replicate (length q) (md_zero md)) b)) b
        (\<lambda>attn.
      read_res (from_vec md attn (length rows) (md_num_heads md * md_head_dim md)) b (\<lambda>attn.
      Ok (map2 (layer_out md layer) attn xs) b))))"

fun run_layers :: "('b, 'f) backend \<Rightarrow> 'f PagedQwen2 \<Rightarrow> BatchRow list \<Rightarrow> AttentionSeq list \<Rightarrow>
    (nat \<times> 'f Layer) list \<Rightarrow> 'f row list \<Rightarrow> 'b \<Rightarrow> ('b, 'f row list) model_res" where
  "run_layers B md rows attention [] xs b = Ok xs b"
| "run_layers B md rows attention ((l, layer) # layers) xs b =
     bind_res (run_layer B md rows attention l layer xs b) (\<lambda>xs b.
       run_layers B md rows attention layers xs b)"

definition forward :: "('b, 'f) backend \<Rightarrow> 'f PagedQwen2 \<Rightarrow> SeqInput list \<Rightarrow> 'b \<Rightarrow>
    ('b, 'f row list) model_res" where
  "forward B md seqs b =
     read_res (batch_rows (block_size (bk_config B b)) 0 seqs) b (\<lambda>(rows, lasts).
     read_res (lookup_rows md (md_positions md) (map br_pos rows)) b (\<lambda>_.
     read_res (lookup_rows md (md_vocab md) (map (unat \<circ> br_token) rows)) b (\<lambda>_.
     bind_res (run_layers B md rows (attention_seqs seqs) (enumerate 0 (md_layers md))
         (map (md_embed md \<circ> br_token) rows) b) (\<lambda>xs b.
     unwrap_res (those (map (nth_at xs) lasts)) (\<lambda>lasts.
     Ok (map (md_lm_head md \<circ> md_norm md) lasts) b)))))"

end
