(* ===== verification/Engine.thy ===== *)
theory Engine
  imports Model Sched_Props
begin

text \<open>
  Greedy generation, \<open>engine.rs\<close>: the scheduler decides who runs and where the K/V goes, the
  model fills it in, and the engine samples a token per running sequence and decides who is done.
\<close>

section \<open>State\<close>

record Request =
  rq_tokens :: "u32 list"
  rq_prompt_len :: nat
  rq_max_new :: nat

record Finished =
  fi_id :: SeqId
  fi_tokens :: "u32 list"

record StepOutput =
  sampled :: "(SeqId \<times> u32) list"
  so_finished :: "Finished list"

definition no_output :: StepOutput where
  "no_output = \<lparr>sampled = [], so_finished = []\<rparr>"

record EngineStats =
  es_steps :: nat
  es_computed :: nat
  es_cached :: nat
  es_preemptions :: nat
  es_generated :: nat

definition no_stats :: EngineStats where
  "no_stats = \<lparr>es_steps = 0, es_computed = 0, es_cached = 0, es_preemptions = 0, es_generated = 0\<rparr>"

text \<open>The requests are a hash map: an association list whose order is immaterial.\<close>

record ('b, 'f) Engine =
  en_model :: "'f PagedQwen2"
  en_cache :: 'b
  en_scheduler :: Scheduler
  en_requests :: "(SeqId \<times> Request) list"
  en_stop_tokens :: "u32 list"
  en_stats :: EngineStats

type_synonym ('b, 'f, 'a) engine_res = "(string, ('b, 'f) Engine, 'a) res"

definition engine_new :: "('b, 'f) backend \<Rightarrow> 'f PagedQwen2 \<Rightarrow> 'b \<Rightarrow> nat \<Rightarrow> bool \<Rightarrow> ('b, 'f) Engine" where
  "engine_new B md cache max_batch caching =
     \<lparr>en_model = md, en_cache = cache,
      en_scheduler = (if caching then sched_with_prefix_caching (bk_config B cache) max_batch
        else sched_new (bk_config B cache) max_batch),
      en_requests = [], en_stop_tokens = [], en_stats = no_stats\<rparr>"

definition stop_at :: "u32 list \<Rightarrow> ('b, 'f) Engine \<Rightarrow> ('b, 'f) Engine" where
  "stop_at tokens e = e\<lparr>en_stop_tokens := tokens\<rparr>"

section \<open>Requests\<close>

text \<open>The engine names its errors after the scheduler, also those of the block copies.\<close>

definition engine_cache_err :: "CacheError \<Rightarrow> string" where
  "engine_cache_err e = ''scheduler: '' @ show_error e"

text \<open>A scheduler operation, seen as one on the engine.\<close>

definition on_scheduler :: "(Scheduler \<Rightarrow> (Scheduler, 'a) cache_res) \<Rightarrow> ('b, 'f) Engine \<Rightarrow>
    ('b, 'f, 'a) engine_res" where
  "on_scheduler f e = map_err engine_cache_err (map_state (\<lambda>s. e\<lparr>en_scheduler := s\<rparr>) (f (en_scheduler e)))"

definition engine_add_request :: "SeqId \<Rightarrow> u32 list \<Rightarrow> nat \<Rightarrow> ('b, 'f) Engine \<Rightarrow>
    ('b, 'f, unit) engine_res" where
  "engine_add_request i prompt max_new e =
     (if prompt = [] \<or> max_new = 0
      then Err ''a request needs a prompt and at least one token to generate'' e
      else
        bind_res (on_scheduler (add_prompt i prompt (usize_add max_new 1)) e) (\<lambda>_ e.
          Ok () (e\<lparr>en_requests := AList.update i \<lparr>rq_tokens = prompt, rq_prompt_len = length prompt,
            rq_max_new = max_new\<rparr> (en_requests e)\<rparr>)))"

definition engine_is_idle :: "('b, 'f) Engine \<Rightarrow> bool" where
  "engine_is_idle e \<longleftrightarrow> en_requests e = []"

text \<open>Whether the request existed; \<open>None\<close> is a panic of the scheduler.\<close>

definition engine_cancel :: "SeqId \<Rightarrow> ('b, 'f) Engine \<Rightarrow> (bool \<times> ('b, 'f) Engine) option" where
  "engine_cancel i e =
     (if map_of (en_requests e) i = None then Some (False, e)
      else
        (let e = e\<lparr>en_requests := AList.delete i (en_requests e)\<rparr> in
         case finish_sequence i (en_scheduler e) of
           Ok _ s \<Rightarrow> Some (True, e\<lparr>en_scheduler := s\<rparr>)
         | Err _ s \<Rightarrow> Some (False, e\<lparr>en_scheduler := s\<rparr>)
         | Panic \<Rightarrow> None))"

section \<open>One step\<close>

definition add_stats :: "(EngineStats \<Rightarrow> EngineStats) \<Rightarrow> ('b, 'f) Engine \<Rightarrow> ('b, 'f) Engine" where
  "add_stats f e = e\<lparr>en_stats := f (en_stats e)\<rparr>"

text \<open>Where each running sequence's new tokens start.\<close>

fun seq_starts :: "(SeqId \<times> Prefill) list \<Rightarrow> RunningInfo list \<Rightarrow> ('b, 'f) Engine \<Rightarrow>
    ('b, 'f, nat list) engine_res" where
  "seq_starts pf [] e = Ok [] e"
| "seq_starts pf (r # rs) e =
     (case map_of (en_requests e) (ri_id r) of
        None \<Rightarrow> Err (''the scheduler is running #'' @ show_nat (seq_num (ri_id r)) @
          '' but the engine has no request'') e
      | Some request \<Rightarrow>
          if ri_tokens r \<noteq> length (rq_tokens request) + 1
          then Err (''#'' @ show_nat (seq_num (ri_id r)) @ '' has '' @ show_nat (ri_tokens r) @
            '' slots for '' @ show_nat (length (rq_tokens request)) @ '' known tokens'') e
          else
            (let (start, e) = (case map_of pf (ri_id r) of
               Some p \<Rightarrow> (pf_cached p, add_stats (\<lambda>t. t\<lparr>es_cached := es_cached t + pf_cached p,
                 es_computed := es_computed t + pf_computed p\<rparr>) e)
             | None \<Rightarrow> (usize_sub (length (rq_tokens request)) 1, e)) in
             bind_res (seq_starts pf rs e) (\<lambda>starts e. Ok (start # starts) e)))"

text \<open>The batch; slicing a request's tokens beyond their end panics.\<close>

fun batch_inputs :: "(SeqId \<times> Request) list \<Rightarrow> (RunningInfo \<times> nat) list \<Rightarrow> SeqInput list option" where
  "batch_inputs requests [] = Some []"
| "batch_inputs requests ((r, start) # rs) = do {
     request \<leftarrow> map_of requests (ri_id r);
     if length (rq_tokens request) < start then None
     else do {
       rest \<leftarrow> batch_inputs requests rs;
       Some (\<lparr>in_tokens = drop start (rq_tokens request), in_start = start, in_table = ri_blocks r\<rparr> # rest) } }"

text \<open>The tokens sampled are recorded, and who reached its limit or a stop token leaves.\<close>

fun record_tokens :: "(RunningInfo \<times> u32) list \<Rightarrow> StepOutput \<Rightarrow> ('b, 'f) Engine \<Rightarrow>
    ('b, 'f, StepOutput) engine_res" where
  "record_tokens [] out e = Ok out e"
| "record_tokens ((r, token) # rs) out e =
     (let i = ri_id r; out = out\<lparr>sampled := sampled out @ [(i, token)]\<rparr> in
      case map_of (en_requests e) i of
        None \<Rightarrow> Panic
      | Some request \<Rightarrow>
          (let tokens = rq_tokens request @ [token];
               e = add_stats (\<lambda>t. t\<lparr>es_generated := es_generated t + 1\<rparr>)
                 (e\<lparr>en_requests := AList.update i (request\<lparr>rq_tokens := tokens\<rparr>) (en_requests e)\<rparr>);
               generated = usize_sub (length tokens) (rq_prompt_len request) in
           if rq_max_new request \<le> generated \<or> token \<in> set (en_stop_tokens e)
           then
             bind_res (on_scheduler (finish_sequence i) e) (\<lambda>_ e.
               record_tokens rs
                 (out\<lparr>so_finished := so_finished out @
                    [\<lparr>fi_id = i, fi_tokens = drop (rq_prompt_len request) tokens\<rparr>]\<rparr>)
                 (e\<lparr>en_requests := AList.delete i (en_requests e)\<rparr>))
           else record_tokens rs out e))"

definition on_cache :: "('b \<Rightarrow> ('b, 'a) model_res) \<Rightarrow> ('b, 'f) Engine \<Rightarrow> ('b, 'f, 'a) engine_res" where
  "on_cache f e = map_state (\<lambda>b. e\<lparr>en_cache := b\<rparr>) (f (en_cache e))"

text \<open>What happens once the scheduler has decided the step.\<close>

definition run_outcome :: "('b, 'f) backend \<Rightarrow> StepOutcome \<Rightarrow> ('b, 'f) Engine \<Rightarrow>
    ('b, 'f, StepOutput) engine_res" where
  "run_outcome B out e =
     (let copies = cow_pairs (decoded out) in
      bind_res (if copies = [] then Ok () e
          else on_cache (\<lambda>b. map_err engine_cache_err (bk_copy_blocks B copies b)) e) (\<lambda>_ e.
        (let pf = map (\<lambda>p. (pf_id p, p)) (rev (prefills out));
             run = running_snapshot (en_scheduler e) in
         bind_res (seq_starts pf run e) (\<lambda>starts e.
           if run = [] then Ok no_output e
           else
             unwrap_res (batch_inputs (en_requests e) (zip run starts)) (\<lambda>batch.
             bind_res (on_cache (forward B (en_model e) batch) e) (\<lambda>logits e.
               record_tokens (zip run (map (md_argmax (en_model e)) logits)) no_output e))))))"

definition engine_step :: "('b, 'f) backend \<Rightarrow> ('b, 'f) Engine \<Rightarrow> ('b, 'f, StepOutput) engine_res" where
  "engine_step B e =
     bind_res (on_scheduler step e) (\<lambda>out e.
       run_outcome B out (add_stats (\<lambda>t. t\<lparr>es_steps := es_steps t + 1,
         es_preemptions := es_preemptions t + length (preempted out)\<rparr>) e))"

end
