(* ===== verification/Worker.thy ===== *)
theory Worker
  imports Engine
begin

text \<open>
  The engine thread of the server, \<open>worker.rs\<close>, with the counters of \<open>metrics.rs\<close> it updates. A
  client is a number; its channel is the subsequence of the events sent to it. Durations are not
  modelled: an observation of a latency histogram counts as one.
\<close>

section \<open>Metrics\<close>

text \<open>Requests by how they ended, the counters and the gauges; a histogram counts its observations.\<close>

record ServeMetrics =
  mm_requests :: "(string \<times> nat) list"
  mm_ttft :: nat
  mm_inter_token :: nat
  mm_request_duration :: nat
  mm_step_duration :: nat
  mm_batch_sizes :: "nat list"
  mm_prefill_computed :: nat
  mm_prefill_cached :: nat
  mm_generated :: nat
  mm_preemptions :: nat
  mm_running :: nat
  mm_waiting :: nat
  mm_cached_blocks :: nat

definition no_metrics :: ServeMetrics where
  "no_metrics = \<lparr>mm_requests = [], mm_ttft = 0, mm_inter_token = 0, mm_request_duration = 0,
     mm_step_duration = 0, mm_batch_sizes = [], mm_prefill_computed = 0, mm_prefill_cached = 0,
     mm_generated = 0, mm_preemptions = 0, mm_running = 0, mm_waiting = 0, mm_cached_blocks = 0\<rparr>"

definition requests_with :: "string \<Rightarrow> ServeMetrics \<Rightarrow> nat" where
  "requests_with status m = (case map_of (mm_requests m) status of None \<Rightarrow> 0 | Some n \<Rightarrow> n)"

definition request_done :: "string \<Rightarrow> ServeMetrics \<Rightarrow> ServeMetrics" where
  "request_done status m = m\<lparr>mm_requests := AList.update status (requests_with status m + 1) (mm_requests m)\<rparr>"

definition metrics_step :: "nat \<Rightarrow> ServeMetrics \<Rightarrow> ServeMetrics" where
  "metrics_step batch_size m = m\<lparr>mm_step_duration := mm_step_duration m + 1,
     mm_batch_sizes := mm_batch_sizes m @ [batch_size]\<rparr>"

definition metrics_engine :: "('b, 'f) Engine \<Rightarrow> EngineStats \<Rightarrow> ServeMetrics \<Rightarrow> ServeMetrics \<times> EngineStats" where
  "metrics_engine e seen m =
     (let current = en_stats e; s = en_scheduler e in
      (m\<lparr>mm_prefill_computed := mm_prefill_computed m + usize_sub (es_computed current) (es_computed seen),
         mm_prefill_cached := mm_prefill_cached m + usize_sub (es_cached current) (es_cached seen),
         mm_generated := mm_generated m + usize_sub (es_generated current) (es_generated seen),
         mm_preemptions := mm_preemptions m + usize_sub (es_preemptions current) (es_preemptions seen),
         mm_running := length (running s), mm_waiting := length (waiting s),
         mm_cached_blocks := cached_blocks (cache_stats (sc_alloc s))\<rparr>, current))"

section \<open>State\<close>

datatype FinishReason = Stop | Length

fun as_str :: "FinishReason \<Rightarrow> string" where
  "as_str Stop = ''stop''"
| "as_str Length = ''length''"

datatype WorkerEvent = Token u32 | Done FinishReason | Failed string

record Submit =
  sb_prompt :: "u32 list"
  sb_max_tokens :: nat
  sb_client :: nat

record Live =
  lv_client :: nat
  lv_has_token :: bool

record ('b, 'f) Worker =
  wk_engine :: "('b, 'f) Engine"
  wk_stop_tokens :: "u32 list"
  wk_metrics :: ServeMetrics
  wk_live :: "(SeqId \<times> Live) list"
  wk_next_id :: u64
  wk_seen :: EngineStats
  wk_sent :: "(nat \<times> WorkerEvent) list"

definition worker_new :: "('b, 'f) Engine \<Rightarrow> u32 list \<Rightarrow> ServeMetrics \<Rightarrow> ('b, 'f) Worker" where
  "worker_new e stop m = \<lparr>wk_engine = e, wk_stop_tokens = stop, wk_metrics = m, wk_live = [],
     wk_next_id = 0, wk_seen = no_stats, wk_sent = []\<rparr>"

definition send :: "nat \<Rightarrow> WorkerEvent \<Rightarrow> ('b, 'f) Worker \<Rightarrow> ('b, 'f) Worker" where
  "send client ev w = w\<lparr>wk_sent := wk_sent w @ [(client, ev)]\<rparr>"

definition on_metrics :: "(ServeMetrics \<Rightarrow> ServeMetrics) \<Rightarrow> ('b, 'f) Worker \<Rightarrow> ('b, 'f) Worker" where
  "on_metrics f w = w\<lparr>wk_metrics := f (wk_metrics w)\<rparr>"

section \<open>Arrivals and departures\<close>

definition worker_admit :: "Submit \<Rightarrow> ('b, 'f) Worker \<Rightarrow> ('b, 'f) Worker option" where
  "worker_admit submit w =
     (let i = SeqId (wk_next_id w); w = w\<lparr>wk_next_id := wk_next_id w + 1\<rparr> in
      case engine_add_request i (sb_prompt submit) (sb_max_tokens submit) (wk_engine w) of
        Ok _ e \<Rightarrow> Some (w\<lparr>wk_engine := e,
          wk_live := AList.update i \<lparr>lv_client = sb_client submit, lv_has_token = False\<rparr> (wk_live w)\<rparr>)
      | Err msg e \<Rightarrow> Some (on_metrics (request_done ''error'')
          (send (sb_client submit) (Failed msg) (w\<lparr>wk_engine := e\<rparr>)))
      | Panic \<Rightarrow> None)"

fun admit_all :: "Submit list \<Rightarrow> ('b, 'f) Worker \<Rightarrow> ('b, 'f) Worker option" where
  "admit_all [] w = Some w"
| "admit_all (s # ss) w = do { w \<leftarrow> worker_admit s w; admit_all ss w }"

definition cancel_engine :: "SeqId \<Rightarrow> ('b, 'f) Worker \<Rightarrow> ('b, 'f) Worker option" where
  "cancel_engine i w = do {
     (_, e) \<leftarrow> engine_cancel i (wk_engine w);
     Some (w\<lparr>wk_engine := e\<rparr>) }"

fun drop_ids :: "SeqId list \<Rightarrow> ('b, 'f) Worker \<Rightarrow> ('b, 'f) Worker option" where
  "drop_ids [] w = Some w"
| "drop_ids (i # ids) w = do {
     w \<leftarrow> cancel_engine i (w\<lparr>wk_live := AList.delete i (wk_live w)\<rparr>);
     drop_ids ids (on_metrics (request_done ''cancelled'') w) }"

definition drop_disconnected :: "(nat \<Rightarrow> bool) \<Rightarrow> ('b, 'f) Worker \<Rightarrow> ('b, 'f) Worker option" where
  "drop_disconnected closed w =
     drop_ids (map fst (filter (\<lambda>(i, l). closed (lv_client l)) (wk_live w))) w"

section \<open>A step\<close>

fun fail_all :: "string \<Rightarrow> (SeqId \<times> Live) list \<Rightarrow> ('b, 'f) Worker \<Rightarrow> ('b, 'f) Worker option" where
  "fail_all msg [] w = Some w"
| "fail_all msg ((i, l) # ls) w = do {
     w \<leftarrow> cancel_engine i (send (lv_client l) (Failed msg) w);
     fail_all msg ls (on_metrics (request_done ''error'') w) }"

definition send_token :: "SeqId \<times> u32 \<Rightarrow> ('b, 'f) Worker \<Rightarrow> ('b, 'f) Worker" where
  "send_token it w =
     (case it of (i, token) \<Rightarrow>
       case map_of (wk_live w) i of
         None \<Rightarrow> w
       | Some l \<Rightarrow>
           (let w = on_metrics (\<lambda>m. if lv_has_token l then m\<lparr>mm_inter_token := mm_inter_token m + 1\<rparr>
                  else m\<lparr>mm_ttft := mm_ttft m + 1\<rparr>) w;
                w = w\<lparr>wk_live := AList.update i (l\<lparr>lv_has_token := True\<rparr>) (wk_live w)\<rparr> in
            if token \<in> set (wk_stop_tokens w) then w else send (lv_client l) (Token token) w))"

definition finish_reason :: "u32 list \<Rightarrow> u32 list \<Rightarrow> FinishReason" where
  "finish_reason stop tokens = (if tokens \<noteq> [] \<and> last tokens \<in> set stop then Stop else Length)"

definition send_finished :: "Finished \<Rightarrow> ('b, 'f) Worker \<Rightarrow> ('b, 'f) Worker" where
  "send_finished f w =
     (case map_of (wk_live w) (fi_id f) of
        None \<Rightarrow> w
      | Some l \<Rightarrow>
          on_metrics (\<lambda>m. request_done ''finished''
              (m\<lparr>mm_request_duration := mm_request_duration m + 1\<rparr>))
            (send (lv_client l) (Done (finish_reason (wk_stop_tokens w) (fi_tokens f)))
              (w\<lparr>wk_live := AList.delete (fi_id f) (wk_live w)\<rparr>)))"

definition worker_step :: "('b, 'f) backend \<Rightarrow> ('b, 'f) Worker \<Rightarrow> ('b, 'f) Worker option" where
  "worker_step B w =
     (case engine_step B (wk_engine w) of
        Panic \<Rightarrow> None
      | Err msg e \<Rightarrow> fail_all msg (wk_live w) (w\<lparr>wk_engine := e, wk_live := []\<rparr>)
      | Ok out e \<Rightarrow>
          Some (fold send_finished (so_finished out) (fold send_token (sampled out)
            (on_metrics (metrics_step (length (sampled out))) (w\<lparr>wk_engine := e\<rparr>)))))"

section \<open>The loop\<close>

text \<open>
  One turn: the requests that have arrived (at least one when nothing is live, since the thread
  sleeps until then) and the clients that are gone.
\<close>

definition worker_turn :: "('b, 'f) backend \<Rightarrow> Submit list \<Rightarrow> (nat \<Rightarrow> bool) \<Rightarrow> ('b, 'f) Worker \<Rightarrow>
    ('b, 'f) Worker option" where
  "worker_turn B arrivals closed w = do {
     w \<leftarrow> admit_all arrivals w;
     w \<leftarrow> drop_disconnected closed w;
     w \<leftarrow> (if wk_live w = [] then Some w else worker_step B w);
     let (m, seen) = metrics_engine (wk_engine w) (wk_seen w) (wk_metrics w);
     Some (w\<lparr>wk_metrics := m, wk_seen := seen\<rparr>) }"

text \<open>A turn with nothing live and nothing arriving is the channel being closed: the thread ends.\<close>

fun worker_run :: "('b, 'f) backend \<Rightarrow> (Submit list \<times> (nat \<Rightarrow> bool)) list \<Rightarrow> ('b, 'f) Worker \<Rightarrow>
    ('b, 'f) Worker option" where
  "worker_run B [] w = Some w"
| "worker_run B ((arrivals, closed) # turns) w =
     (if wk_live w = [] \<and> arrivals = [] then Some w
      else do { w \<leftarrow> worker_turn B arrivals closed w; worker_run B turns w })"

end
