(* ===== verification/Api.thy ===== *)
theory Api
  imports Worker Complex_Main
begin

text \<open>
  The HTTP API, \<open>api.rs\<close>, and the incremental detokenizer, \<open>text.rs\<close>: validation of requests, the
  in-flight limit, and the responses built from the engine thread's events, whole or as a stream.
  Strings are UTF-8 bytes. The tokenizer and the chat template are libraries and so parameters;
  routing and JSON text are the web framework's.
\<close>

section \<open>JSON values\<close>

datatype Value =
    JNull
  | JBool bool
  | JNum rat
  | JStr string
  | JArray "Value list"
  | JObject "(string \<times> Value) list"

section \<open>Errors\<close>

record ApiError =
  ae_status :: nat
  ae_message :: string

definition invalid :: "string \<Rightarrow> ApiError" where
  "invalid message = \<lparr>ae_status = 400, ae_message = message\<rparr>"

definition error_response :: "ApiError \<Rightarrow> nat \<times> Value" where
  "error_response e =
     (let type_name = (if ae_status e = 400 then ''invalid_request_error''
        else if ae_status e = 429 then ''rate_limit_error'' else ''server_error'') in
      (ae_status e, JObject [(''error'', JObject [(''message'', JStr (ae_message e)),
         (''type'', JStr type_name), (''code'', JNull)])]))"

section \<open>Requests\<close>

text \<open>A finite \<open>f32\<close> is a rational; a comparison with 0 or 1 does not see the sign of a zero.\<close>

record Sampling =
  sp_temperature :: "rat option"
  sp_top_p :: "rat option"
  sp_n :: "nat option"
  sp_stop :: "Value option"

definition check_sampling :: "Sampling \<Rightarrow> ApiError + unit" where
  "check_sampling s =
     (if (case sp_temperature s of None \<Rightarrow> False | Some t \<Rightarrow> t \<noteq> 0)
      then Inl (invalid ''only greedy decoding is supported: omit temperature or set it to 0'')
      else if (case sp_top_p s of None \<Rightarrow> False | Some p \<Rightarrow> p \<noteq> 1)
      then Inl (invalid ''only greedy decoding is supported: omit top_p or set it to 1'')
      else if (case sp_n s of None \<Rightarrow> False | Some n \<Rightarrow> n \<noteq> 1)
      then Inl (invalid ''n must be 1'')
      else if \<not> (case sp_stop s of None \<Rightarrow> True | Some JNull \<Rightarrow> True | Some (JArray list) \<Rightarrow> list = []
               | Some _ \<Rightarrow> False)
      then Inl (invalid
        ''stop sequences are not supported; generation ends at the model's end-of-sequence tokens'')
      else Inr ())"

datatype Prompt = Text string | Tokens "u32 list"

record CompletionRequest =
  cr_prompt :: Prompt
  cr_max_tokens :: "nat option"
  cr_stream :: bool
  cr_sampling :: Sampling

record ContentPart =
  cp_text :: "string option"

datatype Content = ContentText string | Parts "ContentPart list"

record Message =
  ms_role :: string
  ms_content :: Content

record ChatRequest =
  ch_messages :: "Message list"
  ch_max_tokens :: "nat option"
  ch_max_completion_tokens :: "nat option"
  ch_stream :: bool
  ch_sampling :: Sampling

datatype Kind = Completion | Chat

record ServerOptions =
  op_model_name :: string
  op_max_context :: nat
  op_default_max_tokens :: nat
  op_max_in_flight :: nat

text \<open>
  The shared state's counters and metrics, with the libraries it holds: the tokenizer's two
  directions and the chat template, each with its own error text.
\<close>

record Shared =
  sh_options :: ServerOptions
  sh_in_flight :: nat
  sh_next_id :: u64
  sh_metrics :: ServeMetrics
  sh_encode :: "string \<Rightarrow> string + u32 list"
  sh_decode :: "u32 list \<Rightarrow> string + string"
  sh_render :: "(string \<times> string) list \<Rightarrow> string + string"

record Reply =
  re_kind :: Kind
  re_id :: string
  re_created :: nat
  re_model :: string

text \<open>An accepted request: what goes to the engine thread, the reply's frame, and how to answer.\<close>

record Accepted =
  ac_prompt :: "u32 list"
  ac_max_tokens :: nat
  ac_reply :: Reply
  ac_stream :: bool

definition tokenize :: "Shared \<Rightarrow> string \<Rightarrow> ApiError + u32 list" where
  "tokenize s text = (case sh_encode s text of Inl e \<Rightarrow> Inl (invalid (''tokenizer: '' @ e)) | Inr ts \<Rightarrow> Inr ts)"

text \<open>\<open>alive\<close> says whether the engine thread still listens; \<open>seconds\<close> is the clock.\<close>

definition generate :: "bool \<Rightarrow> nat \<Rightarrow> Kind \<Rightarrow> u32 list \<Rightarrow> nat option \<Rightarrow> bool \<Rightarrow> Shared \<Rightarrow>
    (ApiError, Shared, Accepted) res" where
  "generate alive seconds kind prompt max_tokens stream s =
     (let opts = sh_options s;
          max_tokens = (case max_tokens of None \<Rightarrow> op_default_max_tokens opts | Some n \<Rightarrow> n) in
      if prompt = [] \<or> max_tokens = 0
      then Err (invalid ''the prompt and max_tokens must not be empty'') s
      else if op_max_context opts < usize_add (length prompt) max_tokens
      then Err (invalid (''this server's maximum context length is '' @ show_nat (op_max_context opts) @
        '' tokens, but '' @ show_nat (usize_add (length prompt) max_tokens) @ '' were requested ('' @
        show_nat (length prompt) @ '' in the prompt, '' @ show_nat max_tokens @ '' for the completion)'')) s
      else if op_max_in_flight opts \<le> sh_in_flight s
      then Err \<lparr>ae_status = 429,
          ae_message = show_nat (op_max_in_flight opts) @ '' requests are already in flight''\<rparr>
        (s\<lparr>sh_metrics := request_done ''rejected'' (sh_metrics s)\<rparr>)
      else if \<not> alive
      then Err \<lparr>ae_status = 503, ae_message = ''the engine has stopped''\<rparr> s
      else Ok \<lparr>ac_prompt = prompt, ac_max_tokens = max_tokens,
          ac_reply = \<lparr>re_kind = kind,
            re_id = (if kind = Chat then ''chatcmpl'' else ''cmpl'') @ ''-'' @ show_nat (unat (sh_next_id s)),
            re_created = seconds, re_model = op_model_name opts\<rparr>, ac_stream = stream\<rparr>
        (s\<lparr>sh_in_flight := sh_in_flight s + 1, sh_next_id := sh_next_id s + 1\<rparr>))"

text \<open>\<open>InFlight::drop\<close>, when the response or its stream goes away.\<close>

definition release_in_flight :: "Shared \<Rightarrow> Shared" where
  "release_in_flight s = s\<lparr>sh_in_flight := sh_in_flight s - 1\<rparr>"

definition completions :: "bool \<Rightarrow> nat \<Rightarrow> CompletionRequest \<Rightarrow> Shared \<Rightarrow> (ApiError, Shared, Accepted) res" where
  "completions alive seconds req s =
     (case check_sampling (cr_sampling req) of
        Inl e \<Rightarrow> Err e s
      | Inr _ \<Rightarrow>
          (case (case cr_prompt req of Tokens ts \<Rightarrow> Inr ts | Text text \<Rightarrow> tokenize s text) of
             Inl e \<Rightarrow> Err e s
           | Inr prompt \<Rightarrow>
               generate alive seconds Completion prompt (cr_max_tokens req) (cr_stream req) s))"

definition content_text :: "Content \<Rightarrow> string" where
  "content_text c = (case c of ContentText text \<Rightarrow> text
     | Parts parts \<Rightarrow> concat (List.map_filter cp_text parts))"

definition chat_completions :: "bool \<Rightarrow> nat \<Rightarrow> ChatRequest \<Rightarrow> Shared \<Rightarrow> (ApiError, Shared, Accepted) res" where
  "chat_completions alive seconds req s =
     (case check_sampling (ch_sampling req) of
        Inl e \<Rightarrow> Err e s
      | Inr _ \<Rightarrow>
          (case sh_render s (map (\<lambda>m. (ms_role m, content_text (ms_content m))) (ch_messages req)) of
             Inl e \<Rightarrow> Err (invalid (''chat template: '' @ e)) s
           | Inr text \<Rightarrow>
               (case tokenize s text of
                  Inl e \<Rightarrow> Err e s
                | Inr prompt \<Rightarrow>
                    generate alive seconds Chat prompt
                      (case ch_max_completion_tokens req of None \<Rightarrow> ch_max_tokens req | Some n \<Rightarrow> Some n)
                      (ch_stream req) s)))"

section \<open>Replies\<close>

fun reply_object :: "Kind \<Rightarrow> bool \<Rightarrow> string" where
  "reply_object Completion _ = ''text_completion''"
| "reply_object Chat False = ''chat.completion''"
| "reply_object Chat True = ''chat.completion.chunk''"

definition reply_body :: "Reply \<Rightarrow> bool \<Rightarrow> Value \<Rightarrow> (string \<times> Value) list" where
  "reply_body r chunk choice =
     [(''id'', JStr (re_id r)), (''object'', JStr (reply_object (re_kind r) chunk)),
      (''created'', JNum (of_nat (re_created r))), (''model'', JStr (re_model r)),
      (''choices'', JArray [choice])]"

definition finish_value :: "FinishReason option \<Rightarrow> Value" where
  "finish_value f = (case f of None \<Rightarrow> JNull | Some r \<Rightarrow> JStr (as_str r))"

definition chat_chunk :: "Reply \<Rightarrow> Value \<Rightarrow> FinishReason option \<Rightarrow> Value" where
  "chat_chunk r delta fin = JObject (reply_body r True (JObject [(''index'', JNum 0),
     (''delta'', delta), (''logprobs'', JNull), (''finish_reason'', finish_value fin)]))"

definition reply_chunk :: "Reply \<Rightarrow> string option \<Rightarrow> FinishReason option \<Rightarrow> Value" where
  "reply_chunk r text fin =
     (case re_kind r of
        Completion \<Rightarrow> JObject (reply_body r True (JObject [(''index'', JNum 0),
          (''text'', JStr (case text of None \<Rightarrow> '''' | Some t \<Rightarrow> t)), (''logprobs'', JNull),
          (''finish_reason'', finish_value fin)]))
      | Chat \<Rightarrow> chat_chunk r (JObject (case text of None \<Rightarrow> [] | Some t \<Rightarrow> [(''content'', JStr t)])) fin)"

text \<open>The events until the final one; \<open>None\<close> in the second place is the channel running dry.\<close>

fun collect_events :: "WorkerEvent list \<Rightarrow> u32 list \<Rightarrow> ApiError + u32 list \<times> FinishReason" where
  "collect_events [] tokens = Inl \<lparr>ae_status = 500, ae_message = ''the engine dropped the request''\<rparr>"
| "collect_events (Token t # evs) tokens = collect_events evs (tokens @ [t])"
| "collect_events (Done reason # evs) tokens = Inr (tokens, reason)"
| "collect_events (Failed message # evs) tokens = Inl (invalid message)"

definition full_choice :: "Kind \<Rightarrow> string \<Rightarrow> FinishReason \<Rightarrow> Value" where
  "full_choice kind text reason =
     (case kind of
        Completion \<Rightarrow> JObject [(''index'', JNum 0), (''text'', JStr text), (''logprobs'', JNull),
          (''finish_reason'', JStr (as_str reason))]
      | Chat \<Rightarrow> JObject [(''index'', JNum 0),
          (''message'', JObject [(''role'', JStr ''assistant''), (''content'', JStr text)]),
          (''logprobs'', JNull), (''finish_reason'', JStr (as_str reason))])"

definition collect_response :: "Shared \<Rightarrow> Reply \<Rightarrow> WorkerEvent list \<Rightarrow> nat \<Rightarrow> ApiError + Value" where
  "collect_response s r evs prompt_tokens =
     (case collect_events evs [] of
        Inl e \<Rightarrow> Inl e
      | Inr (tokens, reason) \<Rightarrow>
          (case sh_decode s tokens of
             Inl e \<Rightarrow> Inl (invalid (''tokenizer: '' @ e))
           | Inr text \<Rightarrow>
               Inr (JObject (reply_body r False (full_choice (re_kind r) text reason) @
                 [(''usage'', JObject [(''prompt_tokens'', JNum (of_nat prompt_tokens)),
                    (''completion_tokens'', JNum (of_nat (length tokens))),
                    (''total_tokens'', JNum (of_nat (prompt_tokens + length tokens)))])]))))"

section \<open>Streaming\<close>

record Detokenizer =
  dk_tokens :: "u32 list"
  dk_emitted :: string

definition detok_new :: Detokenizer where
  "detok_new = \<lparr>dk_tokens = [], dk_emitted = []\<rparr>"

text \<open>The bytes of \<open>U+FFFD\<close>, which the tokenizer writes for an incomplete character.\<close>

definition replacement :: string where
  "replacement = [char_of (0xEF :: nat), char_of (0xBF :: nat), char_of (0xBD :: nat)]"

definition ends_with :: "string \<Rightarrow> string \<Rightarrow> bool" where
  "ends_with text suf \<longleftrightarrow> length suf \<le> length text \<and> drop (length text - length suf) text = suf"

definition starts_with :: "string \<Rightarrow> string \<Rightarrow> bool" where
  "starts_with text pre \<longleftrightarrow> take (length pre) text = pre"

definition detok_push :: "(u32 list \<Rightarrow> string + string) \<Rightarrow> u32 \<Rightarrow> Detokenizer \<Rightarrow> string \<times> Detokenizer" where
  "detok_push dec token d =
     (let d = d\<lparr>dk_tokens := dk_tokens d @ [token]\<rparr> in
      case dec (dk_tokens d) of
        Inl _ \<Rightarrow> ([], d)
      | Inr text \<Rightarrow>
          if ends_with text replacement \<or> \<not> starts_with text (dk_emitted d) then ([], d)
          else (drop (length (dk_emitted d)) text, d\<lparr>dk_emitted := text\<rparr>))"

datatype Phase = Role | Streaming | Ended

datatype SseEvent = Data Value | DoneMarker

definition error_event :: "string \<Rightarrow> SseEvent" where
  "error_event message = Data (JObject [(''error'', JObject [(''message'', JStr message),
     (''type'', JStr ''server_error'')])])"

definition first_phase :: "Kind \<Rightarrow> Phase" where
  "first_phase kind = (case kind of Chat \<Rightarrow> Role | Completion \<Rightarrow> Streaming)"

text \<open>The unfolded stream, on the events the channel delivers before it is dropped.\<close>

fun stream_events :: "(u32 list \<Rightarrow> string + string) \<Rightarrow> Reply \<Rightarrow> WorkerEvent list \<Rightarrow> Detokenizer \<Rightarrow> SseEvent list" where
  "stream_events dec r [] d = [error_event ''the engine dropped the request'']"
| "stream_events dec r (Token t # evs) d =
     (let (delta, d) = detok_push dec t d in
      (if delta = [] then [] else [Data (reply_chunk r (Some delta) None)]) @ stream_events dec r evs d)"
| "stream_events dec r (Done reason # evs) d = [Data (reply_chunk r None (Some reason)), DoneMarker]"
| "stream_events dec r (Failed message # evs) d = [error_event message]"

definition stream_response :: "Shared \<Rightarrow> Reply \<Rightarrow> WorkerEvent list \<Rightarrow> SseEvent list" where
  "stream_response s r evs =
     (case first_phase (re_kind r) of
        Role \<Rightarrow> [Data (chat_chunk r (JObject [(''role'', JStr ''assistant''), (''content'', JStr '''')]) None)]
      | _ \<Rightarrow> []) @ stream_events (sh_decode s) r evs detok_new"

definition models :: "Shared \<Rightarrow> Value" where
  "models s = JObject [(''object'', JStr ''list''), (''data'', JArray [JObject [
     (''id'', JStr (op_model_name (sh_options s))), (''object'', JStr ''model''),
     (''created'', JNum 0), (''owned_by'', JStr ''paged-kv-cache'')]])]"

end
