(* ===== verification/Reference.thy ===== *)
theory Reference
  imports Model
begin

text \<open>
  What the model computes when nothing is paged, batched or cached: the transformer over one
  whole token list, and greedy decoding with it. This is the specification of the engine. The
  main facts are that a position's hidden rows and K/V depend on the tokens up to it only.
\<close>

section \<open>The transformer over a whole context\<close>

text \<open>Attention of one query row over a context: the heads side by side.\<close>

definition attend :: "'f arith \<Rightarrow> 'f PagedQwen2 \<Rightarrow> ('f list \<times> 'f list) list \<Rightarrow> 'f row \<Rightarrow> 'f row" where
  "attend fp md kvs q =
     concat (map (\<lambda>h. dense_head fp (md_head_dim md) (h div (md_num_heads md div md_num_kv_heads md)) kvs
       (take (md_head_dim md) (drop (h * md_head_dim md) q))) [0..<md_num_heads md])"

definition kv_rows :: "'f PagedQwen2 \<Rightarrow> 'f Layer \<Rightarrow> 'f row list \<Rightarrow> ('f row \<times> 'f row) list" where
  "kv_rows md layer xs = map (\<lambda>p. (layer_k md layer p (xs ! p), layer_v layer (xs ! p))) [0..<length xs]"

definition dense_row :: "'f arith \<Rightarrow> 'f PagedQwen2 \<Rightarrow> 'f Layer \<Rightarrow> ('f row \<times> 'f row) list \<Rightarrow> nat \<Rightarrow> 'f row \<Rightarrow>
    'f row" where
  "dense_row fp md layer kvs p x = layer_out md layer (attend fp md kvs (layer_q md layer p x)) x"

definition dense_layer :: "'f arith \<Rightarrow> 'f PagedQwen2 \<Rightarrow> 'f Layer \<Rightarrow> 'f row list \<Rightarrow> 'f row list" where
  "dense_layer fp md layer xs =
     map (\<lambda>p. dense_row fp md layer (take (p + 1) (kv_rows md layer xs)) p (xs ! p)) [0..<length xs]"

text \<open>The rows that enter layer \<open>l\<close>, one per token.\<close>

definition hidden :: "'f arith \<Rightarrow> 'f PagedQwen2 \<Rightarrow> nat \<Rightarrow> u32 list \<Rightarrow> 'f row list" where
  "hidden fp md l ts = fold (dense_layer fp md) (take l (md_layers md)) (map (md_embed md) ts)"

definition context_kv :: "'f arith \<Rightarrow> 'f PagedQwen2 \<Rightarrow> nat \<Rightarrow> u32 list \<Rightarrow> ('f row \<times> 'f row) list" where
  "context_kv fp md l ts = kv_rows md (md_layers md ! l) (hidden fp md l ts)"

definition next_logits :: "'f arith \<Rightarrow> 'f PagedQwen2 \<Rightarrow> u32 list \<Rightarrow> 'f row" where
  "next_logits fp md ts = md_lm_head md (md_norm md (last (hidden fp md (length (md_layers md)) ts)))"

definition next_token :: "'f arith \<Rightarrow> 'f PagedQwen2 \<Rightarrow> u32 list \<Rightarrow> u32" where
  "next_token fp md ts = md_argmax md (next_logits fp md ts)"

text \<open>Greedy decoding: up to \<open>n\<close> tokens, or up to the first stop token.\<close>

fun greedy :: "'f arith \<Rightarrow> 'f PagedQwen2 \<Rightarrow> u32 list \<Rightarrow> nat \<Rightarrow> u32 list \<Rightarrow> u32 list" where
  "greedy fp md stop 0 ts = []"
| "greedy fp md stop (Suc n) ts =
     (let t = next_token fp md ts in
      t # (if t \<in> set stop then [] else greedy fp md stop n (ts @ [t])))"

section \<open>Causality\<close>

lemma length_kv_rows [simp]: "length (kv_rows md layer xs) = length xs"
  by (simp add: kv_rows_def)

lemma length_dense_layer [simp]: "length (dense_layer fp md layer xs) = length xs"
  by (simp add: dense_layer_def)

lemma take_kv_rows: "take n (kv_rows md layer xs) = kv_rows md layer (take n xs)"
  by (rule nth_equalityI) (simp_all add: kv_rows_def)

lemma take_dense_layer: "take n (dense_layer fp md layer xs) = dense_layer fp md layer (take n xs)"
  by (rule nth_equalityI) (simp_all add: dense_layer_def take_kv_rows min.absorb1)

lemma length_fold_layers [simp]: "length (fold (dense_layer fp md) layers xs) = length xs"
  by (induction layers arbitrary: xs) simp_all

lemma take_fold_layers:
  "take n (fold (dense_layer fp md) layers xs) = fold (dense_layer fp md) layers (take n xs)"
  by (induction layers arbitrary: xs) (simp_all add: take_dense_layer)

lemma length_hidden [simp]: "length (hidden fp md l ts) = length ts"
  by (simp add: hidden_def)

lemma length_context_kv [simp]: "length (context_kv fp md l ts) = length ts"
  by (simp add: context_kv_def)

lemma hidden_take: "hidden fp md l (take n ts) = take n (hidden fp md l ts)"
  by (simp add: hidden_def take_fold_layers take_map)

lemma context_kv_take: "context_kv fp md l (take n ts) = take n (context_kv fp md l ts)"
  by (simp add: context_kv_def hidden_take take_kv_rows)

lemma context_kv_agree:
  assumes "take (Suc p) ts = take (Suc p) us" "p < length ts" "p < length us"
  shows "context_kv fp md l ts ! p = context_kv fp md l us ! p"
proof -
  have "take (Suc p) (context_kv fp md l ts) = take (Suc p) (context_kv fp md l us)"
    by (simp add: assms(1) flip: context_kv_take)
  then show ?thesis using assms(2,3) by (metis lessI nth_take)
qed

lemma hidden_Suc:
  assumes "l < length (md_layers md)"
  shows "hidden fp md (Suc l) ts = dense_layer fp md (md_layers md ! l) (hidden fp md l ts)"
  using assms by (simp add: hidden_def take_Suc_conv_app_nth)

lemma hidden_0: "hidden fp md 0 ts = map (md_embed md) ts"
  by (simp add: hidden_def)

lemma hidden_Suc_nth:
  assumes "l < length (md_layers md)" "p < length ts"
  shows "hidden fp md (Suc l) ts ! p =
    dense_row fp md (md_layers md ! l) (take (Suc p) (context_kv fp md l ts)) p (hidden fp md l ts ! p)"
  using assms by (simp add: hidden_Suc dense_layer_def context_kv_def)

lemma context_kv_nth:
  "p < length ts \<Longrightarrow> context_kv fp md l ts ! p =
     (layer_k md (md_layers md ! l) p (hidden fp md l ts ! p), layer_v (md_layers md ! l) (hidden fp md l ts ! p))"
  by (simp add: context_kv_def kv_rows_def)

section \<open>Shapes\<close>

text \<open>
  What is assumed of the model: its layers' outputs have the widths of their tensors, and the
  sampled index is a row of the embedding.
\<close>

definition layer_ok :: "'f PagedQwen2 \<Rightarrow> nat \<Rightarrow> 'f Layer \<Rightarrow> bool" where
  "layer_ok md w layer \<longleftrightarrow> (\<forall>x. length x = w \<longrightarrow>
     (\<forall>p. length (layer_q md layer p x) = md_num_heads md * md_head_dim md \<and>
       length (layer_k md layer p x) = md_num_kv_heads md * md_head_dim md) \<and>
     length (layer_v layer x) = md_num_kv_heads md * md_head_dim md \<and>
     (\<forall>a. length a = md_num_heads md * md_head_dim md \<longrightarrow> length (layer_out md layer a x) = w))"

definition model_ok :: "'f PagedQwen2 \<Rightarrow> nat \<Rightarrow> bool" where
  "model_ok md w \<longleftrightarrow> 0 < md_head_dim md \<and> 0 < md_num_kv_heads md \<and> 0 < md_num_heads md \<and>
     md_num_kv_heads md dvd md_num_heads md \<and> (\<forall>t. length (md_embed md t) = w) \<and>
     (\<forall>layer \<in> set (md_layers md). layer_ok md w layer) \<and> (\<forall>x. unat (md_argmax md x) < md_vocab md)"

lemma length_concat_map: "\<forall>x \<in> set xs. length (f x) = n \<Longrightarrow> length (concat (map f xs)) = length xs * n"
  by (induction xs) auto

lemma length_attend:
  assumes "model_ok md w" "\<forall>(k, v) \<in> set kvs. length v = md_num_kv_heads md * md_head_dim md"
  shows "length (attend fp md kvs q) = md_num_heads md * md_head_dim md"
proof -
  let ?d = "md_head_dim md" and ?share = "md_num_heads md div md_num_kv_heads md"
  from assms(1) have M: "0 < md_num_kv_heads md" "0 < md_num_heads md" "md_num_kv_heads md dvd md_num_heads md"
    by (simp_all add: model_ok_def)
  have "length (dense_head fp ?d (h div ?share) kvs x) = ?d" if "h < md_num_heads md" for h x
  proof (rule length_dense_head)
    have "Suc (h div ?share) * ?d \<le> md_num_kv_heads md * ?d"
      using head_index [OF M(3,1,2) that] by (intro mult_le_mono1) simp
    with assms(2) show "\<forall>(k, v) \<in> set kvs. (h div ?share) * ?d + ?d \<le> length v"
      by (auto simp: add.commute)
  qed
  then show ?thesis unfolding attend_def by (subst length_concat_map [where n = ?d]) simp_all
qed

lemma hidden_width:
  assumes "model_ok md w" "l \<le> length (md_layers md)" "x \<in> set (hidden fp md l ts)"
  shows "length x = w"
  using assms(2,3)
proof (induction l arbitrary: x)
  case 0
  then show ?case using assms(1) by (auto simp: hidden_0 model_ok_def)
next
  case (Suc l)
  then have l: "l < length (md_layers md)" by simp
  with assms(1) have ok: "layer_ok md w (md_layers md ! l)" by (simp add: model_ok_def)
  have h: "length (hidden fp md l ts ! p) = w" if "p < length ts" for p
    using Suc.IH that Suc.prems(1) by simp
  from Suc.prems(2) obtain p where p: "p < length ts" "x = hidden fp md (Suc l) ts ! p"
    by (auto simp: in_set_conv_nth)
  have "\<forall>(k, v) \<in> set (take (Suc p) (context_kv fp md l ts)). length v = md_num_kv_heads md * md_head_dim md"
  proof -
    have "length (snd (context_kv fp md l ts ! i)) = md_num_kv_heads md * md_head_dim md" if "i < length ts" for i
      using ok h [OF that] by (simp add: context_kv_nth that layer_ok_def)
    then show ?thesis by (fastforce simp: in_set_conv_nth)
  qed
  from length_attend [OF assms(1) this] ok h [OF p(1)] show ?case
    by (simp add: p hidden_Suc_nth [OF l p(1)] dense_row_def layer_ok_def)
qed

lemma context_kv_width:
  assumes "model_ok md w" "l < length (md_layers md)" "p < length ts"
  shows "length (fst (context_kv fp md l ts ! p)) = md_num_kv_heads md * md_head_dim md"
    "length (snd (context_kv fp md l ts ! p)) = md_num_kv_heads md * md_head_dim md"
    "length (layer_q md (md_layers md ! l) p (hidden fp md l ts ! p)) = md_num_heads md * md_head_dim md"
proof -
  have "layer_ok md w (md_layers md ! l)" using assms(1,2) by (simp add: model_ok_def)
  moreover have "length (hidden fp md l ts ! p) = w"
    using hidden_width [OF assms(1) less_imp_le [OF assms(2)] nth_mem] assms(3) by simp
  ultimately show "length (fst (context_kv fp md l ts ! p)) = md_num_kv_heads md * md_head_dim md"
    "length (snd (context_kv fp md l ts ! p)) = md_num_kv_heads md * md_head_dim md"
    "length (layer_q md (md_layers md ! l) p (hidden fp md l ts ! p)) = md_num_heads md * md_head_dim md"
    using assms(3) by (simp_all add: context_kv_nth layer_ok_def)
qed

section \<open>Greedy decoding\<close>

lemma greedy_step:
  assumes "n \<noteq> 0"
  shows "greedy fp md stop n ts = (let t = next_token fp md ts in
    t # (if n = 1 \<or> t \<in> set stop then [] else greedy fp md stop (n - 1) (ts @ [t])))"
  using assms by (cases n) (auto simp: Let_def)

lemma length_greedy: "length (greedy fp md stop n ts) \<le> n"
  by (induction n arbitrary: ts) (simp_all add: Let_def)

end
