(* ===== verification/Batch.thy ===== *)
theory Batch
  imports Reference Kv_Props
begin

text \<open>
  The batched, paged forward pass computes the reference: for a batch whose written slots are
  distinct, and whose earlier positions are in the store or written by the same batch, the pass
  never fails, returns the reference's logits for the last position of every sequence, and leaves
  the reference's K/V of all positions in the store.
\<close>

section \<open>Lists in pieces of equal length\<close>

lemma concat_piece:
  "\<forall>x \<in> set xs. length x = n \<Longrightarrow> j < length xs \<Longrightarrow> take n (drop (j * n) (concat xs)) = xs ! j"
proof (induction xs arbitrary: j)
  case (Cons x xs)
  then show ?case by (cases j) simp_all
qed simp

lemma into_rows_concat: "\<forall>x \<in> set xs. length x = w \<Longrightarrow> into_rows w (length xs) (concat xs) = xs"
  by (induction xs) auto

lemma length_concat_uniform: "\<forall>x \<in> set xs. length x = n \<Longrightarrow> length (concat xs) = length xs * n"
  by (induction xs) auto

section \<open>Sequences of a batch\<close>

text \<open>A sequence's known tokens, the position its new tokens start at, and its block table.\<close>

type_synonym job = "u32 list \<times> nat \<times> BlockId list"

definition seq_input :: "job \<Rightarrow> SeqInput" where
  "seq_input j = (case j of (ts, start, tb) \<Rightarrow> \<lparr>in_tokens = drop start ts, in_start = start, in_table = tb\<rparr>)"

definition slot_at :: "nat \<Rightarrow> BlockId list \<Rightarrow> nat \<Rightarrow> PhysicalSlot" where
  "slot_at bs tb p = new_slot (tb ! (p div bs)) (p mod bs)"

type_synonym position = "u32 list \<times> BlockId list \<times> nat"

definition job_rows :: "job \<Rightarrow> position list" where
  "job_rows j = (case j of (ts, start, tb) \<Rightarrow> map (\<lambda>p. (ts, tb, p)) [start..<length ts])"

definition all_rows :: "job list \<Rightarrow> position list" where
  "all_rows jobs = concat (map job_rows jobs)"

definition row_slot :: "nat \<Rightarrow> position \<Rightarrow> PhysicalSlot" where
  "row_slot bs r = (case r of (ts, tb, p) \<Rightarrow> slot_at bs tb p)"

definition batch_row :: "nat \<Rightarrow> position \<Rightarrow> BatchRow" where
  "batch_row bs r = (case r of (ts, tb, p) \<Rightarrow>
     \<lparr>br_token = ts ! p, br_pos = p mod 2 ^ 32, br_slot = slot_at bs tb p\<rparr>)"

definition input_ok :: "CacheConfig \<Rightarrow> job \<Rightarrow> bool" where
  "input_ok c j \<longleftrightarrow> (case j of (ts, start, tb) \<Rightarrow> start < length ts \<and> length ts \<le> 2 ^ 32 \<and>
     (\<forall>p < length ts. p div block_size c < length tb \<and> index (tb ! (p div block_size c)) < num_blocks c))"

lemma all_rows_iff: "(ts, tb, p) \<in> set (all_rows jobs) \<longleftrightarrow>
    (\<exists>start. (ts, start, tb) \<in> set jobs \<and> start \<le> p \<and> p < length ts)"
  by (fastforce simp: all_rows_def job_rows_def)

lemma enumerate_drop: "enumerate start (drop start ts) = map (\<lambda>p. (p, ts ! p)) [start..<length ts]"
  by (rule nth_equalityI) (simp_all add: nth_enumerate_eq)

lemma seq_rows_eq:
  assumes "0 < bs" "\<forall>p. pos \<le> p \<longrightarrow> p < pos + length xs \<longrightarrow> p div bs < length tb"
  shows "seq_rows bs tb pos xs = Ok (map (\<lambda>(p, t). \<lparr>br_token = t, br_pos = p mod 2 ^ 32,
    br_slot = slot_at bs tb p\<rparr>) (enumerate pos xs)) ()"
  using assms(2)
proof (induction xs arbitrary: pos)
  case (Cons x xs)
  from Cons.prems have "nth_at tb (pos div bs) = Some (tb ! (pos div bs))" by (simp add: nth_at_def)
  moreover have "seq_rows bs tb (pos + 1) xs = Ok (map (\<lambda>(p, t). \<lparr>br_token = t, br_pos = p mod 2 ^ 32,
    br_slot = slot_at bs tb p\<rparr>) (enumerate (pos + 1) xs)) ()"
    by (rule Cons.IH) (use Cons.prems in simp)
  ultimately show ?case using assms(1) by (simp add: slot_at_def)
qed simp

fun last_rows :: "nat \<Rightarrow> job list \<Rightarrow> nat list" where
  "last_rows n [] = []"
| "last_rows n ((ts, start, tb) # js) =
     (n + (length ts - start) - 1) # last_rows (n + (length ts - start)) js"

lemma batch_rows_eq:
  assumes "0 < block_size c" "\<forall>j \<in> set jobs. input_ok c j"
  shows "batch_rows (block_size c) n (map seq_input jobs) =
    Ok (map (batch_row (block_size c)) (all_rows jobs), last_rows n jobs) ()"
  using assms(2)
proof (induction jobs arbitrary: n)
  case Nil
  then show ?case by (simp add: all_rows_def)
next
  case (Cons j jobs)
  obtain ts start tb where j: "j = (ts, start, tb)" by (metis prod.exhaust)
  from Cons.prems j have ok: "start < length ts" "\<forall>p < length ts. p div block_size c < length tb"
    by (auto simp: input_ok_def)
  have "seq_rows (block_size c) tb start (drop start ts) =
      Ok (map (batch_row (block_size c)) (job_rows j)) ()"
    using seq_rows_eq [OF assms(1), of start "drop start ts" tb] ok
    by (simp add: enumerate_drop job_rows_def j batch_row_def comp_def)
  moreover have "length (job_rows j) = length ts - start" by (simp add: job_rows_def j)
  ultimately show ?case
    using Cons ok by (simp add: seq_input_def j all_rows_def)
qed

lemma last_rows_nth:
  assumes "\<forall>j \<in> set jobs. input_ok c j"
  shows "those (map (nth_at (pre @ map f (all_rows jobs))) (last_rows (length pre) jobs)) =
    Some (map (\<lambda>(ts, start, tb). f (ts, tb, length ts - 1)) jobs)"
  using assms
proof (induction jobs arbitrary: pre)
  case (Cons j jobs)
  obtain ts start tb where j: "j = (ts, start, tb)" by (metis prod.exhaust)
  from Cons.prems j have s: "start < length ts" by (simp add: input_ok_def)
  let ?m = "map f (job_rows j)"
  have len: "length ?m = length ts - start" by (simp add: job_rows_def j)
  have rows: "pre @ map f (all_rows (j # jobs)) = (pre @ ?m) @ map f (all_rows jobs)"
    by (simp add: all_rows_def)
  have "nth_at (pre @ map f (all_rows (j # jobs))) (length pre + (length ts - start) - 1) =
      Some (f (ts, tb, length ts - 1))"
  proof -
    have "?m ! (length ts - start - 1) = f (ts, tb, length ts - 1)"
      using s by (simp add: job_rows_def j)
    moreover have "length pre + (length ts - start) - 1 = length pre + (length ts - start - 1)"
      using s by simp
    moreover have "length ts - start - 1 < length ?m" using s len by simp
    ultimately show ?thesis unfolding rows nth_at_def by (simp add: nth_append)
  qed
  moreover have "last_rows (length pre) (j # jobs) =
      (length pre + (length ts - start) - 1) # last_rows (length (pre @ ?m)) jobs"
    using len by (simp add: j)
  moreover from Cons have "those (map (nth_at (pre @ map f (all_rows (j # jobs)))) (last_rows (length (pre @ ?m)) jobs)) =
    Some (map (\<lambda>(ts, start, tb). f (ts, tb, length ts - 1)) jobs)"
    using Cons.IH [of "pre @ ?m"] unfolding rows by simp
  ultimately show ?case by (simp add: j)
qed simp

lemma query_list_rows:
  assumes "\<forall>j \<in> set jobs. input_ok c j"
  shows "query_list (attention_seqs (map seq_input jobs)) = map (\<lambda>(ts, tb, p). (tb, p)) (all_rows jobs)"
  using assms
proof (induction jobs)
  case Nil
  then show ?case by (simp add: query_list_def attention_seqs_def all_rows_def)
next
  case (Cons j jobs)
  obtain ts start tb where j: "j = (ts, start, tb)" by (metis prod.exhaust)
  from Cons.prems j have s: "start < length ts" by (simp add: input_ok_def)
  have "map (\<lambda>i. (tb, start + i)) [0..<length ts - start] = map (\<lambda>p. (tb, p)) [start..<length ts]"
    by (rule nth_equalityI) simp_all
  with Cons s show ?case
    by (simp add: query_list_def attention_seqs_def all_rows_def job_rows_def j seq_input_def comp_def)
qed

lemma query_rows_eq:
  assumes "\<forall>j \<in> set jobs. input_ok c j"
  shows "query_rows (attention_seqs (map seq_input jobs)) = length (all_rows jobs)"
  using length_query_list [of "attention_seqs (map seq_input jobs)"] query_list_rows [OF assms] by simp

section \<open>Attention over the rows of a batch\<close>

lemma check_seqs_accepts:
  assumes "0 < block_size c" "\<forall>s \<in> set seqs. seq_in_pool c s"
  shows "check_seqs c seqs = Ok () ()"
  using assms(2)
proof (induction seqs)
  case (Cons s seqs)
  let ?bs = "block_size c" and ?n = "as_context_len s"
  from Cons.prems have ok: "as_num_queries s \<le> ?n"
    "\<forall>t < ?n. t div ?bs < length (as_block_table s) \<and> index (as_block_table s ! (t div ?bs)) < num_blocks c"
    by (simp_all add: seq_in_pool_def)
  have below: "i * ?bs < ?n" if "i < ceil_div ?n ?bs" for i
    using that less_ceil_div_iff [OF assms(1)] by simp
  then have reach: "i < length (as_block_table s) \<and> index (as_block_table s ! i) < num_blocks c"
    if "i < ceil_div ?n ?bs" for i
    using ok(2) [rule_format, OF below [OF that]] assms(1) by simp
  have len: "ceil_div ?n ?bs \<le> length (as_block_table s)"
  proof (rule ccontr)
    assume "\<not> ceil_div ?n ?bs \<le> length (as_block_table s)"
    then have "length (as_block_table s) < ceil_div ?n ?bs" by simp
    from reach [OF this] show False by simp
  qed
  have "find (\<lambda>b. num_blocks c \<le> index b) (take (ceil_div ?n ?bs) (as_block_table s)) = None"
    using reach len by (auto simp: find_None_iff in_set_conv_nth not_le)
  with Cons ok(1) len assms(1) show ?case by (simp add: blocks_for_tokens_def)
qed simp

lemma check_attention_accepts:
  assumes "0 < block_size c" "l < num_layers c" "\<forall>s \<in> set seqs. seq_in_pool c s"
    and "0 < head_dim c" "0 < num_kv_heads c" "num_kv_heads c dvd heads" "0 < heads"
    and "0 < query_rows seqs" "q_len = query_rows seqs * (heads * head_dim c)"
  shows "check_attention c l seqs q_len q_len = Ok heads ()"
proof -
  have "(heads * head_dim c) mod entry_elems c = 0"
    using assms(6) by (auto simp: entry_elems_def elim!: dvdE)
  with assms check_seqs_accepts [OF assms(1,3)] show ?thesis
    by (simp add: check_attention_def Let_def entry_elems_def)
qed

lemma dense_attention_Cons:
  assumes "0 < H"
  shows "dense_attention fp d H share (c # cs) q =
    concat (map (\<lambda>h. dense_head fp d (h div share) c (take d (drop (h * d) q))) [0..<H]) @
    dense_attention fp d H share cs (drop (H * d) q)"
proof -
  have "[0..<length (c # cs) * H] = [0..<H + length cs * H]" by simp
  also have "\<dots> = [0..<H] @ [H..<H + length cs * H]" by (rule upt_add_eq_append) simp
  also have "[H..<H + length cs * H] = map (\<lambda>j. j + H) [0..<length cs * H]"
    by (subst map_add_upt) (simp add: add.commute)
  finally have split: "[0..<length (c # cs) * H] = [0..<H] @ map (\<lambda>j. j + H) [0..<length cs * H]" .
  let ?f = "\<lambda>cs q j. dense_head fp d (j mod H div share) (cs ! (j div H)) (take d (drop (j * d) q))"
  have "dense_attention fp d H share (c # cs) q =
      concat (map (?f (c # cs) q) [0..<H]) @ concat (map (\<lambda>j. ?f (c # cs) q (j + H)) [0..<length cs * H])"
    unfolding dense_attention_def split by (simp only: map_append concat_append map_map comp_def)
  moreover have "map (?f (c # cs) q) [0..<H] =
      map (\<lambda>h. dense_head fp d (h div share) c (take d (drop (h * d) q))) [0..<H]"
    by (rule map_cong) simp_all
  moreover have "?f (c # cs) q (j + H) = ?f cs (drop (H * d) q) j" for j
    using assms by (simp add: div_add_self2 add_mult_distrib)
  ultimately show ?thesis by (simp add: dense_attention_def)
qed

lemma dense_attention_rows:
  assumes "0 < md_num_heads md" "length cs = length qs"
    and "\<forall>q \<in> set qs. length q = md_num_heads md * md_head_dim md"
  shows "dense_attention fp (md_head_dim md) (md_num_heads md) (md_num_heads md div md_num_kv_heads md) cs
      (concat qs) = concat (map2 (attend fp md) cs qs)"
  using assms(2,3)
proof (induction cs qs rule: list_induct2)
  case Nil
  then show ?case by (simp add: dense_attention_def)
next
  case (Cons c cs q qs)
  let ?d = "md_head_dim md" and ?H = "md_num_heads md"
  have q: "length q = ?H * ?d" using Cons.prems by simp
  have "take ?d (drop (h * ?d) (q @ concat qs)) = take ?d (drop (h * ?d) q)" if "h < ?H" for h
  proof -
    have "Suc h * ?d \<le> ?H * ?d" using that by (intro mult_le_mono1) simp
    with q show ?thesis by simp
  qed
  then have "map (\<lambda>h. dense_head fp ?d (h div (?H div md_num_kv_heads md)) c
      (take ?d (drop (h * ?d) (q @ concat qs)))) [0..<?H] =
    map (\<lambda>h. dense_head fp ?d (h div (?H div md_num_kv_heads md)) c (take ?d (drop (h * ?d) q))) [0..<?H]"
    by (intro map_cong refl arg_cong2 [where f = "dense_head fp ?d _"]) simp_all
  then have "concat (map (\<lambda>h. dense_head fp ?d (h div (?H div md_num_kv_heads md)) c
      (take ?d (drop (h * ?d) (q @ concat qs)))) [0..<?H]) = attend fp md c q"
    by (simp only: attend_def)
  with Cons q show ?case by (simp add: dense_attention_Cons [OF assms(1)])
qed

section \<open>One layer\<close>

definition fits_model :: "'f PagedQwen2 \<Rightarrow> CacheConfig \<Rightarrow> bool" where
  "fits_model md c \<longleftrightarrow> 0 < block_size c \<and> num_layers c = length (md_layers md) \<and>
     num_kv_heads c = md_num_kv_heads md \<and> head_dim c = md_head_dim md"

definition row_kv :: "'f arith \<Rightarrow> 'f PagedQwen2 \<Rightarrow> nat \<Rightarrow> position \<Rightarrow> 'f row \<times> 'f row" where
  "row_kv fp md l r = (case r of (ts, tb, p) \<Rightarrow> context_kv fp md l ts ! p)"

definition row_hidden :: "'f arith \<Rightarrow> 'f PagedQwen2 \<Rightarrow> nat \<Rightarrow> position \<Rightarrow> 'f row" where
  "row_hidden fp md l r = (case r of (ts, tb, p) \<Rightarrow> hidden fp md l ts ! p)"

text \<open>
  A position that is not computed by its own sequence is in the store already, or another sequence
  of the batch, which has the same tokens up to it, writes it to the same slot.
\<close>

definition supplied :: "'f arith \<Rightarrow> 'f PagedQwen2 \<Rightarrow> 'f CpuBackend \<Rightarrow> position list \<Rightarrow> nat \<Rightarrow> u32 list \<Rightarrow>
    BlockId list \<Rightarrow> nat \<Rightarrow> bool" where
  "supplied fp md b rows l ts tb p \<longleftrightarrow> (let bs = block_size (cpu_config b) in
     (slot_at bs tb p \<notin> row_slot bs ` set rows \<and> cpu_entry b l (slot_at bs tb p) = context_kv fp md l ts ! p) \<or>
     (\<exists>us ub. (us, ub, p) \<in> set rows \<and> slot_at bs ub p = slot_at bs tb p \<and> take (Suc p) us = take (Suc p) ts))"

definition batch_ok :: "CacheConfig \<Rightarrow> job list \<Rightarrow> bool" where
  "batch_ok c jobs \<longleftrightarrow> jobs \<noteq> [] \<and> (\<forall>j \<in> set jobs. input_ok c j) \<and>
     distinct (map (row_slot (block_size c)) (all_rows jobs))"

definition sources_ok :: "'f arith \<Rightarrow> 'f PagedQwen2 \<Rightarrow> 'f CpuBackend \<Rightarrow> nat \<Rightarrow> job list \<Rightarrow> bool" where
  "sources_ok fp md b l jobs \<longleftrightarrow> (\<forall>(ts, start, tb) \<in> set jobs. \<forall>p < start.
     supplied fp md b (all_rows jobs) l ts tb p)"

definition contexts_ok :: "'f arith \<Rightarrow> 'f PagedQwen2 \<Rightarrow> 'f CpuBackend \<Rightarrow> nat \<Rightarrow> job list \<Rightarrow> bool" where
  "contexts_ok fp md b l jobs \<longleftrightarrow> (\<forall>(ts, start, tb) \<in> set jobs. \<forall>p < length ts.
     cpu_entry b l (slot_at (block_size (cpu_config b)) tb p) = context_kv fp md l ts ! p)"

lemma row_in_pool:
  assumes "0 < block_size c" "\<forall>j \<in> set jobs. input_ok c j" "r \<in> set (all_rows jobs)" "l < num_layers c"
  shows "in_pool c l (row_slot (block_size c) r)"
proof -
  obtain ts tb p where r: "r = (ts, tb, p)" by (metis prod.exhaust)
  with assms(3) obtain start where j: "(ts, start, tb) \<in> set jobs" "p < length ts"
    by (auto simp: all_rows_iff)
  with assms(2) have "index (tb ! (p div block_size c)) < num_blocks c" by (auto simp: input_ok_def)
  with assms(1,4) show ?thesis by (simp add: r row_slot_def slot_at_def in_pool_def)
qed

lemma write_rows_ok:
  assumes md: "model_ok md w" and fit: "fits_model md (cpu_config b)" and inv: "cpu_inv b"
    and l: "l < length (md_layers md)" and ok: "batch_ok (cpu_config b) jobs"
    and src: "sources_ok fp md b l jobs"
  shows "\<exists>b'. write_kv_batch (cpu_config b) cpu_write_kv l
      (map (row_slot (block_size (cpu_config b))) (all_rows jobs))
      (concat (map (fst \<circ> row_kv fp md l) (all_rows jobs)))
      (concat (map (snd \<circ> row_kv fp md l) (all_rows jobs))) b = Ok () b' \<and>
    cpu_inv b' \<and> cpu_config b' = cpu_config b \<and> contexts_ok fp md b' l jobs \<and>
    (\<forall>m s. in_pool (cpu_config b) m s \<longrightarrow>
       m \<noteq> l \<or> s \<notin> row_slot (block_size (cpu_config b)) ` set (all_rows jobs) \<longrightarrow>
       cpu_entry b' m s = cpu_entry b m s)"
proof -
  let ?c = "cpu_config b" and ?rows = "all_rows jobs"
  let ?bs = "block_size ?c" and ?E = "entry_elems ?c"
  from fit have F: "0 < ?bs" "num_layers ?c = length (md_layers md)"
    "?E = md_num_kv_heads md * md_head_dim md" by (simp_all add: fits_model_def entry_elems_def)
  from ok have J: "\<forall>j \<in> set jobs. input_ok ?c j" "distinct (map (row_slot ?bs) ?rows)"
    by (simp_all add: batch_ok_def)
  have in1: "\<forall>s \<in> set (map (row_slot ?bs) ?rows). in_pool ?c l s"
    using row_in_pool [OF F(1) J(1)] l F(2) by auto
  have wk: "\<forall>x \<in> set (map (fst \<circ> row_kv fp md l) ?rows). length x = ?E"
    and wv: "\<forall>x \<in> set (map (snd \<circ> row_kv fp md l) ?rows). length x = ?E"
    using context_kv_width [OF md l] F(3) by (auto simp: row_kv_def all_rows_iff)
  have lens: "length (concat (map (fst \<circ> row_kv fp md l) ?rows)) = length (map (row_slot ?bs) ?rows) * ?E"
    "length (concat (map (snd \<circ> row_kv fp md l) ?rows)) = length (map (row_slot ?bs) ?rows) * ?E"
    using length_concat_uniform [OF wk] length_concat_uniform [OF wv] by simp_all
  from cpu.write_batch_ok [OF inv in1 J(2) lens] obtain b' where b': "write_kv_batch ?c cpu_write_kv l (map (row_slot ?bs) ?rows)
      (concat (map (fst \<circ> row_kv fp md l) ?rows)) (concat (map (snd \<circ> row_kv fp md l) ?rows)) b = Ok () b'"
    "cpu_inv b'" "cpu_config b' = ?c"
    "\<forall>m s. in_pool ?c m s \<longrightarrow> (m, s) \<notin> {l} \<times> set (map (row_slot ?bs) ?rows) \<longrightarrow> cpu_entry b' m s = cpu_entry b m s"
    "\<forall>j < length (map (row_slot ?bs) ?rows). cpu_entry b' l (map (row_slot ?bs) ?rows ! j) =
       (take ?E (drop (j * ?E) (concat (map (fst \<circ> row_kv fp md l) ?rows))),
        take ?E (drop (j * ?E) (concat (map (snd \<circ> row_kv fp md l) ?rows))))" by (elim exE conjE) (rule that)
  have new: "cpu_entry b' l (row_slot ?bs r) = row_kv fp md l r" if r: "r \<in> set ?rows" for r
  proof -
    from r obtain j where j: "j < length ?rows" "r = ?rows ! j" by (auto simp: in_set_conv_nth)
    then show ?thesis
      using b'(5) concat_piece [OF wk, of j] concat_piece [OF wv, of j] by simp
  qed
  have "cpu_entry b' l (slot_at ?bs tb p) = context_kv fp md l ts ! p"
    if j: "(ts, start, tb) \<in> set jobs" and p: "p < length ts" for ts start tb p
  proof (cases "p < start")
    case False
    with j p have "(ts, tb, p) \<in> set ?rows" by (auto simp: all_rows_iff)
    from new [OF this] show ?thesis by (simp add: row_slot_def row_kv_def)
  next
    case True
    with src j have "supplied fp md b ?rows l ts tb p" by (auto simp: sources_ok_def)
    then consider (old) "slot_at ?bs tb p \<notin> row_slot ?bs ` set ?rows"
        "cpu_entry b l (slot_at ?bs tb p) = context_kv fp md l ts ! p"
      | (shared) us ub where "(us, ub, p) \<in> set ?rows" "slot_at ?bs ub p = slot_at ?bs tb p"
        "take (Suc p) us = take (Suc p) ts" by (auto simp: supplied_def Let_def)
    then show ?thesis
    proof cases
      case old
      from J(1) j p have "index (tb ! (p div ?bs)) < num_blocks ?c" by (auto simp: input_ok_def)
      with F l have "in_pool ?c l (slot_at ?bs tb p)" by (simp add: slot_at_def in_pool_def)
      with b'(4) old show ?thesis by auto
    next
      case shared
      have "p < length us" using shared(1) by (auto simp: all_rows_iff)
      from context_kv_agree [OF shared(3) this p] new [OF shared(1)] shared(2)
      show ?thesis by (simp add: row_slot_def row_kv_def)
    qed
  qed
  then have "contexts_ok fp md b' l jobs" unfolding contexts_ok_def b'(3) by blast
  with b'(1-4) show ?thesis by auto
qed

lemma row_contexts_eq:
  assumes "\<forall>j \<in> set jobs. input_ok (cpu_config b) j" "contexts_ok fp md b l jobs"
  shows "row_contexts b l (attention_seqs (map seq_input jobs)) =
    map (\<lambda>(ts, tb, p). take (Suc p) (context_kv fp md l ts)) (all_rows jobs)"
proof -
  let ?bs = "block_size (cpu_config b)"
  have "gather (cpu_entry b l) ?bs tb (Suc p) = take (Suc p) (context_kv fp md l ts)"
    if "(ts, tb, p) \<in> set (all_rows jobs)" for ts tb p
  proof (rule nth_equalityI)
    from that obtain start where j: "(ts, start, tb) \<in> set jobs" and p: "p < length ts"
      by (auto simp: all_rows_iff)
    from p show "length (gather (cpu_entry b l) ?bs tb (Suc p)) = length (take (Suc p) (context_kv fp md l ts))"
      by simp
    fix i assume "i < length (gather (cpu_entry b l) ?bs tb (Suc p))"
    with assms(2) j p show "gather (cpu_entry b l) ?bs tb (Suc p) ! i =
        take (Suc p) (context_kv fp md l ts) ! i"
      by (auto simp: contexts_ok_def slot_at_def)
  qed
  then show ?thesis
    unfolding row_contexts_def query_list_rows [OF assms(1)] by (auto simp: comp_def)
qed

lemma map2_map: "map2 h (map f xs) (map g xs) = map (\<lambda>x. h (f x) (g x)) xs"
  by (induction xs) simp_all

definition row_q :: "'f arith \<Rightarrow> 'f PagedQwen2 \<Rightarrow> nat \<Rightarrow> position \<Rightarrow> 'f row" where
  "row_q fp md l r = (case r of (ts, tb, p) \<Rightarrow> layer_q md (md_layers md ! l) p (hidden fp md l ts ! p))"

definition row_context :: "'f arith \<Rightarrow> 'f PagedQwen2 \<Rightarrow> nat \<Rightarrow> position \<Rightarrow> ('f row \<times> 'f row) list" where
  "row_context fp md l r = (case r of (ts, tb, p) \<Rightarrow> take (Suc p) (context_kv fp md l ts))"

lemma row_simps:
  assumes "\<forall>j \<in> set jobs. input_ok c j" "r \<in> set (all_rows jobs)" "l < length (md_layers md)"
  shows "layer_k md (md_layers md ! l) (br_pos (batch_row bs r)) (row_hidden fp md l r) = fst (row_kv fp md l r)"
    "layer_v (md_layers md ! l) (row_hidden fp md l r) = snd (row_kv fp md l r)"
    "layer_q md (md_layers md ! l) (br_pos (batch_row bs r)) (row_hidden fp md l r) = row_q fp md l r"
    "layer_out md (md_layers md ! l) (attend fp md (row_context fp md l r) (row_q fp md l r)) (row_hidden fp md l r) =
      row_hidden fp md (Suc l) r"
    "br_slot (batch_row bs r) = row_slot bs r"
proof -
  obtain ts tb p where r: "r = (ts, tb, p)" by (metis prod.exhaust)
  with assms(2) obtain start where j: "(ts, start, tb) \<in> set jobs" and p: "p < length ts"
    by (auto simp: all_rows_iff)
  with assms(1) have "length ts \<le> 2 ^ 32" by (auto simp: input_ok_def)
  with p have pos: "p mod 2 ^ 32 = p" by simp
  show "layer_k md (md_layers md ! l) (br_pos (batch_row bs r)) (row_hidden fp md l r) = fst (row_kv fp md l r)"
    "layer_v (md_layers md ! l) (row_hidden fp md l r) = snd (row_kv fp md l r)"
    "layer_q md (md_layers md ! l) (br_pos (batch_row bs r)) (row_hidden fp md l r) = row_q fp md l r"
    "layer_out md (md_layers md ! l) (attend fp md (row_context fp md l r) (row_q fp md l r)) (row_hidden fp md l r) =
      row_hidden fp md (Suc l) r"
    "br_slot (batch_row bs r) = row_slot bs r"
    using pos p
    by (simp_all add: r row_kv_def row_hidden_def row_q_def row_context_def batch_row_def row_slot_def
        context_kv_nth hidden_Suc_nth [OF assms(3) p] dense_row_def)
qed

lemma seqs_in_pool:
  assumes "\<forall>j \<in> set jobs. input_ok c j"
  shows "\<forall>s \<in> set (attention_seqs (map seq_input jobs)). seq_in_pool c s"
  using assms by (fastforce simp: attention_seqs_def seq_input_def input_ok_def seq_in_pool_def)

lemma rows_nonempty:
  assumes "batch_ok c jobs"
  shows "all_rows jobs \<noteq> []"
proof -
  from assms obtain ts start tb where "(ts, start, tb) \<in> set jobs" by (cases jobs) (auto simp: batch_ok_def)
  moreover from this assms have "start < length ts" by (auto simp: batch_ok_def input_ok_def)
  ultimately have "(ts, tb, start) \<in> set (all_rows jobs)" by (auto simp: all_rows_iff)
  then show ?thesis by auto
qed

lemma attend_rows:
  assumes md: "model_ok md w" and fit: "fits_model md (cpu_config b)" and inv: "cpu_inv b"
    and l: "l < length (md_layers md)" and ok: "batch_ok (cpu_config b) jobs"
    and ctx: "contexts_ok fp md b l jobs"
  defines "q \<equiv> concat (map (row_q fp md l) (all_rows jobs))"
  defines "out \<equiv> map (\<lambda>r. attend fp md (row_context fp md l r) (row_q fp md l r)) (all_rows jobs)"
  shows "cpu_paged_attention fp l (attention_seqs (map seq_input jobs)) q (replicate (length q) z) b =
      Ok (concat out) ()"
    "\<forall>x \<in> set out. length x = md_num_heads md * md_head_dim md"
proof -
  let ?c = "cpu_config b" and ?rows = "all_rows jobs" and ?H = "md_num_heads md" and ?d = "md_head_dim md"
  let ?seqs = "attention_seqs (map seq_input jobs)"
  from md have M: "0 < ?d" "0 < md_num_kv_heads md" "0 < ?H" "md_num_kv_heads md dvd ?H"
    by (simp_all add: model_ok_def)
  from fit have F: "0 < block_size ?c" "num_layers ?c = length (md_layers md)"
    "num_kv_heads ?c = md_num_kv_heads md" "head_dim ?c = ?d" by (simp_all add: fits_model_def)
  from ok have J: "\<forall>j \<in> set jobs. input_ok ?c j" by (simp add: batch_ok_def)
  have wq: "\<forall>x \<in> set (map (row_q fp md l) ?rows). length x = ?H * ?d"
    using context_kv_width(3) [OF md l] by (auto simp: row_q_def all_rows_iff)
  have len: "length q = query_rows ?seqs * (?H * ?d)"
    unfolding q_def length_concat_uniform [OF wq] query_rows_eq [OF J] by simp
  have "0 < query_rows ?seqs" using rows_nonempty [OF ok] query_rows_eq [OF J] by simp
  from check_attention_accepts [OF F(1) _ seqs_in_pool [OF J] _ _ _ M(3) this, of l "length q"] l F M len
  have chk: "check_attention ?c l ?seqs (length q) (length (replicate (length q) z)) = Ok ?H ()" by simp
  have "row_contexts b l ?seqs = map (row_context fp md l) ?rows"
    unfolding row_contexts_eq [OF J ctx] by (simp add: row_context_def)
  moreover have "dense_attention fp ?d ?H (?H div md_num_kv_heads md) (map (row_context fp md l) ?rows) q =
      concat out"
    unfolding q_def out_def by (subst dense_attention_rows [OF M(3) _ wq]) (simp_all add: map2_map)
  ultimately show "cpu_paged_attention fp l ?seqs q (replicate (length q) z) b = Ok (concat out) ()"
    using paged_attention_ok [OF inv F(1) _ chk, of fp] F(3,4) M(2) by simp
  have "\<forall>(k, v) \<in> set (row_context fp md l r). length v = md_num_kv_heads md * ?d" if "r \<in> set ?rows" for r
  proof -
    obtain ts tb p where r: "r = (ts, tb, p)" by (metis prod.exhaust)
    have "length (snd (context_kv fp md l ts ! i)) = md_num_kv_heads md * ?d" if "i < length ts" for i
      by (rule context_kv_width(2) [OF md l that])
    then show ?thesis by (fastforce simp: r row_context_def in_set_conv_nth)
  qed
  then show "\<forall>x \<in> set out. length x = ?H * ?d"
    using length_attend [OF md] by (auto simp: out_def)
qed

lemma run_layer_ok:
  assumes md: "model_ok md w" and fit: "fits_model md (cpu_config b)" and inv: "cpu_inv b"
    and l: "l < length (md_layers md)" and ok: "batch_ok (cpu_config b) jobs"
    and src: "sources_ok fp md b l jobs"
  shows "\<exists>b'. run_layer (cpu_store fp) md (map (batch_row (block_size (cpu_config b))) (all_rows jobs))
      (attention_seqs (map seq_input jobs)) l (md_layers md ! l) (map (row_hidden fp md l) (all_rows jobs)) b =
      Ok (map (row_hidden fp md (Suc l)) (all_rows jobs)) b' \<and>
    cpu_inv b' \<and> cpu_config b' = cpu_config b \<and> contexts_ok fp md b' l jobs \<and>
    (\<forall>m s. in_pool (cpu_config b) m s \<longrightarrow>
       m \<noteq> l \<or> s \<notin> row_slot (block_size (cpu_config b)) ` set (all_rows jobs) \<longrightarrow>
       cpu_entry b' m s = cpu_entry b m s)"
proof -
  let ?c = "cpu_config b" and ?rows = "all_rows jobs" and ?layer = "md_layers md ! l"
  let ?bs = "block_size ?c" and ?seqs = "attention_seqs (map seq_input jobs)"
  from ok have J: "\<forall>j \<in> set jobs. input_ok ?c j" by (simp add: batch_ok_def)
  note R = row_simps [OF J _ l]
  from write_rows_ok [OF md fit inv l ok src] obtain b' where
    b': "write_kv_batch ?c cpu_write_kv l (map (row_slot ?bs) ?rows) (concat (map (fst \<circ> row_kv fp md l) ?rows))
      (concat (map (snd \<circ> row_kv fp md l) ?rows)) b = Ok () b'"
    "cpu_inv b'" "cpu_config b' = ?c" "contexts_ok fp md b' l jobs"
    "\<forall>m s. in_pool ?c m s \<longrightarrow> m \<noteq> l \<or> s \<notin> row_slot ?bs ` set ?rows \<longrightarrow> cpu_entry b' m s = cpu_entry b m s"
    by (elim exE conjE) (rule that)
  let ?out = "map (\<lambda>r. attend fp md (row_context fp md l r) (row_q fp md l r)) ?rows"
  let ?q = "concat (map (row_q fp md l) ?rows)"
  from fit ok b'(3) have fit': "fits_model md (cpu_config b')" and ok': "batch_ok (cpu_config b') jobs" by simp_all
  note att = attend_rows [OF md fit' b'(2) l ok' b'(4)]
  have k: "map2 (\<lambda>r x. layer_k md ?layer (br_pos r) x) (map (batch_row ?bs) ?rows) (map (row_hidden fp md l) ?rows) =
      map (fst \<circ> row_kv fp md l) ?rows"
    and v: "map (layer_v ?layer) (map (row_hidden fp md l) ?rows) = map (snd \<circ> row_kv fp md l) ?rows"
    and q: "map2 (\<lambda>r x. layer_q md ?layer (br_pos r) x) (map (batch_row ?bs) ?rows) (map (row_hidden fp md l) ?rows) =
      map (row_q fp md l) ?rows"
    and s: "map br_slot (map (batch_row ?bs) ?rows) = map (row_slot ?bs) ?rows"
    and o: "map2 (layer_out md ?layer) ?out (map (row_hidden fp md l) ?rows) = map (row_hidden fp md (Suc l)) ?rows"
    unfolding map2_map by (simp_all add: R)
  have vec: "from_vec md (concat ?out) (length (map (batch_row ?bs) ?rows)) (md_num_heads md * md_head_dim md) =
      Ok ?out ()"
    using length_concat_uniform [OF att(2)] into_rows_concat [OF att(2)] by (simp add: from_vec_def)
  have "run_layer (cpu_store fp) md (map (batch_row ?bs) ?rows) ?seqs l ?layer (map (row_hidden fp md l) ?rows) b =
      Ok (map (row_hidden fp md (Suc l)) ?rows) b'"
    unfolding run_layer_def Let_def k v q s
    by (simp add: cpu_store_def b'(1) att(1) vec [simplified] o [simplified])
  with b'(2-5) show ?thesis by blast
qed

section \<open>The whole pass\<close>

lemma slot_in_pool:
  assumes "0 < block_size c" "\<forall>j \<in> set jobs. input_ok c j" "(ts, start, tb) \<in> set jobs" "p < length ts"
    and "m < num_layers c"
  shows "in_pool c m (slot_at (block_size c) tb p)"
  using assms by (fastforce simp: input_ok_def slot_at_def in_pool_def)

lemma layer_same:
  assumes "0 < block_size (cpu_config b)" "\<forall>j \<in> set jobs. input_ok (cpu_config b) j"
    and "m < num_layers (cpu_config b)" "cpu_config b' = cpu_config b"
    and same: "\<And>s. in_pool (cpu_config b) m s \<Longrightarrow> cpu_entry b' m s = cpu_entry b m s"
  shows "sources_ok fp md b m jobs \<Longrightarrow> sources_ok fp md b' m jobs"
    "contexts_ok fp md b m jobs \<Longrightarrow> contexts_ok fp md b' m jobs"
proof -
  have e: "cpu_entry b' m (slot_at (block_size (cpu_config b)) tb p) =
      cpu_entry b m (slot_at (block_size (cpu_config b)) tb p)"
    if "(ts, start, tb) \<in> set jobs" "p < length ts" for ts start tb p
    by (rule same [OF slot_in_pool [OF assms(1,2) that assms(3)]])
  show "contexts_ok fp md b' m jobs" if "contexts_ok fp md b m jobs"
    using that e by (fastforce simp: contexts_ok_def assms(4))
  show "sources_ok fp md b' m jobs" if src: "sources_ok fp md b m jobs"
    unfolding sources_ok_def
  proof (intro ballI, clarify)
    fix ts start tb p assume j: "(ts, start, tb) \<in> set jobs" and p: "p < start"
    from assms(2) j have "start < length ts" by (auto simp: input_ok_def)
    with p have "p < length ts" by simp
    note same = e [OF j this]
    from src j p have "supplied fp md b (all_rows jobs) m ts tb p" by (auto simp: sources_ok_def)
    then show "supplied fp md b' (all_rows jobs) m ts tb p"
      unfolding supplied_def assms(4) Let_def same .
  qed
qed

lemma run_layers_ok:
  assumes md: "model_ok md w" and fit: "fits_model md (cpu_config b)" and inv: "cpu_inv b"
    and ok: "batch_ok (cpu_config b) jobs"
    and l: "l \<le> length (md_layers md)"
    and src: "\<And>m. l \<le> m \<Longrightarrow> m < length (md_layers md) \<Longrightarrow> sources_ok fp md b m jobs"
  shows "\<exists>b'. run_layers (cpu_store fp) md (map (batch_row (block_size (cpu_config b))) (all_rows jobs))
      (attention_seqs (map seq_input jobs)) (enumerate l (drop l (md_layers md)))
      (map (row_hidden fp md l) (all_rows jobs)) b =
      Ok (map (row_hidden fp md (length (md_layers md))) (all_rows jobs)) b' \<and>
    cpu_inv b' \<and> cpu_config b' = cpu_config b \<and>
    (\<forall>m. l \<le> m \<longrightarrow> m < length (md_layers md) \<longrightarrow> contexts_ok fp md b' m jobs) \<and>
    (\<forall>m s. in_pool (cpu_config b) m s \<longrightarrow>
       m < l \<or> s \<notin> row_slot (block_size (cpu_config b)) ` set (all_rows jobs) \<longrightarrow>
       cpu_entry b' m s = cpu_entry b m s)"
  using fit inv ok l src
proof (induction "length (md_layers md) - l" arbitrary: l b)
  case 0
  then show ?case by simp
next
  case (Suc n)
  let ?c = "cpu_config b" and ?rows = "all_rows jobs"
  let ?bs = "block_size ?c" and ?seqs = "attention_seqs (map seq_input jobs)"
  from Suc.hyps(2) have l: "l < length (md_layers md)" by simp
  from Suc.prems(1) have F: "0 < ?bs" "num_layers ?c = length (md_layers md)" by (simp_all add: fits_model_def)
  from Suc.prems(3) have J: "\<forall>j \<in> set jobs. input_ok ?c j" by (simp add: batch_ok_def)
  from run_layer_ok [OF md Suc.prems(1,2) l Suc.prems(3) Suc.prems(5) [OF order_refl l]] obtain b1 where
    b1: "run_layer (cpu_store fp) md (map (batch_row ?bs) ?rows) ?seqs l (md_layers md ! l)
      (map (row_hidden fp md l) ?rows) b = Ok (map (row_hidden fp md (Suc l)) ?rows) b1"
    "cpu_inv b1" "cpu_config b1 = ?c" "contexts_ok fp md b1 l jobs"
    "\<forall>m s. in_pool ?c m s \<longrightarrow> m \<noteq> l \<or> s \<notin> row_slot ?bs ` set ?rows \<longrightarrow> cpu_entry b1 m s = cpu_entry b m s"
    by (elim exE conjE) (rule that)
  have "sources_ok fp md b1 m jobs" if "Suc l \<le> m" "m < length (md_layers md)" for m
    by (rule layer_same(1) [OF F(1) J _ b1(3) _ Suc.prems(5)]) (use that F(2) b1(5) in auto)
  moreover have "n = length (md_layers md) - Suc l" "Suc l \<le> length (md_layers md)" using Suc.hyps(2) by simp_all
  ultimately obtain b2 where
    b2: "run_layers (cpu_store fp) md (map (batch_row (block_size (cpu_config b1))) ?rows) ?seqs
      (enumerate (Suc l) (drop (Suc l) (md_layers md))) (map (row_hidden fp md (Suc l)) ?rows) b1 =
      Ok (map (row_hidden fp md (length (md_layers md))) ?rows) b2"
    "cpu_inv b2" "cpu_config b2 = cpu_config b1"
    "\<forall>m. Suc l \<le> m \<longrightarrow> m < length (md_layers md) \<longrightarrow> contexts_ok fp md b2 m jobs"
    "\<forall>m s. in_pool (cpu_config b1) m s \<longrightarrow>
       m < Suc l \<or> s \<notin> row_slot (block_size (cpu_config b1)) ` set ?rows \<longrightarrow> cpu_entry b2 m s = cpu_entry b1 m s"
    using Suc.hyps(1) [of "Suc l" b1] Suc.prems(1,3) b1(2,3) by auto
  have "contexts_ok fp md b2 m jobs" if m: "l \<le> m" "m < length (md_layers md)" for m
  proof (cases "m = l")
    case True
    have "contexts_ok fp md b2 l jobs"
      by (rule layer_same(2) [of b1]) (use F J l b1(3,4) b2(3,5) in simp_all)
    with True show ?thesis by simp
  next
    case False
    with m b2(4) show ?thesis by simp
  qed
  moreover have "run_layers (cpu_store fp) md (map (batch_row ?bs) ?rows) ?seqs (enumerate l (drop l (md_layers md)))
      (map (row_hidden fp md l) ?rows) b = Ok (map (row_hidden fp md (length (md_layers md))) ?rows) b2"
    using b1(1) b2(1) l b1(3) by (simp add: Cons_nth_drop_Suc [symmetric])
  ultimately show ?case using b2(2,3,5) b1(3,5) by (intro exI [of _ b2]) auto
qed

text \<open>The tokens of a batch are rows of the embedding and its positions rows of the rotary table.\<close>

definition tokens_ok :: "'f PagedQwen2 \<Rightarrow> u32 list \<Rightarrow> bool" where
  "tokens_ok md ts \<longleftrightarrow> length ts \<le> md_positions md \<and> (\<forall>t \<in> set ts. unat t < md_vocab md)"

lemma lookups_ok:
  assumes "\<forall>j \<in> set jobs. input_ok c j" "\<forall>(ts, start, tb) \<in> set jobs. tokens_ok md ts"
  shows "lookup_rows md (md_positions md) (map br_pos (map (batch_row bs) (all_rows jobs))) = Ok () ()"
    "lookup_rows md (md_vocab md) (map (unat \<circ> br_token) (map (batch_row bs) (all_rows jobs))) = Ok () ()"
proof -
  have "br_pos (batch_row bs r) < md_positions md" "unat (br_token (batch_row bs r)) < md_vocab md"
    if "r \<in> set (all_rows jobs)" for r
  proof -
    obtain ts tb p where r: "r = (ts, tb, p)" by (metis prod.exhaust)
    with that obtain start where j: "(ts, start, tb) \<in> set jobs" and p: "p < length ts"
      by (auto simp: all_rows_iff)
    with assms(2) have "length ts \<le> md_positions md" "unat (ts ! p) < md_vocab md"
      by (auto simp: tokens_ok_def)
    moreover have "p mod 2 ^ 32 \<le> p" by (rule mod_less_eq_dividend)
    ultimately show "br_pos (batch_row bs r) < md_positions md" "unat (br_token (batch_row bs r)) < md_vocab md"
      using p by (simp_all add: r batch_row_def)
  qed
  then show "lookup_rows md (md_positions md) (map br_pos (map (batch_row bs) (all_rows jobs))) = Ok () ()"
    "lookup_rows md (md_vocab md) (map (unat \<circ> br_token) (map (batch_row bs) (all_rows jobs))) = Ok () ()"
    by (auto simp: lookup_rows_def find_None_iff not_le split: option.splits)
qed

lemma forward_ok:
  assumes md: "model_ok md w" and fit: "fits_model md (cpu_config b)" and inv: "cpu_inv b"
    and ok: "batch_ok (cpu_config b) jobs" and tok: "\<forall>(ts, start, tb) \<in> set jobs. tokens_ok md ts"
    and src: "\<forall>m < length (md_layers md). sources_ok fp md b m jobs"
  shows "\<exists>b'. forward (cpu_store fp) md (map seq_input jobs) b =
      Ok (map (\<lambda>(ts, start, tb). next_logits fp md ts) jobs) b' \<and>
    cpu_inv b' \<and> cpu_config b' = cpu_config b \<and>
    (\<forall>m < length (md_layers md). contexts_ok fp md b' m jobs) \<and>
    (\<forall>m s. in_pool (cpu_config b) m s \<longrightarrow>
       s \<notin> row_slot (block_size (cpu_config b)) ` set (all_rows jobs) \<longrightarrow>
       cpu_entry b' m s = cpu_entry b m s)"
proof -
  let ?c = "cpu_config b" and ?rows = "all_rows jobs" and ?L = "length (md_layers md)"
  let ?bs = "block_size ?c" and ?seqs = "attention_seqs (map seq_input jobs)"
  from fit have bs: "0 < ?bs" by (simp add: fits_model_def)
  from ok have J: "\<forall>j \<in> set jobs. input_ok ?c j" by (simp add: batch_ok_def)
  from run_layers_ok [OF md fit inv ok le0, of fp] src obtain b' where
    b': "run_layers (cpu_store fp) md (map (batch_row ?bs) ?rows) ?seqs (enumerate 0 (md_layers md))
      (map (row_hidden fp md 0) ?rows) b = Ok (map (row_hidden fp md ?L) ?rows) b'"
    "cpu_inv b'" "cpu_config b' = ?c" "\<forall>m < ?L. contexts_ok fp md b' m jobs"
    "\<forall>m s. in_pool ?c m s \<longrightarrow> s \<notin> row_slot ?bs ` set ?rows \<longrightarrow> cpu_entry b' m s = cpu_entry b m s" by auto
  have emb: "map (md_embed md \<circ> br_token) (map (batch_row ?bs) ?rows) = map (row_hidden fp md 0) ?rows"
    by (auto simp: batch_row_def row_hidden_def hidden_0 all_rows_iff)
  have lasts: "those (map (nth_at (map (row_hidden fp md ?L) ?rows)) (last_rows 0 jobs)) =
      Some (map (\<lambda>(ts, start, tb). row_hidden fp md ?L (ts, tb, length ts - 1)) jobs)"
    using last_rows_nth [OF J, of "[]"] by simp
  have out: "(md_lm_head md \<circ> md_norm md) (case j of (ts, start, tb) \<Rightarrow> row_hidden fp md ?L (ts, tb, length ts - 1)) =
      (case j of (ts, start, tb) \<Rightarrow> next_logits fp md ts)" if "j \<in> set jobs" for j
  proof -
    obtain ts start tb where j: "j = (ts, start, tb)" by (metis prod.exhaust)
    with that J have "start < length ts" by (auto simp: input_ok_def)
    then have "hidden fp md ?L ts \<noteq> []" by (metis gr_implies_not0 length_0_conv length_hidden)
    then show ?thesis by (simp add: j row_hidden_def next_logits_def last_conv_nth)
  qed
  then have outs: "map (md_lm_head md \<circ> md_norm md)
      (map (\<lambda>(ts, start, tb). row_hidden fp md ?L (ts, tb, length ts - Suc 0)) jobs) =
      map (\<lambda>(ts, start, tb). next_logits fp md ts) jobs"
    by (simp add: case_prod_beta)
  have "bk_config (cpu_store fp) = cpu_config" by (simp add: cpu_store_def)
  then have "forward (cpu_store fp) md (map seq_input jobs) b =
      Ok (map (\<lambda>(ts, start, tb). next_logits fp md ts) jobs) b'"
    unfolding forward_def using b'(1) lasts
    by (simp add: batch_rows_eq [OF bs J] lookups_ok [OF J tok] emb outs del: map_map)
  with b'(2-5) show ?thesis by blast
qed

end
