(* ===== verification/Sched_Fed.thy ===== *)
theory Sched_Fed
  imports Sched_Props
begin

text \<open>
  Which blocks a step lets each sequence write, when nobody forks: the blocks an admitted
  sequence computes were free before, the block a continuing sequence writes has no other owner,
  and a block that an admitted sequence takes from the prefix cache was registered before or is
  computed by a sequence admitted just ahead of it.
\<close>

section \<open>Admissions\<close>

definition fresh_blocks :: "nat \<Rightarrow> RunningSeq \<Rightarrow> BlockId list" where
  "fresh_blocks bs q = drop (rn_cached q div bs) (bt_blocks (rn_table q))"

lemma fillingD:
  assumes "filling bs a q a'"
  shows "lone a \<Longrightarrow> lone a'" "cnt a b \<le> cnt a' b" "0 < cnt a b \<Longrightarrow> cached a' b = cached a b"
    "cached a' b = Some x \<Longrightarrow> cached a b = Some x \<or> b \<in> set (fresh_blocks bs q)"
    "b \<in> set (fresh_blocks bs q) \<Longrightarrow> cnt a b = 0"
    "b \<in> set (take (rn_cached q div bs) (bt_blocks (rn_table q))) \<Longrightarrow> cached a' b \<noteq> None"
    "b \<in> set (bt_blocks (rn_table q)) \<Longrightarrow> 0 < cnt a' b"
    "bs dvd rn_cached q" "rn_cached q \<le> bt_tokens (rn_table q) - 1"
proof -
  from assms have f: "filled a (rn_cached q div bs) (rn_table q) a'" "bs dvd rn_cached q"
    "rn_cached q \<le> bt_tokens (rn_table q) - 1" by (simp_all add: filling_def)
  then have c: "cnt a' b = cnt a b + count_list (bt_blocks (rn_table q)) b" by (simp add: filled_def)
  show "lone a \<Longrightarrow> lone a'" "0 < cnt a b \<Longrightarrow> cached a' b = cached a b"
    "cached a' b = Some x \<Longrightarrow> cached a b = Some x \<or> b \<in> set (fresh_blocks bs q)"
    "b \<in> set (fresh_blocks bs q) \<Longrightarrow> cnt a b = 0"
    using f(1) unfolding filled_def fresh_blocks_def by blast+
  show "cached a' b \<noteq> None" if "b \<in> set (take (rn_cached q div bs) (bt_blocks (rn_table q)))"
    using f(1) that unfolding filled_def by metis
  show "0 < cnt a' b" if "b \<in> set (bt_blocks (rn_table q))"
    using c that by (simp add: count_list_0_iff neq0_conv [symmetric] del: neq0_conv)
  show "cnt a b \<le> cnt a' b" "bs dvd rn_cached q" "rn_cached q \<le> bt_tokens (rn_table q) - 1"
    using c f(2,3) by simp_all
qed

lemma fillsD:
  assumes "fills bs a qs a'"
  shows "lone a \<Longrightarrow> lone a'" "cnt a b \<le> cnt a' b" "0 < cnt a b \<Longrightarrow> cached a' b = cached a b"
    "cached a' b = Some x \<Longrightarrow> cached a b = Some x \<or> (\<exists>q \<in> set qs. b \<in> set (fresh_blocks bs q))"
    "q \<in> set qs \<Longrightarrow> b \<in> set (fresh_blocks bs q) \<Longrightarrow> cnt a b = 0"
    "q \<in> set qs \<Longrightarrow> b \<in> set (take (rn_cached q div bs) (bt_blocks (rn_table q))) \<Longrightarrow> cached a' b \<noteq> None"
    "q \<in> set qs \<Longrightarrow> bs dvd rn_cached q \<and> rn_cached q \<le> bt_tokens (rn_table q) - 1"
  using assms
proof (induction qs arbitrary: a)
  case (Cons p qs)
  {
    case 1
    then obtain a1 where "filling bs a p a1" "fills bs a1 qs a'" by auto
    from fillingD(1) [OF this(1) 1(1)] Cons.IH(1) [OF _ this(2)] show ?case by simp
  next
    case 2
    then obtain a1 where "filling bs a p a1" "fills bs a1 qs a'" by auto
    from fillingD(2) [OF this(1), of b] Cons.IH(2) [OF this(2)] show ?case by simp
  next
    case 3
    then obtain a1 where f: "filling bs a p a1" "fills bs a1 qs a'" by auto
    from 3(1) fillingD(2) [OF f(1), of b] have "0 < cnt a1 b" by simp
    with Cons.IH(3) [OF _ f(2)] fillingD(3) [OF f(1) 3(1)] show ?case by simp
  next
    case 4
    then obtain a1 where f: "filling bs a p a1" "fills bs a1 qs a'" by auto
    from Cons.IH(4) [OF 4(1) f(2)] fillingD(4) [OF f(1), of b x] show ?case by auto
  next
    case 5
    then obtain a1 where f: "filling bs a p a1" "fills bs a1 qs a'" by auto
    show ?case
    proof (cases "q = p")
      case True
      with fillingD(5) [OF f(1)] 5(2) show ?thesis by simp
    next
      case False
      with 5 Cons.IH(5) [OF _ _ f(2)] fillingD(2) [OF f(1), of b] show ?thesis by simp
    qed
  next
    case 6
    then obtain a1 where f: "filling bs a p a1" "fills bs a1 qs a'" by auto
    show ?case
    proof (cases "q \<in> set qs")
      case True
      from Cons.IH(6) [OF this 6(2) f(2)] show ?thesis .
    next
      case False
      with 6 have q: "q = p" by simp
      have "0 < cnt a1 b" using fillingD(7) [OF f(1)] 6(2) q by (meson in_set_takeD)
      with fillingD(6) [OF f(1)] 6(2) q Cons.IH(3) [OF _ f(2)] show ?thesis by simp
    qed
  next
    case 7
    then obtain a1 where f: "filling bs a p a1" "fills bs a1 qs a'" by auto
    from 7(1) Cons.IH(7) [OF _ f(2)] fillingD(8,9) [OF f(1)] show ?case by auto
  }
qed simp_all

lemma fills_separate:
  assumes "fills bs a qs a'" "distinct qs" "q \<in> set qs" "r \<in> set qs" "q \<noteq> r"
    and "b \<in> set (fresh_blocks bs q)"
  shows "b \<notin> set (fresh_blocks bs r)"
  using assms
proof (induction qs arbitrary: a q r)
  case (Cons p qs)
  then obtain a1 where f: "filling bs a p a1" "fills bs a1 qs a'" by auto
  have own: "0 < cnt a1 x" if "x \<in> set (fresh_blocks bs p)" for x
    using fillingD(7) [OF f(1)] that by (auto simp: fresh_blocks_def dest: in_set_dropD)
  consider "q = p" "r \<in> set qs" | "r = p" "q \<in> set qs" | "q \<in> set qs" "r \<in> set qs"
    using Cons.prems(3-5) by auto
  then show ?case
  proof cases
    case 1
    with own [of b] Cons.prems(6) fillsD(5) [OF f(2), of r b] show ?thesis by auto
  next
    case 2
    with own [of b] Cons.prems(6) fillsD(5) [OF f(2), of q b] show ?thesis by auto
  next
    case 3
    from Cons.IH [OF f(2) _ 3 Cons.prems(5,6)] Cons.prems(2) show ?thesis by simp
  qed
qed simp

section \<open>Who writes where\<close>

text \<open>What the engine knows of a running sequence: its tokens, the prompt among them, and the slots.\<close>

definition known :: "(SeqId \<Rightarrow> u32 list) \<Rightarrow> RunningSeq \<Rightarrow> bool" where
  "known tok q \<longleftrightarrow> bt_tokens (rn_table q) = length (tok (rn_id q)) \<and> tok (rn_id q) \<noteq> [] \<and>
     length (rn_prompt q) \<le> length (tok (rn_id q)) \<and>
     rn_prompt q = take (length (rn_prompt q)) (tok (rn_id q))"

definition feeding :: "(PrefixEntry \<Rightarrow> u32 list) \<Rightarrow> BlockAllocator \<Rightarrow> Scheduler \<Rightarrow> RunningSeq list \<Rightarrow>
    RunningSeq list \<Rightarrow> (SeqId \<Rightarrow> u32 list) \<Rightarrow> bool" where
  "feeding E a s olds qs tok \<longleftrightarrow> core_inv E s \<and> running s = olds @ qs \<and>
     fills (sc_block_size s) a qs (sc_alloc s) \<and> lone (sc_alloc s) \<and>
     (\<forall>q \<in> set olds. length (rn_prompt q) < length (tok (rn_id q)) \<and> holds a (rn_table q)) \<and>
     (\<forall>q \<in> set (running s). known tok q)"

definition begins :: "SeqId set \<Rightarrow> (SeqId \<Rightarrow> u32 list) \<Rightarrow> RunningSeq \<Rightarrow> nat" where
  "begins new tok q = (if rn_id q \<in> new then rn_cached q else length (tok (rn_id q)) - 1)"

definition target :: "nat \<Rightarrow> SeqId set \<Rightarrow> (SeqId \<Rightarrow> u32 list) \<Rightarrow> RunningSeq \<Rightarrow> BlockId set" where
  "target bs new tok q = set (drop (begins new tok q div bs) (bt_blocks (rn_table q)))"

lemma feedingD:
  assumes "feeding E a s olds qs tok"
  shows "core_inv E s" "running s = olds @ qs" "fills (sc_block_size s) a qs (sc_alloc s)"
    "lone (sc_alloc s)" "q \<in> set olds \<Longrightarrow> length (rn_prompt q) < length (tok (rn_id q))"
    "q \<in> set olds \<Longrightarrow> holds a (rn_table q)" "q \<in> set (running s) \<Longrightarrow> known tok q"
    "distinct (running s)" "0 < sc_block_size s"
    "q \<in> set olds \<Longrightarrow> rn_id q \<notin> rn_id ` set qs" "distinct qs"
proof -
  from assms show c: "core_inv E s" "running s = olds @ qs" "fills (sc_block_size s) a qs (sc_alloc s)"
    "lone (sc_alloc s)" "q \<in> set olds \<Longrightarrow> length (rn_prompt q) < length (tok (rn_id q))"
    "q \<in> set olds \<Longrightarrow> holds a (rn_table q)" "q \<in> set (running s) \<Longrightarrow> known tok q"
    by (auto simp: feeding_def)
  from core_invD(10) [OF c(1)] have d: "distinct (map rn_id (olds @ qs))"
    using c(2) by (auto simp: seq_ids_def)
  then show "distinct (running s)" unfolding c(2) by (rule distinct_map [THEN iffD1, THEN conjunct1])
  then show "distinct qs" using c(2) by simp
  show "0 < sc_block_size s" by (rule core_invD(3) [OF c(1)])
  show "rn_id q \<notin> rn_id ` set qs" if "q \<in> set olds" using d that by auto
qed

lemma begins_new: "q \<in> set qs \<Longrightarrow> begins (rn_id ` set qs) tok q = rn_cached q"
  by (simp add: begins_def)

lemma begins_old:
  assumes "feeding E a s olds qs tok" "q \<in> set olds"
  shows "begins (rn_id ` set qs) tok q = length (tok (rn_id q)) - 1"
  using feedingD(10) [OF assms(1,2)] by (simp add: begins_def)

lemma begins_less:
  assumes f: "feeding E a s olds qs tok" and q: "q \<in> set (running s)"
  shows "begins (rn_id ` set qs) tok q < length (tok (rn_id q))"
proof (cases "q \<in> set qs")
  case True
  have "rn_cached q \<le> bt_tokens (rn_table q) - 1" using fillsD(7) [OF feedingD(3) [OF f] True] by simp
  with feedingD(7) [OF f q] show ?thesis unfolding begins_new [OF True] by (cases "tok (rn_id q)") (auto simp: known_def)
next
  case False
  with q feedingD(2) [OF f] have "q \<in> set olds" by simp
  with feedingD(7) [OF f q] show ?thesis by (simp add: begins_old [OF f] known_def)
qed

lemma target_new:
  "q \<in> set qs \<Longrightarrow> target bs (rn_id ` set qs) tok q = set (fresh_blocks bs q)"
  by (simp add: target_def begins_new fresh_blocks_def)

lemma target_old:
  assumes f: "feeding E a s olds qs tok" and q: "q \<in> set olds"
    and x: "x \<in> target (sc_block_size s) (rn_id ` set qs) tok q"
  shows "cached (sc_alloc s) x = None"
proof (rule ccontr)
  let ?bs = "sc_block_size s" and ?n = "length (tok (rn_id q))"
  assume "cached (sc_alloc s) x \<noteq> None"
  then obtain e k where c: "cached (sc_alloc s) x = Some (e, k)" by auto
  from x obtain i where i: "(?n - 1) div ?bs \<le> i" "i < length (bt_blocks (rn_table q))"
    "x = bt_blocks (rn_table q) ! i"
    by (auto simp: target_def begins_old [OF f q] in_set_conv_nth)
      (metis le_add1 less_diff_conv nth_drop add.commute less_imp_le_nat)
  have "q \<in> set (running s)" using q feedingD(2) [OF f] by simp
  from core_invD(8) [OF feedingD(1) [OF f] this] c i have "(i + 1) * ?bs \<le> length (rn_prompt q)"
    by (auto simp: running_ok_def prompt_cached_def)
  moreover have "length (rn_prompt q) \<le> ?n - 1" using feedingD(5) [OF f q] by simp
  ultimately have "i + 1 \<le> (?n - 1) div ?bs"
    using feedingD(9) [OF f] by (simp add: less_eq_div_iff_mult_less_eq)
  with i(1) show False by simp
qed

text \<open>Two owners of a block count for two.\<close>

lemma owned_twice:
  assumes "distinct xs" "q \<in> set xs" "r \<in> set xs" "q \<noteq> r"
    and "x \<in> set (bt_blocks (rn_table q))" "x \<in> set (bt_blocks (rn_table r))"
  shows "2 \<le> owned (map rn_table xs) x"
proof -
  have one: "1 \<le> count_list (bt_blocks (rn_table p)) x" if "x \<in> set (bt_blocks (rn_table p))" for p
    using that by (simp add: Suc_le_eq count_list_0_iff neq0_conv [symmetric] del: neq0_conv)
  have "owned (map rn_table xs) x = (\<Sum>p \<leftarrow> xs. count_list (bt_blocks (rn_table p)) x)"
    by (simp add: owned_def comp_def)
  also have "\<dots> = (\<Sum>p \<in> set xs. count_list (bt_blocks (rn_table p)) x)"
    using assms(1) by (rule sum_list_distinct_conv_sum_set)
  also have "\<dots> \<ge> (\<Sum>p \<in> {q, r}. count_list (bt_blocks (rn_table p)) x)"
    by (rule sum_mono2) (use assms(2,3) in auto)
  finally show ?thesis using one [OF assms(5)] one [OF assms(6)] assms(4) by simp
qed

text \<open>
  A block a sequence writes is in another one's table only when both were admitted and the other
  took it from the cache.
\<close>

lemma target_shared:
  assumes f: "feeding E a s olds qs tok" and q: "q \<in> set (running s)" and r: "r \<in> set (running s)" "q \<noteq> r"
    and x: "x \<in> target (sc_block_size s) (rn_id ` set qs) tok q" "x \<in> set (bt_blocks (rn_table r))"
  shows "q \<in> set qs" "r \<in> set qs" "x \<notin> target (sc_block_size s) (rn_id ` set qs) tok r"
proof -
  note F = feedingD [OF f]
  have xq: "x \<in> set (bt_blocks (rn_table q))" using x(1) by (auto simp: target_def dest: in_set_dropD)
  show qn: "q \<in> set qs"
  proof (rule ccontr)
    assume "q \<notin> set qs"
    with q F(2) have "q \<in> set olds" by simp
    from target_old [OF f this x(1)] F(4) have "cnt (sc_alloc s) x \<le> 1" by (simp add: lone_def)
    moreover have "2 \<le> cnt (sc_alloc s) x"
      using owned_twice [OF F(8) q r xq x(2)] core_invD(7) [OF F(1)] by simp
    ultimately show False by simp
  qed
  have xf: "x \<in> set (fresh_blocks (sc_block_size s) q)" using x(1) target_new [OF qn] by simp
  show rn: "r \<in> set qs"
  proof (rule ccontr)
    assume "r \<notin> set qs"
    with r F(2) have "r \<in> set olds" by simp
    from F(6) [OF this] x(2) have "0 < cnt a x" by (simp add: holds_def)
    with fillsD(5) [OF F(3) qn xf] show False by simp
  qed
  show "x \<notin> target (sc_block_size s) (rn_id ` set qs) tok r"
    using fills_separate [OF F(3,11) qn rn r(2) xf] target_new [OF rn] by simp
qed

end
