(* ===== verification/Engine_Feed.thy ===== *)
theory Engine_Feed
  imports Batch Sched_Fed Engine
begin

text \<open>
  The batch that a scheduler step makes the engine run, seen from the pool: its written slots are
  distinct, and every position it does not compute is either in the store untouched or written by
  a sequence with the same tokens. So the forward pass computes the reference, and afterwards the
  store again holds the reference's K/V for every running sequence and every cached block.
\<close>

text \<open>
  \<open>tb\<close> gives the table after the step, which extends the table of the admission.
\<close>

definition job_of :: "SeqId set \<Rightarrow> (SeqId \<Rightarrow> u32 list) \<Rightarrow> (SeqId \<Rightarrow> BlockId list) \<Rightarrow> RunningSeq \<Rightarrow> job" where
  "job_of new tok tb q = (tok (rn_id q), begins new tok q, tb (rn_id q))"

definition grows :: "(SeqId \<Rightarrow> BlockId list) \<Rightarrow> RunningSeq \<Rightarrow> bool" where
  "grows tb q \<longleftrightarrow> prefix (bt_blocks (rn_table q)) (tb (rn_id q))"

lemma running_position:
  assumes f: "feeding E a s olds qs tok" and q: "q \<in> set (running s)" and p: "p < length (tok (rn_id q))"
  shows "p div sc_block_size s < length (bt_blocks (rn_table q))"
    "grows tb q \<Longrightarrow> slot_at (sc_block_size s) (tb (rn_id q)) p =
       new_slot (bt_blocks (rn_table q) ! (p div sc_block_size s)) (p mod sc_block_size s)"
proof -
  note F = feedingD [OF f]
  have "p < bt_tokens (rn_table q)" using F(7) [OF q] p by (simp add: known_def)
  from position_block(1) [OF core_distinct(1) [OF F(1) q] this]
  show i: "p div sc_block_size s < length (bt_blocks (rn_table q))" .
  show "slot_at (sc_block_size s) (tb (rn_id q)) p =
       new_slot (bt_blocks (rn_table q) ! (p div sc_block_size s)) (p mod sc_block_size s)" if "grows tb q"
    using prefix_nth [OF that [unfolded grows_def] i] by (simp add: slot_at_def)
qed

lemma position_target:
  assumes f: "feeding E a s olds qs tok" and q: "q \<in> set (running s)"
    and p: "begins (rn_id ` set qs) tok q \<le> p" "p < length (tok (rn_id q))"
  shows "bt_blocks (rn_table q) ! (p div sc_block_size s) \<in>
    target (sc_block_size s) (rn_id ` set qs) tok q"
proof -
  let ?bs = "sc_block_size s" and ?b = "begins (rn_id ` set qs) tok q"
  have le: "?b div ?bs \<le> p div ?bs" using p(1) by (rule div_le_mono)
  have "drop (?b div ?bs) (bt_blocks (rn_table q)) ! (p div ?bs - ?b div ?bs) = bt_blocks (rn_table q) ! (p div ?bs)"
    using le running_position(1) [OF f q p(2)] by simp
  moreover have "p div ?bs - ?b div ?bs < length (drop (?b div ?bs) (bt_blocks (rn_table q)))"
    using le running_position(1) [OF f q p(2)] by simp
  ultimately show ?thesis unfolding target_def by (metis nth_mem)
qed

lemma job_rowsE:
  assumes "r \<in> set (all_rows (map (job_of new tok tb) K))"
  obtains q p where "q \<in> set K" "begins new tok q \<le> p" "p < length (tok (rn_id q))"
    "r = (tok (rn_id q), tb (rn_id q), p)"
proof -
  obtain ts tb' p where r: "r = (ts, tb', p)" by (metis prod.exhaust)
  from assms show thesis by (auto simp: r all_rows_iff job_of_def intro: that [unfolded r])
qed

lemma job_rowsI:
  "q \<in> set K \<Longrightarrow> begins new tok q \<le> p \<Longrightarrow> p < length (tok (rn_id q)) \<Longrightarrow>
   (tok (rn_id q), tb (rn_id q), p) \<in> set (all_rows (map (job_of new tok tb) K))"
  by (auto simp: all_rows_iff job_of_def)

text \<open>Slots of a table are told apart by their positions.\<close>

lemma slot_position:
  assumes f: "feeding E a s olds qs tok" and q: "q \<in> set (running s)" "grows tb q"
    and p: "p < length (tok (rn_id q))" and u: "u < length (tok (rn_id q))"
    and eq: "slot_at (sc_block_size s) (tb (rn_id q)) p = slot_at (sc_block_size s) (tb (rn_id q)) u"
  shows "p = u"
proof -
  let ?bs = "sc_block_size s"
  note F = feedingD [OF f]
  from eq have e: "bt_blocks (rn_table q) ! (p div ?bs) = bt_blocks (rn_table q) ! (u div ?bs)" "p mod ?bs = u mod ?bs"
    unfolding running_position(2) [OF f q(1) p q(2)] running_position(2) [OF f q(1) u q(2)]
    by (auto simp: new_slot_def)
  from e(1) running_position(1) [OF f q(1) p] running_position(1) [OF f q(1) u] core_distinct(3) [OF F(1) q(1)]
  have "p div ?bs = u div ?bs" by (simp add: nth_eq_iff_index_eq)
  with e(2) show ?thesis by (metis div_mult_mod_eq)
qed

lemma distinct_concat_map:
  assumes "distinct xs" "\<And>x. x \<in> set xs \<Longrightarrow> distinct (f x)"
    and "\<And>x y. x \<in> set xs \<Longrightarrow> y \<in> set xs \<Longrightarrow> x \<noteq> y \<Longrightarrow> set (f x) \<inter> set (f y) = {}"
  shows "distinct (concat (map f xs))"
  using assms by (induction xs) fastforce+

lemma fed_rows_distinct:
  assumes f: "feeding E a s olds qs tok" and K: "set K \<subseteq> set (running s)" "distinct K" "\<forall>q \<in> set K. grows tb q"
  shows "distinct (map (row_slot (sc_block_size s)) (all_rows (map (job_of (rn_id ` set qs) tok tb) K)))"
proof -
  let ?bs = "sc_block_size s" and ?new = "rn_id ` set qs"
  let ?slots = "\<lambda>q. map (slot_at ?bs (tb (rn_id q))) [begins ?new tok q..<length (tok (rn_id q))]"
  have "map (row_slot ?bs) (all_rows (map (job_of ?new tok tb) K)) = concat (map ?slots K)"
    by (simp add: all_rows_def job_rows_def job_of_def map_concat comp_def row_slot_def)
  moreover have "distinct (concat (map ?slots K))"
  proof (rule distinct_concat_map [OF K(2)])
    show "distinct (?slots q)" if q: "q \<in> set K" for q
    proof -
      have "inj_on (slot_at ?bs (tb (rn_id q))) {begins ?new tok q..<length (tok (rn_id q))}"
      proof (rule inj_onI)
        fix p u assume "p \<in> {begins ?new tok q..<length (tok (rn_id q))}"
          "u \<in> {begins ?new tok q..<length (tok (rn_id q))}"
          and eq: "slot_at ?bs (tb (rn_id q)) p = slot_at ?bs (tb (rn_id q)) u"
        then have "p < length (tok (rn_id q))" "u < length (tok (rn_id q))" by simp_all
        moreover have "q \<in> set (running s)" "grows tb q" using q K by auto
        ultimately show "p = u" using slot_position [OF f] eq by blast
      qed
      then show ?thesis by (simp add: distinct_map)
    qed
    show "set (?slots q) \<inter> set (?slots r) = {}" if q: "q \<in> set K" and r: "r \<in> set K" and ne: "q \<noteq> r" for q r
    proof (rule ccontr)
      assume "set (?slots q) \<inter> set (?slots r) \<noteq> {}"
      then obtain p u where p: "begins ?new tok q \<le> p" "p < length (tok (rn_id q))"
        and u: "begins ?new tok r \<le> u" "u < length (tok (rn_id r))"
        and eq: "slot_at ?bs (tb (rn_id q)) p = slot_at ?bs (tb (rn_id r)) u" by auto
      from q r K have qr: "q \<in> set (running s)" "r \<in> set (running s)" "grows tb q" "grows tb r" by auto
      from eq have e: "bt_blocks (rn_table q) ! (p div ?bs) = bt_blocks (rn_table r) ! (u div ?bs)"
        unfolding running_position(2) [OF f qr(1) p(2) qr(3)] running_position(2) [OF f qr(2) u(2) qr(4)]
        by (auto simp: new_slot_def)
      have "bt_blocks (rn_table q) ! (p div ?bs) \<in> set (bt_blocks (rn_table r))"
        unfolding e using running_position(1) [OF f qr(2) u(2)] by simp
      from target_shared(3) [OF f qr(1,2) ne position_target [OF f qr(1) p] this]
        position_target [OF f qr(2) u] e show False by simp
    qed
  qed
  ultimately show ?thesis by simp
qed

section \<open>Where the rest of a context comes from\<close>

lemma cached_tokens:
  assumes f: "feeding E a s olds qs tok" and q: "q \<in> set (running s)" and i: "i < length (bt_blocks (rn_table q))"
    and c: "cached (sc_alloc s) (bt_blocks (rn_table q) ! i) = Some (e, k)"
  shows "(i + 1) * sc_block_size s \<le> length (tok (rn_id q))"
    "E e = take ((i + 1) * sc_block_size s) (tok (rn_id q))"
proof -
  note F = feedingD [OF f]
  from core_invD(8) [OF F(1) q] i c have
    P: "(i + 1) * sc_block_size s \<le> length (rn_prompt q)" "E e = take ((i + 1) * sc_block_size s) (rn_prompt q)"
    unfolding running_ok_def prompt_cached_def by blast+
  from F(7) [OF q] have "length (rn_prompt q) \<le> length (tok (rn_id q))"
    "rn_prompt q = take (length (rn_prompt q)) (tok (rn_id q))" by (simp_all add: known_def)
  with P show "(i + 1) * sc_block_size s \<le> length (tok (rn_id q))"
    "E e = take ((i + 1) * sc_block_size s) (tok (rn_id q))"
    by (simp, metis min.absorb1 take_take)
qed

text \<open>A cached block is computed by an admitted sequence, or nobody writes it and it was cached before.\<close>

lemma cached_block_source:
  assumes f: "feeding E a s olds qs tok" and c: "cached (sc_alloc s) x = Some (e, k)"
  obtains (computed) q i where "q \<in> set qs" "i < length (bt_blocks (rn_table q))" "x = bt_blocks (rn_table q) ! i"
    "begins (rn_id ` set qs) tok q \<le> i * sc_block_size s" "(i + 1) * sc_block_size s \<le> length (tok (rn_id q))"
    "E e = take ((i + 1) * sc_block_size s) (tok (rn_id q))"
  | (kept) "cached a x = Some (e, k)"
    "\<forall>q \<in> set (running s). x \<notin> target (sc_block_size s) (rn_id ` set qs) tok q"
proof (cases "\<exists>q \<in> set qs. x \<in> set (fresh_blocks (sc_block_size s) q)")
  case True
  then obtain q where q: "q \<in> set qs" "x \<in> set (fresh_blocks (sc_block_size s) q)" by blast
  let ?bs = "sc_block_size s" and ?k = "rn_cached q div sc_block_size s"
  have qr: "q \<in> set (running s)" using q(1) feedingD(2) [OF f] by simp
  from q(2) obtain j where j: "j < length (bt_blocks (rn_table q)) - ?k" "x = bt_blocks (rn_table q) ! (?k + j)"
    by (auto simp: fresh_blocks_def in_set_conv_nth)
  then have i: "?k + j < length (bt_blocks (rn_table q))" by simp
  have "rn_cached q = ?k * ?bs" using fillsD(7) [OF feedingD(3) [OF f] q(1)] by simp
  then have "begins (rn_id ` set qs) tok q \<le> (?k + j) * ?bs"
    by (simp add: begins_new [OF q(1)] add_mult_distrib)
  with computed [OF q(1) i j(2)] cached_tokens [OF f qr i] c j(2) show thesis by simp
next
  case False
  then have "cached a x = Some (e, k)" using fillsD(4) [OF feedingD(3) [OF f] c] by blast
  moreover have "x \<notin> target (sc_block_size s) (rn_id ` set qs) tok q" if "q \<in> set (running s)" for q
  proof (cases "q \<in> set qs")
    case True
    with False show ?thesis by (simp add: target_new)
  next
    case old: False
    with that feedingD(2) [OF f] have "q \<in> set olds" by simp
    with target_old [OF f this] c show ?thesis by auto
  qed
  ultimately show thesis using kept by blast
qed

definition cached_kv :: "'f arith \<Rightarrow> 'f PagedQwen2 \<Rightarrow> (PrefixEntry \<Rightarrow> u32 list) \<Rightarrow> BlockAllocator \<Rightarrow>
    'f CpuBackend \<Rightarrow> bool" where
  "cached_kv fp md E a b \<longleftrightarrow> (\<forall>x e k. cached a x = Some (e, k) \<longrightarrow>
     block_size (cpu_config b) \<le> length (E e) \<and>
     (\<forall>l < length (md_layers md). \<forall>i < block_size (cpu_config b).
        cpu_entry b l (new_slot x i) = context_kv fp md l (E e) ! (length (E e) - block_size (cpu_config b) + i)))"

definition stored_kv :: "'f arith \<Rightarrow> 'f PagedQwen2 \<Rightarrow> 'f CpuBackend \<Rightarrow> u32 list \<Rightarrow> nat \<Rightarrow> BlockTable \<Rightarrow> bool" where
  "stored_kv fp md b ts n t \<longleftrightarrow> (\<forall>l < length (md_layers md). \<forall>p < n.
     cpu_entry b l (slot_at (block_size (cpu_config b)) (bt_blocks t) p) = context_kv fp md l ts ! p)"

text \<open>A slot in a block that no sequence writes is not a written slot.\<close>

lemma unwritten_slot:
  assumes f: "feeding E a s olds qs tok" and K: "set K \<subseteq> set (running s)" "\<forall>q \<in> set K. grows tb q"
    and x: "\<And>q. q \<in> set K \<Longrightarrow> x \<notin> target (sc_block_size s) (rn_id ` set qs) tok q"
  shows "new_slot x i \<notin> row_slot (sc_block_size s) ` set (all_rows (map (job_of (rn_id ` set qs) tok tb) K))"
proof
  assume "new_slot x i \<in> row_slot (sc_block_size s) ` set (all_rows (map (job_of (rn_id ` set qs) tok tb) K))"
  then obtain r where r: "r \<in> set (all_rows (map (job_of (rn_id ` set qs) tok tb) K))"
    "new_slot x i = row_slot (sc_block_size s) r" by blast
  from r(1) obtain q u where u: "q \<in> set K" "begins (rn_id ` set qs) tok q \<le> u" "u < length (tok (rn_id q))"
    "r = (tok (rn_id q), tb (rn_id q), u)" by (rule job_rowsE)
  from u(1) K have q: "q \<in> set (running s)" "grows tb q" by auto
  from r(2) u(4) have "x = bt_blocks (rn_table q) ! (u div sc_block_size s)"
    using running_position(2) [OF f q(1) u(3) q(2)] by (simp add: row_slot_def new_slot_def)
  with position_target [OF f q(1) u(2,3)] x [OF u(1)] show False by simp
qed

lemma supplied_old:
  assumes f: "feeding E a s olds qs tok" and bs: "block_size (cpu_config b) = sc_block_size s"
    and K: "set K \<subseteq> set (running s)" "\<forall>q \<in> set K. grows tb q"
    and q: "q \<in> set K" "q \<in> set olds" and p: "p < begins (rn_id ` set qs) tok q"
    and st: "stored_kv fp md b (tok (rn_id q)) (length (tok (rn_id q)) - 1) (rn_table q)"
    and l: "l < length (md_layers md)"
  shows "supplied fp md b (all_rows (map (job_of (rn_id ` set qs) tok tb) K)) l (tok (rn_id q)) (tb (rn_id q)) p"
proof -
  let ?bs = "sc_block_size s" and ?new = "rn_id ` set qs"
  let ?rows = "all_rows (map (job_of ?new tok tb) K)" and ?x = "bt_blocks (rn_table q) ! (p div ?bs)"
  from q K have qr: "q \<in> set (running s)" "grows tb q" by auto
  have n: "p < length (tok (rn_id q)) - 1" "p < length (tok (rn_id q))"
    using p begins_old [OF f q(2)] by simp_all
  note P = running_position [OF f qr(1) n(2)]
  have slot: "slot_at ?bs (tb (rn_id q)) p = new_slot ?x (p mod ?bs)" by (rule P(2) [OF qr(2)])
  have "slot_at ?bs (tb (rn_id q)) p \<notin> row_slot ?bs ` set ?rows"
  proof
    assume "slot_at ?bs (tb (rn_id q)) p \<in> row_slot ?bs ` set ?rows"
    then obtain r where r: "r \<in> set ?rows" "slot_at ?bs (tb (rn_id q)) p = row_slot ?bs r" by blast
    from r(1) obtain q2 u where u: "q2 \<in> set K" "begins ?new tok q2 \<le> u" "u < length (tok (rn_id q2))"
      "r = (tok (rn_id q2), tb (rn_id q2), u)" by (rule job_rowsE)
    from u(1) K have q2: "q2 \<in> set (running s)" "grows tb q2" by auto
    show False
    proof (cases "q2 = q")
      case True
      with r(2) u slot_position [OF f qr n(2)] p show False by (auto simp: row_slot_def)
    next
      case False
      have "?x = bt_blocks (rn_table q2) ! (u div ?bs)"
        using r(2) u(4) slot running_position(2) [OF f q2(1) u(3) q2(2)] by (simp add: row_slot_def new_slot_def)
      then have "bt_blocks (rn_table q2) ! (u div ?bs) \<in> set (bt_blocks (rn_table q))"
        using P(1) by (metis nth_mem)
      from target_shared(2) [OF f q2(1) qr(1) False position_target [OF f q2(1) u(2,3)] this]
        feedingD(10) [OF f q(2)] show False by simp
    qed
  qed
  moreover have "cpu_entry b l (slot_at ?bs (tb (rn_id q)) p) = context_kv fp md l (tok (rn_id q)) ! p"
    using st l n(1) unfolding stored_kv_def bs slot by (simp add: slot_at_def)
  ultimately show ?thesis by (simp add: supplied_def bs)
qed

lemma supplied_new:
  assumes f: "feeding E' a s olds qs tok" and bs: "block_size (cpu_config b) = sc_block_size s"
    and K: "set K \<subseteq> set (running s)" "\<forall>q \<in> set K. grows tb q" "set qs \<subseteq> set K"
    and cv: "cached_kv fp md E a b" and E: "\<And>x e k. cached a x = Some (e, k) \<Longrightarrow> E' e = E e"
    and q: "q \<in> set qs" and p: "p < begins (rn_id ` set qs) tok q"
    and l: "l < length (md_layers md)"
  shows "supplied fp md b (all_rows (map (job_of (rn_id ` set qs) tok tb) K)) l (tok (rn_id q)) (tb (rn_id q)) p"
proof -
  let ?bs = "sc_block_size s" and ?new = "rn_id ` set qs" and ?t = "tok (rn_id q)"
  let ?rows = "all_rows (map (job_of ?new tok tb) K)" and ?j = "p div sc_block_size s"
  let ?x = "bt_blocks (rn_table q) ! ?j"
  note F = feedingD [OF f]
  have qr: "q \<in> set (running s)" "grows tb q" using q K F(2) by auto
  have n: "p < length ?t" using p begins_less [OF f qr(1)] by simp
  note P = running_position [OF f qr(1) n]
  have slot: "slot_at ?bs (tb (rn_id q)) p = new_slot ?x (p mod ?bs)" by (rule P(2) [OF qr(2)])
  have c: "rn_cached q = rn_cached q div ?bs * ?bs" using fillsD(7) [OF F(3) q] by simp
  have "?j < rn_cached q div ?bs"
    using p c F(9) unfolding begins_new [OF q] by (metis div_less_iff_less_mult)
  with P(1) have "?x \<in> set (take (rn_cached q div ?bs) (bt_blocks (rn_table q)))"
    by (auto simp: in_set_conv_nth intro!: exI [of _ ?j])
  from fillsD(6) [OF F(3) q this] obtain e k where x: "cached (sc_alloc s) ?x = Some (e, k)" by auto
  note T = cached_tokens [OF f qr(1) P(1) x]
  have pj: "p < (?j + 1) * ?bs" using F(9) by (metis Suc_eq_plus1 div_less_iff_less_mult lessI)
  from f x show ?thesis
  proof (cases rule: cached_block_source)
    case (computed r i)
    have "(i + 1) * ?bs = (?j + 1) * ?bs"
      using T computed(5,6) by (metis length_take min.absorb2)
    then have i: "i = ?j" using F(9) by simp
    have r: "r \<in> set K" "grows tb r" "r \<in> set (running s)" using computed(1) K F(2) by auto
    have u: "begins ?new tok r \<le> p" using computed(4) i by (metis div_times_less_eq_dividend order_trans)
    have m: "p < length (tok (rn_id r))" using pj computed(5) i by simp
    have "take (Suc p) (tok (rn_id r)) = take (Suc p) (take ((?j + 1) * ?bs) (tok (rn_id r)))"
      using pj by (simp add: min.absorb1)
    also have "take ((?j + 1) * ?bs) (tok (rn_id r)) = take ((?j + 1) * ?bs) ?t" using T(2) computed(6) i by simp
    also have "take (Suc p) \<dots> = take (Suc p) ?t" using pj by (simp add: min.absorb1)
    finally have tk: "take (Suc p) (tok (rn_id r)) = take (Suc p) ?t" .
    have "slot_at ?bs (tb (rn_id r)) p = slot_at ?bs (tb (rn_id q)) p"
      using running_position(2) [OF f r(3) m r(2)] slot computed(3) i by simp
    with job_rowsI [OF r(1) u m] tk show ?thesis unfolding supplied_def bs Let_def by blast
  next
    case kept
    have "slot_at ?bs (tb (rn_id q)) p \<notin> row_slot ?bs ` set ?rows"
      unfolding slot by (rule unwritten_slot [OF f K(1,2)]) (use kept(2) K(1) in blast)
    moreover have "cpu_entry b l (slot_at ?bs (tb (rn_id q)) p) = context_kv fp md l ?t ! p"
    proof -
      have "cpu_entry b l (new_slot ?x (p mod ?bs)) =
          context_kv fp md l (E e) ! (length (E e) - ?bs + p mod ?bs)"
        using cv kept(1) l F(9) unfolding cached_kv_def bs by simp
      also have "E e = take ((?j + 1) * ?bs) ?t" using E [OF kept(1)] T(2) by simp
      also have "length \<dots> - ?bs + p mod ?bs = p" using T(1) by simp
      also have "context_kv fp md l (take ((?j + 1) * ?bs) ?t) ! p = context_kv fp md l ?t ! p"
        using pj by (simp add: context_kv_take)
      finally show ?thesis unfolding slot .
    qed
    ultimately show ?thesis by (simp add: supplied_def bs)
  qed
qed

section \<open>The forward pass of a step\<close>

lemma fed_input_ok:
  assumes f: "feeding E a s olds qs tok" and bs: "block_size c = sc_block_size s"
    and nb: "al_num_blocks (sc_alloc s) = num_blocks c" and q: "q \<in> set (running s)" "grows tb q"
    and n: "length (tok (rn_id q)) \<le> 2 ^ 32"
  shows "input_ok c (job_of (rn_id ` set qs) tok tb q)"
proof -
  have "p div block_size c < length (tb (rn_id q)) \<and> index (tb (rn_id q) ! (p div block_size c)) < num_blocks c"
    if p: "p < length (tok (rn_id q))" for p
  proof -
    note P = running_position(1) [OF f q(1) p]
    have "length (bt_blocks (rn_table q)) \<le> length (tb (rn_id q))"
      using q(2) by (simp add: grows_def prefix_length_le)
    moreover have "tb (rn_id q) ! (p div block_size c) = bt_blocks (rn_table q) ! (p div block_size c)"
      using prefix_nth [OF q(2) [unfolded grows_def]] P bs by simp
    moreover have "0 < cnt (sc_alloc s) (bt_blocks (rn_table q) ! (p div block_size c))"
      using core_distinct(2) [OF feedingD(1) [OF f] q(1)] P bs by (simp add: holds_def)
    ultimately show ?thesis using P bs nb cnt_range [of "sc_alloc s"] by fastforce
  qed
  with begins_less [OF f q(1)] n show ?thesis by (simp add: input_ok_def job_of_def)
qed

lemma fed_forward:
  assumes md: "model_ok md w" and fit: "fits_model md (cpu_config b)" and inv: "cpu_inv b"
    and f: "feeding E' a s olds qs tok" and bs: "block_size (cpu_config b) = sc_block_size s"
    and nb: "al_num_blocks (sc_alloc s) = num_blocks (cpu_config b)"
    and K: "K \<noteq> []" "set K \<subseteq> set (running s)" "distinct K" "\<forall>q \<in> set K. grows tb q" "set qs \<subseteq> set K"
    and tok: "\<forall>q \<in> set K. tokens_ok md (tok (rn_id q)) \<and> length (tok (rn_id q)) \<le> 2 ^ 32"
    and cv: "cached_kv fp md E a b" and E0: "\<forall>x e k. cached a x = Some (e, k) \<longrightarrow> E' e = E e"
    and st: "\<forall>q \<in> set olds.
      stored_kv fp md b (tok (rn_id q)) (length (tok (rn_id q)) - 1) (rn_table q)"
  shows "\<exists>b'. forward (cpu_store fp) md (map seq_input (map (job_of (rn_id ` set qs) tok tb) K)) b =
      Ok (map (\<lambda>q. next_logits fp md (tok (rn_id q))) K) b' \<and>
    cpu_inv b' \<and> cpu_config b' = cpu_config b \<and> cached_kv fp md E' (sc_alloc s) b' \<and>
    (\<forall>q \<in> set K. \<forall>l < length (md_layers md). \<forall>p < length (tok (rn_id q)).
       cpu_entry b' l (slot_at (sc_block_size s) (tb (rn_id q)) p) = context_kv fp md l (tok (rn_id q)) ! p)"
proof -
  let ?c = "cpu_config b" and ?bs = "sc_block_size s" and ?new = "rn_id ` set qs"
  let ?jobs = "map (job_of ?new tok tb) K"
  note F = feedingD [OF f]
  have E: "E' e = E e" if "cached a x = Some (e, k)" for x e k using E0 that by blast
  have ok: "batch_ok ?c ?jobs"
    using K(1) fed_input_ok [OF f bs nb] fed_rows_distinct [OF f K(2-4)] K tok
    by (auto simp: batch_ok_def bs)
  have src: "\<forall>l < length (md_layers md). sources_ok fp md b l ?jobs"
  proof (intro allI impI)
    fix l assume l: "l < length (md_layers md)"
    have "supplied fp md b (all_rows ?jobs) l (tok (rn_id q)) (tb (rn_id q)) p"
      if q: "q \<in> set K" and p: "p < begins ?new tok q" for q p
    proof (cases "q \<in> set qs")
      case True
      from supplied_new [OF f bs K(2,4,5) cv E this p l] show ?thesis .
    next
      case False
      with q K(2) F(2) have old: "q \<in> set olds" by auto
      from supplied_old [OF f bs K(2,4) q old p bspec [OF st old] l] show ?thesis .
    qed
    then show "sources_ok fp md b l ?jobs" by (auto simp: sources_ok_def job_of_def)
  qed
  have tk: "\<forall>(ts, start, tb) \<in> set ?jobs. tokens_ok md ts" using tok by (auto simp: job_of_def)
  from forward_ok [OF md fit inv ok tk src] obtain b' where
    b': "forward (cpu_store fp) md (map seq_input ?jobs) b =
      Ok (map (\<lambda>(ts, start, tb). next_logits fp md ts) ?jobs) b'"
    "cpu_inv b'" "cpu_config b' = ?c" "\<forall>m < length (md_layers md). contexts_ok fp md b' m ?jobs"
    "\<forall>m s. in_pool ?c m s \<longrightarrow> s \<notin> row_slot (block_size ?c) ` set (all_rows ?jobs) \<longrightarrow>
       cpu_entry b' m s = cpu_entry b m s" by (elim exE conjE) (rule that)
  have out: "map (\<lambda>(ts, start, tb). next_logits fp md ts) ?jobs = map (\<lambda>q. next_logits fp md (tok (rn_id q))) K"
    by (simp add: job_of_def)
  have ctx: "cpu_entry b' l (slot_at ?bs (tb (rn_id q)) p) = context_kv fp md l (tok (rn_id q)) ! p"
    if "q \<in> set K" "l < length (md_layers md)" "p < length (tok (rn_id q))" for q l p
    using b'(4) that by (auto simp: contexts_ok_def job_of_def b'(3) bs)
  have "cached_kv fp md E' (sc_alloc s) b'"
    unfolding cached_kv_def b'(3) bs
  proof (intro allI impI)
    fix x e k assume x: "cached (sc_alloc s) x = Some (e, k)"
    from f x show "?bs \<le> length (E' e) \<and> (\<forall>l < length (md_layers md). \<forall>i < ?bs.
      cpu_entry b' l (new_slot x i) = context_kv fp md l (E' e) ! (length (E' e) - ?bs + i))"
    proof (cases rule: cached_block_source)
      case (computed q j)
      have q: "q \<in> set K" "q \<in> set (running s)" "grows tb q" using computed(1) K by auto
      have len: "length (E' e) = (j + 1) * ?bs" using computed(5,6) by simp
      have "cpu_entry b' l (new_slot x i) = context_kv fp md l (E' e) ! (length (E' e) - ?bs + i)"
        if l: "l < length (md_layers md)" and i: "i < ?bs" for l i
      proof -
        have p: "j * ?bs + i < (j + 1) * ?bs" using i by simp
        then have n: "j * ?bs + i < length (tok (rn_id q))" using computed(5) by linarith
        have "slot_at ?bs (tb (rn_id q)) (j * ?bs + i) = new_slot x i"
          using running_position(2) [OF f q(2) n q(3)] computed(3) i by simp
        with ctx [OF q(1) l n] have "cpu_entry b' l (new_slot x i) = context_kv fp md l (tok (rn_id q)) ! (j * ?bs + i)"
          by simp
        moreover have "context_kv fp md l (E' e) ! (j * ?bs + i) = context_kv fp md l (tok (rn_id q)) ! (j * ?bs + i)"
          using p unfolding computed(6) by (simp add: context_kv_take)
        ultimately show ?thesis unfolding len by simp
      qed
      with len show ?thesis by simp
    next
      case kept
      have old: "?bs \<le> length (E e)" "\<And>l i. l < length (md_layers md) \<Longrightarrow> i < ?bs \<Longrightarrow>
        cpu_entry b l (new_slot x i) = context_kv fp md l (E e) ! (length (E e) - ?bs + i)"
        using cv kept(1) unfolding cached_kv_def bs by blast+
      have "cpu_entry b' l (new_slot x i) = cpu_entry b l (new_slot x i)"
        if l: "l < length (md_layers md)" and i: "i < ?bs" for l i
      proof -
        have "new_slot x i \<notin> row_slot ?bs ` set (all_rows ?jobs)"
          by (rule unwritten_slot [OF f K(2,4)]) (use kept(2) K(2) in blast)
        moreover have "in_pool ?c l (new_slot x i)"
          using cached_range [OF core_invD(1) [OF F(1)] x] l i fit nb bs by (simp add: in_pool_def fits_model_def)
        ultimately show ?thesis using b'(5) bs by simp
      qed
      with old E [OF kept(1)] show ?thesis by simp
    qed
  qed
  with b'(1-3) ctx out show ?thesis by auto
qed

end
