(* ===== verification/Engine_Inv.thy ===== *)
theory Engine_Inv
  imports Engine_Feed
begin

text \<open>
  The invariant of the generation engine on the host-memory backend, and that every operation
  keeps it: the engine's requests and the scheduler's sequences agree, the store holds the
  reference's K/V for every running sequence up to its last token and for every cached block, and
  what a request has generated is a prefix of its greedy decoding.
\<close>

section \<open>The invariant\<close>

definition generated :: "Request \<Rightarrow> nat" where
  "generated r = length (rq_tokens r) - rq_prompt_len r"

definition prompt_of :: "Request \<Rightarrow> u32 list" where
  "prompt_of r = take (rq_prompt_len r) (rq_tokens r)"

definition request_ok :: "'f arith \<Rightarrow> 'f PagedQwen2 \<Rightarrow> u32 list \<Rightarrow> nat \<Rightarrow> Request \<Rightarrow> bool" where
  "request_ok fp md stop cap r \<longleftrightarrow> 0 < rq_prompt_len r \<and> rq_prompt_len r \<le> length (rq_tokens r) \<and>
     generated r < rq_max_new r \<and> rq_prompt_len r + rq_max_new r \<le> md_positions md \<and>
     rq_prompt_len r + rq_max_new r + 1 \<le> cap \<and> (\<forall>t \<in> set (rq_tokens r). unat t < md_vocab md) \<and>
     greedy fp md stop (rq_max_new r) (prompt_of r) =
       drop (rq_prompt_len r) (rq_tokens r) @ greedy fp md stop (rq_max_new r - generated r) (rq_tokens r)"

definition pending_req :: "Request \<Rightarrow> PendingSeq \<Rightarrow> bool" where
  "pending_req r p \<longleftrightarrow> pd_prompt p = prompt_of r \<and> pd_context_len p = length (rq_tokens r) \<and>
     pd_max_new p + generated r = rq_max_new r + 1"

text \<open>\<open>ahead\<close> is one between the scheduler's step and the recording of the sampled token.\<close>

definition running_req :: "'f arith \<Rightarrow> 'f PagedQwen2 \<Rightarrow> 'f CpuBackend \<Rightarrow> nat \<Rightarrow> Request \<Rightarrow> RunningSeq \<Rightarrow> bool" where
  "running_req fp md b ahead r q \<longleftrightarrow> rn_prompt q = prompt_of r \<and>
     bt_tokens (rn_table q) = length (rq_tokens r) + ahead \<and> rq_prompt_len r < bt_tokens (rn_table q) \<and>
     rn_generated q + rq_max_new r + 1 = rn_max_new q + generated r + ahead \<and>
     stored_kv fp md b (rq_tokens r) (bt_tokens (rn_table q) - 1) (rn_table q)"

text \<open>
  \<open>asked\<close> is what was asked for under each id: prompt and limit. \<open>todo\<close> are the ids whose sampled
  token is not recorded yet.
\<close>

type_synonym asked = "SeqId \<Rightarrow> (u32 list \<times> nat) option"

definition lag :: "SeqId set \<Rightarrow> SeqId \<Rightarrow> nat" where
  "lag todo i = (if i \<in> todo then 1 else 0)"

definition agrees :: "'f arith \<Rightarrow> asked \<Rightarrow> SeqId set \<Rightarrow> ('f CpuBackend, 'f) Engine \<Rightarrow> bool" where
  "agrees fp asked todo e \<longleftrightarrow> dom (map_of (en_requests e)) = set (seq_ids (en_scheduler e)) \<and>
     (\<forall>i r. map_of (en_requests e) i = Some r \<longrightarrow>
        request_ok fp (en_model e) (en_stop_tokens e) (capacity (en_scheduler e)) r \<and>
        asked i = Some (prompt_of r, rq_max_new r)) \<and>
     (\<forall>p \<in> set (waiting (en_scheduler e)). \<forall>r. map_of (en_requests e) (pd_id p) = Some r \<longrightarrow> pending_req r p) \<and>
     (\<forall>q \<in> set (running (en_scheduler e)). \<forall>r. map_of (en_requests e) (rn_id q) = Some r \<longrightarrow>
        running_req fp (en_model e) (en_cache e) (lag todo (rn_id q)) r q)"

definition store_fits :: "nat \<Rightarrow> ('f CpuBackend, 'f) Engine \<Rightarrow> bool" where
  "store_fits w e \<longleftrightarrow> model_ok (en_model e) w \<and> md_positions (en_model e) \<le> 2 ^ 32 \<and>
     fits_model (en_model e) (cpu_config (en_cache e)) \<and> cpu_inv (en_cache e) \<and>
     block_size (cpu_config (en_cache e)) = sc_block_size (en_scheduler e) \<and>
     num_blocks (cpu_config (en_cache e)) = al_num_blocks (sc_alloc (en_scheduler e)) \<and>
     0 < sc_max_batch (en_scheduler e)"

definition pool_sound :: "'f arith \<Rightarrow> (PrefixEntry \<Rightarrow> u32 list) \<Rightarrow> ('f CpuBackend, 'f) Engine \<Rightarrow> bool" where
  "pool_sound fp E e \<longleftrightarrow> sched_inv E (en_scheduler e) \<and> lone (sc_alloc (en_scheduler e)) \<and>
     cached_kv fp (en_model e) E (sc_alloc (en_scheduler e)) (en_cache e)"

definition engine_inv :: "'f arith \<Rightarrow> nat \<Rightarrow> asked \<Rightarrow> SeqId set \<Rightarrow> (PrefixEntry \<Rightarrow> u32 list) \<Rightarrow>
    ('f CpuBackend, 'f) Engine \<Rightarrow> bool" where
  "engine_inv fp w asked todo E e \<longleftrightarrow> store_fits w e \<and> pool_sound fp E e \<and> agrees fp asked todo e"

lemma engine_invD:
  assumes "engine_inv fp w asked todo E e"
  shows "store_fits w e" "pool_sound fp E e" "agrees fp asked todo e"
    "sched_inv E (en_scheduler e)" "core_inv E (en_scheduler e)"
  using assms by (simp_all add: engine_inv_def pool_sound_def sched_inv_def)

lemma agreesD:
  assumes "agrees fp asked todo e"
  shows "dom (map_of (en_requests e)) = set (seq_ids (en_scheduler e))"
    "map_of (en_requests e) i = Some r \<Longrightarrow>
       request_ok fp (en_model e) (en_stop_tokens e) (capacity (en_scheduler e)) r"
    "map_of (en_requests e) i = Some r \<Longrightarrow> asked i = Some (prompt_of r, rq_max_new r)"
    "p \<in> set (waiting (en_scheduler e)) \<Longrightarrow> map_of (en_requests e) (pd_id p) = Some r \<Longrightarrow> pending_req r p"
    "q \<in> set (running (en_scheduler e)) \<Longrightarrow> map_of (en_requests e) (rn_id q) = Some r \<Longrightarrow>
       running_req fp (en_model e) (en_cache e) (lag todo (rn_id q)) r q"
  using assms unfolding agrees_def by blast+

lemma known_request:
  assumes "agrees fp asked todo e"
  shows "p \<in> set (waiting (en_scheduler e)) \<Longrightarrow> \<exists>r. map_of (en_requests e) (pd_id p) = Some r"
    "q \<in> set (running (en_scheduler e)) \<Longrightarrow> \<exists>r. map_of (en_requests e) (rn_id q) = Some r"
  using agreesD(1) [OF assms] by (auto simp: seq_ids_def dom_def) 

text \<open>Statistics are no part of it.\<close>

lemma add_stats_simps [simp]:
  "en_scheduler (add_stats f e) = en_scheduler e" "en_cache (add_stats f e) = en_cache e"
  "en_requests (add_stats f e) = en_requests e" "en_model (add_stats f e) = en_model e"
  "en_stop_tokens (add_stats f e) = en_stop_tokens e" "add_stats g (add_stats f e) = add_stats (g \<circ> f) e"
  by (simp_all add: add_stats_def)

lemma engine_inv_stats [simp]: "engine_inv fp w asked todo E (add_stats f e) = engine_inv fp w asked todo E e"
  by (simp add: engine_inv_def store_fits_def pool_sound_def agrees_def)

section \<open>Requests come and go\<close>

lemma cached_kv_steady:
  assumes "cached_kv fp md E a b" "steady a a'"
  shows "cached_kv fp md E a' b"
  using assms unfolding cached_kv_def steady_def by blast

text \<open>\<open>finish_sequence\<close> on an id the scheduler has, running or waiting.\<close>

lemma set_remove_at_ids:
  assumes "distinct (map f xs)" "i < length xs"
  shows "set (remove_at i xs) \<subseteq> set xs" "f ` set (remove_at i xs) = f ` set xs - {f (xs ! i)}"
proof -
  have s: "xs = take i xs @ xs ! i # drop (Suc i) xs" by (rule id_take_nth_drop [OF assms(2)])
  have r: "remove_at i xs = take i xs @ drop (Suc i) xs" by (simp add: remove_at_def)
  show "set (remove_at i xs) \<subseteq> set xs" unfolding r by (auto dest: in_set_takeD in_set_dropD)
  have "distinct (map f (take i xs) @ f (xs ! i) # map f (drop (Suc i) xs))"
    using assms(1) by (subst (asm) s) simp
  moreover have "f ` set xs = set (map f (take i xs) @ f (xs ! i) # map f (drop (Suc i) xs))"
    by (subst s) (simp add: image_Un)
  ultimately show "f ` set (remove_at i xs) = f ` set xs - {f (xs ! i)}" unfolding r by auto
qed

lemma finish_known:
  assumes inv: "sched_inv E s" and i: "i \<in> set (seq_ids s)"
  shows "\<exists>s'. finish_sequence i s = Ok () s' \<and> sched_inv E s' \<and> same_config s s' \<and>
    steady (sc_alloc s) (sc_alloc s') \<and> set (running s') \<subseteq> set (running s) \<and>
    set (waiting s') \<subseteq> set (waiting s) \<and> set (seq_ids s') = set (seq_ids s) - {i}"
proof -
  have d: "distinct (seq_ids s)" using inv core_invD(10) by (auto simp: sched_inv_def)
  then have dr: "distinct (map rn_id (running s))" and dw: "distinct (map pd_id (waiting s))"
    and dd: "rn_id ` set (running s) \<inter> pd_id ` set (waiting s) = {}" by (auto simp: seq_ids_def)
  show ?thesis
  proof (cases "position_of (\<lambda>q. rn_id q = i) (running s)")
    case (Some idx)
    note P = position_split(3,4) [OF Some]
    from finish_running [OF inv Some] obtain s' where
      s': "finish_sequence i s = Ok () s'" "sched_inv E s'" "same_config s s'"
      "running s' = remove_at idx (running s)" "waiting s' = waiting s"
      "next_of (sc_alloc s') = next_of (sc_alloc s)" "steady (sc_alloc s) (sc_alloc s')"
      by (elim exE conjE) (rule that)
    note R = set_remove_at_ids [OF dr P(2)]
    have "rn_id (running s ! idx) \<in> rn_id ` set (running s)" using P(2) by (intro imageI nth_mem)
    then have "i \<in> rn_id ` set (running s)" using P(1) by simp
    then have "i \<notin> pd_id ` set (waiting s)" using dd by blast
    moreover have "set (seq_ids s') = rn_id ` set (running s) - {i} \<union> pd_id ` set (waiting s)"
      using R(2) P(1) s'(4,5) by (simp add: seq_ids_def)
    ultimately have "set (seq_ids s') = set (seq_ids s) - {i}" by (auto simp: seq_ids_def)
    with s' R(1) show ?thesis by (intro exI [of _ s']) simp
  next
    case None
    then have nr: "i \<notin> rn_id ` set (running s)" by (auto simp: position_of_None_iff)
    with i have "position_of (\<lambda>p. pd_id p = i) (waiting s) \<noteq> None"
      by (auto simp: seq_ids_def position_of_None_iff)
    then obtain idx where Some: "position_of (\<lambda>p. pd_id p = i) (waiting s) = Some idx" by blast
    note P = position_split(3,4) [OF Some] and R = set_remove_at_ids [OF dw position_split(4) [OF Some]]
    have "set (seq_ids (s\<lparr>waiting := remove_at idx (waiting s)\<rparr>)) = set (seq_ids s) - {i}"
      using R(2) P(1) nr by (auto simp: seq_ids_def)
    with finish_waiting [OF inv None Some] R(1) show ?thesis by (auto simp: same_config_def)
  qed
qed

lemma map_of_delete: "map_of (AList.delete i xs) = (map_of xs)(i := None)"
  by (rule delete_conv')

text \<open>The engine forgets a request and the scheduler lets its sequence go.\<close>

lemma forget_request:
  assumes inv: "engine_inv fp w asked todo E e" and i: "map_of (en_requests e) i = Some r"
  shows "\<exists>s'. finish_sequence i (en_scheduler e) = Ok () s' \<and>
    engine_inv fp w asked todo E (e\<lparr>en_scheduler := s', en_requests := AList.delete i (en_requests e)\<rparr>) \<and>
    set (waiting s') \<subseteq> set (waiting (en_scheduler e)) \<and> capacity s' = capacity (en_scheduler e)"
proof -
  note I = engine_invD [OF inv] and A = agreesD [OF engine_invD(3) [OF inv]]
  have "i \<in> set (seq_ids (en_scheduler e))" using A(1) i by auto
  from finish_known [OF I(4) this] obtain s' where
    s': "finish_sequence i (en_scheduler e) = Ok () s'" "sched_inv E s'" "same_config (en_scheduler e) s'"
    "steady (sc_alloc (en_scheduler e)) (sc_alloc s')" "set (running s') \<subseteq> set (running (en_scheduler e))"
    "set (waiting s') \<subseteq> set (waiting (en_scheduler e))"
    "set (seq_ids s') = set (seq_ids (en_scheduler e)) - {i}" by blast
  let ?e = "e\<lparr>en_scheduler := s', en_requests := AList.delete i (en_requests e)\<rparr>"
  have cap: "capacity s' = capacity (en_scheduler e)"
    using s'(3) by (simp add: capacity_def same_config_def same_pool_def)
  have "store_fits w ?e" using I(1) s'(3) by (simp add: store_fits_def same_config_def same_pool_def)
  moreover have "pool_sound fp E ?e"
  proof -
    have "cached_kv fp (en_model e) E (sc_alloc s') (en_cache e)"
      by (rule cached_kv_steady [OF _ s'(4)]) (use I(2) in \<open>simp add: pool_sound_def\<close>)
    with I(2) s'(2,4) show ?thesis by (simp add: pool_sound_def steady_def)
  qed
  moreover have "agrees fp asked todo ?e"
    unfolding agrees_def
  proof (intro conjI allI impI ballI)
    show "dom (map_of (en_requests ?e)) = set (seq_ids (en_scheduler ?e))"
      using A(1) s'(7) by (simp add: map_of_delete)
    fix q r assume "q \<in> set (running (en_scheduler ?e))" "map_of (en_requests ?e) (rn_id q) = Some r"
    with A(5) [of q r] s'(5) show "running_req fp (en_model ?e) (en_cache ?e) (lag todo (rn_id q)) r q"
      by (auto simp: map_of_delete split: if_splits)
  qed (use A(2-4) s'(6) cap in \<open>auto simp: map_of_delete split: if_splits\<close>)
  ultimately show ?thesis using s'(1,6) cap by (intro exI [of _ s']) (simp add: engine_inv_def)
qed

lemma cancel_ok:
  assumes inv: "engine_inv fp w asked todo E e"
  shows "\<exists>e'. engine_cancel i e = Some (map_of (en_requests e) i \<noteq> None, e') \<and>
    engine_inv fp w asked todo E e' \<and> map_of (en_requests e') = (map_of (en_requests e))(i := None)"
proof (cases "map_of (en_requests e) i")
  case None
  with inv show ?thesis by (simp add: engine_cancel_def fun_upd_idem)
next
  case (Some r)
  from forget_request [OF inv Some] obtain s' where
    s': "finish_sequence i (en_scheduler e) = Ok () s'"
    "engine_inv fp w asked todo E (e\<lparr>en_scheduler := s', en_requests := AList.delete i (en_requests e)\<rparr>)" by blast
  let ?e = "e\<lparr>en_requests := AList.delete i (en_requests e), en_scheduler := s'\<rparr>"
  have "?e = e\<lparr>en_scheduler := s', en_requests := AList.delete i (en_requests e)\<rparr>" by simp
  with s'(2) have "engine_inv fp w asked todo E ?e" by (simp only:)
  moreover have "engine_cancel i e = Some (True, ?e)" using s'(1) Some by (simp add: engine_cancel_def)
  ultimately show ?thesis using Some by (intro exI [of _ ?e]) (simp add: map_of_delete)
qed

text \<open>What a client may ask for: tokens of the vocabulary, within the model's positions.\<close>

definition askable :: "'f PagedQwen2 \<Rightarrow> u32 list \<Rightarrow> nat \<Rightarrow> bool" where
  "askable md prompt max_new \<longleftrightarrow> length prompt + max_new \<le> md_positions md \<and>
     (\<forall>t \<in> set prompt. unat t < md_vocab md)"

lemma add_request_ok:
  assumes inv: "engine_inv fp w asked {} E e" and fresh: "map_of (en_requests e) i = None"
    and ask: "askable (en_model e) prompt max_new"
  shows "if prompt \<noteq> [] \<and> max_new \<noteq> 0 \<and> length prompt + max_new + 1 \<le> capacity (en_scheduler e)
    then \<exists>e'. engine_add_request i prompt max_new e = Ok () e' \<and>
      engine_inv fp w (asked(i \<mapsto> (prompt, max_new))) {} E e' \<and>
      map_of (en_requests e') = (map_of (en_requests e))(i \<mapsto>
        \<lparr>rq_tokens = prompt, rq_prompt_len = length prompt, rq_max_new = max_new\<rparr>)
    else \<exists>msg. engine_add_request i prompt max_new e = Err msg e"
proof -
  note I = engine_invD [OF inv] and A = agreesD [OF engine_invD(3) [OF inv]]
  let ?s = "en_scheduler e"
  have pos: "md_positions (en_model e) \<le> 2 ^ 32" using I(1) by (simp add: store_fits_def)
  have small: "length prompt + (max_new + 1) < 2 ^ 64" using ask pos by (simp add: askable_def)
  have fr: "i \<notin> set (seq_ids ?s)" using A(1) fresh by auto
  have up: "usize_add max_new 1 = max_new + 1" using small by simp
  note eq = enqueue_eq [OF I(4) small, of i prompt]
  have same: "e\<lparr>en_scheduler := ?s\<rparr> = e" by simp
  show ?thesis
  proof (cases "prompt \<noteq> [] \<and> max_new \<noteq> 0 \<and> length prompt + max_new + 1 \<le> capacity ?s")
    case False
    then show ?thesis
      using eq same up by (auto simp: engine_add_request_def on_scheduler_def add_prompt_def capacity_def)
  next
    case True
    let ?p = "\<lparr>pd_id = i, pd_context_len = length prompt, pd_max_new = max_new + 1, pd_prompt = prompt\<rparr>"
    let ?s' = "?s\<lparr>waiting := waiting ?s @ [?p]\<rparr>"
    let ?r = "\<lparr>rq_tokens = prompt, rq_prompt_len = length prompt, rq_max_new = max_new\<rparr>"
    let ?e = "e\<lparr>en_scheduler := ?s', en_requests := AList.update i ?r (en_requests e)\<rparr>"
    have ok: "enqueue i (length prompt) prompt (max_new + 1) ?s = Ok () ?s'"
      using eq True by (simp add: capacity_def)
    have op: "engine_add_request i prompt max_new e = Ok () ?e"
      using True ok up by (simp add: engine_add_request_def on_scheduler_def add_prompt_def)
    have "sched_inv E ?s'" by (rule enqueue_inv [OF I(4) small fr order_refl ok])
    then have "pool_sound fp E ?e" using I(2) by (simp add: pool_sound_def)
    moreover have "store_fits w ?e" using I(1) by (simp add: store_fits_def)
    moreover have "agrees fp (asked(i \<mapsto> (prompt, max_new))) {} ?e"
    proof -
      have "request_ok fp (en_model e) (en_stop_tokens e) (capacity ?s) ?r"
        using True ask by (auto simp: request_ok_def generated_def prompt_of_def askable_def)
      moreover have "pending_req ?r ?p" by (simp add: pending_req_def prompt_of_def generated_def)
      moreover have "pd_id p \<noteq> i" if "p \<in> set (waiting ?s)" for p using fr that by (auto simp: seq_ids_def)
      moreover have "rn_id q \<noteq> i" if "q \<in> set (running ?s)" for q using fr that by (auto simp: seq_ids_def)
      moreover have "capacity ?s' = capacity ?s" by (simp add: capacity_def)
      moreover have "dom ((map_of (en_requests e))(i \<mapsto> ?r)) = set (seq_ids ?s')"
        using A(1) by (auto simp: seq_ids_def)
      ultimately show ?thesis
        using A(2-5) by (auto simp: agrees_def update_conv' prompt_of_def)
    qed
    ultimately show ?thesis using True op by (simp add: engine_inv_def update_conv')
  qed
qed

section \<open>What the scheduler decides\<close>

definition tokens_of :: "('b, 'f) Engine \<Rightarrow> SeqId \<Rightarrow> u32 list" where
  "tokens_of e i = rq_tokens (the (map_of (en_requests e) i))"

definition sched_req :: "Request \<Rightarrow> RunningSeq \<Rightarrow> bool" where
  "sched_req r q \<longleftrightarrow> rn_prompt q = prompt_of r \<and> bt_tokens (rn_table q) = length (rq_tokens r) \<and>
     rn_generated q + rq_max_new r + 1 = rn_max_new q + generated r"

text \<open>
  A step of the scheduler as the engine sees it: \<open>K\<close> are the sequences that run, as they stood after
  the admissions, \<open>vs\<close> those preempted.
\<close>

definition scheduled :: "('f CpuBackend, 'f) Engine \<Rightarrow> (PrefixEntry \<Rightarrow> u32 list) \<Rightarrow> StepOutcome \<Rightarrow> Scheduler \<Rightarrow>
    (PrefixEntry \<Rightarrow> u32 list) \<Rightarrow> Scheduler \<Rightarrow> RunningSeq list \<Rightarrow> RunningSeq list \<Rightarrow> RunningSeq list \<Rightarrow> bool" where
  "scheduled e E out s' E' s1 qs K vs \<longleftrightarrow> (let s = en_scheduler e in
     feeding E' (sc_alloc s) s1 (running s) qs (tokens_of e) \<and> running s1 = K @ vs \<and> set qs \<subseteq> set K \<and>
     list_all2 advanced K (running s') \<and> list_all2 (restored []) K (running s') \<and>
     length (decoded out) = length K \<and> prefills out = map prefill_of qs \<and> cow_pairs (decoded out) = [] \<and>
     sched_inv E' s' \<and> extends E s E' s' \<and> same_config s s' \<and> same_config s s1 \<and>
     steady (sc_alloc s1) (sc_alloc s') \<and> set (waiting s') \<subseteq> set (map suspend vs) \<union> set (waiting s) \<and>
     set (seq_ids s') = set (seq_ids s) \<and>
     (\<forall>q \<in> set (running s1). \<exists>r. map_of (en_requests e) (rn_id q) = Some r \<and> sched_req r q))"

lemma scheduledD:
  assumes "scheduled e E out s' E' s1 qs K vs"
  shows "feeding E' (sc_alloc (en_scheduler e)) s1 (running (en_scheduler e)) qs (tokens_of e)"
    "running s1 = K @ vs" "set qs \<subseteq> set K" "list_all2 advanced K (running s')"
    "list_all2 (restored []) K (running s')" "prefills out = map prefill_of qs" "cow_pairs (decoded out) = []"
    "sched_inv E' s'" "extends E (en_scheduler e) E' s'" "same_config (en_scheduler e) s'"
    "same_config (en_scheduler e) s1" "steady (sc_alloc s1) (sc_alloc s')"
    "set (waiting s') \<subseteq> set (map suspend vs) \<union> set (waiting (en_scheduler e))"
    "set (seq_ids s') = set (seq_ids (en_scheduler e))"
    "q \<in> set (running s1) \<Longrightarrow> \<exists>r. map_of (en_requests e) (rn_id q) = Some r \<and> sched_req r q"
    "length (decoded out) = length K"
  using assms unfolding scheduled_def Let_def by blast+

lemma list_all2_in_right: "list_all2 P xs ys \<Longrightarrow> y \<in> set ys \<Longrightarrow> \<exists>x \<in> set xs. P x y"
  by (induction rule: list_all2_induct) auto

lemma started_req:
  assumes ag: "agrees fp asked {} e" and st: "list_all2 started (take k (waiting (en_scheduler e))) qs"
    and q: "q \<in> set (running (en_scheduler e) @ qs)"
  shows "\<exists>r. map_of (en_requests e) (rn_id q) = Some r \<and> sched_req r q"
proof (cases "q \<in> set (running (en_scheduler e))")
  case True
  from known_request(2) [OF ag this] obtain r where r: "map_of (en_requests e) (rn_id q) = Some r" by blast
  from agreesD(5) [OF ag True r] r show ?thesis by (simp add: running_req_def sched_req_def lag_def)
next
  case False
  with q have "q \<in> set qs" by simp
  from list_all2_in_right [OF st this] obtain p where p: "p \<in> set (waiting (en_scheduler e))" "started p q"
    by (meson in_set_takeD)
  from known_request(1) [OF ag p(1)] obtain r where r: "map_of (en_requests e) (pd_id p) = Some r" by blast
  from agreesD(4) [OF ag p(1) r] p(2) r show ?thesis by (auto simp: pending_req_def sched_req_def started_def)
qed

lemma sched_req_known:
  assumes ag: "agrees fp asked {} e" and r: "map_of (en_requests e) (rn_id q) = Some r" "sched_req r q"
  shows "known (tokens_of e) q" "\<not> spent (q\<lparr>rn_generated := rn_generated q + 1\<rparr>)"
proof -
  from agreesD(2) [OF ag r(1)] have ok: "0 < rq_prompt_len r" "rq_prompt_len r \<le> length (rq_tokens r)"
    "generated r < rq_max_new r" by (simp_all add: request_ok_def)
  then have "rq_tokens r \<noteq> []" by auto
  then show "known (tokens_of e) q" using r ok by (simp add: known_def sched_req_def tokens_of_def prompt_of_def)
  show "\<not> spent (q\<lparr>rn_generated := rn_generated q + 1\<rparr>)" using r(2) ok(3) by (simp add: spent_def sched_req_def)
qed

lemma engine_schedule:
  assumes inv: "engine_inv fp w asked {} E e"
  shows "\<exists>out s' E' s1 qs K vs. step (en_scheduler e) = Ok out s' \<and> scheduled e E out s' E' s1 qs K vs"
proof -
  let ?s = "en_scheduler e"
  note I = engine_invD [OF inv] and A = agreesD [OF engine_invD(3) [OF inv]]
  from step_fed [OF I(4)] obtain k qs keep keep' vs out s' E' where
    op: "step ?s = Ok out s'" and st: "stepped ?s k qs keep keep' vs out s'" and
    inv': "sched_inv E' s'" and ex: "extends E ?s E' s'" and cfg: "same_config ?s s'" and fd: "fed E' ?s qs out s'"
    by (elim exE conjE) (rule that)
  from fd obtain s1 where s1: "core_inv E' s1" "running s1 = running ?s @ qs" "same_config ?s s1"
    "fills (sc_block_size ?s) (sc_alloc ?s) qs (sc_alloc s1)" "steady (sc_alloc s1) (sc_alloc s')"
    "lone (sc_alloc s1) \<longrightarrow> cow_pairs (decoded out) = []" by (auto simp: fed_def)
  from st have S: "list_all2 started (take k (waiting ?s)) qs" "running ?s @ qs = keep @ vs"
    "list_all2 advanced keep keep'" "running s' = filter (\<lambda>q. \<not> spent q) keep'"
    "waiting s' = map suspend vs @ drop k (waiting ?s)" "prefills out = map prefill_of qs"
    "list_all2 (restored (cow_pairs (decoded out))) keep keep'" "0 < k \<longrightarrow> vs = []"
    "k \<le> length (waiting ?s)" "list_all2 written keep' (decoded out)" by (simp_all add: stepped_def)
  have lone: "lone (sc_alloc s1)" using fillsD(1) [OF s1(4)] I(2) by (simp add: pool_sound_def)
  note req = started_req [OF I(3) S(1)]
  have feed: "feeding E' (sc_alloc ?s) s1 (running ?s) qs (tokens_of e)"
    unfolding feeding_def
  proof (intro conjI ballI)
    show "fills (sc_block_size s1) (sc_alloc ?s) qs (sc_alloc s1)" using s1(3,4) by (simp add: same_config_def)
    fix q assume q: "q \<in> set (running ?s)"
    show "holds (sc_alloc ?s) (rn_table q)" by (rule core_distinct(2) [OF I(5) q])
    from known_request(2) [OF I(3) q] obtain r where r: "map_of (en_requests e) (rn_id q) = Some r" by blast
    from A(5) [OF q r] A(2) [OF r] r show "length (rn_prompt q) < length (tokens_of e (rn_id q))"
      by (simp add: running_req_def request_ok_def prompt_of_def lag_def tokens_of_def)
  qed (use s1(1,2) lone req sched_req_known(1) [OF I(3)] in auto)
  have "\<not> spent q'" if "q' \<in> set keep'" for q'
  proof -
    from list_all2_in_right [OF S(3) that] obtain q where q: "q \<in> set keep" "advanced q q'" by blast
    then have "q \<in> set (running ?s @ qs)" unfolding S(2) by simp
    from req [OF this] obtain r where "map_of (en_requests e) (rn_id q) = Some r" "sched_req r q" by blast
    from sched_req_known(2) [OF I(3) this] q(2) show ?thesis by (simp add: spent_def advanced_def)
  qed
  then have none: "filter (\<lambda>q. \<not> spent q) keep' = keep'" by (simp add: filter_id_conv)
  have "set qs \<subseteq> set keep"
  proof (cases "k = 0")
    case True
    with S(1) show ?thesis by simp
  next
    case False
    with S(2,8) show ?thesis by auto
  qed
  moreover have "seq_ids s' = seq_ids ?s" using stepped_ids [OF st] none by simp
  moreover have "set (waiting s') \<subseteq> set (map suspend vs) \<union> set (waiting ?s)"
    using S(5) by (auto dest: in_set_dropD)
  moreover have "length (decoded out) = length keep"
    using S(3,10) by (simp add: list_all2_lengthD [symmetric])
  ultimately have "scheduled e E out s' E' s1 qs keep vs"
    unfolding scheduled_def Let_def
    using feed s1(2,3,5,6) S(2,3,4,6,7) none lone inv' ex cfg req by simp
  with op show ?thesis by blast
qed

section \<open>The forward pass of a step\<close>

definition table_of :: "Scheduler \<Rightarrow> SeqId \<Rightarrow> BlockId list" where
  "table_of s i = the (map_of (map (\<lambda>q. (rn_id q, bt_blocks (rn_table q))) (running s)) i)"

lemma table_of_running:
  assumes "distinct (map rn_id (running s))" "q \<in> set (running s)"
  shows "table_of s (rn_id q) = bt_blocks (rn_table q)"
proof -
  have "map_of (map (\<lambda>q. (rn_id q, bt_blocks (rn_table q))) (running s)) (rn_id q) = Some (bt_blocks (rn_table q))"
    using assms by (intro map_of_is_SomeI) (auto simp: comp_def)
  then show ?thesis by (simp add: table_of_def)
qed

lemma sched_distinct: "sched_inv E s \<Longrightarrow> distinct (map rn_id (running s))"
  using core_invD(10) by (fastforce simp: sched_inv_def seq_ids_def)

lemma scheduled_grows:
  assumes sc: "scheduled e E out s' E' s1 qs K vs" and q: "q \<in> set K"
  shows "\<exists>q' \<in> set (running s'). advanced q q' \<and> prefix (bt_blocks (rn_table q)) (bt_blocks (rn_table q'))"
    "grows (table_of s') q"
proof -
  note S = scheduledD [OF sc]
  have "list_all2 (\<lambda>q q'. advanced q q' \<and> restored [] q q') K (running s')"
    using S(4,5) by (simp add: list_all2_conv_all_nth)
  then obtain q' where q': "q' \<in> set (running s')" "advanced q q'" "restored [] q q'"
    using q by (induction rule: list_all2_induct) auto
  then have pre: "prefix (bt_blocks (rn_table q)) (bt_blocks (rn_table q'))"
    by (simp add: restored_def map_idI)
  with q' show "\<exists>q' \<in> set (running s'). advanced q q' \<and> prefix (bt_blocks (rn_table q)) (bt_blocks (rn_table q'))"
    by blast
  have "rn_id q = rn_id q'" using q'(2) by (simp add: advanced_def)
  with table_of_running [OF sched_distinct [OF S(8)] q'(1)] pre show "grows (table_of s') q"
    by (simp add: grows_def)
qed

lemma scheduled_same_jobs:
  assumes "scheduled e E out s' E' s1 qs K vs"
  shows "map (job_of new tok tb) (running s') = map (job_of new tok tb) K"
    "map (\<lambda>q. f (rn_id q)) (running s') = map (\<lambda>q. f (rn_id q)) K"
  using scheduledD(4) [OF assms]
  by (induction rule: list_all2_induct) (simp_all add: advanced_def job_of_def begins_def)

lemma scheduled_inv:
  assumes inv: "engine_inv fp w asked {} E e" and sc: "scheduled e E out s' E' s1 qs K vs"
    and b': "cpu_inv b'" "cpu_config b' = cpu_config (en_cache e)"
      "cached_kv fp (en_model e) E' (sc_alloc s1) b'"
    and ctx: "\<And>q l p. q \<in> set K \<Longrightarrow> l < length (md_layers (en_model e)) \<Longrightarrow> p < length (tokens_of e (rn_id q)) \<Longrightarrow>
      cpu_entry b' l (slot_at (sc_block_size s1) (table_of s' (rn_id q)) p) =
      context_kv fp (en_model e) l (tokens_of e (rn_id q)) ! p"
  shows "engine_inv fp w asked (rn_id ` set (running s')) E' (e\<lparr>en_scheduler := s', en_cache := b'\<rparr>)"
proof -
  let ?e = "e\<lparr>en_scheduler := s', en_cache := b'\<rparr>" and ?todo = "rn_id ` set (running s')"
  note I = engine_invD [OF inv] and A = agreesD [OF engine_invD(3) [OF inv]] and S = scheduledD [OF sc]
  have cfg: "al_num_blocks (sc_alloc s') = al_num_blocks (sc_alloc (en_scheduler e))"
    "sc_block_size s' = sc_block_size (en_scheduler e)" "sc_block_size s1 = sc_block_size (en_scheduler e)"
    "sc_max_batch s' = sc_max_batch (en_scheduler e)"
    using S(10,11) by (simp_all add: same_config_def same_pool_def)
  have "store_fits w ?e" using I(1) b'(1,2) cfg by (simp add: store_fits_def)
  moreover have "pool_sound fp E' ?e"
  proof -
    have "lone (sc_alloc s')" using S(12) feedingD(4) [OF S(1)] by (simp add: steady_def)
    moreover have "cached_kv fp (en_model e) E' (sc_alloc s') b'" by (rule cached_kv_steady [OF b'(3) S(12)])
    ultimately show ?thesis using S(8) by (simp add: pool_sound_def)
  qed
  moreover have "agrees fp asked ?todo ?e"
    unfolding agrees_def
  proof (intro conjI allI impI ballI)
    show "dom (map_of (en_requests ?e)) = set (seq_ids (en_scheduler ?e))" using A(1) S(14) by simp
    show "request_ok fp (en_model ?e) (en_stop_tokens ?e) (capacity (en_scheduler ?e)) r"
      if "map_of (en_requests ?e) i = Some r" for i r
      using A(2) [of i r] that cfg by (simp add: capacity_def)
    show "asked i = Some (prompt_of r, rq_max_new r)" if "map_of (en_requests ?e) i = Some r" for i r
      using A(3) that by simp
  next
    fix p r assume p: "p \<in> set (waiting (en_scheduler ?e))" "map_of (en_requests ?e) (pd_id p) = Some r"
    show "pending_req r p"
    proof (cases "p \<in> set (waiting (en_scheduler e))")
      case True
      with A(4) p show ?thesis by simp
    next
      case False
      with p(1) S(13) obtain q where q: "q \<in> set vs" "p = suspend q" by auto
      with S(2) S(15) [of q] p(2) have "sched_req r q" by auto
      moreover have "generated r < rq_max_new r" using A(2) [of "pd_id p" r] p(2) by (simp add: request_ok_def)
      ultimately have "rn_max_new q - rn_generated q + generated r = rq_max_new r + 1"
        unfolding sched_req_def by linarith
      with \<open>sched_req r q\<close> q(2) show ?thesis by (simp add: pending_req_def sched_req_def)
    qed
  next
    fix q' r assume q': "q' \<in> set (running (en_scheduler ?e))" "map_of (en_requests ?e) (rn_id q') = Some r"
    then have r': "q' \<in> set (running s')" by simp
    from list_all2_in_right [OF S(4) r'] obtain q where q: "q \<in> set K" "advanced q q'" by blast
    have i: "rn_id q' = rn_id q" using q(2) by (simp add: advanced_def)
    from q(1) S(2) S(15) [of q] q'(2) i have sr: "sched_req r q" by auto
    have "rq_prompt_len r \<le> length (rq_tokens r)" using A(2) [of "rn_id q'" r] q'(2) by (simp add: request_ok_def)
    moreover have "tokens_of e (rn_id q) = rq_tokens r" using q'(2) i by (simp add: tokens_of_def)
    moreover have "table_of s' (rn_id q) = bt_blocks (rn_table q')"
      using table_of_running [OF sched_distinct [OF S(8)] r'] i by simp
    moreover have "block_size (cpu_config (en_cache e)) = sc_block_size s1" using I(1) cfg by (simp add: store_fits_def)
    moreover have "rn_id q \<in> ?todo" using r' i by (metis imageI)
    ultimately show "running_req fp (en_model ?e) (en_cache ?e) (lag ?todo (rn_id q')) r q'"
      using sr q(2) r' ctx [OF q(1)] b'(2)
      by (simp add: running_req_def sched_req_def advanced_def lag_def stored_kv_def)
  qed
  ultimately show ?thesis by (simp add: engine_inv_def)
qed

lemma extends_cached:
  assumes "extends E s E' s'" "alloc_inv (sc_alloc s)" "cached (sc_alloc s) x = Some (en, k)"
  shows "E' en = E en"
  using assms cached_entry_less(2) by (fastforce simp: extends_def)

lemma forward_step:
  assumes inv: "engine_inv fp w asked {} E e" and sc: "scheduled e E out s' E' s1 qs K vs" and K: "K \<noteq> []"
  shows "\<exists>b'. forward (cpu_store fp) (en_model e)
      (map seq_input (map (job_of (rn_id ` set qs) (tokens_of e) (table_of s')) (running s'))) (en_cache e) =
      Ok (map (\<lambda>q. next_logits fp (en_model e) (tokens_of e (rn_id q))) (running s')) b' \<and>
    engine_inv fp w asked (rn_id ` set (running s')) E' (e\<lparr>en_scheduler := s', en_cache := b'\<rparr>)"
proof -
  let ?b = "en_cache e" and ?md = "en_model e" and ?tok = "tokens_of e" and ?tb = "table_of s'"
  note I = engine_invD [OF inv] and A = agreesD [OF engine_invD(3) [OF inv]] and S = scheduledD [OF sc]
  from I(1) have F: "model_ok ?md w" "md_positions ?md \<le> 2 ^ 32" "fits_model ?md (cpu_config ?b)" "cpu_inv ?b"
    "block_size (cpu_config ?b) = sc_block_size s1" "al_num_blocks (sc_alloc s1) = num_blocks (cpu_config ?b)"
    using S(11) by (simp_all add: store_fits_def same_config_def same_pool_def)
  have sub: "set K \<subseteq> set (running s1)" "distinct K" using S(2) feedingD(8) [OF S(1)] by auto
  have gr: "\<forall>q \<in> set K. grows ?tb q" using scheduled_grows(2) [OF sc] by blast
  have tok: "\<forall>q \<in> set K. tokens_ok ?md (?tok (rn_id q)) \<and> length (?tok (rn_id q)) \<le> 2 ^ 32"
  proof
    fix q assume "q \<in> set K"
    with sub S(15) [of q] obtain r where r: "map_of (en_requests e) (rn_id q) = Some r" by blast
    from A(2) [OF r] F(2) show "tokens_ok ?md (?tok (rn_id q)) \<and> length (?tok (rn_id q)) \<le> 2 ^ 32"
      using r by (auto simp: request_ok_def tokens_ok_def tokens_of_def generated_def)
  qed
  have cv: "cached_kv fp ?md E (sc_alloc (en_scheduler e)) ?b" using I(2) by (simp add: pool_sound_def)
  have same: "\<forall>x en k. cached (sc_alloc (en_scheduler e)) x = Some (en, k) \<longrightarrow> E' en = E en"
    using extends_cached [OF S(9) core_invD(1) [OF I(5)]] by blast
  have st: "\<forall>q \<in> set (running (en_scheduler e)).
    stored_kv fp ?md ?b (?tok (rn_id q)) (length (?tok (rn_id q)) - 1) (rn_table q)"
  proof
    fix q assume q: "q \<in> set (running (en_scheduler e))"
    from known_request(2) [OF I(3) q] obtain r where r: "map_of (en_requests e) (rn_id q) = Some r" by blast
    have "running_req fp ?md ?b 0 r q" using A(5) [OF q r] by (simp add: lag_def)
    then have "bt_tokens (rn_table q) = length (rq_tokens r) + 0"
      "stored_kv fp ?md ?b (rq_tokens r) (bt_tokens (rn_table q) - 1) (rn_table q)"
      unfolding running_req_def by blast+
    then show "stored_kv fp ?md ?b (?tok (rn_id q)) (length (?tok (rn_id q)) - 1) (rn_table q)"
      by (simp add: tokens_of_def r)
  qed
  from fed_forward [OF F(1,3,4) S(1) F(5,6) K sub gr S(3) tok cv same st] obtain b' where
    b': "forward (cpu_store fp) ?md (map seq_input (map (job_of (rn_id ` set qs) ?tok ?tb) K)) ?b =
      Ok (map (\<lambda>q. next_logits fp ?md (?tok (rn_id q))) K) b'"
    "cpu_inv b'" "cpu_config b' = cpu_config ?b" "cached_kv fp ?md E' (sc_alloc s1) b'"
    "\<forall>q \<in> set K. \<forall>l < length (md_layers ?md). \<forall>p < length (?tok (rn_id q)).
       cpu_entry b' l (slot_at (sc_block_size s1) (?tb (rn_id q)) p) = context_kv fp ?md l (?tok (rn_id q)) ! p"
    by (elim exE conjE) (rule that)
  have "engine_inv fp w asked (rn_id ` set (running s')) E' (e\<lparr>en_scheduler := s', en_cache := b'\<rparr>)"
    by (rule scheduled_inv [OF inv sc b'(2-4)]) (use b'(5) in blast)
  with b'(1) show ?thesis
    unfolding scheduled_same_jobs(1) [OF sc] scheduled_same_jobs(2) [OF sc, of "\<lambda>i. next_logits fp ?md (?tok i)"]
    by blast
qed

end
