(* ===== verification/Engine_Step.thy ===== *)
theory Engine_Step
  imports Engine_Inv
begin

text \<open>
  One step of the engine: it never fails, and every sequence that runs gets the token that the
  reference model picks after its tokens so far; a request leaves when its limit or a stop token
  is reached.
\<close>

section \<open>The batch\<close>

definition info_of :: "RunningSeq \<Rightarrow> RunningInfo" where
  "info_of q = \<lparr>ri_id = rn_id q, ri_tokens = bt_tokens (rn_table q), ri_generated = rn_generated q,
     ri_max_new = rn_max_new q, ri_blocks = bt_blocks (rn_table q), ri_cached = rn_cached q\<rparr>"

lemma running_snapshot_info: "running_snapshot s = map info_of (running s)"
  by (simp add: running_snapshot_def info_of_def)

lemma info_of_simps [simp]:
  "ri_id (info_of q) = rn_id q" "ri_tokens (info_of q) = bt_tokens (rn_table q)"
  "ri_blocks (info_of q) = bt_blocks (rn_table q)"
  by (simp_all add: info_of_def)

abbreviation prefill_map :: "RunningSeq list \<Rightarrow> (SeqId \<times> Prefill) list" where
  "prefill_map qs \<equiv> map (\<lambda>p. (pf_id p, p)) (rev (map prefill_of qs))"

lemma prefill_map_of:
  assumes "distinct (map rn_id qs)"
  shows "q \<in> set qs \<Longrightarrow> map_of (prefill_map qs) (rn_id q) = Some (prefill_of q)"
    "i \<notin> rn_id ` set qs \<Longrightarrow> map_of (prefill_map qs) i = None"
proof -
  have d: "distinct (map fst (prefill_map qs))"
    using assms by (simp add: comp_def prefill_of_def rev_map [symmetric])
  show "map_of (prefill_map qs) (rn_id q) = Some (prefill_of q)" if "q \<in> set qs"
    using that by (intro map_of_is_SomeI [OF d]) (auto simp: image_iff prefill_of_def)
  show "map_of (prefill_map qs) i = None" if "i \<notin> rn_id ` set qs"
    using that by (auto simp: map_of_eq_None_iff prefill_of_def)
qed

text \<open>A sequence whose newest slot waits for the token to be sampled.\<close>

definition ready :: "RunningSeq list \<Rightarrow> ('b, 'f) Engine \<Rightarrow> RunningSeq \<Rightarrow> bool" where
  "ready qs e q \<longleftrightarrow> (\<exists>r. map_of (en_requests e) (rn_id q) = Some r \<and>
     bt_tokens (rn_table q) = length (rq_tokens r) + 1 \<and> rq_tokens r \<noteq> []) \<and>
     (\<forall>p \<in> set qs. rn_id p = rn_id q \<longrightarrow> rn_cached p = rn_cached q)"

lemma ready_stats: "ready qs (add_stats f e) = ready qs e"
  by (simp add: ready_def fun_eq_iff)

lemma seq_starts_ok:
  assumes d: "distinct (map rn_id qs)" and "\<forall>q \<in> set xs. ready qs e q"
  shows "\<exists>f. seq_starts (prefill_map qs) (map info_of xs) e =
    Ok (map (begins (rn_id ` set qs) (tokens_of e)) xs) (add_stats f e)"
  using assms(2)
proof (induction xs arbitrary: e)
  case Nil
  have "add_stats id e = e" by (simp add: add_stats_def)
  then show ?case by (metis list.map(1) seq_starts.simps(1))
next
  case (Cons q xs)
  from Cons.prems obtain r where r: "map_of (en_requests e) (rn_id q) = Some r"
    "bt_tokens (rn_table q) = length (rq_tokens r) + 1" "rq_tokens r \<noteq> []"
    and c: "\<forall>p \<in> set qs. rn_id p = rn_id q \<longrightarrow> rn_cached p = rn_cached q" by (auto simp: ready_def)
  have n: "Suc 0 \<le> length (rq_tokens r)" using r(3) by (cases "rq_tokens r") simp_all
  have tok: "tokens_of (add_stats g e) = tokens_of e" for g by (simp add: tokens_of_def fun_eq_iff)
  show ?case
  proof (cases "rn_id q \<in> rn_id ` set qs")
    case True
    then obtain p where p: "p \<in> set qs" "rn_id p = rn_id q" by auto
    let ?g = "\<lambda>t. t\<lparr>es_cached := es_cached t + pf_cached (prefill_of p),
      es_computed := es_computed t + pf_computed (prefill_of p)\<rparr>"
    have "map_of (prefill_map qs) (rn_id q) = Some (prefill_of p)"
      using prefill_map_of(1) [OF d p(1)] p(2) by simp
    moreover from Cons.IH [of "add_stats ?g e"] Cons.prems obtain f where
      "seq_starts (prefill_map qs) (map info_of xs) (add_stats ?g e) =
        Ok (map (begins (rn_id ` set qs) (tokens_of e)) xs) (add_stats f (add_stats ?g e))"
      by (auto simp: ready_stats tok)
    moreover have "begins (rn_id ` set qs) (tokens_of e) q = pf_cached (prefill_of p)"
      using True c p by (simp add: begins_def prefill_of_def)
    ultimately show ?thesis using r(1,2) by (auto simp: simp del: map_map)
  next
    case False
    from Cons.IH [of e] Cons.prems obtain f where
      "seq_starts (prefill_map qs) (map info_of xs) e =
        Ok (map (begins (rn_id ` set qs) (tokens_of e)) xs) (add_stats f e)" by auto
    moreover have "begins (rn_id ` set qs) (tokens_of e) q = length (rq_tokens r) - 1"
      using False r(1) by (simp add: begins_def tokens_of_def)
    ultimately show ?thesis using r(1,2) n prefill_map_of(2) [OF d False] by (auto simp del: map_map)
  qed
qed

lemma seq_input_job: "seq_input (job_of new tok tb q) =
    \<lparr>in_tokens = drop (begins new tok q) (tok (rn_id q)), in_start = begins new tok q, in_table = tb (rn_id q)\<rparr>"
  by (simp add: seq_input_def job_of_def)

lemma batch_inputs_ok:
  assumes "\<forall>q \<in> set xs. map_of requests (rn_id q) \<noteq> None \<and>
      begins new tok q \<le> length (tok (rn_id q)) \<and> tok (rn_id q) = rq_tokens (the (map_of requests (rn_id q))) \<and>
      tb (rn_id q) = bt_blocks (rn_table q)"
  shows "batch_inputs requests (zip (map info_of xs) (map (begins new tok) xs)) =
    Some (map seq_input (map (job_of new tok tb) xs))"
  using assms
proof (induction xs)
  case (Cons q xs)
  then obtain r where r: "map_of requests (rn_id q) = Some r" by auto
  have "batch_inputs requests (zip (map info_of xs) (map (begins new tok) xs)) =
    Some (map seq_input (map (job_of new tok tb) xs))"
    by (rule Cons.IH, rule ballI, rule bspec [OF Cons.prems]) simp
  moreover have "begins new tok q \<le> length (tok (rn_id q))" "tok (rn_id q) = rq_tokens r"
    "tb (rn_id q) = bt_blocks (rn_table q)" using r Cons.prems by auto
  ultimately show ?case using r by (simp add: seq_input_job del: map_map)
qed simp

section \<open>Recording the sampled tokens\<close>

definition pick :: "'f arith \<Rightarrow> ('b, 'f) Engine \<Rightarrow> SeqId \<Rightarrow> u32" where
  "pick fp e i = next_token fp (en_model e) (tokens_of e i)"

definition with_pick :: "'f arith \<Rightarrow> ('b, 'f) Engine \<Rightarrow> SeqId \<Rightarrow> Request" where
  "with_pick fp e i = (the (map_of (en_requests e) i))\<lparr>rq_tokens := tokens_of e i @ [pick fp e i]\<rparr>"

definition ends :: "'f arith \<Rightarrow> ('b, 'f) Engine \<Rightarrow> SeqId \<Rightarrow> bool" where
  "ends fp e i \<longleftrightarrow> rq_max_new (with_pick fp e i) \<le> generated (with_pick fp e i) \<or> pick fp e i \<in> set (en_stop_tokens e)"

definition report :: "'f arith \<Rightarrow> ('b, 'f) Engine \<Rightarrow> SeqId \<Rightarrow> Finished" where
  "report fp e i = \<lparr>fi_id = i, fi_tokens = drop (rq_prompt_len (with_pick fp e i)) (rq_tokens (with_pick fp e i))\<rparr>"

lemma grown_ok:
  assumes ok: "request_ok fp (en_model e) (en_stop_tokens e) cap r" and r: "map_of (en_requests e) i = Some r"
    and md: "\<forall>x. unat (md_argmax (en_model e) x) < md_vocab (en_model e)"
  shows "prompt_of (with_pick fp e i) = prompt_of r" "rq_max_new (with_pick fp e i) = rq_max_new r"
    "generated (with_pick fp e i) = generated r + 1" "rq_prompt_len (with_pick fp e i) = rq_prompt_len r"
    "rq_tokens (with_pick fp e i) = rq_tokens r @ [pick fp e i]"
    "\<not> ends fp e i \<Longrightarrow> request_ok fp (en_model e) (en_stop_tokens e) cap (with_pick fp e i)"
    "ends fp e i \<Longrightarrow> fi_tokens (report fp e i) =
       greedy fp (en_model e) (en_stop_tokens e) (rq_max_new r) (prompt_of r)"
proof -
  let ?g = "with_pick fp e i" and ?t = "pick fp e i" and ?md = "en_model e" and ?stop = "en_stop_tokens e"
  from ok have O: "0 < rq_prompt_len r" "rq_prompt_len r \<le> length (rq_tokens r)"
    "generated r < rq_max_new r" "rq_prompt_len r + rq_max_new r \<le> md_positions ?md"
    "rq_prompt_len r + rq_max_new r + 1 \<le> cap" "\<forall>t \<in> set (rq_tokens r). unat t < md_vocab ?md"
    "greedy fp ?md ?stop (rq_max_new r) (prompt_of r) =
       drop (rq_prompt_len r) (rq_tokens r) @ greedy fp ?md ?stop (rq_max_new r - generated r) (rq_tokens r)"
    unfolding request_ok_def by blast+
  show T: "rq_tokens ?g = rq_tokens r @ [?t]" and M: "rq_max_new ?g = rq_max_new r"
    and L: "rq_prompt_len ?g = rq_prompt_len r" using r by (simp_all add: with_pick_def tokens_of_def)
  show P: "prompt_of ?g = prompt_of r" using O(2) by (simp add: prompt_of_def T L)
  show G: "generated ?g = generated r + 1" using O(2) by (simp add: generated_def T L)
  have tk: "?t = next_token fp ?md (rq_tokens r)" using r by (simp add: pick_def tokens_of_def)
  have "greedy fp ?md ?stop (rq_max_new r - generated r) (rq_tokens r) =
    ?t # (if rq_max_new r - generated r = 1 \<or> ?t \<in> set ?stop then []
      else greedy fp ?md ?stop (rq_max_new r - generated r - 1) (rq_tokens r @ [?t]))"
    using O(3) by (subst greedy_step) (simp_all add: Let_def tk)
  with O(7) have gr: "greedy fp ?md ?stop (rq_max_new r) (prompt_of r) = drop (rq_prompt_len r) (rq_tokens r) @
    ?t # (if ends fp e i then []
      else greedy fp ?md ?stop (rq_max_new r - generated r - 1) (rq_tokens r @ [?t]))"
    using O(3) by (auto simp: ends_def M G)
  show "request_ok fp ?md ?stop cap ?g" if "\<not> ends fp e i"
    unfolding request_ok_def L M G T P
    using O gr that md by (auto simp: ends_def M G next_token_def tk)
  show "fi_tokens (report fp e i) = greedy fp ?md ?stop (rq_max_new r) (prompt_of r)" if "ends fp e i"
    using gr that O(2) by (simp add: report_def T L)
qed

text \<open>A request that leaves no longer waits for a token to be after_record.\<close>

lemma recorded_elsewhere:
  assumes "agrees fp asked todo e" "map_of (en_requests e) i = None"
  shows "agrees fp asked (todo - {i}) e"
proof -
  note A = agreesD [OF assms(1)]
  have "lag (todo - {i}) (rn_id q) = lag todo (rn_id q)" if "q \<in> set (running (en_scheduler e))" for q
    using known_request(2) [OF assms(1) that] assms(2) by (auto simp: lag_def)
  then show ?thesis using A(1-4) A(5) unfolding agrees_def by simp
qed

lemma context_kv_snoc: "p < length ts \<Longrightarrow> context_kv fp md l (ts @ [t]) ! p = context_kv fp md l ts ! p"
  by (rule context_kv_agree) simp_all

text \<open>One token after_record.\<close>

definition after_pick :: "'f arith \<Rightarrow> ('b, 'f) Engine \<Rightarrow> SeqId \<Rightarrow> Request option" where
  "after_pick fp e i = (if ends fp e i then None else Some (with_pick fp e i))"

lemma record_goes_on:
  assumes inv: "engine_inv fp w asked todo E e" and i: "i \<in> todo" "i \<notin> pd_id ` set (waiting (en_scheduler e))"
    and r: "map_of (en_requests e) i = Some r" and go: "\<not> ends fp e i"
  shows "engine_inv fp w asked (todo - {i}) E
    (e\<lparr>en_requests := AList.update i (with_pick fp e i) (en_requests e)\<rparr>)" (is "engine_inv _ _ _ _ _ ?e")
proof -
  note I = engine_invD [OF inv] and A = agreesD [OF engine_invD(3) [OF inv]]
  have "\<forall>x. unat (md_argmax (en_model e) x) < md_vocab (en_model e)"
    using I(1) by (simp add: store_fits_def model_ok_def)
  note G = grown_ok [OF A(2) [OF r] r this]
  note upd = update_conv' [of i "with_pick fp e i" "en_requests e"]
  have "agrees fp asked (todo - {i}) ?e"
    unfolding agrees_def
  proof (intro conjI allI impI ballI)
    show "dom (map_of (en_requests ?e)) = set (seq_ids (en_scheduler ?e))" using A(1) r by (auto simp: upd)
    show "request_ok fp (en_model ?e) (en_stop_tokens ?e) (capacity (en_scheduler ?e)) x"
      if "map_of (en_requests ?e) j = Some x" for j x
      using that A(2) [of j x] G(6) [OF go] by (auto simp: upd split: if_splits)
    show "asked j = Some (prompt_of x, rq_max_new x)" if "map_of (en_requests ?e) j = Some x" for j x
      using that A(3) [of j x] A(3) [OF r] G(1,2) by (auto simp: upd split: if_splits)
    show "pending_req x p" if "p \<in> set (waiting (en_scheduler ?e))"
      "map_of (en_requests ?e) (pd_id p) = Some x" for p x
      using that A(4) [of p x] i(2) by (auto simp: upd split: if_splits)
    fix q x assume q: "q \<in> set (running (en_scheduler ?e))" "map_of (en_requests ?e) (rn_id q) = Some x"
    show "running_req fp (en_model ?e) (en_cache ?e) (lag (todo - {i}) (rn_id q)) x q"
    proof (cases "rn_id q = i")
      case False
      with q A(5) [of q x] show ?thesis by (simp add: upd lag_def)
    next
      case True
      with q have x: "x = with_pick fp e i" by (simp add: upd)
      have "running_req fp (en_model e) (en_cache e) 1 r q" using A(5) [of q r] q(1) True r i(1) by (simp add: lag_def)
      then have R: "rn_prompt q = prompt_of r" "bt_tokens (rn_table q) = length (rq_tokens r) + 1"
        "rq_prompt_len r < bt_tokens (rn_table q)"
        "rn_generated q + rq_max_new r + 1 = rn_max_new q + generated r + 1"
        "stored_kv fp (en_model e) (en_cache e) (rq_tokens r) (bt_tokens (rn_table q) - 1) (rn_table q)"
        unfolding running_req_def by blast+
      from R(5) have "stored_kv fp (en_model e) (en_cache e) (rq_tokens r @ [pick fp e i])
          (bt_tokens (rn_table q) - 1) (rn_table q)"
        unfolding stored_kv_def R(2) by (simp add: context_kv_snoc)
      then show ?thesis using True G(1-5) R(1-4) by (simp add: running_req_def x lag_def)
    qed
  qed
  with I(1,2) show ?thesis by (simp add: engine_inv_def store_fits_def pool_sound_def)
qed

lemma record_leaves:
  assumes inv: "engine_inv fp w asked todo E e" and r: "map_of (en_requests e) i = Some r"
  shows "\<exists>s'. finish_sequence i (en_scheduler e) = Ok () s' \<and>
    engine_inv fp w asked (todo - {i}) E (e\<lparr>en_scheduler := s', en_requests := AList.delete i (en_requests e)\<rparr>) \<and>
    set (waiting s') \<subseteq> set (waiting (en_scheduler e)) \<and> capacity s' = capacity (en_scheduler e)"
proof -
  from forget_request [OF inv r] obtain s' where
    s': "finish_sequence i (en_scheduler e) = Ok () s'"
    "engine_inv fp w asked todo E (e\<lparr>en_scheduler := s', en_requests := AList.delete i (en_requests e)\<rparr>)"
    "set (waiting s') \<subseteq> set (waiting (en_scheduler e))" "capacity s' = capacity (en_scheduler e)" by blast
  from s'(2) have "engine_inv fp w asked (todo - {i}) E
      (e\<lparr>en_scheduler := s', en_requests := AList.delete i (en_requests e)\<rparr>)"
    unfolding engine_inv_def by (auto intro!: recorded_elsewhere simp: map_of_delete)
  with s' show ?thesis by blast
qed

text \<open>One token, then the others: what the loop does with the head.\<close>

lemma record_head:
  assumes r: "map_of (en_requests e) i = Some r" and md: "ri_id x = i" "t = pick fp e i"
    and ok: "rq_prompt_len r \<le> length (rq_tokens r)"
  shows "record_tokens ((x, t) # rs) out e =
    (let out = out\<lparr>sampled := sampled out @ [(i, t)]\<rparr>;
         e1 = add_stats (\<lambda>t. t\<lparr>es_generated := es_generated t + 1\<rparr>)
           (e\<lparr>en_requests := AList.update i (with_pick fp e i) (en_requests e)\<rparr>) in
     if ends fp e i then
       bind_res (on_scheduler (finish_sequence i) e1) (\<lambda>_ e2.
         record_tokens rs (out\<lparr>so_finished := so_finished out @ [report fp e i]\<rparr>)
           (e2\<lparr>en_requests := AList.delete i (en_requests e2)\<rparr>))
     else record_tokens rs out e1)"
proof -
  have tk: "tokens_of e i = rq_tokens r" using r by (simp add: tokens_of_def)
  have g: "with_pick fp e i = r\<lparr>rq_tokens := rq_tokens r @ [t]\<rparr>" using r md by (simp add: with_pick_def tk)
  have n: "usize_sub (length (rq_tokens r @ [t])) (rq_prompt_len r) = generated (with_pick fp e i)"
    using ok by (simp add: g generated_def)
  have en: "ends fp e i \<longleftrightarrow> rq_max_new r \<le> generated (with_pick fp e i) \<or> t \<in> set (en_stop_tokens e)"
    by (simp add: ends_def g md(2))
  have rep: "report fp e i = \<lparr>fi_id = i, fi_tokens = drop (rq_prompt_len r) (rq_tokens r @ [t])\<rparr>"
    by (simp add: report_def g)
  show ?thesis
    unfolding record_tokens.simps Let_def md(1) r option.case n en rep g by simp
qed

definition after_record :: "'f arith \<Rightarrow> ('b, 'f) Engine \<Rightarrow> SeqId list \<Rightarrow> ('b, 'f) Engine \<Rightarrow> ('b, 'f) Engine \<Rightarrow> bool" where
  "after_record fp e0 ids e e' \<longleftrightarrow> en_model e' = en_model e \<and> en_stop_tokens e' = en_stop_tokens e \<and>
     capacity (en_scheduler e') = capacity (en_scheduler e) \<and>
     map_of (en_requests e') = (\<lambda>j. if j \<in> set ids then after_pick fp e0 j else map_of (en_requests e) j)"

lemma same_pick:
  assumes "en_model e = en_model e0" "en_stop_tokens e = en_stop_tokens e0"
    and "map_of (en_requests e) i = map_of (en_requests e0) i"
  shows "pick fp e i = pick fp e0 i" "with_pick fp e i = with_pick fp e0 i" "ends fp e i = ends fp e0 i"
    "report fp e i = report fp e0 i" "after_pick fp e i = after_pick fp e0 i"
  using assms by (simp_all add: pick_def with_pick_def ends_def report_def after_pick_def tokens_of_def)

lemma record_tokens_ok:
  assumes "engine_inv fp w asked todo E e" "distinct (map rn_id xs)" "rn_id ` set xs \<subseteq> todo"
    and "rn_id ` set xs \<inter> pd_id ` set (waiting (en_scheduler e)) = {}"
    and "\<forall>q \<in> set xs. map_of (en_requests e) (rn_id q) \<noteq> None \<and>
      map_of (en_requests e) (rn_id q) = map_of (en_requests e0) (rn_id q)"
    and "en_model e = en_model e0" "en_stop_tokens e = en_stop_tokens e0"
  shows "\<exists>e'. record_tokens (zip (map info_of xs) (map (\<lambda>q. pick fp e0 (rn_id q)) xs)) out e =
      Ok \<lparr>sampled = sampled out @ map (\<lambda>q. (rn_id q, pick fp e0 (rn_id q))) xs,
          so_finished = so_finished out @ map (report fp e0) (filter (ends fp e0) (map rn_id xs))\<rparr> e' \<and>
    engine_inv fp w asked (todo - rn_id ` set xs) E e' \<and> after_record fp e0 (map rn_id xs) e e'"
  using assms
proof (induction xs arbitrary: todo out e)
  case Nil
  then show ?case by (simp add: after_record_def)
next
  case (Cons q xs)
  let ?i = "rn_id q"
  from Cons.prems(5) obtain r where r: "map_of (en_requests e) ?i = Some r" "map_of (en_requests e0) ?i = Some r"
    by auto
  from Cons.prems have i: "?i \<in> todo" "?i \<notin> pd_id ` set (waiting (en_scheduler e))" "?i \<notin> rn_id ` set xs" by auto
  have "rq_prompt_len r \<le> length (rq_tokens r)"
    using agreesD(2) [OF engine_invD(3) [OF Cons.prems(1)] r(1)] by (simp add: request_ok_def)
  note P = same_pick [OF Cons.prems(6,7), of ?i fp] and head = record_head [OF r(1) info_of_simps(1) _ this]
  have todo: "todo - {?i} - rn_id ` set xs = todo - rn_id ` set (q # xs)" by auto
  let ?out = "out\<lparr>sampled := sampled out @ [(?i, pick fp e0 ?i)]\<rparr>"
  let ?f = "\<lambda>t. t\<lparr>es_generated := es_generated t + 1\<rparr>"
  have step: "\<exists>out1 e1. record_tokens (zip (map info_of (q # xs)) (map (\<lambda>q. pick fp e0 (rn_id q)) (q # xs))) out e =
      record_tokens (zip (map info_of xs) (map (\<lambda>q. pick fp e0 (rn_id q)) xs)) out1 e1 \<and>
    sampled out1 = sampled out @ [(?i, pick fp e0 ?i)] \<and>
    so_finished out1 = so_finished out @ (if ends fp e0 ?i then [report fp e0 ?i] else []) \<and>
    engine_inv fp w asked (todo - {?i}) E e1 \<and> set (waiting (en_scheduler e1)) \<subseteq> set (waiting (en_scheduler e)) \<and>
    after_record fp e0 [?i] e e1"
  proof (cases "ends fp e0 ?i")
    case False
    let ?e1 = "add_stats ?f (e\<lparr>en_requests := AList.update ?i (with_pick fp e ?i) (en_requests e)\<rparr>)"
    have "engine_inv fp w asked (todo - {?i}) E ?e1"
      using record_goes_on [OF Cons.prems(1) i(1,2) r(1)] False P(3) r by simp
    moreover have "after_record fp e0 [?i] e ?e1"
      using False r P(2) by (auto simp: after_record_def update_conv' after_pick_def fun_eq_iff)
    ultimately show ?thesis
      using head [of "pick fp e0 ?i" fp "zip (map info_of xs) (map (\<lambda>q. pick fp e0 (rn_id q)) xs)" out] P r False
      by (intro exI [of _ ?out] exI [of _ ?e1]) simp
  next
    case True
    from record_leaves [OF Cons.prems(1) r(1)] obtain s' where
      s': "finish_sequence ?i (en_scheduler e) = Ok () s'"
      "engine_inv fp w asked (todo - {?i}) E (e\<lparr>en_scheduler := s', en_requests := AList.delete ?i (en_requests e)\<rparr>)"
      "set (waiting s') \<subseteq> set (waiting (en_scheduler e))" "capacity s' = capacity (en_scheduler e)" by blast
    let ?e1 = "add_stats ?f (e\<lparr>en_scheduler := s', en_requests := AList.delete ?i (en_requests e)\<rparr>)"
    let ?out1 = "?out\<lparr>so_finished := so_finished out @ [report fp e0 ?i]\<rparr>"
    let ?e2 = "add_stats ?f (e\<lparr>en_requests := AList.update ?i (with_pick fp e ?i) (en_requests e)\<rparr>)\<lparr>en_scheduler := s'\<rparr>"
    have "on_scheduler (finish_sequence ?i)
        (add_stats ?f (e\<lparr>en_requests := AList.update ?i (with_pick fp e ?i) (en_requests e)\<rparr>)) = Ok () ?e2"
      using s'(1) by (simp add: on_scheduler_def)
    moreover have "?e2\<lparr>en_requests := AList.delete ?i (en_requests ?e2)\<rparr> = ?e1"
      by (simp add: add_stats_def delete_update_same)
    moreover have "after_record fp e0 [?i] e ?e1"
      using True r s'(4) by (auto simp: after_record_def Engine_Inv.map_of_delete after_pick_def fun_eq_iff)
    ultimately show ?thesis
      using head [of "pick fp e0 ?i" fp "zip (map info_of xs) (map (\<lambda>q. pick fp e0 (rn_id q)) xs)" out] P r True s'(2,3)
      by (intro exI [of _ ?out1] exI [of _ ?e1]) (simp del: add_stats_simps(3))
  qed
  then obtain out1 e1 where
    e1: "record_tokens (zip (map info_of (q # xs)) (map (\<lambda>q. pick fp e0 (rn_id q)) (q # xs))) out e =
      record_tokens (zip (map info_of xs) (map (\<lambda>q. pick fp e0 (rn_id q)) xs)) out1 e1"
    "sampled out1 = sampled out @ [(?i, pick fp e0 ?i)]"
    "so_finished out1 = so_finished out @ (if ends fp e0 ?i then [report fp e0 ?i] else [])"
    "engine_inv fp w asked (todo - {?i}) E e1" "set (waiting (en_scheduler e1)) \<subseteq> set (waiting (en_scheduler e))"
    "after_record fp e0 [?i] e e1" by (elim exE conjE) (rule that)
  have "\<exists>e'. record_tokens (zip (map info_of xs) (map (\<lambda>q. pick fp e0 (rn_id q)) xs)) out1 e1 =
      Ok \<lparr>sampled = sampled out1 @ map (\<lambda>q. (rn_id q, pick fp e0 (rn_id q))) xs,
          so_finished = so_finished out1 @ map (report fp e0) (filter (ends fp e0) (map rn_id xs))\<rparr> e' \<and>
    engine_inv fp w asked (todo - {?i} - rn_id ` set xs) E e' \<and> after_record fp e0 (map rn_id xs) e1 e'"
  proof (rule Cons.IH [OF e1(4)])
    show "rn_id ` set xs \<inter> pd_id ` set (waiting (en_scheduler e1)) = {}" using e1(5) Cons.prems(4) by auto
    show "\<forall>p \<in> set xs. map_of (en_requests e1) (rn_id p) \<noteq> None \<and>
      map_of (en_requests e1) (rn_id p) = map_of (en_requests e0) (rn_id p)"
    proof
      fix p assume p: "p \<in> set xs"
      then have "rn_id p \<noteq> ?i" using i(3) by (metis imageI)
      then have "map_of (en_requests e1) (rn_id p) = map_of (en_requests e) (rn_id p)"
        using e1(6) by (simp add: after_record_def)
      with Cons.prems(5) p show "map_of (en_requests e1) (rn_id p) \<noteq> None \<and>
        map_of (en_requests e1) (rn_id p) = map_of (en_requests e0) (rn_id p)" by (metis list.set_intros(2))
    qed
    show "rn_id ` set xs \<subseteq> todo - {?i}" using Cons.prems(3) i(3) by (simp add: subset_Diff_insert)
  qed (use Cons.prems e1(6) in \<open>simp_all add: after_record_def\<close>)
  then obtain e' where e': "record_tokens (zip (map info_of xs) (map (\<lambda>q. pick fp e0 (rn_id q)) xs)) out1 e1 =
      Ok \<lparr>sampled = sampled out1 @ map (\<lambda>q. (rn_id q, pick fp e0 (rn_id q))) xs,
          so_finished = so_finished out1 @ map (report fp e0) (filter (ends fp e0) (map rn_id xs))\<rparr> e'"
    "engine_inv fp w asked (todo - rn_id ` set (q # xs)) E e'" "after_record fp e0 (map rn_id xs) e1 e'"
    unfolding todo by blast
  moreover have "after_record fp e0 (map rn_id (q # xs)) e e'"
    using e1(6) e'(3) by (auto simp: after_record_def fun_eq_iff)
  ultimately show ?case unfolding e1(1) using e1(2,3) by (intro exI [of _ e']) simp
qed

section \<open>The step\<close>

text \<open>What a step gives out, and what it leaves of the requests.\<close>

definition served :: "'f arith \<Rightarrow> ('b, 'f) Engine \<Rightarrow> SeqId list \<Rightarrow> StepOutput \<Rightarrow> ('b, 'f) Engine \<Rightarrow> bool" where
  "served fp e ids out e' \<longleftrightarrow> distinct ids \<and> set ids \<subseteq> dom (map_of (en_requests e)) \<and>
     out = \<lparr>sampled = map (\<lambda>i. (i, pick fp e i)) ids, so_finished = map (report fp e) (filter (ends fp e) ids)\<rparr> \<and>
     after_record fp e ids e e'"

lemma engine_live:
  assumes "engine_inv fp w asked {} E e"
  shows "live (en_scheduler e)"
proof -
  note I = engine_invD [OF assms] and A = agreesD [OF engine_invD(3) [OF assms]]
  let ?s = "en_scheduler e"
  have "live_running (capacity ?s) q" if q: "q \<in> set (running ?s)" for q
  proof -
    from known_request(2) [OF I(3) q] obtain r where r: "map_of (en_requests e) (rn_id q) = Some r" by blast
    from A(5) [OF q r] A(2) [OF r] show ?thesis
      by (auto simp: running_req_def request_ok_def live_running_def lag_def generated_def)
  qed
  moreover have "live_pending (capacity ?s) p" if p: "p \<in> set (waiting ?s)" for p
  proof -
    from known_request(1) [OF I(3) p] obtain r where r: "map_of (en_requests e) (pd_id p) = Some r" by blast
    from A(4) [OF p r] A(2) [OF r] show ?thesis
      by (auto simp: pending_req_def request_ok_def live_pending_def generated_def)
  qed
  ultimately show ?thesis using I(1) by (simp add: live_def store_fits_def)
qed

lemma step_runs_someone:
  assumes inv: "engine_inv fp w asked {} E e" and op: "step (en_scheduler e) = Ok out s'"
    and sc: "scheduled e E out s' E' s1 qs K vs" and busy: "en_requests e \<noteq> []"
  shows "K \<noteq> []"
proof -
  have "dom (map_of (en_requests e)) \<noteq> {}" using busy by (cases "en_requests e") auto
  with agreesD(1) [OF engine_invD(3) [OF inv]] have "seq_ids (en_scheduler e) \<noteq> []" by auto
  then have "\<not> is_idle (en_scheduler e)" by (auto simp: is_idle_def seq_ids_def)
  from step_progress [OF engine_invD(4) [OF inv] engine_live [OF inv] this] op
  have "decoded out \<noteq> []" by auto
  with scheduledD(16) [OF sc] show ?thesis by auto
qed

lemma scheduled_ready:
  assumes inv: "engine_inv fp w asked {} E e" and sc: "scheduled e E out s' E' s1 qs K vs"
  shows "\<forall>q \<in> set (running s'). ready qs e q" "distinct (map rn_id qs)"
proof -
  note S = scheduledD [OF sc] and A = agreesD [OF engine_invD(3) [OF inv]]
  have ids: "distinct (map rn_id (running s1))" using core_invD(10) [OF feedingD(1) [OF S(1)]] by (simp add: seq_ids_def)
  then show "distinct (map rn_id qs)" using feedingD(2) [OF S(1)] by simp
  show "\<forall>q \<in> set (running s'). ready qs e q"
  proof
    fix q' assume "q' \<in> set (running s')"
    from list_all2_in_right [OF S(4) this] obtain q where q: "q \<in> set K" "advanced q q'" by blast
    then have qr: "q \<in> set (running s1)" using S(2) by simp
    from S(15) [OF this] obtain r where r: "map_of (en_requests e) (rn_id q) = Some r" "sched_req r q" by blast
    from A(2) [OF r(1)] have "rq_tokens r \<noteq> []" by (auto simp: request_ok_def)
    moreover have "p = q" if "p \<in> set qs" "rn_id p = rn_id q" for p
    proof -
      have "p \<in> set (running s1)" using that(1) S(2,3) by auto
      with that(2) qr ids show ?thesis by (metis distinct_map inj_onD)
    qed
    ultimately show "ready qs e q'" using q(2) r by (auto simp: ready_def advanced_def sched_req_def)
  qed
qed

lemma step_nothing: "running s = [] \<Longrightarrow> waiting s = [] \<Longrightarrow> step s = Ok no_outcome s"
  by (simp add: step_def admit_def decode_def retire_finished_def)

lemma engine_step_idle:
  assumes "engine_inv fp w asked {} E e" "en_requests e = []"
  shows "\<exists>f. engine_step B e = Ok no_output (add_stats f e)"
proof -
  have "seq_ids (en_scheduler e) = []" using agreesD(1) [OF engine_invD(3) [OF assms(1)]] assms(2) by simp
  then have q: "running (en_scheduler e) = []" "waiting (en_scheduler e) = []" by (simp_all add: seq_ids_def)
  let ?f = "\<lambda>t. t\<lparr>es_steps := es_steps t + 1\<rparr>"
  have "engine_step B e = Ok no_output (add_stats ?f e)"
    using step_nothing [OF q] q
    by (simp add: engine_step_def on_scheduler_def run_outcome_def no_outcome_def running_snapshot_def add_stats_def)
  then show ?thesis by blast
qed

lemma engine_step_busy:
  assumes inv: "engine_inv fp w asked {} E e" and busy: "en_requests e \<noteq> []"
  shows "\<exists>out e' E' ids. engine_step (cpu_store fp) e = Ok out e' \<and> engine_inv fp w asked {} E' e' \<and>
    served fp e ids out e' \<and> ids \<noteq> []"
proof -
  from engine_schedule [OF inv] obtain so s' E' s1 qs K vs where
    op: "step (en_scheduler e) = Ok so s'" and sc: "scheduled e E so s' E' s1 qs K vs" by blast
  note S = scheduledD [OF sc] and I = engine_invD [OF inv] and A = agreesD [OF engine_invD(3) [OF inv]]
  have K: "K \<noteq> []" by (rule step_runs_someone [OF inv op sc busy])
  with S(4) have ne: "running s' \<noteq> []" by auto
  note R = scheduled_ready [OF inv sc]
  let ?new = "rn_id ` set qs" and ?tok = "tokens_of e" and ?xs = "running s'"
  let ?f = "\<lambda>t. t\<lparr>es_steps := es_steps t + 1, es_preemptions := es_preemptions t + length (preempted so)\<rparr>"
  let ?e1 = "add_stats ?f (e\<lparr>en_scheduler := s'\<rparr>)"
  have same: "tokens_of ?e1 = ?tok" "ready qs ?e1 = ready qs e" by (simp_all add: tokens_of_def ready_def fun_eq_iff)
  from seq_starts_ok [of qs ?xs ?e1] R obtain g where
    starts: "seq_starts (prefill_map qs) (map info_of ?xs) ?e1 = Ok (map (begins ?new ?tok) ?xs) (add_stats g ?e1)"
    unfolding same by blast
  have dist: "distinct (map rn_id ?xs)" by (rule sched_distinct [OF S(8)])
  have known: "\<forall>q \<in> set ?xs. map_of (en_requests e) (rn_id q) \<noteq> None"
    using R(1) by (auto simp: ready_def)
  have tb: "\<forall>q \<in> set ?xs. table_of s' (rn_id q) = bt_blocks (rn_table q)"
    using table_of_running [OF dist] by blast
  have beg: "\<forall>q \<in> set ?xs. begins ?new ?tok q \<le> length (?tok (rn_id q))"
  proof
    fix q' assume "q' \<in> set ?xs"
    from list_all2_in_right [OF S(4) this] obtain q where q: "q \<in> set K" "advanced q q'" by blast
    then have "begins ?new ?tok q' = begins ?new ?tok q" "rn_id q' = rn_id q"
      by (simp_all add: begins_def advanced_def)
    moreover have "begins ?new ?tok q < length (?tok (rn_id q))"
      using begins_less [OF S(1)] q(1) S(2) by simp
    ultimately show "begins ?new ?tok q' \<le> length (?tok (rn_id q'))" by simp
  qed
  have batch: "batch_inputs (en_requests e) (zip (map info_of ?xs) (map (begins ?new ?tok) ?xs)) =
    Some (map seq_input (map (job_of ?new ?tok (table_of s')) ?xs))"
    by (rule batch_inputs_ok) (use known tb beg in \<open>simp add: tokens_of_def\<close>)
  from forward_step [OF inv sc K] obtain b' where
    fw: "forward (cpu_store fp) (en_model e) (map seq_input (map (job_of ?new ?tok (table_of s')) ?xs)) (en_cache e) =
      Ok (map (\<lambda>q. next_logits fp (en_model e) (?tok (rn_id q))) ?xs) b'"
    and inv': "engine_inv fp w asked (rn_id ` set ?xs) E' (e\<lparr>en_scheduler := s', en_cache := b'\<rparr>)" by blast
  let ?e2 = "add_stats (g \<circ> ?f) (e\<lparr>en_scheduler := s', en_cache := b'\<rparr>)"
  have i2: "engine_inv fp w asked (rn_id ` set ?xs) E' ?e2" using inv' by simp
  have "distinct (seq_ids s')" using core_invD(10) S(8) by (auto simp: sched_inv_def)
  then have "rn_id ` set ?xs \<inter> pd_id ` set (waiting s') = {}" by (auto simp: seq_ids_def)
  with record_tokens_ok [OF i2 dist order_refl, of e no_output] known obtain e' where
    rec: "record_tokens (zip (map info_of ?xs) (map (\<lambda>q. pick fp e (rn_id q)) ?xs)) no_output ?e2 =
      Ok \<lparr>sampled = map (\<lambda>q. (rn_id q, pick fp e (rn_id q))) ?xs,
          so_finished = map (report fp e) (filter (ends fp e) (map rn_id ?xs))\<rparr> e'"
    "engine_inv fp w asked {} E' e'" "after_record fp e (map rn_id ?xs) ?e2 e'"
    by (auto simp: no_output_def)
  let ?out = "\<lparr>sampled = map (\<lambda>q. (rn_id q, pick fp e (rn_id q))) ?xs,
    so_finished = map (report fp e) (filter (ends fp e) (map rn_id ?xs))\<rparr>"
  have picks: "map (md_argmax (en_model e)) (map (\<lambda>q. next_logits fp (en_model e) (?tok (rn_id q))) ?xs) =
      map (\<lambda>q. pick fp e (rn_id q)) ?xs" by (simp add: pick_def next_token_def)
  have cache: "on_cache (forward (cpu_store fp) (en_model e)
      (map seq_input (map (job_of ?new ?tok (table_of s')) ?xs))) (add_stats g ?e1) =
    Ok (map (\<lambda>q. next_logits fp (en_model e) (?tok (rn_id q))) ?xs) ?e2"
    using fw by (simp add: on_cache_def add_stats_def)
  have run: "run_outcome (cpu_store fp) so ?e1 = Ok ?out e'"
    unfolding run_outcome_def Let_def S(6,7)
    using starts batch cache rec(1) picks ne by (simp add: running_snapshot_info del: map_map rev_map)
  have "engine_step (cpu_store fp) e = Ok ?out e'"
    using op run by (simp add: engine_step_def on_scheduler_def)
  moreover have "served fp e (map rn_id ?xs) ?out e'"
    using dist known rec(3) S(10) by (auto simp: served_def after_record_def capacity_def same_config_def same_pool_def)
  ultimately show ?thesis using rec(2) ne by blast
qed

end
