(* ===== verification/Engine_Run.thy ===== *)
theory Engine_Run
  imports Engine_Step
begin

text \<open>
  The engine over its life: every state that its operations reach keeps the invariant, what it
  still owes each request is known, and every step gives some of it out, so that serving until
  idle ends with every request's greedy decoding.
\<close>

section \<open>A new engine\<close>

definition deployment_ok :: "'f PagedQwen2 \<Rightarrow> CacheConfig \<Rightarrow> nat \<Rightarrow> bool" where
  "deployment_ok md config max_batch \<longleftrightarrow> (\<exists>w. model_ok md w) \<and> md_positions md \<le> 2 ^ 32 \<and>
     fits_model md config \<and> geometry_ok config max_batch \<and> 0 < max_batch"

lemma cpu_new_config [simp]: "cpu_config (cpu_new z c) = c"
  by (simp add: cpu_new_def Let_def)

lemma new_scheduler:
  "running (sched_new c n) = []" "waiting (sched_new c n) = []"
  "running (sched_with_prefix_caching c n) = []" "waiting (sched_with_prefix_caching c n) = []"
  "cached (sc_alloc (sched_new c n)) b = None" "cached (sc_alloc (sched_with_prefix_caching c n)) b = None"
  "cnt (sc_alloc (sched_new c n)) b = 0" "cnt (sc_alloc (sched_with_prefix_caching c n)) b = 0"
  "sc_block_size (sched_new c n) = block_size c" "sc_block_size (sched_with_prefix_caching c n) = block_size c"
  "al_num_blocks (sc_alloc (sched_new c n)) = num_blocks c"
  "al_num_blocks (sc_alloc (sched_with_prefix_caching c n)) = num_blocks c"
  "sc_max_batch (sched_new c n) = n" "sc_max_batch (sched_with_prefix_caching c n) = n"
  by (simp_all add: sched_new_def sched_with_prefix_caching_def with_allocator_def alloc_new_def
      alloc_with_prefix_caching_def cnt_def cached_def index_new_def cached_as_def)

lemma engine_new_inv:
  assumes "deployment_ok md config max_batch"
  shows "\<exists>w. engine_inv fp w Map.empty {} (\<lambda>_. [])
    (stop_at stop (engine_new (cpu_store fp) md (cpu_new z config) max_batch caching))"
proof -
  from assms obtain w where D: "model_ok md w" "md_positions md \<le> 2 ^ 32" "fits_model md config"
    "geometry_ok config max_batch" "0 < max_batch" by (auto simp: deployment_ok_def)
  let ?e = "stop_at stop (engine_new (cpu_store fp) md (cpu_new z config) max_batch caching)"
  have E: "en_model ?e = md" "en_cache ?e = cpu_new z config" "en_requests ?e = []"
    "en_scheduler ?e = (if caching then sched_with_prefix_caching config max_batch else sched_new config max_batch)"
    by (simp_all add: stop_at_def engine_new_def cpu_store_def)
  have "store_fits w ?e" using D by (simp add: store_fits_def E new_scheduler cpu_inv_new)
  moreover have "pool_sound fp (\<lambda>_. []) ?e"
    using sched_inv_new [OF D(4)] by (simp add: pool_sound_def E lone_def cached_kv_def new_scheduler)
  moreover have "agrees fp Map.empty {} ?e" by (simp add: agrees_def E seq_ids_def new_scheduler)
  ultimately show ?thesis unfolding engine_inv_def by blast
qed

section \<open>Its life\<close>

text \<open>
  What a client may do, in any order: add requests under ids not in use, cancel, step. \<open>asked\<close>
  records what was asked last under each id.
\<close>

inductive engine_reach :: "'f arith \<Rightarrow> 'f PagedQwen2 \<Rightarrow> CacheConfig \<Rightarrow> nat \<Rightarrow> u32 list \<Rightarrow> asked \<Rightarrow>
    ('f CpuBackend, 'f) Engine \<Rightarrow> bool" for fp md config max_batch stop where
  new: "engine_reach fp md config max_batch stop Map.empty
    (stop_at stop (engine_new (cpu_store fp) md (cpu_new z config) max_batch caching))"
| request: "engine_reach fp md config max_batch stop asked e \<Longrightarrow> map_of (en_requests e) i = None \<Longrightarrow>
    askable md prompt max_new \<Longrightarrow> engine_add_request i prompt max_new e = Ok () e' \<Longrightarrow>
    engine_reach fp md config max_batch stop (asked(i \<mapsto> (prompt, max_new))) e'"
| refused: "engine_reach fp md config max_batch stop asked e \<Longrightarrow> map_of (en_requests e) i = None \<Longrightarrow>
    askable md prompt max_new \<Longrightarrow> engine_add_request i prompt max_new e = Err msg e' \<Longrightarrow>
    engine_reach fp md config max_batch stop asked e'"
| cancel: "engine_reach fp md config max_batch stop asked e \<Longrightarrow> engine_cancel i e = Some (found, e') \<Longrightarrow>
    engine_reach fp md config max_batch stop asked e'"
| step: "engine_reach fp md config max_batch stop asked e \<Longrightarrow>
    res_state (engine_step (cpu_store fp) e) = Some e' \<Longrightarrow>
    engine_reach fp md config max_batch stop asked e'"

lemma engine_step_ok:
  assumes inv: "engine_inv fp w asked {} E e"
  shows "\<exists>out e' E' ids. engine_step (cpu_store fp) e = Ok out e' \<and> engine_inv fp w asked {} E' e' \<and>
    served fp e ids out e' \<and> (ids = [] \<longleftrightarrow> en_requests e = [])"
proof (cases "en_requests e = []")
  case True
  from engine_step_idle [OF inv this] obtain f where
    f: "engine_step (cpu_store fp) e = Ok no_output (add_stats f e)" by blast
  moreover have "served fp e [] no_output (add_stats f e)" using True
    by (simp add: served_def after_record_def no_output_def)
  ultimately show ?thesis using inv True engine_inv_stats by blast
next
  case False
  from engine_step_busy [OF inv False] show ?thesis using False by blast
qed

definition serves :: "'f PagedQwen2 \<Rightarrow> CacheConfig \<Rightarrow> u32 list \<Rightarrow> ('f CpuBackend, 'f) Engine \<Rightarrow> bool" where
  "serves md config stop e \<longleftrightarrow> en_model e = md \<and> en_stop_tokens e = stop \<and>
     capacity (en_scheduler e) = num_blocks config * block_size config"

lemma enqueue_capacity: "enqueue i n prompt m s = Ok () s' \<Longrightarrow> capacity s' = capacity s"
  by (cases "div_ceil (usize_add n m) (sc_block_size s)")
    (auto simp: enqueue_def Let_def capacity_def split: if_splits)

lemma add_request_serves:
  assumes "engine_add_request i prompt max_new e = Ok () e'" "serves md config stop e"
  shows "serves md config stop e'"
  using assms enqueue_capacity [of i "length prompt" prompt _ "en_scheduler e"]
  by (cases "enqueue i (length prompt) prompt (usize_add max_new 1) (en_scheduler e)")
    (auto simp: engine_add_request_def on_scheduler_def add_prompt_def serves_def split: if_splits)

lemma cancel_serves:
  assumes "engine_inv fp w asked todo E e" "engine_cancel i e = Some (found, e')" "serves md config stop e"
  shows "serves md config stop e'"
proof (cases "map_of (en_requests e) i")
  case None
  with assms(2,3) show ?thesis by (simp add: engine_cancel_def)
next
  case (Some r)
  from forget_request [OF assms(1) this] obtain s' where
    "finish_sequence i (en_scheduler e) = Ok () s'" "capacity s' = capacity (en_scheduler e)" by blast
  with Some assms(2,3) show ?thesis by (auto simp: engine_cancel_def serves_def)
qed

lemma engine_reach_inv:
  assumes d: "deployment_ok md config max_batch" and r: "engine_reach fp md config max_batch stop asked e"
  shows "\<exists>w E. engine_inv fp w asked {} E e \<and> serves md config stop e"
  using r
proof (induction rule: engine_reach.induct)
  case (new z caching)
  from engine_new_inv [OF d] show ?case
    by (fastforce simp: serves_def stop_at_def engine_new_def cpu_store_def capacity_def new_scheduler)
next
  case (request asked e i prompt max_new e')
  then obtain w E where inv: "engine_inv fp w asked {} E e" and s: "serves md config stop e" by blast
  have ask: "askable (en_model e) prompt max_new" using s request(3) by (simp add: serves_def)
  have "serves md config stop e'" by (rule add_request_serves [OF request(4) s])
  moreover from add_request_ok [OF inv request(2) ask] request(4)
  have "engine_inv fp w (asked(i \<mapsto> (prompt, max_new))) {} E e'" by (auto split: if_splits)
  ultimately show ?case by blast
next
  case (refused asked e i prompt max_new msg e')
  then obtain w E where inv: "engine_inv fp w asked {} E e" and s: "serves md config stop e" by blast
  have ask: "askable (en_model e) prompt max_new" using s refused(3) by (simp add: serves_def)
  from add_request_ok [OF inv refused(2) ask] refused(4) have "e' = e" by (auto split: if_splits)
  with inv s show ?case by blast
next
  case (cancel asked e i found e')
  then obtain w E where inv: "engine_inv fp w asked {} E e" and s: "serves md config stop e" by blast
  from cancel_ok [OF inv, of i] cancel(2) have "engine_inv fp w asked {} E e'" by auto
  moreover have "serves md config stop e'" by (rule cancel_serves [OF inv cancel(2) s])
  ultimately show ?case by blast
next
  case (step asked e e')
  then obtain w E where inv: "engine_inv fp w asked {} E e" and s: "serves md config stop e" by blast
  from engine_step_ok [OF inv] step(2) obtain out E' ids where
    "engine_inv fp w asked {} E' e'" "served fp e ids out e'" by auto
  with s show ?case by (auto simp: served_def after_record_def serves_def)
qed

section \<open>What is still owed\<close>

text \<open>The tokens the engine still owes to an id, and the number of steps they can take.\<close>

definition owed :: "'f arith \<Rightarrow> ('b, 'f) Engine \<Rightarrow> SeqId \<Rightarrow> u32 list" where
  "owed fp e i = (case map_of (en_requests e) i of
     None \<Rightarrow> []
   | Some r \<Rightarrow> greedy fp (en_model e) (en_stop_tokens e) (rq_max_new r - generated r) (rq_tokens r))"

definition answer :: "'f arith \<Rightarrow> ('b, 'f) Engine \<Rightarrow> SeqId \<Rightarrow> u32 list list" where
  "answer fp e i = (case map_of (en_requests e) i of
     None \<Rightarrow> []
   | Some r \<Rightarrow> [greedy fp (en_model e) (en_stop_tokens e) (rq_max_new r) (prompt_of r)])"

definition left :: "('b, 'f) Engine \<Rightarrow> SeqId \<Rightarrow> nat" where
  "left e i = (case map_of (en_requests e) i of None \<Rightarrow> 0 | Some r \<Rightarrow> rq_max_new r - generated r)"

definition outstanding :: "('b, 'f) Engine \<Rightarrow> nat" where
  "outstanding e = sum (left e) (dom (map_of (en_requests e)))"

text \<open>What a step gives to an id: a token at most, and its whole answer at the end.\<close>

definition tokens_to :: "SeqId \<Rightarrow> StepOutput \<Rightarrow> u32 list" where
  "tokens_to i out = map snd (filter (\<lambda>(j, t). j = i) (sampled out))"

definition answers_to :: "SeqId \<Rightarrow> StepOutput \<Rightarrow> u32 list list" where
  "answers_to i out = map fi_tokens (filter (\<lambda>f. fi_id f = i) (so_finished out))"

lemma filter_eq_distinct: "distinct xs \<Longrightarrow> filter (\<lambda>x. x = a) xs = (if a \<in> set xs then [a] else [])"
  by (induction xs) auto

lemma served_to:
  assumes "served fp e ids out e'"
  shows "tokens_to i out = (if i \<in> set ids then [pick fp e i] else [])"
    "answers_to i out = (if i \<in> set ids \<and> ends fp e i then [fi_tokens (report fp e i)] else [])"
proof -
  from assms have d: "distinct ids" and out: "out = \<lparr>sampled = map (\<lambda>i. (i, pick fp e i)) ids,
      so_finished = map (report fp e) (filter (ends fp e) ids)\<rparr>" by (simp_all add: served_def)
  show "tokens_to i out = (if i \<in> set ids then [pick fp e i] else [])"
    using filter_eq_distinct [OF d, of i] by (simp add: tokens_to_def out filter_map comp_def)
  have "filter (\<lambda>x. ends fp e x \<and> x = i) ids = filter (ends fp e) (filter (\<lambda>x. x = i) ids)"
    by (simp add: conj_commute)
  then show "answers_to i out = (if i \<in> set ids \<and> ends fp e i then [fi_tokens (report fp e i)] else [])"
    using filter_eq_distinct [OF d, of i]
    by (simp add: answers_to_def out filter_map comp_def report_def conj_commute)
qed

lemma step_gives:
  assumes inv: "engine_inv fp w asked {} E e" and sv: "served fp e ids out e'"
  shows "owed fp e i = tokens_to i out @ owed fp e' i" "answer fp e i = answers_to i out @ answer fp e' i"
    "left e i = length (tokens_to i out) + left e' i \<or> left e' i = 0 \<and> length (tokens_to i out) \<le> left e i"
proof -
  note A = agreesD [OF engine_invD(3) [OF inv]]
  from sv have R: "en_model e' = en_model e" "en_stop_tokens e' = en_stop_tokens e"
    "map_of (en_requests e') i = (if i \<in> set ids then after_pick fp e i else map_of (en_requests e) i)"
    "set ids \<subseteq> dom (map_of (en_requests e))" by (simp_all add: served_def after_record_def)
  have "owed fp e i = tokens_to i out @ owed fp e' i \<and> answer fp e i = answers_to i out @ answer fp e' i \<and>
    (left e i = length (tokens_to i out) + left e' i \<or> left e' i = 0 \<and> length (tokens_to i out) \<le> left e i)"
  proof (cases "i \<in> set ids")
    case False
    then show ?thesis using R
      by (simp add: served_to [OF sv] owed_def answer_def left_def split: option.split)
  next
    case True
    with R(4) obtain r where r: "map_of (en_requests e) i = Some r" by auto
    have "\<forall>x. unat (md_argmax (en_model e) x) < md_vocab (en_model e)"
      using engine_invD(1) [OF inv] by (simp add: store_fits_def model_ok_def)
    note G = grown_ok [OF A(2) [OF r] r this]
    have m: "generated r < rq_max_new r" using A(2) [OF r] by (simp add: request_ok_def)
    have pk: "pick fp e i = next_token fp (en_model e) (rq_tokens r)" using r by (simp add: pick_def tokens_of_def)
    have "owed fp e i = pick fp e i # (if ends fp e i then []
      else greedy fp (en_model e) (en_stop_tokens e) (rq_max_new r - (generated r + 1)) (rq_tokens r @ [pick fp e i]))"
      unfolding owed_def r option.case pk
      by (subst greedy_step) (use m in \<open>auto simp: Let_def ends_def G(2,3) pk\<close>)
    moreover have "map_of (en_requests e') i = (if ends fp e i then None else Some (with_pick fp e i))"
      using R(3) True by (simp add: after_pick_def)
    ultimately show ?thesis
      using True R(1,2) r G m by (simp add: served_to [OF sv] owed_def answer_def left_def) arith
  qed
  then show "owed fp e i = tokens_to i out @ owed fp e' i" "answer fp e i = answers_to i out @ answer fp e' i"
    "left e i = length (tokens_to i out) + left e' i \<or> left e' i = 0 \<and> length (tokens_to i out) \<le> left e i"
    by simp_all
qed

lemma step_shrinks:
  assumes inv: "engine_inv fp w asked {} E e" and sv: "served fp e ids out e'"
  shows "outstanding e' + length (sampled out) \<le> outstanding e"
proof -
  let ?D = "dom (map_of (en_requests e))"
  from sv have d: "distinct ids" "set ids \<subseteq> ?D" "length (sampled out) = length ids"
    and map: "map_of (en_requests e') = (\<lambda>j. if j \<in> set ids then after_pick fp e j else map_of (en_requests e) j)"
    by (simp_all add: served_def after_record_def)
  have sub: "dom (map_of (en_requests e')) \<subseteq> ?D" using d(2) unfolding map by (auto split: if_splits)
  have fin: "finite ?D" by (rule finite_dom_map_of)
  have "left e' i + length (tokens_to i out) \<le> left e i" for i
    using step_gives(3) [OF inv sv, of i] by auto
  then have "sum (\<lambda>i. left e' i + length (tokens_to i out)) ?D \<le> outstanding e"
    unfolding outstanding_def by (intro sum_mono) simp
  moreover have "sum (left e') ?D = outstanding e'"
    unfolding outstanding_def by (rule sum.mono_neutral_right [OF fin sub]) (auto simp: left_def split: option.splits)
  moreover have "sum (\<lambda>i. length (tokens_to i out)) ?D = length ids"
  proof -
    have "sum (\<lambda>i. length (tokens_to i out)) ?D = sum (\<lambda>i. if i \<in> set ids then 1 else 0) ?D"
      by (intro sum.cong) (simp_all add: served_to [OF sv])
    also have "\<dots> = card (set ids)" using d(2) fin by (simp add: sum.If_cases Int_absorb1)
    finally show ?thesis using d(1) by (simp add: distinct_card)
  qed
  ultimately show ?thesis using d(3) by (simp add: sum.distrib)
qed

section \<open>Serving until idle\<close>

text \<open>The loop around the engine; the fuel bounds the number of steps.\<close>

fun run_engine :: "nat \<Rightarrow> ('b, 'f) backend \<Rightarrow> ('b, 'f) Engine \<Rightarrow> ('b, 'f, StepOutput list) engine_res" where
  "run_engine 0 B e = Ok [] e"
| "run_engine (Suc n) B e =
     (if engine_is_idle e then Ok [] e
      else bind_res (engine_step B e) (\<lambda>out e. bind_res (run_engine n B e) (\<lambda>outs e. Ok (out # outs) e)))"

lemma outstanding_idle:
  assumes "engine_inv fp w asked {} E e"
  shows "outstanding e = 0 \<longleftrightarrow> engine_is_idle e"
proof
  assume idle: "engine_is_idle e"
  then show "outstanding e = 0" by (simp add: outstanding_def engine_is_idle_def)
next
  assume z: "outstanding e = 0"
  show "engine_is_idle e"
  proof (rule ccontr)
    assume "\<not> engine_is_idle e"
    then have "en_requests e \<noteq> []" by (simp add: engine_is_idle_def)
    then obtain i r where r: "map_of (en_requests e) i = Some r"
      by (cases "en_requests e") (auto split: if_splits, fastforce)
    with agreesD(2) [OF engine_invD(3) [OF assms] r] have "0 < left e i" by (simp add: left_def request_ok_def)
    moreover have "left e i = 0"
      using z r finite_dom_map_of [of "en_requests e"] by (auto simp: outstanding_def)
    ultimately show False by simp
  qed
qed

lemma run_engine_ok:
  assumes "engine_inv fp w asked {} E e" "outstanding e \<le> n"
  shows "\<exists>outs e' E'. run_engine n (cpu_store fp) e = Ok outs e' \<and> engine_inv fp w asked {} E' e' \<and>
    engine_is_idle e' \<and> length outs \<le> outstanding e \<and>
    en_model e' = en_model e \<and> en_stop_tokens e' = en_stop_tokens e \<and>
    capacity (en_scheduler e') = capacity (en_scheduler e) \<and>
    (\<forall>i. concat (map (tokens_to i) outs) = owed fp e i \<and> concat (map (answers_to i) outs) = answer fp e i)"
  using assms
proof (induction n arbitrary: E e)
  case 0
  then have "engine_is_idle e" using outstanding_idle [OF 0(1)] by simp
  with 0(1) show ?case by (intro exI [of _ "[]"] exI [of _ e]) (auto simp: engine_is_idle_def owed_def answer_def)
next
  case (Suc n)
  show ?case
  proof (cases "engine_is_idle e")
    case True
    with Suc.prems(1) show ?thesis
      by (intro exI [of _ "[]"] exI [of _ e]) (auto simp: engine_is_idle_def owed_def answer_def)
  next
    case False
    from engine_step_ok [OF Suc.prems(1)] False obtain out e1 E1 ids where
      e1: "engine_step (cpu_store fp) e = Ok out e1" "engine_inv fp w asked {} E1 e1" "served fp e ids out e1"
        "ids \<noteq> []" by (auto simp: engine_is_idle_def)
    have "0 < length (sampled out)" using e1(3,4) by (simp add: served_def)
    with step_shrinks [OF Suc.prems(1) e1(3)] have less: "outstanding e1 < outstanding e" by linarith
    with Suc.IH [OF e1(2)] Suc.prems(2) obtain outs e' E' where
      l: "run_engine n (cpu_store fp) e1 = Ok outs e'" "engine_inv fp w asked {} E' e'" "engine_is_idle e'"
        "length outs \<le> outstanding e1" "en_model e' = en_model e1" "en_stop_tokens e' = en_stop_tokens e1"
        "capacity (en_scheduler e') = capacity (en_scheduler e1)"
        "\<forall>i. concat (map (tokens_to i) outs) = owed fp e1 i \<and> concat (map (answers_to i) outs) = answer fp e1 i"
      by auto
    have "concat (map (tokens_to i) (out # outs)) = owed fp e i \<and>
      concat (map (answers_to i) (out # outs)) = answer fp e i" for i
      using step_gives(1,2) [OF Suc.prems(1) e1(3), of i] l(8) by simp
    with False e1(1,3) l less show ?thesis
      by (intro exI [of _ "out # outs"] exI [of _ e'] exI [of _ E']) (simp add: served_def after_record_def)
  qed
qed

end
