(* ===== verification/Bindings.thy ===== *)
theory Bindings
  imports Engine_Run
begin

text \<open>
  The Python bindings, \<open>paged-kv-py/src/lib.rs\<close>: the scheduler on its own, and greedy generation
  with a loaded model. Ids are the raw 64-bit numbers. Loading a checkpoint from files is not part
  of it; the engine is generic in its storage, as the macro that dispatches on the device is.
\<close>

datatype PyErr = ValueError string | RuntimeError string

definition raw :: "SeqId \<Rightarrow> u64" where
  "raw i = (case i of SeqId w \<Rightarrow> w)"

definition raw_block :: "BlockId \<Rightarrow> u32" where
  "raw_block b = (case b of BlockId w \<Rightarrow> w)"

lemma raw_inverse [simp]: "SeqId (raw i) = i" "raw (SeqId w) = w"
  by (simp_all add: raw_def split: SeqId.split)

section \<open>The scheduler\<close>

record PyOutcome =
  po_admitted :: "u64 list"
  po_prefills :: "(u64 \<times> nat \<times> nat) list"
  po_decoded :: "(u64 \<times> u32 \<times> nat) list"
  po_copies :: "(u32 \<times> u32) list"
  po_preempted :: "u64 list"
  po_finished :: "u64 list"

definition py_outcome :: "StepOutcome \<Rightarrow> PyOutcome" where
  "py_outcome out = \<lparr>po_admitted = map raw (admitted out),
     po_prefills = map (\<lambda>p. (raw (pf_id p), pf_cached p, pf_computed p)) (prefills out),
     po_decoded = map (\<lambda>d. (raw (dt_id d), raw_block (ps_block (dt_slot d)), ps_slot (dt_slot d))) (decoded out),
     po_copies = map (\<lambda>c. (raw_block (cow_src c), raw_block (cow_dst c))) (List.map_filter dt_cow (decoded out)),
     po_preempted = map raw (preempted out), po_finished = map raw (finished out)\<rparr>"

definition py_scheduler_new :: "nat \<Rightarrow> nat \<Rightarrow> nat \<Rightarrow> bool \<Rightarrow> PyErr + Scheduler" where
  "py_scheduler_new n bs max_batch caching =
     (if n = 0 \<or> bs = 0 \<or> max_batch = 0
      then Inl (ValueError ''num_blocks, block_size and max_batch_size must be positive'')
      else
        (let config = \<lparr>num_blocks = n, block_size = bs, num_kv_heads = 1, head_dim = 1,
               num_layers = 1, dtype_bytes = 2\<rparr> in
         Inr (if caching then sched_with_prefix_caching config max_batch else sched_new config max_batch)))"

definition py_add_prompt :: "u64 \<Rightarrow> u32 list \<Rightarrow> nat \<Rightarrow> Scheduler \<Rightarrow> (PyErr, Scheduler, unit) res" where
  "py_add_prompt i prompt max_new s = map_err (ValueError \<circ> show_error) (add_prompt (SeqId i) prompt max_new s)"

definition py_add_length :: "u64 \<Rightarrow> nat \<Rightarrow> nat \<Rightarrow> Scheduler \<Rightarrow> (PyErr, Scheduler, unit) res" where
  "py_add_length i prompt_len max_new s =
     map_err (ValueError \<circ> show_error) (add_request (SeqId i) prompt_len max_new s)"

definition py_finish :: "u64 \<Rightarrow> Scheduler \<Rightarrow> (PyErr, Scheduler, unit) res" where
  "py_finish i s = map_err (ValueError \<circ> show_error) (finish_sequence (SeqId i) s)"

definition py_step :: "Scheduler \<Rightarrow> (PyErr, Scheduler, PyOutcome) res" where
  "py_step s = bind_res (map_err (RuntimeError \<circ> show_error) (step s)) (\<lambda>out s. Ok (py_outcome out) s)"

definition py_running :: "Scheduler \<Rightarrow> (u64 \<times> nat \<times> u32 list) list" where
  "py_running s = map (\<lambda>r. (raw (ri_id r), ri_tokens r, map raw_block (ri_blocks r))) (running_snapshot s)"

definition py_cache_stats :: "Scheduler \<Rightarrow> (string \<times> nat) list" where
  "py_cache_stats s =
     (let stats = cache_stats (sc_alloc s) in
      [(''cached_blocks'', cached_blocks stats), (''evictable_blocks'', evictable_blocks stats),
       (''evictions'', evictions stats)])"

section \<open>The engine\<close>

record ('b, 'f) PyEngine =
  pe_backend :: "('b, 'f) Engine"
  pe_device :: string
  pe_next_id :: u64

type_synonym ('b, 'f, 'a) py_res = "(PyErr, ('b, 'f) PyEngine, 'a) res"

text \<open>A build without CUDA; what the loader returned and the device's name as Python shows it are given.\<close>

definition py_engine_new :: "('b, 'f) backend \<Rightarrow> (CacheConfig \<Rightarrow> 'b) \<Rightarrow> (string \<Rightarrow> string) \<Rightarrow>
    PyErr + 'f PagedQwen2 \<Rightarrow> nat \<Rightarrow> nat \<Rightarrow> nat \<Rightarrow> bool \<Rightarrow> string \<Rightarrow> u32 list option \<Rightarrow>
    PyErr + ('b, 'f) PyEngine" where
  "py_engine_new B new_cache debug loaded n bs max_batch caching device stop =
     (case loaded of
        Inl e \<Rightarrow> Inl e
      | Inr md \<Rightarrow>
          if device = ''cpu''
          then Inr \<lparr>pe_backend = stop_at (case stop of None \<Rightarrow> [] | Some ts \<Rightarrow> ts)
              (engine_new B md (new_cache (cache_config md n bs)) max_batch caching),
            pe_device = ''cpu'', pe_next_id = 0\<rparr>
          else if device = ''cuda''
          then Inl (ValueError ''this build has no CUDA support; build with the cuda feature'')
          else Inl (ValueError (''unknown device '' @ debug device)))"

definition on_engine :: "(string \<Rightarrow> PyErr) \<Rightarrow> (('b, 'f) Engine \<Rightarrow> ('b, 'f, 'a) engine_res) \<Rightarrow>
    ('b, 'f) PyEngine \<Rightarrow> ('b, 'f, 'a) py_res" where
  "on_engine err f pe = map_err err (map_state (\<lambda>e. pe\<lparr>pe_backend := e\<rparr>) (f (pe_backend pe)))"

definition py_is_idle :: "('b, 'f) PyEngine \<Rightarrow> bool" where
  "py_is_idle pe = engine_is_idle (pe_backend pe)"

definition py_add_request :: "u32 list \<Rightarrow> nat \<Rightarrow> ('b, 'f) PyEngine \<Rightarrow> ('b, 'f, u64) py_res" where
  "py_add_request prompt max_new pe =
     (let i = pe_next_id pe in
      bind_res (on_engine ValueError (engine_add_request (SeqId i) prompt max_new) pe) (\<lambda>_ pe.
        Ok i (pe\<lparr>pe_next_id := i + 1\<rparr>)))"

definition py_engine_step :: "('b, 'f) backend \<Rightarrow> ('b, 'f) PyEngine \<Rightarrow> ('b, 'f, (u64 \<times> u32 list) list) py_res" where
  "py_engine_step B pe =
     bind_res (on_engine RuntimeError (engine_step B) pe) (\<lambda>out pe.
       Ok (map (\<lambda>f. (raw (fi_id f), fi_tokens f)) (so_finished out)) pe)"

text \<open>The first prompt refused ends the call; those before it stay queued.\<close>

fun add_prompts :: "u32 list list \<Rightarrow> nat \<Rightarrow> ('b, 'f) PyEngine \<Rightarrow> ('b, 'f, u64 list) py_res" where
  "add_prompts [] max_new pe = Ok [] pe"
| "add_prompts (p # ps) max_new pe =
     bind_res (py_add_request p max_new pe) (\<lambda>i pe.
       bind_res (add_prompts ps max_new pe) (\<lambda>ids pe. Ok (i # ids) pe))"

definition note_finished :: "Finished list \<Rightarrow> (u64 \<times> u32 list) list \<Rightarrow> (u64 \<times> u32 list) list" where
  "note_finished fs finished_by_id = fold (\<lambda>f. AList.update (raw (fi_id f)) (fi_tokens f)) fs finished_by_id"

text \<open>\<open>while !e.is_idle()\<close>: \<open>None\<close> would be a loop that does not return.\<close>

partial_function (option) generate_loop :: "('b, 'f) backend \<Rightarrow> (u64 \<times> u32 list) list \<Rightarrow> ('b, 'f) Engine \<Rightarrow>
    ('b, 'f, (u64 \<times> u32 list) list) engine_res option" where
  "generate_loop B got e =
     (if engine_is_idle e then Some (Ok got e)
      else
        (case engine_step B e of
           Ok out e \<Rightarrow> generate_loop B (note_finished (so_finished out) got) e
         | Err msg e \<Rightarrow> Some (Err msg e)
         | Panic \<Rightarrow> Some Panic))"

fun take_answers :: "u64 list \<Rightarrow> (u64 \<times> u32 list) list \<Rightarrow> u32 list list" where
  "take_answers [] got = []"
| "take_answers (i # ids) got =
     (case map_of got i of None \<Rightarrow> [] | Some ts \<Rightarrow> ts) # take_answers ids (AList.delete i got)"

definition busy_error :: string where
  "busy_error = ''generate needs an idle engine; finish the requests added with add_request first''"

definition py_generate :: "('b, 'f) backend \<Rightarrow> u32 list list \<Rightarrow> nat \<Rightarrow> ('b, 'f) PyEngine \<Rightarrow>
    ('b, 'f, u32 list list) py_res option" where
  "py_generate B prompts max_new pe =
     (if \<not> py_is_idle pe then Some (Err (RuntimeError busy_error) pe)
      else
        (case add_prompts prompts max_new pe of
           Err e pe \<Rightarrow> Some (Err e pe)
         | Panic \<Rightarrow> Some Panic
         | Ok ids pe \<Rightarrow>
             map_option (\<lambda>r. bind_res (on_engine RuntimeError (\<lambda>_. r) pe) (\<lambda>got pe.
               Ok (take_answers ids got) pe)) (generate_loop B [] (pe_backend pe))))"

definition engine_stats_dict :: "EngineStats \<Rightarrow> (string \<times> nat) list" where
  "engine_stats_dict s = [(''steps'', es_steps s), (''prefill_tokens_computed'', es_computed s),
     (''prefill_tokens_cached'', es_cached s), (''preemptions'', es_preemptions s),
     (''tokens_generated'', es_generated s)]"

end
