(* ===== verification/Generate.thy ===== *)
theory Generate
  imports Bindings
begin

text \<open>
  What the engine promises, up to the Python call that generates for a list of prompts: a step
  never fails and samples greedily, and \<open>generate\<close> returns, with every prompt's greedy decoding.
\<close>

section \<open>Adding the prompts\<close>

definition new_request :: "u32 list \<Rightarrow> nat \<Rightarrow> Request" where
  "new_request prompt max_new = \<lparr>rq_tokens = prompt, rq_prompt_len = length prompt, rq_max_new = max_new\<rparr>"

definition fitting :: "nat \<Rightarrow> u32 list \<Rightarrow> nat \<Rightarrow> bool" where
  "fitting cap prompt max_new \<longleftrightarrow> prompt \<noteq> [] \<and> max_new \<noteq> 0 \<and> length prompt + max_new + 1 \<le> cap"

definition engine_good :: "'f arith \<Rightarrow> 'f PagedQwen2 \<Rightarrow> CacheConfig \<Rightarrow> u32 list \<Rightarrow> ('f CpuBackend, 'f) Engine \<Rightarrow> bool" where
  "engine_good fp md config stop e \<longleftrightarrow> (\<exists>w asked E. engine_inv fp w asked {} E e \<and> serves md config stop e)"

text \<open>Ids in use are below the next one.\<close>

definition ids_below :: "u64 \<Rightarrow> ('b, 'f) Engine \<Rightarrow> bool" where
  "ids_below n e \<longleftrightarrow> (\<forall>i. map_of (en_requests e) i \<noteq> None \<longrightarrow> seq_num i < unat n)"

lemma add_one:
  assumes g: "engine_good fp md config stop e" and fresh: "map_of (en_requests e) i = None"
    and ask: "askable md prompt max_new"
  shows "if fitting (num_blocks config * block_size config) prompt max_new
    then \<exists>e'. engine_add_request i prompt max_new e = Ok () e' \<and> engine_good fp md config stop e' \<and>
      map_of (en_requests e') = (map_of (en_requests e))(i \<mapsto> new_request prompt max_new)
    else \<exists>msg. engine_add_request i prompt max_new e = Err msg e"
proof -
  from g obtain w asked E where inv: "engine_inv fp w asked {} E e" and s: "serves md config stop e"
    by (auto simp: engine_good_def)
  have ask': "askable (en_model e) prompt max_new" using ask s by (simp add: serves_def)
  have cap: "capacity (en_scheduler e) = num_blocks config * block_size config" using s by (simp add: serves_def)
  show ?thesis
  proof (cases "fitting (num_blocks config * block_size config) prompt max_new")
    case True
    with add_request_ok [OF inv fresh ask'] obtain e' where
      e': "engine_add_request i prompt max_new e = Ok () e'"
        "engine_inv fp w (asked(i \<mapsto> (prompt, max_new))) {} E e'"
        "map_of (en_requests e') = (map_of (en_requests e))(i \<mapsto> new_request prompt max_new)"
      by (auto simp: fitting_def cap new_request_def split: if_splits)
    with add_request_serves [OF e'(1) s] True show ?thesis by (auto simp: engine_good_def)
  next
    case False
    with add_request_ok [OF inv fresh ask'] show ?thesis by (auto simp: fitting_def cap split: if_splits)
  qed
qed

lemma add_prompts_ok:
  assumes "engine_good fp md config stop (pe_backend pe)" "ids_below (pe_next_id pe) (pe_backend pe)"
    and "unat (pe_next_id pe) + length ps < 2 ^ 64"
    and "\<forall>p \<in> set ps. askable md p max_new \<and> fitting (num_blocks config * block_size config) p max_new"
  shows "\<exists>ids pe'. add_prompts ps max_new pe = Ok ids pe' \<and> engine_good fp md config stop (pe_backend pe') \<and>
    ids_below (pe_next_id pe') (pe_backend pe') \<and> distinct ids \<and>
    unat (pe_next_id pe') = unat (pe_next_id pe) + length ps \<and>
    (\<forall>i \<in> set ids. unat (pe_next_id pe) \<le> unat i) \<and>
    list_all2 (\<lambda>i p. map_of (en_requests (pe_backend pe')) (SeqId i) = Some (new_request p max_new)) ids ps \<and>
    (\<forall>i. seq_num i < unat (pe_next_id pe) \<longrightarrow>
       map_of (en_requests (pe_backend pe')) i = map_of (en_requests (pe_backend pe)) i)"
  using assms
proof (induction ps arbitrary: pe)
  case Nil
  then show ?case by simp
next
  case (Cons p ps)
  let ?i = "pe_next_id pe" and ?e = "pe_backend pe"
  have fresh: "map_of (en_requests ?e) (SeqId ?i) = None"
    using Cons.prems(2) by (auto simp: ids_below_def)
  from add_one [OF Cons.prems(1) fresh, of p max_new] Cons.prems(4) obtain e' where
    e': "engine_add_request (SeqId ?i) p max_new ?e = Ok () e'" "engine_good fp md config stop e'"
      "map_of (en_requests e') = (map_of (en_requests ?e))(SeqId ?i \<mapsto> new_request p max_new)" by auto
  have nx: "unat (?i + 1) = unat ?i + 1"
    using Cons.prems(3) by (simp add: unat_plus_if' unsigned_1)
  let ?pe = "pe\<lparr>pe_backend := e', pe_next_id := ?i + 1\<rparr>"
  have one: "py_add_request p max_new pe = Ok ?i ?pe"
    using e'(1) by (simp add: py_add_request_def on_engine_def Let_def)
  have below: "ids_below (pe_next_id ?pe) (pe_backend ?pe)"
    using Cons.prems(2) nx by (auto simp: ids_below_def e'(3) less_Suc_eq)
  from Cons.IH [of ?pe] e'(2) below Cons.prems(3,4) nx obtain ids pe' where
    l: "add_prompts ps max_new ?pe = Ok ids pe'" "engine_good fp md config stop (pe_backend pe')"
      "ids_below (pe_next_id pe') (pe_backend pe')" "distinct ids"
      "unat (pe_next_id pe') = unat (?i + 1) + length ps" "\<forall>i \<in> set ids. unat (?i + 1) \<le> unat i"
      "list_all2 (\<lambda>i p. map_of (en_requests (pe_backend pe')) (SeqId i) = Some (new_request p max_new)) ids ps"
      "\<forall>i. seq_num i < unat (?i + 1) \<longrightarrow> map_of (en_requests (pe_backend pe')) i = map_of (en_requests e') i"
    by auto
  have "map_of (en_requests (pe_backend pe')) (SeqId ?i) = Some (new_request p max_new)"
    using l(8) nx e'(3) by simp
  moreover have "?i \<notin> set ids" using l(6) nx by auto
  moreover have "map_of (en_requests (pe_backend pe')) i = map_of (en_requests ?e) i" if "seq_num i < unat ?i" for i
    using l(8) nx e'(3) that by auto
  ultimately show ?case using one l nx by (intro exI [of _ "?i # ids"] exI [of _ pe']) auto
qed

section \<open>The loop\<close>

lemma note_finished_of:
  "map_of (note_finished fs got) w =
    (case map fi_tokens (filter (\<lambda>f. fi_id f = SeqId w) fs) of [] \<Rightarrow> map_of got w | xs \<Rightarrow> Some (last xs))"
proof (induction fs rule: rev_induct)
  case (snoc f fs)
  have "raw (fi_id f) = w \<longleftrightarrow> fi_id f = SeqId w" by (metis raw_inverse)
  with snoc show ?case by (auto simp: note_finished_def update_conv' split: list.splits)
qed (simp add: note_finished_def)

definition noted :: "(u64 \<times> u32 list) list \<Rightarrow> u32 list list \<Rightarrow> u64 \<Rightarrow> u32 list option" where
  "noted got xs w = (if xs = [] then map_of got w else Some (last xs))"

lemma note_finished_noted:
  "noted (note_finished (so_finished out) got) ys w = noted got (answers_to (SeqId w) out @ ys) w"
  by (auto simp: noted_def note_finished_of answers_to_def split: list.splits)

lemma generate_loop_ok:
  assumes "engine_inv fp w asked {} E e" "serves md config stop e"
  shows "\<exists>got' e'. generate_loop (cpu_store fp) got e = Some (Ok got' e') \<and> engine_good fp md config stop e' \<and>
    engine_is_idle e' \<and> (\<forall>v. map_of got' v = noted got (answer fp e (SeqId v)) v)"
  using assms
proof (induction "outstanding e" arbitrary: e E got rule: less_induct)
  case less
  show ?case
  proof (cases "engine_is_idle e")
    case True
    with less.prems show ?thesis
      by (auto simp: generate_loop.simps noted_def answer_def engine_is_idle_def engine_good_def)
  next
    case False
    from engine_step_ok [OF less.prems(1)] False obtain out e1 E1 ids where
      e1: "engine_step (cpu_store fp) e = Ok out e1" "engine_inv fp w asked {} E1 e1" "served fp e ids out e1"
        "ids \<noteq> []" by (auto simp: engine_is_idle_def)
    have "0 < length (sampled out)" using e1(3,4) by (simp add: served_def)
    with step_shrinks [OF less.prems(1) e1(3)] have lt: "outstanding e1 < outstanding e" by linarith
    have s1: "serves md config stop e1" using less.prems(2) e1(3) by (simp add: serves_def served_def after_record_def)
    from less.hyps [OF lt e1(2) s1, of "note_finished (so_finished out) got"] obtain got' e' where
      l: "generate_loop (cpu_store fp) (note_finished (so_finished out) got) e1 = Some (Ok got' e')"
        "engine_good fp md config stop e'" "engine_is_idle e'"
        "\<forall>v. map_of got' v = noted (note_finished (so_finished out) got) (answer fp e1 (SeqId v)) v" by blast
    have "map_of got' v = noted got (answer fp e (SeqId v)) v" for v
      using l(4) step_gives(2) [OF less.prems(1) e1(3), of "SeqId v"] by (simp add: note_finished_noted)
    with False e1(1) l(1-3) show ?thesis by (auto simp: generate_loop.simps)
  qed
qed

lemma take_answers_distinct:
  "distinct ids \<Longrightarrow> take_answers ids got = map (\<lambda>i. case map_of got i of None \<Rightarrow> [] | Some ts \<Rightarrow> ts) ids"
proof (induction ids arbitrary: got)
  case (Cons i ids)
  then have "map_of (AList.delete i got) j = map_of got j" if "j \<in> set ids" for j
    using that by (auto simp: delete_conv')
  with Cons show ?case by simp
qed simp

section \<open>A small deployment\<close>

definition demo_layer :: "nat Layer" where
  "demo_layer = \<lparr>ly_q_proj = \<lambda>x. x, ly_k_proj = map Suc, ly_v_proj = map ((*) 2), ly_o_proj = \<lambda>x. x,
     ly_gate_proj = \<lambda>x. x, ly_up_proj = map Suc, ly_down_proj = \<lambda>x. x, ly_act = \<lambda>x. x,
     ly_input_norm = \<lambda>x. x, ly_post_norm = \<lambda>x. x\<rparr>"

definition demo_model :: "nat PagedQwen2" where
  "demo_model = \<lparr>md_embed = \<lambda>t. [unat t], md_layers = [demo_layer], md_norm = \<lambda>x. x, md_lm_head = \<lambda>x. x,
     md_rope = \<lambda>p. map ((+) p), md_add = map2 (+), md_mul = map2 (*), md_argmax = \<lambda>x. word_of_nat (hd x mod 5),
     md_vocab = 5, md_positions = 16, md_num_heads = 1, md_num_kv_heads = 1, md_head_dim = 1, md_zero = 0,
     md_lookup_error = \<lambda>i. ''index '' @ show_nat i @ '' out of range'', md_shape_error = ''shape mismatch''\<rparr>"

lemma demo_model_ok: "model_ok demo_model 1"
proof -
  have "unat (word_of_nat (n mod 5) :: u32) < 5" for n :: nat
    by (simp add: unsigned_of_nat take_bit_nat_eq_self)
  then show ?thesis
    by (auto simp: model_ok_def demo_model_def layer_ok_def demo_layer_def layer_q_def layer_k_def layer_v_def
        layer_out_def mlp_def Let_def)
qed

lemma demo_deployment: "deployment_ok demo_model (cache_config demo_model 6 2) 2"
  using demo_model_ok unfolding deployment_ok_def
  by (auto simp: fits_model_def geometry_ok_def cache_config_def) (auto simp: demo_model_def)

definition demo_new :: "(nat CpuBackend, nat) Engine" where
  "demo_new = stop_at [3] (engine_new (cpu_store demo_arith) demo_model (cpu_new 0 (cache_config demo_model 6 2)) 2 True)"

definition demo_engine :: "(nat CpuBackend, nat) Engine" where
  "demo_engine = the (res_state (engine_add_request (SeqId 7) [1, 2, 4] 4 demo_new))"

lemma demo_engine_facts:
  "engine_add_request (SeqId 7) [1, 2, 4] 4 demo_new = Ok () demo_engine"
  "en_requests demo_engine = [(SeqId 7, new_request [1, 2, 4] 4)]"
proof -
  have "\<exists>e. engine_add_request (SeqId 7) [1, 2, 4] 4 demo_new = Ok () e \<and>
      en_requests e = [(SeqId 7, new_request [1, 2, 4] 4)]"
    by (simp add: demo_new_def engine_add_request_def on_scheduler_def add_prompt_def enqueue_def Let_def stop_at_def
        engine_new_def cpu_store_def new_scheduler cache_config_def usize_add_def usize_mul_def new_request_def)
  then show "engine_add_request (SeqId 7) [1, 2, 4] 4 demo_new = Ok () demo_engine"
    "en_requests demo_engine = [(SeqId 7, new_request [1, 2, 4] 4)]" by (auto simp: demo_engine_def)
qed

lemma demo_engine_reach:
  "engine_reach demo_arith demo_model (cache_config demo_model 6 2) 2 [3] Map.empty demo_new"
  "engine_reach demo_arith demo_model (cache_config demo_model 6 2) 2 [3] [SeqId 7 \<mapsto> ([1, 2, 4], 4)] demo_engine"
proof -
  show n: "engine_reach demo_arith demo_model (cache_config demo_model 6 2) 2 [3] Map.empty demo_new"
    unfolding demo_new_def by (rule engine_reach.new)
  show "engine_reach demo_arith demo_model (cache_config demo_model 6 2) 2 [3] [SeqId 7 \<mapsto> ([1, 2, 4], 4)] demo_engine"
    by (rule engine_reach.request [OF n _ _ demo_engine_facts(1)])
      (simp_all add: demo_new_def stop_at_def engine_new_def askable_def, simp_all add: demo_model_def)
qed

section \<open>Greedy serving\<close>

text \<open>
  C2: On every state the engine can reach by requests with new ids, whose prompts are in the vocabulary
  and with their limits within the model's positions, a step succeeds, gives out at least one token
  unless nothing is asked, samples for every sequence that runs the token the reference model (whole
  context, nothing paged, batched or cached) picks, and reports as finished only greedy decodings
  of what was asked, whatever was preempted, shared or evicted before.
\<close>

theorem engine_step_is_greedy:
  assumes "deployment_ok md config max_batch" "engine_reach fp md config max_batch stop asked e"
  shows "\<exists>out e'. engine_step (cpu_store fp) e = Ok out e' \<and> (sampled out = [] \<longleftrightarrow> engine_is_idle e) \<and>
    list_all (\<lambda>(i, t). \<exists>r. map_of (en_requests e) i = Some r \<and> t = next_token fp md (rq_tokens r)) (sampled out) \<and>
    list_all (\<lambda>f. \<exists>p n. asked (fi_id f) = Some (p, n) \<and> fi_tokens f = greedy fp md stop n p) (so_finished out)"
proof -
  from engine_reach_inv [OF assms] obtain w E where inv: "engine_inv fp w asked {} E e" and
    s: "en_model e = md" "en_stop_tokens e = stop" by (auto simp: serves_def)
  note A = agreesD [OF engine_invD(3) [OF inv]]
  have md: "\<forall>x. unat (md_argmax (en_model e) x) < md_vocab (en_model e)"
    using engine_invD(1) [OF inv] by (simp add: store_fits_def model_ok_def)
  from engine_step_ok [OF inv] obtain out e' ids where
    e': "engine_step (cpu_store fp) e = Ok out e'" "served fp e ids out e'" "ids = [] \<longleftrightarrow> en_requests e = []" by blast
  have "\<exists>r. map_of (en_requests e) i = Some r \<and> pick fp e i = next_token fp md (rq_tokens r) \<and>
      (ends fp e i \<longrightarrow> (\<exists>p n. asked i = Some (p, n) \<and> fi_tokens (report fp e i) = greedy fp md stop n p))"
    if "i \<in> set ids" for i
  proof -
    from that e'(2) obtain r where r: "map_of (en_requests e) i = Some r" by (auto simp: served_def)
    with grown_ok(7) [OF A(2) [OF r] r md] A(3) [OF r] s show ?thesis by (simp add: pick_def tokens_of_def)
  qed
  with e' show ?thesis
    by (auto simp: served_def list_all_iff engine_is_idle_def report_def intro!: exI [of _ out] exI [of _ e'])
qed

theorem engine_step_is_greedy_witness:
  "\<exists>out e'. engine_step (cpu_store demo_arith) demo_engine = Ok out e' \<and> sampled out \<noteq> [] \<and>
    list_all (\<lambda>(i, t). t = next_token demo_arith demo_model [1, 2, 4]) (sampled out)"
proof -
  from engine_step_is_greedy [OF demo_deployment demo_engine_reach(2)] obtain out e' where
    "engine_step (cpu_store demo_arith) demo_engine = Ok out e'" "sampled out = [] \<longleftrightarrow> engine_is_idle demo_engine"
    "list_all (\<lambda>(i, t). \<exists>r. map_of (en_requests demo_engine) i = Some r \<and>
      t = next_token demo_arith demo_model (rq_tokens r)) (sampled out)" by blast
  moreover from this(3) have "list_all (\<lambda>(i, t). t = next_token demo_arith demo_model [1, 2, 4]) (sampled out)"
    by (rule list.pred_mono_strong) (auto simp: demo_engine_facts new_request_def split: if_splits)
  ultimately show ?thesis by (auto simp: demo_engine_facts engine_is_idle_def)
qed

text \<open>
  C7: On every state the engine can reach by requests with new ids, whose prompts are in the vocabulary
  and with their limits within the model's positions, serving until idle ends, after at most as many
  steps as tokens are owed, and every request of the engine gets exactly its greedy decoding: the tokens it had generated followed by the
  tokens streamed to it. Nothing is streamed to anyone else.
\<close>

theorem engine_serves_all:
  assumes "deployment_ok md config max_batch" "engine_reach fp md config max_batch stop asked e"
  shows "\<exists>outs e'. run_engine (outstanding e) (cpu_store fp) e = Ok outs e' \<and> engine_is_idle e' \<and>
    length outs \<le> outstanding e \<and>
    (\<forall>i. case map_of (en_requests e) i of
       None \<Rightarrow> concat (map (tokens_to i) outs) = []
     | Some r \<Rightarrow> \<exists>p n. asked i = Some (p, n) \<and>
         rq_tokens r @ concat (map (tokens_to i) outs) = p @ greedy fp md stop n p)"
proof -
  from engine_reach_inv [OF assms] obtain w E where inv: "engine_inv fp w asked {} E e" and
    s: "en_model e = md" "en_stop_tokens e = stop" by (auto simp: serves_def)
  note A = agreesD [OF engine_invD(3) [OF inv]]
  from run_engine_ok [OF inv order_refl] obtain outs e' where
    r: "run_engine (outstanding e) (cpu_store fp) e = Ok outs e'" "engine_is_idle e'" "length outs \<le> outstanding e"
      "\<forall>i. concat (map (tokens_to i) outs) = owed fp e i" by blast
  have "case map_of (en_requests e) i of
       None \<Rightarrow> concat (map (tokens_to i) outs) = []
     | Some r \<Rightarrow> \<exists>p n. asked i = Some (p, n) \<and>
         rq_tokens r @ concat (map (tokens_to i) outs) = p @ greedy fp md stop n p" for i
  proof (cases "map_of (en_requests e) i")
    case None
    then show ?thesis using r(4) by (simp add: owed_def)
  next
    case (Some q)
    have "greedy fp md stop (rq_max_new q) (prompt_of q) =
      drop (rq_prompt_len q) (rq_tokens q) @ greedy fp md stop (rq_max_new q - generated q) (rq_tokens q)"
      using A(2) [OF Some] s by (simp add: request_ok_def)
    then have "rq_tokens q @ concat (map (tokens_to i) outs) =
        prompt_of q @ greedy fp md stop (rq_max_new q) (prompt_of q)"
      using r(4) Some s by (simp add: owed_def prompt_of_def flip: append_assoc)
    with A(3) [OF Some] Some show ?thesis by simp
  qed
  with r(1-3) show ?thesis by blast
qed

theorem engine_serves_all_witness:
  "\<exists>outs e'. run_engine 4 (cpu_store demo_arith) demo_engine = Ok outs e' \<and> engine_is_idle e' \<and>
    concat (map (tokens_to (SeqId 7)) outs) = greedy demo_arith demo_model [3] 4 [1, 2, 4]"
proof -
  have n: "outstanding demo_engine = 4"
    by (simp add: outstanding_def demo_engine_facts left_def new_request_def generated_def)
  have q: "map_of (en_requests demo_engine) (SeqId 7) = Some (new_request [1, 2, 4] 4)"
    by (simp add: demo_engine_facts)
  from engine_serves_all [OF demo_deployment demo_engine_reach(2)] obtain outs e' where
    r: "run_engine 4 (cpu_store demo_arith) demo_engine = Ok outs e'" "engine_is_idle e'"
      "case map_of (en_requests demo_engine) (SeqId 7) of
         None \<Rightarrow> concat (map (tokens_to (SeqId 7)) outs) = []
       | Some r \<Rightarrow> \<exists>p n. [SeqId 7 \<mapsto> ([1, 2, 4], 4)] (SeqId 7) = Some (p, n) \<and>
           rq_tokens r @ concat (map (tokens_to (SeqId 7)) outs) = p @ greedy demo_arith demo_model [3] n p"
    unfolding n by blast
  then show ?thesis by (auto simp: q new_request_def)
qed

text \<open>
  C6: \<open>generate\<close> on an idle engine returns, and returns for every prompt, in the order given, its
  greedy decoding by the reference model, whatever the engine served before and whatever the
  prompts share. The prompts must fit the pool and the model, and the ids must not run out.
\<close>

theorem generate_is_greedy:
  assumes d: "deployment_ok md config max_batch"
    and r: "engine_reach fp md config max_batch stop asked (pe_backend pe)" and idle: "py_is_idle pe"
    and ids: "unat (pe_next_id pe) + length prompts < 2 ^ 64"
    and ps: "\<forall>p \<in> set prompts. askable md p max_new \<and> fitting (num_blocks config * block_size config) p max_new"
  shows "\<exists>pe'. py_generate (cpu_store fp) prompts max_new pe =
      Some (Ok (map (greedy fp md stop max_new) prompts) pe') \<and> py_is_idle pe'"
proof -
  from engine_reach_inv [OF d r] have g: "engine_good fp md config stop (pe_backend pe)"
    by (auto simp: engine_good_def)
  have "ids_below (pe_next_id pe) (pe_backend pe)"
    using idle by (simp add: ids_below_def py_is_idle_def engine_is_idle_def)
  from add_prompts_ok [OF g this ids ps] obtain new pe1 where
    a: "add_prompts prompts max_new pe = Ok new pe1" "engine_good fp md config stop (pe_backend pe1)"
      "distinct new"
      "list_all2 (\<lambda>i p. map_of (en_requests (pe_backend pe1)) (SeqId i) = Some (new_request p max_new)) new prompts"
    by (elim exE conjE) (rule that)
  let ?e = "pe_backend pe1"
  from a(2) obtain w asked' E where inv: "engine_inv fp w asked' {} E ?e" and s: "serves md config stop ?e"
    by (auto simp: engine_good_def)
  from generate_loop_ok [OF inv s, of "[]"] obtain got e' where
    l: "generate_loop (cpu_store fp) [] ?e = Some (Ok got e')" "engine_is_idle e'"
      "\<forall>v. map_of got v = noted [] (answer fp ?e (SeqId v)) v" by blast
  have "answer fp ?e (SeqId i) = [greedy fp md stop max_new p]"
    if "map_of (en_requests ?e) (SeqId i) = Some (new_request p max_new)" for i p
    using that s by (simp add: answer_def new_request_def prompt_of_def serves_def)
  with l(3) have "(case map_of got i of None \<Rightarrow> [] | Some ts \<Rightarrow> ts) = greedy fp md stop max_new p"
    if "map_of (en_requests ?e) (SeqId i) = Some (new_request p max_new)" for i p
    using that by (simp add: noted_def)
  with a(4) have "map (\<lambda>i. case map_of got i of None \<Rightarrow> [] | Some ts \<Rightarrow> ts) new =
      map (greedy fp md stop max_new) prompts"
    by (induction rule: list_all2_induct) simp_all
  with a(1,3) l(1,2) idle show ?thesis
    by (simp add: py_generate_def on_engine_def take_answers_distinct py_is_idle_def)
qed

definition demo_py :: "(nat CpuBackend, nat) PyEngine" where
  "demo_py = \<lparr>pe_backend = demo_new, pe_device = ''cpu'', pe_next_id = 0\<rparr>"

theorem generate_is_greedy_witness:
  "\<exists>pe'. py_generate (cpu_store demo_arith) [[1, 2, 4], [1, 2], [1, 2, 4]] 3 demo_py =
      Some (Ok (map (greedy demo_arith demo_model [3] 3) [[1, 2, 4], [1, 2], [1, 2, 4]]) pe') \<and> py_is_idle pe'"
proof (rule generate_is_greedy [OF demo_deployment])
  show "engine_reach demo_arith demo_model (cache_config demo_model 6 2) 2 [3] Map.empty (pe_backend demo_py)"
    using demo_engine_reach(1) by (simp add: demo_py_def)
  show "py_is_idle demo_py"
    by (simp add: py_is_idle_def demo_py_def demo_new_def stop_at_def engine_new_def engine_is_idle_def)
qed (simp_all add: demo_py_def askable_def fitting_def demo_model_def cache_config_def)

text \<open>
  C16: On every state the engine can reach by requests with new ids whose prompts are in the
  vocabulary and, with their limits, within the model's positions (the engine checks none of this),
  its parts are well formed and fit together: the store's planes have the size of their geometry,
  which is the model's; the scheduler passes its own consistency check; the scheduler knows exactly
  the requests, each once; and every request holds its prompt and stays short of its limit.
\<close>

theorem engine_stays_well_formed:
  assumes "deployment_ok md config max_batch" "engine_reach fp md config max_batch stop asked e"
  shows "cpu_inv (en_cache e) \<and> fits_model md (cpu_config (en_cache e)) \<and> sched_check (en_scheduler e) = Inr () \<and>
    distinct (seq_ids (en_scheduler e)) \<and> set (seq_ids (en_scheduler e)) = dom (map_of (en_requests e)) \<and>
    (\<forall>i. case map_of (en_requests e) i of
       None \<Rightarrow> True
     | Some r \<Rightarrow> 0 < rq_prompt_len r \<and> rq_prompt_len r \<le> length (rq_tokens r) \<and>
         length (rq_tokens r) < rq_prompt_len r + rq_max_new r)"
proof -
  from engine_reach_inv [OF assms] obtain w E where inv: "engine_inv fp w asked {} E e" and s: "en_model e = md"
    by (auto simp: serves_def)
  note I = engine_invD [OF inv] and A = agreesD [OF engine_invD(3) [OF inv]]
  have "0 < rq_prompt_len r \<and> rq_prompt_len r \<le> length (rq_tokens r) \<and>
      length (rq_tokens r) < rq_prompt_len r + rq_max_new r" if "map_of (en_requests e) i = Some r" for i r
    using A(2) [OF that] by (auto simp: request_ok_def generated_def)
  then show ?thesis
    using I(1) sched_check_ok [OF I(4)] core_invD(10) [OF I(5)] A(1)
    by (auto simp: store_fits_def s split: option.split)
qed

theorem engine_stays_well_formed_witness:
  "cpu_inv (en_cache demo_engine) \<and> sched_check (en_scheduler demo_engine) = Inr () \<and>
    set (seq_ids (en_scheduler demo_engine)) = {SeqId 7}"
  using engine_stays_well_formed [OF demo_deployment demo_engine_reach(2)] by (simp add: demo_engine_facts)


section \<open>A refused prompt\<close>

lemma add_prompts_append:
  "add_prompts (ps @ qs) max_new pe =
    bind_res (add_prompts ps max_new pe) (\<lambda>xs pe. bind_res (add_prompts qs max_new pe) (\<lambda>ys pe. Ok (xs @ ys) pe))"
proof (induction ps arbitrary: pe)
  case Nil
  then show ?case by (cases "add_prompts qs max_new pe") simp_all
next
  case (Cons p ps)
  show ?case
  proof (cases "py_add_request p max_new pe")
    case (Ok i pe1)
    show ?thesis
    proof (cases "add_prompts ps max_new pe1")
      case ok: (Ok js pe2)
      then show ?thesis using Ok Cons [of pe1] by (cases "add_prompts qs max_new pe2") simp_all
    qed (use Ok Cons [of pe1] in simp_all)
  qed simp_all
qed

text \<open>
  A prompt that \<open>generate\<close> refuses ends the call with an error, but the prompts before it stay
  queued: the engine is busy afterwards and every later \<open>generate\<close> is refused until the caller
  has stepped the orphans to their end.
\<close>

theorem refused_prompt_strands_others:
  assumes d: "deployment_ok md config max_batch"
    and r: "engine_reach fp md config max_batch stop asked (pe_backend pe)" and idle: "py_is_idle pe"
    and ids: "unat (pe_next_id pe) + length ps < 2 ^ 64" and ne: "ps \<noteq> []"
    and ps: "\<forall>p \<in> set ps. askable md p max_new \<and> fitting (num_blocks config * block_size config) p max_new"
    and q: "askable md q max_new" "\<not> fitting (num_blocks config * block_size config) q max_new"
  shows "\<exists>msg pe'. py_generate (cpu_store fp) (ps @ q # qs) max_new pe = Some (Err (ValueError msg) pe') \<and>
    \<not> py_is_idle pe' \<and> py_generate (cpu_store fp) rs n pe' = Some (Err (RuntimeError busy_error) pe')"
proof -
  from engine_reach_inv [OF d r] have g: "engine_good fp md config stop (pe_backend pe)"
    by (auto simp: engine_good_def)
  have "ids_below (pe_next_id pe) (pe_backend pe)"
    using idle by (simp add: ids_below_def py_is_idle_def engine_is_idle_def)
  from add_prompts_ok [OF g this ids ps] obtain new pe1 where
    a: "add_prompts ps max_new pe = Ok new pe1" "engine_good fp md config stop (pe_backend pe1)"
      "ids_below (pe_next_id pe1) (pe_backend pe1)"
      "list_all2 (\<lambda>i p. map_of (en_requests (pe_backend pe1)) (SeqId i) = Some (new_request p max_new)) new ps"
    by (elim exE conjE) (rule that)
  have "map_of (en_requests (pe_backend pe1)) (SeqId (pe_next_id pe1)) = None"
    using a(3) by (auto simp: ids_below_def)
  from add_one [OF a(2) this q(1)] q(2) obtain msg where
    "engine_add_request (SeqId (pe_next_id pe1)) q max_new (pe_backend pe1) = Err msg (pe_backend pe1)" by auto
  then have "add_prompts (ps @ q # qs) max_new pe = Err (ValueError msg) pe1"
    by (simp add: add_prompts_append a(1) py_add_request_def on_engine_def Let_def)
  moreover have "\<not> py_is_idle pe1"
    using a(4) ne by (cases ps) (auto simp: list_all2_Cons2 py_is_idle_def engine_is_idle_def)
  ultimately show ?thesis using idle by (simp add: py_generate_def)
qed

end
