(* ===== verification/Failed_Step.thy ===== *)
theory Failed_Step
  imports Generate
begin

text \<open>
  What a failed step leaves behind: the scheduler has registered the prompt it admitted, while the
  forward pass that should have written its blocks stopped before the first write.
\<close>

lemma seq_rows_tokens:
  assumes "0 < bs"
  shows "case seq_rows bs table pos ts of Ok rows _ \<Rightarrow> map br_token rows = ts | Err _ _ \<Rightarrow> True | Panic \<Rightarrow> False"
proof (induction ts arbitrary: pos)
  case (Cons t ts)
  show ?case using assms Cons [of "pos + 1"]
    by (auto split: option.split res.splits)
qed simp

text \<open>A token outside the vocabulary stops the forward pass at a lookup, before the first write.\<close>

lemma forward_out_of_vocab:
  assumes bs: "0 < block_size (bk_config B b)" and t: "t \<in> set (in_tokens s)" "md_vocab md \<le> unat t"
  shows "\<exists>msg. forward B md [s] b = Err msg b"
proof -
  from t(1) have ne: "in_tokens s \<noteq> []" by auto
  show ?thesis
  proof (cases "seq_rows (block_size (bk_config B b)) (in_table s) (in_start s) (in_tokens s)")
    case (Ok rows u)
    with seq_rows_tokens [OF bs, where table = "in_table s" and pos = "in_start s" and ts = "in_tokens s"] t
    have "\<exists>i \<in> set (map (unat \<circ> br_token) rows). md_vocab md \<le> i"
      by (auto simp: in_set_conv_nth) (metis length_map nth_map nth_mem)
    then have "find (\<lambda>i. md_vocab md \<le> i) (map (unat \<circ> br_token) rows) \<noteq> None" by (simp add: find_None_iff)
    then have v: "\<exists>msg. lookup_rows md (md_vocab md) (map (unat \<circ> br_token) rows) = Err msg ()"
      by (auto simp: lookup_rows_def split: option.split)
    have "\<exists>msg. lookup_rows md (md_positions md) (map br_pos rows) = Err msg () \<or>
        lookup_rows md (md_positions md) (map br_pos rows) = Ok () ()"
      by (simp add: lookup_rows_def split: option.split)
    with v Ok ne show ?thesis by (auto simp: forward_def)
  qed (use seq_rows_tokens [OF bs, where table = "in_table s" and pos = "in_start s" and ts = "in_tokens s"] ne in \<open>auto simp: forward_def\<close>)
qed

text \<open>
  C15: A step that fails leaves the prefix cache wrong. On a new engine with prefix caching, over any
  backend and model (in a geometry the scheduler supports), take a request that fits the pool with
  a slot to spare and whose prompt has a token outside the vocabulary: the engine accepts it, the step fails, and nothing has been written. Yet when the request has been
  cancelled, as the server's worker does, and nothing is left running or waiting, matching the prompt
  finds all its whole blocks, as if they held its K/V.
\<close>

theorem failed_step_poisons_cache:
  fixes md :: "'f PagedQwen2"
  assumes g: "geometry_ok (bk_config B b) max_batch" "0 < max_batch"
    and n: "0 < n" "length p + n < num_blocks (bk_config B b) * block_size (bk_config B b)"
    and t: "t \<in> set p" "md_vocab md \<le> unat t"
  shows "\<exists>e1 msg e2 e3 m. engine_add_request i p n (engine_new B md b max_batch True) = Ok () e1 \<and>
    engine_step B e1 = Err msg e2 \<and> engine_cancel i e2 = Some (True, e3) \<and>
    engine_is_idle e3 \<and> is_idle (en_scheduler e3) \<and> en_cache e3 = b \<and>
    match_prefix (sc_alloc (en_scheduler e3)) p (block_size (bk_config B b)) = Some m \<and>
    length (pm_blocks m) = length p div block_size (bk_config B b)"
proof -
  let ?c = "bk_config B b" and ?e0 = "engine_new B md b max_batch True"
  let ?s0 = "sched_with_prefix_caching ?c max_batch"
  let ?p = "\<lparr>pd_id = i, pd_context_len = length p, pd_max_new = n + 1, pd_prompt = p\<rparr>"
  let ?req = "\<lparr>rq_tokens = p, rq_prompt_len = length p, rq_max_new = n\<rparr>"
  let ?s1 = "?s0\<lparr>waiting := [?p]\<rparr>" and ?e1 = "?e0\<lparr>en_scheduler := ?s0\<lparr>waiting := [?p]\<rparr>, en_requests := [(i, ?req)]\<rparr>"
  from t(1) have ne: "p \<noteq> []" by auto
  note inv0 = sched_inv_new(2) [OF g(1)]
  from g(1) n(2) have fit: "length p + (n + 1) < 2 ^ 64" by (simp add: geometry_ok_def)
  have enq: "add_prompt i p (n + 1) ?s0 = Ok () ?s1"
    using enqueue_eq [OF inv0 fit] n(2) by (simp add: add_prompt_def new_scheduler)
  have add: "engine_add_request i p n ?e0 = Ok () ?e1"
    using ne n(1) fit enq by (simp add: engine_add_request_def on_scheduler_def engine_new_def)
  have "sched_inv (\<lambda>_. []) ?s1"
    by (rule enqueue_inv [OF inv0 fit _ _ enq [unfolded add_prompt_def]]) (simp_all add: seq_ids_def new_scheduler)
  then have core: "core_inv (\<lambda>_. []) ?s1" by (simp add: sched_inv_def)
  have pc: "prefix_caching (sc_alloc ?s1)"
    by (simp add: prefix_caching_def sched_with_prefix_caching_def with_allocator_def alloc_with_prefix_caching_def)
  have none: "cached (sc_alloc ?s1) = (\<lambda>_. None)" by (simp add: fun_eq_iff new_scheduler)
  from fresh_step [OF core, of ?p] n g(2) pc none obtain d r a m where
    st: "step ?s1 = Ok \<lparr>admitted = [i], prefills = [\<lparr>pf_id = i, pf_cached = 0, pf_computed = length p\<rparr>],
        decoded = [d], preempted = [], finished = []\<rparr> (?s1\<lparr>sc_alloc := a, waiting := [], running := [r]\<rparr>)"
      "dt_cow d = None" "rn_id r = i" "bt_tokens (rn_table r) = Suc (length p)"
    and A: "table_ok (block_size ?c) (rn_table r)" "\<forall>b. cnt a b = count_list (bt_blocks (rn_table r)) b" "alloc_inv a"
      "same_pool (sc_alloc ?s1) a" "match_prefix a p (block_size ?c) = Some m" "length (pm_blocks m) = length p div block_size ?c"
    by (auto simp: new_scheduler capacity_def)
  let ?s2 = "?s1\<lparr>sc_alloc := a, waiting := [], running := [r]\<rparr>"
  have bs: "0 < block_size ?c" using g(1) by (simp add: geometry_ok_def)
  from forward_out_of_vocab [where B = B and b = b and md = md and s = "\<lparr>in_tokens = p, in_start = 0, in_table = bt_blocks (rn_table r)\<rparr>" and t = t] bs t
  obtain msg where fw: "forward B md [\<lparr>in_tokens = p, in_start = 0, in_table = bt_blocks (rn_table r)\<rparr>] b = Err msg b" by auto
  obtain stats where step: "engine_step B ?e1 = Err msg (?e1\<lparr>en_scheduler := ?s2, en_stats := stats\<rparr>)"
    using st fw by (auto simp: engine_step_def on_scheduler_def run_outcome_def running_snapshot_def add_stats_def
        on_cache_def engine_new_def Let_def cow_pairs_def)
  have h: "holds a (rn_table r)" by (simp add: holds_def A(2) count_list_0_iff neq0_conv [symmetric])
  from free_table_ok [OF A(3) table_okD(3) [OF A(1)] h] obtain a' where
    fr: "free_table (rn_table r) a = Ok () a'" "alloc_inv a'" "same_content a a'" by blast
  have "prefix_caching a" "prefix_caching a'" "cached a' = cached a"
    using pc A(4) fr(3) by (auto simp: same_pool_def same_content_def prefix_caching_def)
  from match_prefix_cached [OF A(3) fr(2) this bs A(5)] A(6) obtain m' where
    m': "match_prefix a' p (block_size ?c) = Some m'" "length (pm_blocks m') = length p div block_size ?c" by auto
  have "engine_cancel i (?e1\<lparr>en_scheduler := ?s2, en_stats := stats\<rparr>) =
      Some (True, ?e1\<lparr>en_requests := [], en_scheduler := ?s2\<lparr>running := [], sc_alloc := a'\<rparr>, en_stats := stats\<rparr>)"
    using fr(1) st(3) by (simp add: engine_cancel_def finish_sequence_def remove_at_def)
  with add step m' show ?thesis
    by (intro exI conjI) (assumption | simp add: engine_is_idle_def is_idle_def engine_new_def)+
qed

theorem failed_step_poisons_cache_witness:
  "\<exists>e1 msg e2 e3 m. engine_add_request (SeqId 4) [1, 2, 4, 9] 1 (engine_new (cpu_store demo_arith) demo_model
      (cpu_new 0 (cache_config demo_model 6 2)) 2 True) = Ok () e1 \<and>
    engine_step (cpu_store demo_arith) e1 = Err msg e2 \<and> engine_cancel (SeqId 4) e2 = Some (True, e3) \<and>
    en_cache e3 = cpu_new 0 (cache_config demo_model 6 2) \<and>
    match_prefix (sc_alloc (en_scheduler e3)) [1, 2, 4, 9] 2 = Some m \<and> length (pm_blocks m) = 2"
proof -
  let ?b = "cpu_new 0 (cache_config demo_model 6 2)"
  have c: "bk_config (cpu_store demo_arith) ?b = cache_config demo_model 6 2" by (simp add: cpu_store_def)
  have f: "block_size (cache_config demo_model 6 2) = 2" "num_blocks (cache_config demo_model 6 2) = 6"
    by (simp_all add: cache_config_def)
  have "geometry_ok (bk_config (cpu_store demo_arith) ?b) 2"
    using demo_deployment unfolding c by (simp add: deployment_ok_def)
  from failed_step_poisons_cache [OF this, of 1 "[1, 2, 4, 9]" 9 demo_model "SeqId 4"] show ?thesis
    unfolding c f by (auto simp: demo_model_def)
qed

end
