(* ===== verification/Serve.thy ===== *)
theory Serve
  imports Generate Worker
begin

text \<open>
  What the engine thread sends its clients: the invariant of the worker relates the events sent so
  far to the greedy decoding of what the client submitted, and every turn keeps it.
\<close>

section \<open>Views of the worker\<close>

definition events_to :: "nat \<Rightarrow> ('b, 'f) Worker \<Rightarrow> WorkerEvent list" where
  "events_to c w = map snd (filter (\<lambda>(d, ev). d = c) (wk_sent w))"

definition client_of :: "('b, 'f) Worker \<Rightarrow> SeqId \<Rightarrow> nat option" where
  "client_of w i = map_option lv_client (map_of (wk_live w) i)"

definition visible :: "u32 list \<Rightarrow> u32 list \<Rightarrow> u32 list" where
  "visible stop ts = filter (\<lambda>t. t \<notin> set stop) ts"

lemma worker_views [simp]:
  "wk_engine (on_metrics f w) = wk_engine w" "wk_stop_tokens (on_metrics f w) = wk_stop_tokens w"
  "wk_live (on_metrics f w) = wk_live w" "wk_next_id (on_metrics f w) = wk_next_id w"
  "wk_sent (on_metrics f w) = wk_sent w"
  "wk_engine (send d ev w) = wk_engine w" "wk_stop_tokens (send d ev w) = wk_stop_tokens w"
  "wk_live (send d ev w) = wk_live w" "wk_next_id (send d ev w) = wk_next_id w"
  "events_to c (on_metrics f w) = events_to c w" "client_of (on_metrics f w) = client_of w"
  "client_of (send d ev w) = client_of w"
  by (simp_all add: on_metrics_def send_def events_to_def client_of_def fun_eq_iff)

lemma events_to_send [simp]: "events_to c (send d ev w) = events_to c w @ (if d = c then [ev] else [])"
  by (simp add: events_to_def send_def)

lemma visible_simps [simp]: "visible stop [] = []" "visible stop (xs @ ys) = visible stop xs @ visible stop ys"
  "visible stop (t # ts) = (if t \<in> set stop then visible stop ts else t # visible stop ts)"
  by (simp_all add: visible_def)







section \<open>The invariant\<close>

definition full_answer :: "'f arith \<Rightarrow> 'f PagedQwen2 \<Rightarrow> u32 list \<Rightarrow> Submit \<Rightarrow> u32 list" where
  "full_answer fp md stop s = greedy fp md stop (sb_max_tokens s) (sb_prompt s)"

text \<open>All the events of a request that is served to its end.\<close>

definition complete :: "'f arith \<Rightarrow> 'f PagedQwen2 \<Rightarrow> u32 list \<Rightarrow> Submit \<Rightarrow> WorkerEvent list" where
  "complete fp md stop s = map Token (visible stop (full_answer fp md stop s)) @
     [Done (finish_reason stop (full_answer fp md stop s))]"

text \<open>What a client that is no longer live has been sent; \<open>gone\<close> are the clients that left.\<close>

definition settled :: "'f arith \<Rightarrow> 'f PagedQwen2 \<Rightarrow> CacheConfig \<Rightarrow> u32 list \<Rightarrow> nat set \<Rightarrow> Submit \<Rightarrow>
    WorkerEvent list \<Rightarrow> bool" where
  "settled fp md config stop gone s evs \<longleftrightarrow>
     (if fitting (num_blocks config * block_size config) (sb_prompt s) (sb_max_tokens s)
      then evs = complete fp md stop s \<or>
        sb_client s \<in> gone \<and> (\<exists>ts. prefix ts (visible stop (full_answer fp md stop s)) \<and> evs = map Token ts)
      else \<exists>msg. evs = [Failed msg])"

text \<open>What a live client has been sent: what its request has generated.\<close>

definition streaming :: "u32 list \<Rightarrow> nat \<Rightarrow> Submit \<Rightarrow> Request \<Rightarrow> WorkerEvent list \<Rightarrow> bool" where
  "streaming stop cap s r evs \<longleftrightarrow> prompt_of r = sb_prompt s \<and> rq_max_new r = sb_max_tokens s \<and>
     fitting cap (sb_prompt s) (sb_max_tokens s) \<and>
     evs = map Token (visible stop (drop (rq_prompt_len r) (rq_tokens r)))"

definition clients_ok :: "'f arith \<Rightarrow> 'f PagedQwen2 \<Rightarrow> CacheConfig \<Rightarrow> u32 list \<Rightarrow> Submit list \<Rightarrow> nat set \<Rightarrow>
    ('f CpuBackend, 'f) Worker \<Rightarrow> bool" where
  "clients_ok fp md config stop subs gone w \<longleftrightarrow>
     dom (client_of w) = dom (map_of (en_requests (wk_engine w))) \<and>
     (\<forall>i j c. client_of w i = Some c \<longrightarrow> client_of w j = Some c \<longrightarrow> i = j) \<and>
     (\<forall>i c r. client_of w i = Some c \<longrightarrow> map_of (en_requests (wk_engine w)) i = Some r \<longrightarrow>
        (\<exists>s \<in> set subs. sb_client s = c \<and>
           streaming stop (num_blocks config * block_size config) s r (events_to c w))) \<and>
     (\<forall>s \<in> set subs. sb_client s \<notin> ran (client_of w) \<longrightarrow>
        settled fp md config stop gone s (events_to (sb_client s) w)) \<and>
     (\<forall>c. c \<notin> sb_client ` set subs \<longrightarrow> events_to c w = [])"

definition worker_inv :: "'f arith \<Rightarrow> 'f PagedQwen2 \<Rightarrow> CacheConfig \<Rightarrow> u32 list \<Rightarrow> Submit list \<Rightarrow> nat set \<Rightarrow>
    ('f CpuBackend, 'f) Worker \<Rightarrow> bool" where
  "worker_inv fp md config stop subs gone w \<longleftrightarrow> engine_good fp md config stop (wk_engine w) \<and>
     wk_stop_tokens w = stop \<and> ids_below (wk_next_id w) (wk_engine w) \<and> unat (wk_next_id w) = length subs \<and>
     distinct (map fst (wk_live w)) \<and> distinct (map sb_client subs) \<and> clients_ok fp md config stop subs gone w"




lemma worker_inv_metrics [simp]:
  "worker_inv fp md config stop subs gone (on_metrics f w) = worker_inv fp md config stop subs gone w"
  by (simp add: worker_inv_def clients_ok_def)




section \<open>Arrivals\<close>



section \<open>Departures\<close>






section \<open>A step and a turn\<close>






lemma worker_inv_update [simp]:
  "worker_inv fp md config stop subs gone (w\<lparr>wk_metrics := m, wk_seen := t\<rparr>) = worker_inv fp md config stop subs gone w"
proof -
  have "events_to c (w\<lparr>wk_metrics := m, wk_seen := t\<rparr>) = events_to c w" for c by (simp add: events_to_def)
  moreover have "client_of (w\<lparr>wk_metrics := m, wk_seen := t\<rparr>) = client_of w" by (simp add: client_of_def fun_eq_iff)
  ultimately show ?thesis by (simp add: worker_inv_def clients_ok_def)
qed


section \<open>The life of the thread\<close>








section \<open>Properties\<close>

definition demo_submit :: "nat \<Rightarrow> u32 list \<Rightarrow> nat \<Rightarrow> Submit" where
  "demo_submit c p n = \<lparr>sb_prompt = p, sb_max_tokens = n, sb_client = c\<rparr>"




text \<open>
  What \<open>failed_step_poisons_cache\<close> means for a client: after another client's prompt has failed a step,
  a prompt admitted in that step is answered from blocks that were never written, here with the end
  of the stream, where a new deployment sends a token first.
\<close>

lemma poisoned_answer:
  "map_option (events_to 3) (worker_run (cpu_store demo_arith)
      [([demo_submit 1 [1, 2, 4] 1, demo_submit 2 [1, 9] 1], \<lambda>_. False), ([demo_submit 3 [1, 2, 4] 1], \<lambda>_. False)]
      (worker_new demo_new [3] no_metrics)) = Some [Done Stop]"
  "map_option (events_to 3) (worker_run (cpu_store demo_arith) [([demo_submit 3 [1, 2, 4] 1], \<lambda>_. False)]
      (worker_new demo_new [3] no_metrics)) = Some [Token 0, Done Length]"
  by code_simp+

text \<open>
  A limit of \<open>2 ^ 64 - 1\<close> passes every check, because the sums with it wrap: the scheduler gets a limit
  of nothing and retires the sequence in the step that admits it, the engine still holds the
  request, and its client stays live without a token, though nothing is left to schedule.
\<close>

theorem wrapped_limit_never_ends:
  "map_option (\<lambda>w. (wk_sent w, map fst (wk_live w), is_idle (en_scheduler (wk_engine w))))
    (worker_run (cpu_store demo_arith) ([([demo_submit 1 [1, 2, 4] (2 ^ 64 - 1)], \<lambda>_. False)] @ replicate 3 ([], \<lambda>_. False))
      (worker_new demo_new [3] no_metrics)) = Some ([], [SeqId 0], True)"
  by code_simp


end
