(* ===== verification/Contiguous_Pool.thy ===== *)
theory Contiguous_Pool
  imports Prelude
begin

text \<open>
  The contiguous allocator that \<open>contiguous_baseline.rs\<close> measures the paged pool against: first fit
  over one range of tokens, with neighbouring free ranges merged on release. Its invariant makes
  first fit exact: an allocation fails only when no stretch of free tokens is long enough.
\<close>

section \<open>The code\<close>

record Contiguous =
  ct_free :: "(nat \<times> nat) list"

definition contiguous_new :: "nat \<Rightarrow> Contiguous" where
  "contiguous_new len = \<lparr>ct_free = [(0, len)]\<rparr>"

definition contiguous_alloc :: "nat \<Rightarrow> Contiguous \<Rightarrow> (nat \<times> Contiguous) option" where
  "contiguous_alloc n p = do {
     i \<leftarrow> position_of (\<lambda>(_, len). n \<le> len) (ct_free p);
     let (start, len) = ct_free p ! i;
     Some (start, if len = n then p\<lparr>ct_free := remove_at i (ct_free p)\<rparr>
       else p\<lparr>ct_free := (ct_free p)[i := (start + n, len - n)]\<rparr>) }"

text \<open>
  The ranges are sorted by their start, so \<open>partition_point\<close> is the length of the prefix that
  satisfies its predicate.
\<close>

definition partition_point :: "('a \<Rightarrow> bool) \<Rightarrow> 'a list \<Rightarrow> nat" where
  "partition_point P xs = length (takeWhile P xs)"

text \<open>\<open>let r = free.remove(i + 1).1; free[i].1 += r\<close>.\<close>

definition absorb_next :: "nat \<Rightarrow> (nat \<times> nat) list \<Rightarrow> (nat \<times> nat) list" where
  "absorb_next i fr =
     (let r = snd (fr ! (i + 1)); fr = remove_at (i + 1) fr in fr[i := (fst (fr ! i), snd (fr ! i) + r)])"

definition contiguous_release :: "nat \<Rightarrow> nat \<Rightarrow> Contiguous \<Rightarrow> Contiguous" where
  "contiguous_release start n p =
     (let i = partition_point (\<lambda>(s, _). s < start) (ct_free p);
          fr = take i (ct_free p) @ (start, n) # drop i (ct_free p);
          fr = (if i + 1 < length fr \<and> start + n = fst (fr ! (i + 1)) then absorb_next i fr else fr);
          fr = (if 0 < i \<and> fst (fr ! (i - 1)) + snd (fr ! (i - 1)) = start then absorb_next (i - 1) fr else fr) in
      p\<lparr>ct_free := fr\<rparr>)"

definition free_tokens :: "Contiguous \<Rightarrow> nat" where
  "free_tokens p = sum_list (map snd (ct_free p))"

section \<open>Free ranges\<close>

text \<open>Sorted by start, never empty, never adjacent, from \<open>lo\<close> on.\<close>

fun gaps :: "nat \<Rightarrow> (nat \<times> nat) list \<Rightarrow> bool" where
  "gaps lo [] = True"
| "gaps lo ((s, l) # fr) \<longleftrightarrow> lo \<le> s \<and> 0 < l \<and> gaps (s + l + 1) fr"

fun gaps_end :: "nat \<Rightarrow> (nat \<times> nat) list \<Rightarrow> nat" where
  "gaps_end lo [] = lo"
| "gaps_end lo ((s, l) # fr) = gaps_end (s + l + 1) fr"

lemma gaps_append: "gaps lo (xs @ ys) \<longleftrightarrow> gaps lo xs \<and> gaps (gaps_end lo xs) ys"
  by (induction lo xs rule: gaps_end.induct) auto

lemma gaps_end_append: "gaps_end lo (xs @ ys) = gaps_end (gaps_end lo xs) ys"
  by (induction lo xs rule: gaps_end.induct) auto

lemma gaps_mono: "gaps lo fr \<Longrightarrow> lo' \<le> lo \<Longrightarrow> gaps lo' fr"
  by (cases fr) auto

lemma gaps_bounds: "gaps lo fr \<Longrightarrow> (s, l) \<in> set fr \<Longrightarrow> lo \<le> s \<and> 0 < l"
  by (induction lo fr rule: gaps.induct) fastforce+

definition covers :: "nat \<Rightarrow> nat \<times> nat \<Rightarrow> bool" where
  "covers x r = (case r of (s, n) \<Rightarrow> s \<le> x \<and> x < s + n)"

text \<open>How many of the ranges a token lies in.\<close>

definition owners :: "nat \<Rightarrow> (nat \<times> nat) list \<Rightarrow> nat" where
  "owners x rs = length (filter (covers x) rs)"

lemma owners_simps [simp]:
  "owners x [] = 0"
  "owners x (r # rs) = of_bool (covers x r) + owners x rs"
  "owners x (rs @ rs') = owners x rs + owners x rs'"
  by (simp_all add: owners_def)

lemma owners_zero_iff: "owners x rs = 0 \<longleftrightarrow> (\<forall>r \<in> set rs. \<not> covers x r)"
  by (simp add: owners_def filter_empty_conv)

lemma covers_split: "of_bool (covers x (s, l)) = (of_bool (covers x (s, n)) + of_bool (covers x (s + n, l - n)) :: nat)"
  if "n \<le> l"
  using that by (auto simp: covers_def)

lemma below_free: "gaps lo fr \<Longrightarrow> x < lo \<Longrightarrow> owners x fr = 0"
  by (auto simp: owners_zero_iff covers_def dest!: gaps_bounds)

lemma free_once: "gaps lo fr \<Longrightarrow> owners x fr \<le> 1"
proof (induction lo fr rule: gaps.induct)
  case (2 lo s l fr)
  show ?case
  proof (cases "covers x (s, l)")
    case True
    with below_free [of "s + l + 1" fr x] 2(2) show ?thesis by (simp add: covers_def)
  qed (use 2 in simp)
qed simp

section \<open>Allocation\<close>

lemma alloc_split:
  assumes "contiguous_alloc n p = Some (start, p')"
  obtains xs l ys where "ct_free p = xs @ (start, l) # ys" "n \<le> l" "\<forall>(s, k) \<in> set xs. k < n"
    "ct_free p' = (if l = n then xs @ ys else xs @ (start + n, l - n) # ys)"
proof -
  from assms obtain i l where i: "position_of (\<lambda>(_, len). n \<le> len) (ct_free p) = Some i"
    and r: "ct_free p ! i = (start, l)"
    and p': "p' = (if l = n then p\<lparr>ct_free := remove_at i (ct_free p)\<rparr>
       else p\<lparr>ct_free := (ct_free p)[i := (start + n, l - n)]\<rparr>)"
    by (auto simp: contiguous_alloc_def Let_def split: option.splits prod.splits bind_splits)
  from position_of_Some [OF i] r have P: "i < length (ct_free p)" "n \<le> l" "\<forall>j < i. \<not> n \<le> snd (ct_free p ! j)"
    by (auto simp: case_prod_beta)
  let ?xs = "take i (ct_free p)" and ?ys = "drop (Suc i) (ct_free p)"
  have eq: "ct_free p = ?xs @ (start, l) # ?ys" using id_take_nth_drop [OF P(1)] r by simp
  have "\<forall>(s, k) \<in> set ?xs. k < n" using P(3) by (force simp: in_set_conv_nth)
  moreover have "ct_free p' = (if l = n then ?xs @ ?ys else ?xs @ (start + n, l - n) # ?ys)"
    using P(1) p' by (simp add: remove_at_def upd_conv_take_nth_drop)
  ultimately show thesis using that eq P(2) by blast
qed

lemma alloc_ok:
  assumes "gaps 0 (ct_free p)" "0 < n" "contiguous_alloc n p = Some (start, p')"
  shows "gaps 0 (ct_free p')" "owners x (ct_free p) = owners x (ct_free p') + of_bool (covers x (start, n))"
    "free_tokens p = free_tokens p' + n"
proof -
  from alloc_split [OF assms(3)] obtain xs l ys where
    s: "ct_free p = xs @ (start, l) # ys" "n \<le> l"
    "ct_free p' = (if l = n then xs @ ys else xs @ (start + n, l - n) # ys)" by metis
  show "gaps 0 (ct_free p')"
    using assms(1,2) s by (auto simp: gaps_append intro: gaps_mono)
  show "owners x (ct_free p) = owners x (ct_free p') + of_bool (covers x (start, n))"
    using s covers_split [OF s(2), of x start] by auto
  show "free_tokens p = free_tokens p' + n" using s by (auto simp: free_tokens_def)
qed

text \<open>A stretch of free tokens lies in one free range, since ranges are never adjacent.\<close>

lemma stretch_in_range:
  assumes "gaps lo fr" "0 < n" "\<forall>x. a \<le> x \<and> x < a + n \<longrightarrow> 0 < owners x fr"
  shows "\<exists>(s, l) \<in> set fr. s \<le> a \<and> a + n \<le> s + l"
  using assms
proof (induction lo fr rule: gaps.induct)
  case (2 lo s l fr)
  have after: "owners x fr = 0" if "x < s + l + 1" for x using below_free [of "s + l + 1"] 2(2) that by simp
  show ?case
  proof (cases "a < s + l")
    case True
    from 2(3,4) have "0 < owners a ((s, l) # fr)" by auto
    with after [of a] True have "covers a (s, l)" by (auto split: if_splits)
    moreover have "a + n \<le> s + l"
    proof (rule ccontr)
      assume "\<not> a + n \<le> s + l"
      with True 2(4) have "0 < owners (s + l) ((s, l) # fr)" by auto
      with after [of "s + l"] show False by (simp add: covers_def)
    qed
    ultimately show ?thesis by (auto simp: covers_def)
  next
    case False
    have "\<forall>x. a \<le> x \<and> x < a + n \<longrightarrow> 0 < owners x fr"
      using 2(4) False by (auto simp: covers_def)
    with 2 show ?thesis by auto
  qed
qed (auto dest: spec [of _ a])

text \<open>First fit takes the lowest stretch of free tokens that is long enough, if there is one.\<close>

lemma alloc_first_fit:
  assumes "gaps 0 (ct_free p)" "0 < n"
  defines "fits a \<equiv> \<forall>x. a \<le> x \<and> x < a + n \<longrightarrow> 0 < owners x (ct_free p)"
  shows "contiguous_alloc n p = None \<longleftrightarrow> (\<forall>a. \<not> fits a)"
    "contiguous_alloc n p = Some (start, p') \<Longrightarrow> fits start \<and> (\<forall>a < start. \<not> fits a)"
proof -
  have range: "0 < owners x (ct_free p)" if "(s, l) \<in> set (ct_free p)" "covers x (s, l)" for x s l
    using that owners_zero_iff [of x "ct_free p"] by auto
  have some: "fits s" if "(s, l) \<in> set (ct_free p)" "n \<le> l" for s l
    unfolding fits_def using range [OF that(1)] that(2) by (auto simp: covers_def)
  show "contiguous_alloc n p = None \<longleftrightarrow> (\<forall>a. \<not> fits a)"
  proof
    assume "contiguous_alloc n p = None"
    then have none: "\<forall>(s, l) \<in> set (ct_free p). \<not> n \<le> l"
      by (auto simp: contiguous_alloc_def position_of_None_iff Let_def split: prod.splits bind_splits)
    show "\<forall>a. \<not> fits a"
    proof (intro allI notI)
      fix a assume "fits a"
      from stretch_in_range [OF assms(1,2) this [unfolded fits_def]] none show False by force
    qed
  next
    assume none: "\<forall>a. \<not> fits a"
    show "contiguous_alloc n p = None"
    proof (rule ccontr)
      assume "contiguous_alloc n p \<noteq> None"
      then obtain a p' where "contiguous_alloc n p = Some (a, p')" by auto
      from alloc_split [OF this] some none show False by (metis in_set_conv_decomp)
    qed
  qed
  show "fits start \<and> (\<forall>a < start. \<not> fits a)" if op: "contiguous_alloc n p = Some (start, p')"
  proof -
    from alloc_split [OF op] obtain xs l ys where
      s: "ct_free p = xs @ (start, l) # ys" "n \<le> l" "\<forall>(s, k) \<in> set xs. k < n" by metis
    have "\<not> fits a" if a: "a < start" for a
    proof
      assume "fits a"
      from stretch_in_range [OF assms(1,2) this [unfolded fits_def]] obtain s' k where
        k: "(s', k) \<in> set (ct_free p)" "s' \<le> a" "a + n \<le> s' + k" by auto
      have "gaps (gaps_end 0 xs) ((start, l) # ys)" using assms(1) s(1) by (simp add: gaps_append)
      then have "start \<le> s'" if "(s', k) \<in> set ((start, l) # ys)"
        using that gaps_bounds [of "start + l + 1" ys s' k] by auto
      with k a have "(s', k) \<in> set xs" by (auto simp: s(1))
      with s(3) k(2,3) show False by auto
    qed
    with some [of start l] s(1,2) show ?thesis by auto
  qed
qed

section \<open>Release\<close>

text \<open>Putting a range between the ones below it and the ones above it, merged with what it touches.\<close>

definition merge_after :: "nat \<Rightarrow> nat \<Rightarrow> (nat \<times> nat) list \<Rightarrow> (nat \<times> nat) list" where
  "merge_after start n ys = (case ys of [] \<Rightarrow> [(start, n)]
     | (s, l) # ys' \<Rightarrow> if start + n = s then (start, n + l) # ys' else (start, n) # ys)"

definition merge_before :: "(nat \<times> nat) list \<Rightarrow> (nat \<times> nat) list \<Rightarrow> (nat \<times> nat) list" where
  "merge_before xs zs = (if xs = [] then zs else case zs of [] \<Rightarrow> xs
     | (start, n) # zs' \<Rightarrow> (case last xs of (s, l) \<Rightarrow>
         if s + l = start then butlast xs @ (s, l + n) # zs' else xs @ zs))"

lemma absorb_next_append [simp]:
  "absorb_next (length xs) (xs @ (s, l) # (s', l') # ys) = xs @ (s, l + l') # ys"
proof -
  have "(xs @ (s, l) # (s', l') # ys) ! Suc (length xs) = (s', l')"
    by (simp add: nth_append)
  with remove_at_append [of "xs @ [(s, l)]" "(s', l')" ys] show ?thesis
    by (simp add: absorb_next_def Let_def)
qed

text \<open>The ranges below the released one, which lies between them and the others.\<close>

definition below :: "nat \<Rightarrow> (nat \<times> nat) list \<Rightarrow> (nat \<times> nat) list \<Rightarrow> (nat \<times> nat) list \<Rightarrow> bool" where
  "below start fr xs ys \<longleftrightarrow> fr = xs @ ys \<and> partition_point (\<lambda>(s, _). s < start) fr = length xs \<and>
     (\<forall>(s, l) \<in> set xs. s < start) \<and> (\<forall>s l ys'. ys = (s, l) # ys' \<longrightarrow> start \<le> s)"

lemma below_exists: "\<exists>xs ys. below start fr xs ys"
proof -
  let ?P = "\<lambda>(s, _ :: nat). s < start"
  have "start \<le> s" if "dropWhile ?P fr = (s, l) # ys" for s l ys
    using hd_dropWhile [of ?P fr] that by simp
  moreover have "\<forall>(s, l) \<in> set (takeWhile ?P fr). s < start" by (auto dest: set_takeWhileD)
  moreover have "fr = takeWhile ?P fr @ dropWhile ?P fr" by simp
  ultimately show ?thesis unfolding below_def partition_point_def by blast
qed

lemma merge_after_first: "\<exists>m zs. merge_after start n ys = (start, m) # zs"
  by (simp add: merge_after_def split: list.split prod.split)

lemma release_eq:
  assumes "below start (ct_free p) xs ys"
  shows "ct_free (contiguous_release start n p) = merge_before xs (merge_after start n ys)"
proof -
  from assms have s: "ct_free p = xs @ ys" "partition_point (\<lambda>(s, _). s < start) (xs @ ys) = length xs"
    unfolding below_def by metis+
  have fr: "(if length xs + 1 < length (xs @ (start, n) # ys) \<and>
      start + n = fst ((xs @ (start, n) # ys) ! (length xs + 1))
    then absorb_next (length xs) (xs @ (start, n) # ys) else xs @ (start, n) # ys) = xs @ merge_after start n ys"
    by (cases ys) (auto simp: merge_after_def nth_append)
  have t: "take (length xs) (xs @ ys) = xs" "drop (length xs) (xs @ ys) = ys" by simp_all
  let ?fr = "xs @ merge_after start n ys"
  have rel: "ct_free (contiguous_release start n p) =
      (if 0 < length xs \<and> fst (?fr ! (length xs - 1)) + snd (?fr ! (length xs - 1)) = start
       then absorb_next (length xs - 1) ?fr else ?fr)"
    unfolding contiguous_release_def Let_def s t fr by simp
  obtain m zs where mz: "merge_after start n ys = (start, m) # zs" using merge_after_first by blast
  show ?thesis
  proof (cases xs rule: rev_cases)
    case Nil
    then show ?thesis by (simp add: rel merge_before_def)
  next
    case (snoc ws r)
    obtain a l where r: "r = (a, l)" by force
    have "absorb_next (length ws) (ws @ (a, l) # (start, m) # zs) = ws @ (a, l + m) # zs" by simp
    then show ?thesis using snoc r by (simp add: rel mz merge_before_def nth_append)
  qed
qed

lemma merge_before_ok:
  assumes "gaps 0 xs" "gaps start zs" "zs = (start, m) # zs'"
    and "\<And>ws s l. xs = ws @ [(s, l)] \<Longrightarrow> s + l \<le> start"
  shows "gaps 0 (merge_before xs zs)" "owners x (merge_before xs zs) = owners x xs + owners x zs"
    "sum_list (map snd (merge_before xs zs)) = sum_list (map snd xs) + sum_list (map snd zs)"
proof -
  have "gaps 0 (merge_before xs zs) \<and> owners x (merge_before xs zs) = owners x xs + owners x zs \<and>
    sum_list (map snd (merge_before xs zs)) = sum_list (map snd xs) + sum_list (map snd zs)"
  proof (cases xs rule: rev_cases)
    case Nil
    with gaps_mono [OF assms(2)] show ?thesis by (simp add: merge_before_def)
  next
    case (snoc ws r)
    obtain s l where r: "r = (s, l)" by force
    with snoc assms(4) have "s + l \<le> start" by simp
    with assms(1-3) snoc r show ?thesis
      by (auto simp: merge_before_def gaps_append gaps_end_append covers_def add.assoc)
  qed
  then show "gaps 0 (merge_before xs zs)" "owners x (merge_before xs zs) = owners x xs + owners x zs"
    "sum_list (map snd (merge_before xs zs)) = sum_list (map snd xs) + sum_list (map snd zs)" by simp_all
qed

lemma release_ok:
  assumes "gaps 0 (ct_free p)" "0 < n" "\<forall>x. start \<le> x \<and> x < start + n \<longrightarrow> owners x (ct_free p) = 0"
  shows "gaps 0 (ct_free (contiguous_release start n p))"
    "owners x (ct_free (contiguous_release start n p)) = owners x (ct_free p) + of_bool (covers x (start, n))"
    "free_tokens (contiguous_release start n p) = free_tokens p + n"
proof -
  from below_exists obtain xs ys where b: "below start (ct_free p) xs ys" by blast
  then have fr: "ct_free p = xs @ ys" and lo: "\<And>s l. (s, l) \<in> set xs \<Longrightarrow> s < start"
    and hi: "\<And>s l ys'. ys = (s, l) # ys' \<Longrightarrow> start \<le> s" by (auto simp: below_def)
  have g: "gaps 0 xs" "gaps (gaps_end 0 xs) ys" using assms(1) by (simp_all add: fr gaps_append)
  have low: "owners x xs = 0" "owners x ys = 0" if "start \<le> x" "x < start + n" for x
    using assms(3) that by (simp_all add: fr)
  have "gaps (start + n) ys"
  proof (cases ys)
    case (Cons r ys')
    obtain s l where r: "r = (s, l)" by force
    have "\<not> s < start + n"
      using low(2) [of s] hi g(2) Cons r by (auto simp: covers_def)
    with g(2) Cons r show ?thesis by simp
  qed simp
  then have after: "gaps start (merge_after start n ys)"
    using assms(2) by (auto simp: merge_after_def add.assoc split: list.split)
  have zs: "owners x (merge_after start n ys) = of_bool (covers x (start, n)) + owners x ys"
    "sum_list (map snd (merge_after start n ys)) = n + sum_list (map snd ys)" for x
    by (auto simp: merge_after_def covers_def split: list.split)
  obtain m zs where mz: "merge_after start n ys = (start, m) # zs" using merge_after_first by blast
  have "s + l \<le> start" if "xs = ws @ [(s, l)]" for ws s l
    using lo [of s l] low(1) [of start] assms(2) that by (auto simp: covers_def)
  note M = merge_before_ok [OF g(1) after mz this]
  show "gaps 0 (ct_free (contiguous_release start n p))"
    "owners x (ct_free (contiguous_release start n p)) = owners x (ct_free p) + of_bool (covers x (start, n))"
    "free_tokens (contiguous_release start n p) = free_tokens p + n"
    using M zs by (simp_all add: release_eq [OF b] free_tokens_def) (simp_all add: fr)
qed

end
