(* ===== verification/Baseline.thy ===== *)
theory Baseline
  imports Contiguous_Pool Sched_Props
begin

text \<open>
  \<open>contiguous_baseline.rs\<close>, which runs one request stream through contiguous buffers and through the
  paged scheduler. Neither run can panic: the contiguous pool ends with every token free or in
  exactly one buffer, and the scheduler takes every request and makes every step.
\<close>

section \<open>The request stream\<close>

definition STEPS :: nat where "STEPS = 5000"
definition NUM_BLOCKS :: nat where "NUM_BLOCKS = 512"
definition BLOCK_SIZE :: nat where "BLOCK_SIZE = 16"
definition POOL_TOKENS :: nat where "POOL_TOKENS = NUM_BLOCKS * BLOCK_SIZE"
definition MAX_BATCH :: nat where "MAX_BATCH = 64"
definition QUEUE_DEPTH :: nat where "QUEUE_DEPTH = 8"
definition MAX_MODEL_LEN :: nat where "MAX_MODEL_LEN = 2048"
definition PROMPT_TOKENS :: "nat \<times> nat" where "PROMPT_TOKENS = (32, 512)"
definition MAX_NEW_TOKENS :: nat where "MAX_NEW_TOKENS = 512"

record BenchRequest =
  bq_prompt :: nat
  bq_output :: nat

text \<open>\<open>Requests\<close> is the state of a linear congruential generator; its arithmetic wraps.\<close>

datatype Requests = Requests u64

fun draw :: "Requests \<Rightarrow> nat \<times> Requests" where
  "draw (Requests w) =
     (let w = w * 6364136223846793005 + 1442695040888963407 in (unat (drop_bit 33 w), Requests w))"

definition next_request :: "Requests \<Rightarrow> BenchRequest \<times> Requests" where
  "next_request g =
     (let (x, g) = draw g;
          prompt = fst PROMPT_TOKENS + x mod (snd PROMPT_TOKENS - fst PROMPT_TOKENS + 1);
          (y, g) = draw g;
          u = y mod 1001;
          output = 8 + u * u * (MAX_NEW_TOKENS - 8) div 1000000 in
      (\<lparr>bq_prompt = prompt, bq_output = output\<rparr>, g))"

datatype Policy = MaxModelLen | RequestMax | Oracle

fun policy_label :: "Policy \<Rightarrow> string" where
  "policy_label MaxModelLen = ''Contiguous, max model length''"
| "policy_label RequestMax = ''Contiguous, prompt + max new''"
| "policy_label Oracle = ''Contiguous, exact (oracle)''"

fun reserve :: "Policy \<Rightarrow> BenchRequest \<Rightarrow> nat" where
  "reserve MaxModelLen r = MAX_MODEL_LEN"
| "reserve RequestMax r = bq_prompt r + MAX_NEW_TOKENS"
| "reserve Oracle r = bq_prompt r + bq_output r"

record Report =
  rp_finished :: nat
  rp_prefilled :: nat
  rp_preempted :: nat
  rp_batch_total :: nat
  rp_reserved_total :: nat
  rp_live_total :: nat

definition no_report :: Report where
  "no_report = \<lparr>rp_finished = 0, rp_prefilled = 0, rp_preempted = 0, rp_batch_total = 0,
     rp_reserved_total = 0, rp_live_total = 0\<rparr>"

definition report_record :: "nat \<Rightarrow> nat \<Rightarrow> nat \<Rightarrow> Report \<Rightarrow> Report" where
  "report_record batch reserved alive rp = rp\<lparr>rp_batch_total := rp_batch_total rp + batch,
     rp_reserved_total := rp_reserved_total rp + reserved, rp_live_total := rp_live_total rp + alive\<rparr>"

section \<open>Contiguous buffers\<close>

record BenchRunning =
  bu_start :: nat
  bu_reserved :: nat
  bu_tokens :: nat
  bu_remaining :: nat

record Bench =
  be_pool :: Contiguous
  be_requests :: Requests
  be_waiting :: "BenchRequest list"
  be_running :: "BenchRunning list"
  be_report :: Report

function top_up :: "Requests \<Rightarrow> BenchRequest list \<Rightarrow> Requests \<times> BenchRequest list" where
  "top_up g queue =
     (if length queue < QUEUE_DEPTH then
        (case next_request g of (r, g) \<Rightarrow> top_up g (queue @ [r]))
      else (g, queue))"
  by pat_completeness auto
termination
  by (relation "measure (\<lambda>(g, queue). QUEUE_DEPTH - length queue)") auto

declare top_up.simps [simp del]

fun admit_contiguous :: "Policy \<Rightarrow> BenchRequest list \<Rightarrow> Contiguous \<Rightarrow> BenchRunning list \<Rightarrow> Report \<Rightarrow>
    BenchRequest list \<times> Contiguous \<times> BenchRunning list \<times> Report" where
  "admit_contiguous policy [] pool active rp = ([], pool, active, rp)"
| "admit_contiguous policy (r # queue) pool active rp =
     (if MAX_BATCH \<le> length active then (r # queue, pool, active, rp)
      else
        (case contiguous_alloc (reserve policy r) pool of
           None \<Rightarrow> (r # queue, pool, active, rp)
         | Some (start, pool) \<Rightarrow>
             admit_contiguous policy queue pool
               (active @ [\<lparr>bu_start = start, bu_reserved = reserve policy r, bu_tokens = bq_prompt r,
                  bu_remaining = bq_output r\<rparr>])
               (rp\<lparr>rp_prefilled := rp_prefilled rp + bq_prompt r\<rparr>)))"

definition grow_buffer :: "BenchRunning \<Rightarrow> BenchRunning" where
  "grow_buffer s = s\<lparr>bu_tokens := bu_tokens s + 1, bu_remaining := usize_sub (bu_remaining s) 1\<rparr>"

fun retire_contiguous :: "BenchRunning list \<Rightarrow> Contiguous \<Rightarrow> Report \<Rightarrow>
    BenchRunning list \<times> Contiguous \<times> Report" where
  "retire_contiguous [] pool rp = ([], pool, rp)"
| "retire_contiguous (s # ss) pool rp =
     (let (pool, rp) =
        (if bu_remaining s = 0
         then (contiguous_release (bu_start s) (bu_reserved s) pool, rp\<lparr>rp_finished := rp_finished rp + 1\<rparr>)
         else (pool, rp));
          (kept, pool, rp) = retire_contiguous ss pool rp in
      (if 0 < bu_remaining s then s # kept else kept, pool, rp))"

definition contiguous_step :: "Policy \<Rightarrow> Bench \<Rightarrow> Bench" where
  "contiguous_step policy b =
     (let (requests, queue) = top_up (be_requests b) (be_waiting b);
          (queue, pool, active, rp) = admit_contiguous policy queue (be_pool b) (be_running b) (be_report b);
          (active, pool, rp) = retire_contiguous (map grow_buffer active) pool rp;
          rp = report_record (length active) (sum_list (map bu_reserved active))
            (sum_list (map bu_tokens active)) rp in
      \<lparr>be_pool = pool, be_requests = requests, be_waiting = queue, be_running = active, be_report = rp\<rparr>)"

definition bench_start :: Bench where
  "bench_start = \<lparr>be_pool = contiguous_new POOL_TOKENS, be_requests = Requests 42, be_waiting = [],
     be_running = [], be_report = no_report\<rparr>"

text \<open>The final assertion panics if a range was lost.\<close>

definition run_contiguous :: "Policy \<Rightarrow> Report option" where
  "run_contiguous policy =
     (let b = (contiguous_step policy ^^ STEPS) bench_start;
          reserved = sum_list (map bu_reserved (be_running b)) in
      if free_tokens (be_pool b) + reserved = POOL_TOKENS then Some (be_report b) else None)"

section \<open>The paged scheduler\<close>

definition bench_config :: CacheConfig where
  "bench_config = \<lparr>num_blocks = NUM_BLOCKS, block_size = BLOCK_SIZE, num_kv_heads = 1, head_dim = 1,
     num_layers = 1, dtype_bytes = 2\<rparr>"

record PagedBench =
  pb_scheduler :: Scheduler
  pb_requests :: Requests
  pb_next_id :: nat
  pb_report :: Report

text \<open>
  Each pass adds a request, so \<open>QUEUE_DEPTH\<close> passes fill the queue; \<open>expect\<close> turns an error into a
  panic.
\<close>

fun submit_requests :: "nat \<Rightarrow> PagedBench \<Rightarrow> PagedBench option" where
  "submit_requests 0 b = (if length (waiting (pb_scheduler b)) < QUEUE_DEPTH then None else Some b)"
| "submit_requests (Suc fuel) b =
     (if length (waiting (pb_scheduler b)) < QUEUE_DEPTH then
        (case next_request (pb_requests b) of (r, g) \<Rightarrow>
           (case add_request (SeqId (of_nat (pb_next_id b))) (bq_prompt r) (bq_output r) (pb_scheduler b) of
              Ok _ s \<Rightarrow> submit_requests fuel
                (b\<lparr>pb_scheduler := s, pb_requests := g, pb_next_id := pb_next_id b + 1\<rparr>)
            | _ \<Rightarrow> None))
      else Some b)"

text \<open>
  \<open>reserved_of\<close> is \<open>(pool_utilization() * POOL_TOKENS).round()\<close>, a float figure of the report.
\<close>

definition paged_step :: "(Scheduler \<Rightarrow> nat) \<Rightarrow> PagedBench \<Rightarrow> PagedBench option" where
  "paged_step reserved_of b = do {
     b \<leftarrow> submit_requests QUEUE_DEPTH b;
     (out, s) \<leftarrow> (case step (pb_scheduler b) of Ok out s \<Rightarrow> Some (out, s) | _ \<Rightarrow> None);
     let rp = pb_report b;
     let rp = rp\<lparr>rp_finished := rp_finished rp + length (finished out),
       rp_preempted := rp_preempted rp + length (preempted out),
       rp_prefilled := rp_prefilled rp + sum_list (map pf_computed (prefills out))\<rparr>;
     Some (b\<lparr>pb_scheduler := s, pb_report := report_record (length (running s)) (reserved_of s)
       (sum_list (map ri_tokens (running_snapshot s))) rp\<rparr>) }"

fun paged_steps :: "(Scheduler \<Rightarrow> nat) \<Rightarrow> nat \<Rightarrow> PagedBench \<Rightarrow> PagedBench option" where
  "paged_steps reserved_of 0 b = Some b"
| "paged_steps reserved_of (Suc n) b = do { b \<leftarrow> paged_step reserved_of b; paged_steps reserved_of n b }"

definition run_paged :: "(Scheduler \<Rightarrow> nat) \<Rightarrow> Report option" where
  "run_paged reserved_of = do {
     b \<leftarrow> paged_steps reserved_of STEPS \<lparr>pb_scheduler = sched_new bench_config MAX_BATCH,
       pb_requests = Requests 42, pb_next_id = 0, pb_report = no_report\<rparr>;
     Some (pb_report b) }"

section \<open>The stream\<close>

definition bench_request_ok :: "BenchRequest \<Rightarrow> bool" where
  "bench_request_ok r \<longleftrightarrow> 32 \<le> bq_prompt r \<and> bq_prompt r \<le> 512 \<and> 8 \<le> bq_output r \<and> bq_output r \<le> 512"

lemma next_request_ok: "next_request g = (r, g') \<Longrightarrow> bench_request_ok r"
proof -
  assume op: "next_request g = (r, g')"
  obtain x g1 where x: "draw g = (x, g1)" by force
  obtain y g2 where y: "draw g1 = (y, g2)" by force
  have r: "r = \<lparr>bq_prompt = 32 + x mod 481, bq_output = 8 + (y mod 1001) * (y mod 1001) * 504 div 1000000\<rparr>"
    using op by (simp add: next_request_def x y Let_def PROMPT_TOKENS_def MAX_NEW_TOKENS_def)
  have "y mod 1001 < 1001" by simp
  then have "y mod 1001 \<le> 1000" by linarith
  then have "(y mod 1001) * (y mod 1001) \<le> 1000 * 1000" by (intro mult_le_mono)
  then have "(y mod 1001) * (y mod 1001) * 504 div 1000000 \<le> 504" by (simp add: div_le_mono [THEN order_trans])
  moreover have "x mod 481 \<le> 480" by simp
  ultimately show ?thesis by (simp add: r bench_request_ok_def)
qed

lemma reserve_pos: "bench_request_ok r \<Longrightarrow> 0 < reserve policy r"
  by (cases policy) (simp_all add: bench_request_ok_def MAX_MODEL_LEN_def MAX_NEW_TOKENS_def)

lemma top_up_ok: "\<forall>r \<in> set w. bench_request_ok r \<Longrightarrow> \<forall>r \<in> set (snd (top_up g w)). bench_request_ok r"
proof (induction g w rule: top_up.induct)
  case (1 g w)
  obtain r g' where r: "next_request g = (r, g')" by force
  show ?case
  proof (cases "length w < QUEUE_DEPTH")
    case True
    have "\<forall>q \<in> set (w @ [r]). bench_request_ok q" using 1(2) next_request_ok [OF r] by simp
    from 1(1) [OF True r [symmetric] this] show ?thesis using True r by (subst top_up.simps) simp
  qed (use 1 in \<open>simp add: top_up.simps\<close>)
qed

section \<open>The contiguous run\<close>

definition buffer :: "BenchRunning \<Rightarrow> nat \<times> nat" where
  "buffer s = (bu_start s, bu_reserved s)"

text \<open>
  Every token of the pool is free or in exactly one buffer, and the free ranges are as long as
  they can be.
\<close>

definition partitioned :: "Contiguous \<Rightarrow> BenchRunning list \<Rightarrow> bool" where
  "partitioned pool active \<longleftrightarrow> gaps 0 (ct_free pool) \<and>
     (\<forall>x. owners x (ct_free pool) + owners x (map buffer active) = of_bool (x < POOL_TOKENS)) \<and>
     free_tokens pool + sum_list (map bu_reserved active) = POOL_TOKENS \<and>
     (\<forall>s \<in> set active. 0 < bu_reserved s)"

lemma partitioned_new: "partitioned (contiguous_new POOL_TOKENS) []"
  by (simp add: partitioned_def contiguous_new_def covers_def free_tokens_def POOL_TOKENS_def
      NUM_BLOCKS_def BLOCK_SIZE_def)

lemma partitioned_same:
  "partitioned pool active \<Longrightarrow> map buffer active' = map buffer active \<Longrightarrow> partitioned pool active'"
proof -
  assume p: "partitioned pool active" and e: "map buffer active' = map buffer active"
  from arg_cong [OF e, of "map snd"] have r: "map bu_reserved active' = map bu_reserved active"
    by (simp add: comp_def buffer_def)
  moreover have "\<forall>s \<in> set active'. 0 < bu_reserved s"
    using p arg_cong [OF r, of "\<lambda>xs. \<forall>x \<in> set xs. 0 < x"] by (simp add: partitioned_def)
  ultimately show ?thesis using p e by (simp add: partitioned_def)
qed

lemma partitioned_alloc:
  assumes "partitioned pool active" "contiguous_alloc (bu_reserved s) pool = Some (bu_start s, pool')"
    and "0 < bu_reserved s"
  shows "partitioned pool' (active @ [s])"
proof -
  have g: "gaps 0 (ct_free pool)" using assms(1) by (simp add: partitioned_def)
  note A = alloc_ok [OF g assms(3,2)]
  have "owners x (ct_free pool') + owners x (map buffer (active @ [s])) = of_bool (x < POOL_TOKENS)" for x
  proof -
    have "owners x (ct_free pool) + owners x (map buffer active) = of_bool (x < POOL_TOKENS)"
      using assms(1) by (simp only: partitioned_def)
    moreover have "owners x (map buffer (active @ [s])) =
        owners x (map buffer active) + of_bool (covers x (bu_start s, bu_reserved s))" by (simp add: buffer_def)
    ultimately show ?thesis using A(2) [of x] by linarith
  qed
  with A(1,3) assms(1,3) show ?thesis by (simp add: partitioned_def)
qed

lemma partitioned_release:
  assumes "partitioned pool (xs @ s # ys)"
  shows "partitioned (contiguous_release (bu_start s) (bu_reserved s) pool) (xs @ ys)"
proof -
  from assms have g: "gaps 0 (ct_free pool)" and n: "0 < bu_reserved s"
    and o: "\<And>x. owners x (ct_free pool) + owners x (map buffer xs) + of_bool (covers x (buffer s)) +
      owners x (map buffer ys) = of_bool (x < POOL_TOKENS)"
    by (simp_all add: partitioned_def add.assoc)
  have "owners x (ct_free pool) = 0" if "bu_start s \<le> x" "x < bu_start s + bu_reserved s" for x
  proof -
    have "of_bool (covers x (buffer s)) = (1 :: nat)" "of_bool (x < POOL_TOKENS) \<le> (1 :: nat)"
      using that by (simp_all add: covers_def buffer_def)
    with o [of x] show ?thesis by linarith
  qed
  then have "\<forall>x. bu_start s \<le> x \<and> x < bu_start s + bu_reserved s \<longrightarrow> owners x (ct_free pool) = 0" by blast
  note R = release_ok [OF g n this]
  have "owners x (ct_free (contiguous_release (bu_start s) (bu_reserved s) pool)) + owners x (map buffer (xs @ ys)) =
      of_bool (x < POOL_TOKENS)" for x
  proof -
    have "owners x (map buffer (xs @ ys)) = owners x (map buffer xs) + owners x (map buffer ys)" by simp
    with o [of x] R(2) [of x, folded buffer_def] show ?thesis by linarith
  qed
  with R(1,3) assms show ?thesis by (simp add: partitioned_def)
qed

lemma admit_contiguous_ok:
  assumes "\<forall>r \<in> set w. bench_request_ok r" "partitioned pool active" "length active \<le> MAX_BATCH"
    and "\<forall>s \<in> set active. 0 < bu_remaining s"
  shows "case admit_contiguous policy w pool active rp of (w', pool', active', rp') \<Rightarrow>
    (\<forall>r \<in> set w'. bench_request_ok r) \<and> partitioned pool' active' \<and> length active' \<le> MAX_BATCH \<and>
    (\<forall>s \<in> set active'. 0 < bu_remaining s)"
  using assms
proof (induction policy w pool active rp rule: admit_contiguous.induct)
  case (2 policy r w pool active rp)
  show ?case
  proof (cases "MAX_BATCH \<le> length active \<or> contiguous_alloc (reserve policy r) pool = None")
    case True
    with "2.prems" show ?thesis by auto
  next
    case False
    then obtain start pool' where a: "contiguous_alloc (reserve policy r) pool = Some (start, pool')"
      and b: "\<not> MAX_BATCH \<le> length active" by auto
    let ?s = "\<lparr>bu_start = start, bu_reserved = reserve policy r, bu_tokens = bq_prompt r, bu_remaining = bq_output r\<rparr>"
    from "2.prems"(1) have r: "bench_request_ok r" by simp
    then have "partitioned pool' (active @ [?s])"
      using partitioned_alloc [OF "2.prems"(2), of ?s pool'] a reserve_pos by simp
    with "2.IH" [OF b a refl] "2.prems" r b a show ?thesis by (simp add: bench_request_ok_def)
  qed
qed simp

lemma retire_contiguous_ok:
  assumes "partitioned pool (xs @ ss)"
  shows "case retire_contiguous ss pool rp of (kept, pool', rp') \<Rightarrow>
    partitioned pool' (xs @ kept) \<and> length kept \<le> length ss \<and> (\<forall>s \<in> set kept. 0 < bu_remaining s)"
  using assms
proof (induction ss arbitrary: xs pool rp)
  case (Cons s ss)
  show ?case
  proof (cases "bu_remaining s = 0")
    case True
    from Cons.IH [OF partitioned_release [OF Cons.prems], of "rp\<lparr>rp_finished := rp_finished rp + 1\<rparr>"] True
    show ?thesis by (auto split: prod.splits)
  next
    case False
    from Cons.IH [of pool "xs @ [s]" rp] Cons.prems False show ?thesis by (auto split: prod.splits)
  qed
qed simp

definition bench_ok :: "Bench \<Rightarrow> bool" where
  "bench_ok b \<longleftrightarrow> (\<forall>r \<in> set (be_waiting b). bench_request_ok r) \<and> partitioned (be_pool b) (be_running b) \<and>
     length (be_running b) \<le> MAX_BATCH \<and> (\<forall>s \<in> set (be_running b). 0 < bu_remaining s)"

lemma contiguous_step_ok:
  assumes "bench_ok b"
  shows "bench_ok (contiguous_step policy b)"
proof -
  obtain g w where t: "top_up (be_requests b) (be_waiting b) = (g, w)" by force
  have w: "\<forall>r \<in> set w. bench_request_ok r" using top_up_ok [of "be_waiting b" "be_requests b"] assms t by (simp add: bench_ok_def)
  obtain w' pool active rp where a: "admit_contiguous policy w (be_pool b) (be_running b) (be_report b) =
      (w', pool, active, rp)" by (metis prod_cases4)
  from admit_contiguous_ok [OF w, of "be_pool b" "be_running b" policy "be_report b"] assms a have
    A: "\<forall>r \<in> set w'. bench_request_ok r" "partitioned pool active" "length active \<le> MAX_BATCH"
    by (simp_all add: bench_ok_def)
  have "map buffer (map grow_buffer active) = map buffer active" by (simp add: buffer_def grow_buffer_def)
  from partitioned_same [OF A(2) this] have p: "partitioned pool ([] @ map grow_buffer active)" by simp
  obtain kept pool' rp' where k: "retire_contiguous (map grow_buffer active) pool rp = (kept, pool', rp')"
    by (metis prod_cases3)
  from retire_contiguous_ok [OF p, of rp] k A(1,3) show ?thesis
    by (simp add: contiguous_step_def t a bench_ok_def)
qed

lemma contiguous_steps_ok: "bench_ok ((contiguous_step policy ^^ n) bench_start)"
proof (induction n)
  case 0
  show ?case by (simp add: bench_ok_def bench_start_def partitioned_new)
next
  case (Suc n)
  then show ?case by (simp add: contiguous_step_ok)
qed

section \<open>The paged run\<close>

text \<open>
  A reachable scheduler over the benchmark's pool, whose ids are below the next one to be used.
\<close>

definition paged_ok :: "PagedBench \<Rightarrow> bool" where
  "paged_ok b \<longleftrightarrow> sched_reach bench_config MAX_BATCH (pb_scheduler b) \<and>
     same_config (sched_new bench_config MAX_BATCH) (pb_scheduler b) \<and>
     (\<forall>i \<in> set (seq_ids (pb_scheduler b)). \<exists>k < pb_next_id b. i = SeqId (of_nat k))"

lemma bench_geometry: "geometry_ok bench_config MAX_BATCH"
  by (simp add: geometry_ok_def bench_config_def NUM_BLOCKS_def BLOCK_SIZE_def MAX_BATCH_def)

lemma of_nat_inject_u64: "j < 2 ^ 64 \<Longrightarrow> k < 2 ^ 64 \<Longrightarrow> (of_nat j :: u64) = of_nat k \<longleftrightarrow> j = k"
  by (simp add: word_of_nat_eq_iff take_bit_nat_eq_self)

lemma submit_one_ok:
  assumes "paged_ok b" "pb_next_id b < 2 ^ 64" "bench_request_ok r"
  defines "s \<equiv> (pb_scheduler b)\<lparr>waiting := waiting (pb_scheduler b) @ [\<lparr>pd_id = SeqId (of_nat (pb_next_id b)),
    pd_context_len = bq_prompt r, pd_max_new = bq_output r, pd_prompt = []\<rparr>]\<rparr>"
  shows "add_request (SeqId (of_nat (pb_next_id b))) (bq_prompt r) (bq_output r) (pb_scheduler b) = Ok () s"
    "paged_ok (b\<lparr>pb_scheduler := s, pb_requests := g, pb_next_id := pb_next_id b + 1\<rparr>)"
proof -
  let ?s = "pb_scheduler b" and ?i = "SeqId (of_nat (pb_next_id b))"
  from assms(1) have R: "sched_reach bench_config MAX_BATCH ?s" "same_config (sched_new bench_config MAX_BATCH) ?s"
    and ids: "\<forall>i \<in> set (seq_ids ?s). \<exists>k < pb_next_id b. i = SeqId (of_nat k)" by (simp_all add: paged_ok_def)
  from reach_inv [OF bench_geometry R(1)] obtain E where inv: "sched_inv E ?s" ..
  have "al_num_blocks (sc_alloc ?s) = NUM_BLOCKS" "sc_block_size ?s = BLOCK_SIZE"
    using R(2) by (simp_all add: same_config_def same_pool_def sched_new_def with_allocator_def alloc_new_def bench_config_def)
  with assms(3) show add: "add_request ?i (bq_prompt r) (bq_output r) ?s = Ok () s"
    using enqueue_eq [OF inv, of "bq_prompt r" "bq_output r" ?i "[]"]
    by (simp add: add_request_def bench_request_ok_def NUM_BLOCKS_def BLOCK_SIZE_def s_def)
  have "?i \<notin> set (seq_ids ?s)"
    using ids assms(2) of_nat_inject_u64 by fastforce
  from sched_reach.request [OF R(1) this, of "bq_prompt r" "bq_output r" s] add assms(3)
  have "sched_reach bench_config MAX_BATCH s" by (simp add: bench_request_ok_def)
  moreover have "same_config ?s s" by (simp add: s_def same_config_def)
  moreover have "set (seq_ids s) = insert ?i (set (seq_ids ?s))" by (auto simp: s_def seq_ids_def)
  then have fresh: "\<forall>i \<in> set (seq_ids s). \<exists>k < Suc (pb_next_id b). i = SeqId (of_nat k)"
    using ids less_Suc_eq by (metis insert_iff)
  ultimately show "paged_ok (b\<lparr>pb_scheduler := s, pb_requests := g, pb_next_id := pb_next_id b + 1\<rparr>)"
    using fresh same_config_trans [OF R(2)] by (simp add: paged_ok_def)
qed

lemma submit_requests_ok:
  assumes "paged_ok b" "pb_next_id b + fuel < 2 ^ 64" "QUEUE_DEPTH \<le> length (waiting (pb_scheduler b)) + fuel"
  shows "\<exists>b'. submit_requests fuel b = Some b' \<and> paged_ok b' \<and> pb_next_id b' \<le> pb_next_id b + fuel"
  using assms
proof (induction fuel arbitrary: b)
  case (Suc fuel)
  show ?case
  proof (cases "length (waiting (pb_scheduler b)) < QUEUE_DEPTH")
    case True
    obtain r g where r: "next_request (pb_requests b) = (r, g)" by force
    have id: "pb_next_id b < 2 ^ 64" using Suc.prems(2) by simp
    note S = submit_one_ok(1) [OF Suc.prems(1) id next_request_ok [OF r]]
      submit_one_ok(2) [OF Suc.prems(1) id next_request_ok [OF r], where g = g]
    from Suc.IH [OF S(2)] Suc.prems(2,3) S(1) True r show ?thesis by fastforce
  qed (use Suc.prems in auto)
qed auto

lemma paged_step_ok:
  assumes "paged_ok b" "pb_next_id b + QUEUE_DEPTH < 2 ^ 64"
  shows "\<exists>b'. paged_step reserved_of b = Some b' \<and> paged_ok b' \<and> pb_next_id b' \<le> pb_next_id b + QUEUE_DEPTH"
proof -
  from submit_requests_ok [OF assms] obtain b1 where
    b1: "submit_requests QUEUE_DEPTH b = Some b1" "paged_ok b1" "pb_next_id b1 \<le> pb_next_id b + QUEUE_DEPTH" by auto
  let ?s = "pb_scheduler b1"
  from b1(2) have r: "sched_reach bench_config MAX_BATCH ?s" by (simp add: paged_ok_def)
  from reach_inv [OF bench_geometry r] obtain E where inv: "sched_inv E ?s" ..
  from step_ok [OF inv] obtain k qs keep keep' vs out s' where
    st: "step ?s = Ok out s'" "stepped ?s k qs keep keep' vs out s'" "same_config ?s s'" by metis
  have d: "distinct (seq_ids ?s)" using inv core_invD(10) [of E "pb_scheduler b1"] by (simp add: sched_inv_def)
  have "sched_reach bench_config MAX_BATCH s'" using sched_reach.step [OF r] st(1) by simp
  moreover have "set (seq_ids s') \<subseteq> set (seq_ids ?s)" using stepped_order(1) [OF st(2) d] by simp
  ultimately have "paged_ok (b1\<lparr>pb_scheduler := s', pb_report := rp\<rparr>)" for rp
    using b1(2) same_config_trans [OF _ st(3)] by (auto simp: paged_ok_def)
  with b1(1,3) st(1) show ?thesis by (simp add: paged_step_def Let_def)
qed

lemma paged_steps_ok:
  assumes "paged_ok b" "pb_next_id b + n * QUEUE_DEPTH < 2 ^ 64"
  shows "\<exists>b'. paged_steps reserved_of n b = Some b' \<and> paged_ok b'"
  using assms
proof (induction n arbitrary: b)
  case (Suc n)
  from paged_step_ok [OF Suc.prems(1), of reserved_of] Suc.prems(2) obtain b1 where
    b1: "paged_step reserved_of b = Some b1" "paged_ok b1" "pb_next_id b1 \<le> pb_next_id b + QUEUE_DEPTH" by auto
  from Suc.IH [OF b1(2)] b1 Suc.prems(2) show ?case by simp
qed simp

section \<open>Both runs\<close>

text \<open>
  C40: The comparison cannot panic. Under every reservation policy the contiguous pool is, after
  any number of steps, partitioned into free ranges and buffers: each of its tokens is free or in
  exactly one buffer, so the final assertion (\<open>"lost a range"\<close>) holds; and the paged run takes
  every request and makes every step, as its two \<open>expect\<close>s claim.
\<close>

theorem baseline_never_panics:
  "partitioned (be_pool ((contiguous_step policy ^^ n) bench_start))
     (be_running ((contiguous_step policy ^^ n) bench_start)) \<and>
   length (be_running ((contiguous_step policy ^^ n) bench_start)) \<le> MAX_BATCH \<and>
   (\<exists>rp. run_contiguous policy = Some rp) \<and> (\<exists>rp. run_paged reserved_of = Some rp)"
proof -
  have ok: "partitioned (be_pool ((contiguous_step policy ^^ n) bench_start))
     (be_running ((contiguous_step policy ^^ n) bench_start))"
    "length (be_running ((contiguous_step policy ^^ n) bench_start)) \<le> MAX_BATCH" for n
    using contiguous_steps_ok [of n policy] by (simp_all add: bench_ok_def)
  from ok(1) [of STEPS] have "\<exists>rp. run_contiguous policy = Some rp"
    by (simp add: run_contiguous_def partitioned_def Let_def)
  moreover have "paged_ok \<lparr>pb_scheduler = sched_new bench_config MAX_BATCH, pb_requests = Requests 42,
      pb_next_id = 0, pb_report = no_report\<rparr>"
  proof -
    have "seq_ids (sched_new bench_config MAX_BATCH) = []"
      by (simp add: seq_ids_def sched_new_def with_allocator_def)
    then show ?thesis by (simp add: paged_ok_def sched_reach.new)
  qed
  from paged_steps_ok [OF this, of STEPS reserved_of] have "\<exists>rp. run_paged reserved_of = Some rp"
    by (auto simp: run_paged_def STEPS_def QUEUE_DEPTH_def)
  ultimately show ?thesis using ok by blast
qed

text \<open>
  C0: First fit is exact: the contiguous pool refuses a reservation only when no stretch of free
  tokens is long enough, and otherwise takes the lowest one; whatever else is free is lost to
  fragmentation. This rests on release merging every pair of adjacent ranges.
\<close>

theorem contiguous_alloc_exact:
  assumes "partitioned pool active" "0 < n"
  shows "(contiguous_alloc n pool = None \<longleftrightarrow> (\<forall>a. \<exists>x. a \<le> x \<and> x < a + n \<and> owners x (ct_free pool) = 0)) \<and>
    (\<forall>start pool'. contiguous_alloc n pool = Some (start, pool') \<longrightarrow>
       (\<forall>x. start \<le> x \<and> x < start + n \<longrightarrow> 0 < owners x (ct_free pool)) \<and>
       (\<forall>a < start. \<exists>x. a \<le> x \<and> x < a + n \<and> owners x (ct_free pool) = 0))"
proof -
  have g: "gaps 0 (ct_free pool)" using assms(1) by (simp add: partitioned_def)
  from alloc_first_fit [OF g assms(2)] show ?thesis by (metis gr0I less_numeral_extra(3))
qed

theorem contiguous_alloc_exact_witness:
  "\<exists>start pool'. contiguous_alloc 100 (contiguous_new POOL_TOKENS) = Some (start, pool') \<and>
    (\<forall>x. start \<le> x \<and> x < start + 100 \<longrightarrow> 0 < owners x (ct_free (contiguous_new POOL_TOKENS)))"
proof -
  have "contiguous_alloc 100 (contiguous_new POOL_TOKENS) = Some (0, \<lparr>ct_free = [(100, 8092)]\<rparr>)" by code_simp
  with contiguous_alloc_exact [OF partitioned_new, of 100] show ?thesis by auto
qed

end
