(* ===== verification/Spec2Isabelle.thy ===== *)
theory Spec2Isabelle
  imports Pool_Props Table_Props Sched_Props Cuda_Attention Sim_Props Api Failed_Step Serve Baseline
begin

text \<open>
  A verification development for paged-kv-cache, a paged K/V cache for transformer inference in
  Rust: a pool of fixed-size blocks with reference counts, block tables that map a sequence's
  positions to slots, copy-on-write, prefix caching, a continuous-batching scheduler, storage on
  the host and on a CUDA device, and what is built on it: a paged Qwen2 forward pass, a greedy
  generation engine, an HTTP server, Python bindings and a dashboard that drives the scheduler.

  \<^bold>\<open>How the code is read.\<close> Every component is a theory of definitions translated from its source
  file, function by function, in the order of the file, followed by (or imported by) its lemmas.
  \<^item> A fallible function on mutable state returns \<open>res\<close> (theory \<open>Prelude\<close>): \<open>Ok\<close> and \<open>Err\<close> both carry
  the state left behind, \<open>Panic\<close> is a panic. A function that may only panic returns an option.
  \<^item> Block ids, sequence ids and tokens are words. Reference counts are 16-bit words. \<open>usize\<close> is
  \<open>nat\<close>, with the release profile's wrap-around written out (\<open>usize_add\<close>, \<open>usize_sub\<close>,
  \<open>usize_mul\<close>) wherever a caller's number could reach it.
  \<^item> Hash maps are association lists; where their order could matter it does not reach a result.
  \<^item> Floats are an arbitrary type with a record of operations (\<open>arith\<close>, in the order the code
  applies them), so nothing assumes that addition is associative.
  \<^item> A loop is a recursion on its list; where the code loops until a condition holds, the fuel is
  a length that each pass shortens (\<open>admit_loop\<close>: the queue; \<open>decode_one\<close>: the running sequences;
  \<open>retire_loop\<close>: the running sequences). Running out of it would be \<open>Panic\<close> in \<open>decode_one\<close>, which
  \<open>step_never_fails\<close> excludes; the other two have always stopped by then (\<open>admit_loop_fuel\<close>; every
  pass of \<open>retire_loop\<close> deals with one of the running sequences it is given). The loop of the Python \<open>generate\<close> is a partial function, and
  \<open>generate_is_greedy\<close> proves that it returns.

  \<^bold>\<open>The cache\<close> (\<open>crates/paged-kv-core\<close>).
  \<^item> \<open>Types\<close>: \<open>types.rs\<close>, \<open>error.rs\<close>. \<open>Config\<close>: \<open>config.rs\<close>.
  \<^item> \<open>Lru_List\<close>: \<open>lru.rs\<close>, an index-linked list, refined to a plain list (\<open>lru_matches_list_model\<close>)
  through the locale of an eviction queue.
  \<^item> \<open>Prefix_Index\<close>: \<open>prefix_cache.rs\<close>, the map from a parent entry and a chunk of tokens to a block,
  with the locale of a content index. A ghost map \<open>E\<close> gives every entry the tokens from the start
  of the prompt that it stands for.
  \<^item> \<open>Allocator\<close>, \<open>Pool\<close>, \<open>Prefix_Match\<close>, \<open>Pool_Props\<close>: \<open>allocator.rs\<close>. \<open>alloc_inv\<close> says that free,
  evictable and owned blocks part the pool; every operation keeps it and refines a pool of counts
  (\<open>pool_refines_counts\<close>); matching returns the longest registered prefix.
  \<^item> \<open>Block_Table\<close>, \<open>Table_Props\<close>: \<open>block_table.rs\<close>: exact block accounting, all-or-nothing growth,
  injective resolution, the copy-on-write record, and that \<open>check_ownership\<close> is exact.
  \<^item> \<open>Scheduler\<close> (the code of \<open>scheduler.rs\<close>), \<open>Sched_Admit\<close>, \<open>Sched_Decode\<close>, \<open>Sched_Step\<close>, \<open>Sched_Run\<close>,
  \<open>Sched_Props\<close>. The reachable states are \<open>sched_reach\<close>; their invariant is \<open>sched_inv E\<close>: the tables
  own exactly the counted references, a cached block of a running prompt holds that prompt's
  tokens, and ids are distinct. One lemma per phase gives its effect (\<open>started\<close>, \<open>advanced\<close>,
  \<open>restored\<close>), and \<open>stepped\<close> composes them.
  \<^item> \<open>Backend\<close>, \<open>Cpu\<close>, \<open>Attention\<close>, \<open>Kv_Contexts\<close>, \<open>Kv_Props\<close>: \<open>backend.rs\<close> and \<open>cpu.rs\<close>. The locale
  \<open>kv_store\<close> states what a backend owes (read after write, frame, copies); tables over a store are
  proved inside it once, and it is interpreted on both backends.

  \<^bold>\<open>The device\<close> (\<open>crates/paged-kv-cuda\<close>).
  \<^item> \<open>Cuda\<close>, \<open>Cuda_Props\<close>: the host code and the kernels for writes and copies. A launch runs its
  element steps in an arbitrary order; valid batches are shown to give the host backend's planes
  in every order, and the two places where the backends differ are exhibited.
  \<^item> \<open>Thread_Block\<close>, \<open>Cuda_Attention\<close>: \<open>paged_attention\<close> and its kernel, 128 threads per row and head
  that run in an arbitrary order between two barriers and reduce in a tree. The device has float
  operations of its own, none of which is assumed to be associative: in every order it computes one
  and the same attention, over exactly the contexts the host backend attends to, in which a tree
  takes in every position once (\<open>combines\<close>).
  \<^item> The driver is a parameter: which calls fail, and every order.

  \<^bold>\<open>The model and the engine\<close> (\<open>crates/paged-kv-model\<close>).
  \<^item> \<open>Model\<close>: \<open>model.rs\<close>. The layers of the tensor library are fields of the model, functions on one
  row: what is used of the library is that its operations act row by row. \<open>model_ok\<close> states the
  shapes they return.
  \<^item> \<open>Reference\<close>: the specification, a transformer over one whole token list and greedy decoding.
  \<^item> \<open>Batch\<close>: the batched, paged pass computes the reference (\<open>forward_ok\<close>).
  \<^item> \<open>Sched_Fed\<close>, \<open>Engine_Feed\<close>: which blocks a step lets each sequence write, and that the batch a
  step makes finds every earlier position in the store or written by the same batch.
  \<^item> \<open>Engine\<close> (the code of \<open>engine.rs\<close>), \<open>Engine_Inv\<close>, \<open>Engine_Step\<close>, \<open>Engine_Run\<close>. \<open>engine_inv\<close> ties
  requests, scheduler and store together: the store holds the reference's K/V for every running
  sequence and every cached block, and what is generated is a prefix of the greedy decoding. It
  is kept by adding, cancelling and stepping (\<open>engine_reach\<close>).
  \<^item> \<open>Bindings\<close>, \<open>Generate\<close>: \<open>crates/paged-kv-py\<close>, and the properties of the engine up to \<open>generate\<close>.

  \<^bold>\<open>Serving\<close> (\<open>crates/paged-kv-serve\<close>). \<open>Worker\<close>: \<open>worker.rs\<close> and the counters of \<open>metrics.rs\<close>.
  \<open>Api\<close>: \<open>api.rs\<close> and \<open>text.rs\<close>. \<open>Serve\<close>: what the thread sends each client, over any arrivals and
  departures, and what a wrapped limit does. \<open>Failed_Step\<close> (with \<open>Sched_Fresh\<close>, the first step of a
  scheduler): what a failed step leaves in the prefix cache.

  \<^bold>\<open>The dashboard\<close> (\<open>crates/paged-kv-server\<close>). \<open>Protocol\<close>, \<open>Sim\<close>, \<open>Sim_Inv\<close>, \<open>Sim_Props\<close>: \<open>protocol.rs\<close>,
  \<open>sim.rs\<close>, \<open>ws.rs\<close>. A session is driven by an arbitrary list of wake-ups; the random number
  generator is a parameter whose ranges are assumed.

  \<^bold>\<open>The comparison\<close> (\<open>crates/paged-kv-core/examples/contiguous_baseline.rs\<close>). \<open>Contiguous_Pool\<close>: first-fit
  ranges, whose merging makes an allocation fail only when no free stretch is long enough.
  \<open>Baseline\<close>: the two runs of one request stream, which cannot panic.

  \<^bold>\<open>Bounds.\<close> \<open>geometry_ok\<close>: fewer than \<open>2 ^ 32\<close> blocks, a positive block size, a pool of fewer than
  \<open>2 ^ 64 - 1\<close> slots, at most 65535 sequences in a batch (a block's count is 16 bits wide). Requests are
  bounded where they enter, since \<open>enqueue\<close> adds without a check; what happens beyond is a theorem
  of its own (\<open>overflowing_request_breaks_step\<close>).

  \<^bold>\<open>Not modelled.\<close> The float \<open>utilization\<close> figures and printed debug forms; bounds on
  what rounding makes of the two backends' attention; steps of one thread interleaved with another's between two
  barriers; loading checkpoints, weights and configurations (\<open>model.rs\<close> constructors, \<open>checkpoint.rs\<close>, the start-up of the two
  \<open>main.rs\<close>), which is file access and calls into libraries; routing and the text form of JSON and
  metrics, which libraries generate; durations; errors of the device that only a later call reports; the other examples, benchmarks, tests and the web client.
\<close>

end
